(* ===== verification/Prelude.thy ===== *)
theory Prelude
  imports Main "HOL-Library.Word"
begin

text \<open>
  Shared vocabulary of the development: the machine integer types of the C sources, the
  outcome of a kernel operation (it returns, it panics, or it has to wait for another
  process), little-endian encodings, generic lemmas on lists and updates, and the locale of
  transition systems with an invariant.
\<close>

unbundle bit_operations_syntax

named_theorems outcome_simps \<open>evaluation of outcomes\<close>

subsection \<open>Machine types\<close>

text \<open>\<^verbatim>\<open>uchar\<close>, \<^verbatim>\<open>ushort\<close> and \<^verbatim>\<open>uint\<close> of \<^verbatim>\<open>xv6-public/types.h\<close>.\<close>

type_synonym uchar = "8 word"
type_synonym ushort = "16 word"
type_synonym uint = "32 word"

subsection \<open>Outcomes\<close>

text \<open>
  A kernel operation either returns a value, calls \<^verbatim>\<open>panic\<close> with a message, or cannot go on
  before another process or processor acts: it sleeps on a channel or spins on a lock.
  The string of \<open>Wait\<close> names what is waited for.
\<close>

datatype 'a outcome = Ret 'a | Panic string | Wait string

definition obind :: "'a outcome \<Rightarrow> ('a \<Rightarrow> 'b outcome) \<Rightarrow> 'b outcome" where
  "obind m f = (case m of Ret a \<Rightarrow> f a | Panic e \<Rightarrow> Panic e | Wait c \<Rightarrow> Wait c)"

lemma obind_simps [simp, outcome_simps]:
  "obind (Ret a) f = f a"
  "obind (Panic e) f = Panic e"
  "obind (Wait c) f = Wait c"
  by (simp_all add: obind_def)

lemma obind_Ret_right [simp]: "obind m Ret = m"
  by (cases m) simp_all

lemma obind_assoc: "obind (obind m f) g = obind m (\<lambda>a. obind (f a) g)"
  by (cases m) simp_all

lemma obind_eq_Ret_iff: "obind m f = Ret b \<longleftrightarrow> (\<exists>a. m = Ret a \<and> f a = Ret b)"
  by (cases m) simp_all

lemma obind_RetE [elim!]:
  assumes "obind m f = Ret b"
  obtains a where "m = Ret a" "f a = Ret b"
  using assms by (auto simp: obind_eq_Ret_iff)

lemma obind_cong [fundef_cong]:
  "m = m' \<Longrightarrow> (\<And>a. m' = Ret a \<Longrightarrow> f a = f' a) \<Longrightarrow> obind m f = obind m' f'"
  by (cases m') simp_all

subsection \<open>Transition systems\<close>

text \<open>
  The states reachable from an initial state by steps, and the interface of a system with an
  inductive invariant. Every concurrent protocol of the development is an instance.
\<close>

inductive reachable :: "('s \<Rightarrow> bool) \<Rightarrow> ('s \<Rightarrow> 's \<Rightarrow> bool) \<Rightarrow> 's \<Rightarrow> bool"
  for init :: "'s \<Rightarrow> bool" and step :: "'s \<Rightarrow> 's \<Rightarrow> bool" where
  reachable_init: "init s \<Longrightarrow> reachable init step s"
| reachable_step: "reachable init step s \<Longrightarrow> step s t \<Longrightarrow> reachable init step t"

locale invariant_system =
  fixes init :: "'s \<Rightarrow> bool" and step :: "'s \<Rightarrow> 's \<Rightarrow> bool" and invar :: "'s \<Rightarrow> bool"
  assumes invar_init: "init s \<Longrightarrow> invar s"
    and invar_step: "invar s \<Longrightarrow> step s t \<Longrightarrow> invar t"
begin

lemma reachable_invar: "reachable init step s \<Longrightarrow> invar s"
  by (induction rule: reachable.induct) (auto intro: invar_init invar_step)

end

lemma obind_if: "obind (if c then m else n) f = (if c then obind m f else obind n f)"
  by simp

subsection \<open>Lists\<close>

lemma find_SomeD: "List.find P xs = Some x \<Longrightarrow> x \<in> set xs \<and> P x"
  by (auto simp: find_Some_iff)

lemma find_unique:
  assumes "x \<in> set xs" and "P x" and "\<And>y. y \<in> set xs \<Longrightarrow> P y \<Longrightarrow> y = x"
  shows "List.find P xs = Some x"
proof (cases "List.find P xs")
  case None
  with assms(1,2) show ?thesis by (auto simp: find_None_iff)
next
  case (Some y)
  with assms(3) show ?thesis by (auto dest: find_SomeD)
qed

subsection \<open>Words\<close>

lemma unat_of_nat_uint: "n < 2 ^ 32 \<Longrightarrow> unat (of_nat n :: uint) = n"
  by (simp add: unsigned_of_nat take_bit_nat_eq_self)

lemma sint_of_int_uint: "- (2 ^ 31) \<le> n \<Longrightarrow> n < 2 ^ 31 \<Longrightarrow> sint (of_int n :: uint) = n"
  by (simp add: signed_of_int signed_take_bit_int_eq_self)

text \<open>
  The value of an \<^verbatim>\<open>int\<close> after arithmetic that may overflow: the sum or product is cut to 32 bits and
  read in two's complement.
\<close>

definition int32 :: "int \<Rightarrow> int" where
  "int32 i = signed_take_bit 31 i"

lemma int32_id: "- (2 ^ 31) \<le> i \<Longrightarrow> i < 2 ^ 31 \<Longrightarrow> int32 i = i"
  by (simp add: int32_def signed_take_bit_int_eq_self)

lemma int32_add: "int32 (int32 a + b) = int32 (a + b)"
  unfolding int32_def by (metis signed_take_bit_add signed_take_bit_signed_take_bit min.idem)

lemma int32_next: "int32 (i + 1) \<noteq> i"
proof
  assume "int32 (i + 1) = i"
  then have "take_bit 32 (signed_take_bit 31 (i + 1)) = take_bit 32 i" by (simp add: int32_def)
  moreover have "take_bit 32 (signed_take_bit 31 (i + 1)) = take_bit 32 (i + 1)"
    by (rule take_bit_signed_take_bit) simp
  ultimately have "(i + 1) mod 2 ^ 32 = i mod 2 ^ 32" by (simp add: take_bit_eq_mod)
  then have "(2 :: int) ^ 32 dvd 1" unfolding mod_eq_dvd_iff by simp
  then show False by simp
qed

end
