(* ===== verification/Dll.thy ===== *)
theory Dll
  imports Prelude
begin

text \<open>
  Doubly linked lists in a store of nodes, as the buffer cache (\<^verbatim>\<open>xv6-public/bio.c\<close>, a ring
  through one sentinel) and the caches of the key-value server
  (\<^verbatim>\<open>KVS/greeter_async_server.cc\<close>, a chain between the sentinels \<^verbatim>\<open>head\<close> and \<^verbatim>\<open>tail\<close>) use
  them. A ring is a chain whose two sentinels coincide, so one representation predicate
  serves both. The lemmas show that the pointer updates insert at the front and remove a
  node of the represented list, and that a scan along the pointers is a search in it.
\<close>

subsection \<open>The store of links\<close>

record 'a dll =
  nxt :: "'a \<Rightarrow> 'a"
  prv :: "'a \<Rightarrow> 'a"

text \<open>Insert the node \<open>n\<close> after the sentinel \<open>h\<close>.\<close>

definition add_front :: "'a \<Rightarrow> 'a \<Rightarrow> 'a dll \<Rightarrow> 'a dll" where
  "add_front h n d =
     (let temp = nxt d h;
          d1 = d\<lparr>nxt := (nxt d)(n := temp)\<rparr>;
          d2 = d1\<lparr>prv := (prv d1)(n := h)\<rparr>;
          d3 = d2\<lparr>nxt := (nxt d2)(h := n)\<rparr>
      in d3\<lparr>prv := (prv d3)(temp := n)\<rparr>)"

text \<open>Unlink the node \<open>n\<close>: its neighbours are linked with each other.\<close>

definition unlink_node :: "'a \<Rightarrow> 'a dll \<Rightarrow> 'a dll" where
  "unlink_node n d =
     (let delprev = prv d n;
          delnext = nxt d n;
          d1 = d\<lparr>nxt := (nxt d)(delprev := delnext)\<rparr>
      in d1\<lparr>prv := (prv d1)(delnext := delprev)\<rparr>)"

text \<open>
  A scan along a link field from a node until a stop node or a node that satisfies a
  predicate; the fuel bounds the number of nodes looked at, and \<open>None\<close> is a scan that did
  not end within it.
\<close>

fun scan :: "('a \<Rightarrow> 'a) \<Rightarrow> ('a \<Rightarrow> bool) \<Rightarrow> 'a \<Rightarrow> nat \<Rightarrow> 'a \<Rightarrow> 'a option option" where
  "scan step P stop 0 b = None"
| "scan step P stop (Suc fuel) b =
     (if b = stop then Some None
      else if P b then Some (Some b)
      else scan step P stop fuel (step b))"

subsection \<open>The represented list\<close>

fun dseg :: "'a dll \<Rightarrow> 'a \<Rightarrow> 'a list \<Rightarrow> 'a \<Rightarrow> bool" where
  "dseg d h [] t = (nxt d h = t \<and> prv d t = h)"
| "dseg d h (x # xs) t = (nxt d h = x \<and> prv d x = h \<and> dseg d x xs t)"

definition dlist :: "'a dll \<Rightarrow> 'a \<Rightarrow> 'a list \<Rightarrow> 'a \<Rightarrow> bool" where
  "dlist d h xs t \<longleftrightarrow> dseg d h xs t \<and> distinct xs \<and> h \<notin> set xs \<and> t \<notin> set xs"

lemma dseg_append: "dseg d h (xs @ y # ys) t \<longleftrightarrow> dseg d h xs y \<and> dseg d y ys t"
  by (induction xs arbitrary: h) auto

lemma dseg_frame:
  "(\<And>a. a \<in> set (h # xs) \<Longrightarrow> nxt d' a = nxt d a) \<Longrightarrow>
   (\<And>a. a \<in> set (xs @ [t]) \<Longrightarrow> prv d' a = prv d a) \<Longrightarrow>
   dseg d' h xs t = dseg d h xs t"
  by (induction xs arbitrary: h) auto

lemma dseg_first: "dseg d h xs t \<Longrightarrow> nxt d h = hd (xs @ [t])"
  by (cases xs) auto

lemma dseg_last: "dseg d h xs t \<Longrightarrow> prv d t = last (h # xs)"
  by (induction xs arbitrary: h) auto

lemma dseg_unique: "dseg d h xs t \<Longrightarrow> dseg d h ys t \<Longrightarrow> t \<notin> set xs \<Longrightarrow> t \<notin> set ys \<Longrightarrow> xs = ys"
proof (induction xs arbitrary: h ys)
  case Nil
  then show ?case by (cases ys) auto
next
  case (Cons x xs)
  then show ?case by (cases ys) auto
qed

lemma dlist_first: "dlist d h xs t \<Longrightarrow> nxt d h = hd (xs @ [t])"
  by (auto simp: dlist_def dest: dseg_first)

lemma dlist_last: "dlist d h xs t \<Longrightarrow> prv d t = last (h # xs)"
  by (auto simp: dlist_def dest: dseg_last)

subsection \<open>Insertion and removal\<close>

lemma dlist_add_front:
  assumes "dlist d h xs t" and "n \<notin> set xs" and "n \<noteq> h" and "n \<noteq> t"
  shows "dlist (add_front h n d) h (n # xs) t"
proof (cases xs)
  case Nil
  with assms show ?thesis by (auto simp: dlist_def add_front_def Let_def)
next
  case (Cons x ys)
  let ?d = "add_front h n d"
  have first: "nxt d h = x" and seg: "dseg d x ys t"
    using assms(1) Cons by (auto simp: dlist_def)
  have "dseg ?d x ys t = dseg d x ys t"
    by (rule dseg_frame) (use assms Cons first in \<open>auto simp: dlist_def add_front_def Let_def\<close>)
  with seg show ?thesis
    using assms Cons first by (auto simp: dlist_def add_front_def Let_def)
qed

lemma dseg_snoc: "dseg d h (xs @ [x]) t \<longleftrightarrow> dseg d h xs x \<and> nxt d x = t \<and> prv d t = x"
  using dseg_append [of d h xs x "[]" t] by simp

lemma dseg_relink_left:
  assumes "dseg d h xs n" and "distinct xs" and "h \<notin> set xs"
    and "nxt d' = (nxt d)(last (h # xs) := m)" and "prv d' m = last (h # xs)"
    and "\<And>a. a \<in> set xs \<Longrightarrow> prv d' a = prv d a"
  shows "dseg d' h xs m"
proof (cases xs rule: rev_cases)
  case Nil
  with assms show ?thesis by simp
next
  case (snoc us u)
  have u: "dseg d h us u" using assms(1) snoc by (simp add: dseg_snoc)
  have "dseg d' h us u = dseg d h us u"
    by (rule dseg_frame) (use assms snoc in auto)
  with u show ?thesis using assms(4,5) snoc by (simp add: dseg_snoc)
qed

lemma dlist_unlink_node:
  assumes "dlist d h (xs @ n # ys) t"
  shows "dlist (unlink_node n d) h (xs @ ys) t"
proof -
  let ?d = "unlink_node n d"
  have left: "dseg d h xs n" and right: "dseg d n ys t"
    using assms by (auto simp: dlist_def dseg_append)
  have p: "prv d n = last (h # xs)" using left by (rule dseg_last)
  have m: "nxt d n = hd (ys @ [t])" using right by (rule dseg_first)
  have nx: "nxt ?d = (nxt d)(last (h # xs) := hd (ys @ [t]))"
    and pv: "prv ?d = (prv d)(hd (ys @ [t]) := last (h # xs))"
    by (simp_all only: unlink_node_def Let_def p m) simp_all
  have new_left: "dseg ?d h xs (hd (ys @ [t]))"
  proof (rule dseg_relink_left [OF left _ _ nx])
    show "distinct xs" "h \<notin> set xs" using assms by (auto simp: dlist_def)
    show "prv ?d (hd (ys @ [t])) = last (h # xs)" by (simp add: pv)
    show "prv ?d a = prv d a" if "a \<in> set xs" for a
      using that assms by (cases ys) (auto simp: pv dlist_def)
  qed
  have "dseg ?d h (xs @ ys) t"
  proof (cases ys)
    case Nil
    then show ?thesis using new_left by simp
  next
    case (Cons y zs)
    have "dseg d y zs t" using right Cons by simp
    moreover have "dseg ?d y zs t = dseg d y zs t"
    proof (rule dseg_frame)
      have "last (h # xs) \<in> insert h (set xs)" by (induction xs) auto
      then show "nxt ?d a = nxt d a" if "a \<in> set (y # zs)" for a
        using that assms Cons by (auto simp: nx dlist_def)
      show "prv ?d a = prv d a" if "a \<in> set (zs @ [t])" for a
        using that assms Cons by (auto simp: pv dlist_def)
    qed
    ultimately show ?thesis using new_left Cons by (simp add: dseg_append)
  qed
  then show ?thesis using assms by (auto simp: dlist_def)
qed

lemma dlist_unlink_member:
  assumes "dlist d h xs t" and "n \<in> set xs"
  shows "dlist (unlink_node n d) h (removeAll n xs) t"
proof -
  obtain ys zs where xs: "xs = ys @ n # zs" using assms(2) by (auto simp: in_set_conv_decomp)
  with assms(1) have "n \<notin> set ys" "n \<notin> set zs" by (auto simp: dlist_def)
  with xs have "removeAll n xs = ys @ zs" by simp
  with dlist_unlink_node [of d h ys n zs t] assms(1) xs show ?thesis by simp
qed

lemma dlist_move_front:
  assumes "dlist d h xs t" and "n \<in> set xs"
  shows "dlist (add_front h n (unlink_node n d)) h (n # removeAll n xs) t"
  by (rule dlist_add_front [OF dlist_unlink_member [OF assms]])
     (use assms in \<open>auto simp: dlist_def\<close>)

subsection \<open>Scans\<close>

lemma scan_nxt:
  "dseg d h xs t \<Longrightarrow> t \<notin> set xs \<Longrightarrow> length xs < fuel \<Longrightarrow>
   scan (nxt d) P t fuel (nxt d h) = Some (List.find P xs)"
proof (induction xs arbitrary: h fuel)
  case Nil
  then show ?case by (cases fuel) auto
next
  case (Cons x xs)
  then show ?case by (cases fuel) auto
qed

lemma scan_prv:
  "dseg d h xs t \<Longrightarrow> h \<notin> set xs \<Longrightarrow> length xs < fuel \<Longrightarrow>
   scan (prv d) P h fuel (prv d t) = Some (List.find P (rev xs))"
proof (induction xs arbitrary: t fuel rule: rev_induct)
  case Nil
  then show ?case by (cases fuel) auto
next
  case (snoc x xs)
  then show ?case by (cases fuel) (auto simp: dseg_snoc)
qed

lemma dlist_scan_nxt:
  "dlist d h xs t \<Longrightarrow> length xs < fuel \<Longrightarrow>
   scan (nxt d) P t fuel (nxt d h) = Some (List.find P xs)"
  by (simp add: dlist_def scan_nxt)

lemma dlist_scan_prv:
  "dlist d h xs t \<Longrightarrow> length xs < fuel \<Longrightarrow>
   scan (prv d) P h fuel (prv d t) = Some (List.find P (rev xs))"
  by (simp add: dlist_def scan_prv)

end
