(* ===== verification/Machine.thy ===== *)
theory Machine
  imports Prelude
begin

text \<open>
  The part of the kernel state every component sees: the processor that runs, the spin locks
  by their address, and the process table with \<^verbatim>\<open>struct proc\<close> of \<^verbatim>\<open>xv6-public/proc.h\<close>.
  The components of the kernel extend the record \<open>mach\<close> with their own state. Pointers to
  array elements (processes, files, inodes, buffers) are indices, a null pointer is \<open>None\<close>.
\<close>

subsection \<open>Parameters\<close>

text \<open>\<^verbatim>\<open>xv6-public/param.h\<close>; \<^verbatim>\<open>LOGSIZE\<close> and \<^verbatim>\<open>NBUF\<close> are \<^verbatim>\<open>MAXOPBLOCKS*3\<close> there.\<close>

abbreviation NPROC :: nat where "NPROC \<equiv> 64"
abbreviation KSTACKSIZE :: nat where "KSTACKSIZE \<equiv> 4096"
abbreviation NCPU :: nat where "NCPU \<equiv> 8"
abbreviation NOFILE :: nat where "NOFILE \<equiv> 16"
abbreviation NFILE :: nat where "NFILE \<equiv> 100"
abbreviation NINODE :: nat where "NINODE \<equiv> 50"
abbreviation NDEV :: nat where "NDEV \<equiv> 10"
abbreviation ROOTDEV :: nat where "ROOTDEV \<equiv> 1"
abbreviation MAXOPBLOCKS :: nat where "MAXOPBLOCKS \<equiv> 10"
abbreviation LOGSIZE :: nat where "LOGSIZE \<equiv> 30"
abbreviation NBUF :: nat where "NBUF \<equiv> 30"
abbreviation FSSIZE :: nat where "FSSIZE \<equiv> 1000"
abbreviation BSIZE :: nat where "BSIZE \<equiv> 512"

subsection \<open>Addresses of locks and sleep channels\<close>

datatype sleepid = SBuf nat | SInode nat

datatype lockid =
    LBcache | LLog | LIcache | LFtable | LPtable | LKmem | LCons | LTicks | LIde
  | LPipe nat | LSleep sleepid

datatype chan =
    ChSleep sleepid | ChLog | ChTicks | ChProc nat | ChPipeRead nat | ChPipeWrite nat
  | ChInput | ChBuf nat

record spinlock =
  locked :: bool
  lk_cpu :: "nat option"

definition unlocked :: spinlock where
  "unlocked = \<lparr>locked = False, lk_cpu = None\<rparr>"

subsection \<open>Processes\<close>

datatype procstate = UNUSED | EMBRYO | SLEEPING | RUNNABLE | RUNNING | ZOMBIE

text \<open>\<^verbatim>\<open>struct rtcdate\<close> of \<^verbatim>\<open>date.h\<close>.\<close>

record rtcdate =
  second :: uint
  minute :: uint
  hour :: uint
  day :: uint
  month :: uint
  year :: uint

text \<open>
  The fields of \<^verbatim>\<open>struct trapframe\<close> (\<^verbatim>\<open>x86.h\<close>) that the kernel's C code reads or writes.
\<close>

record trapframe =
  eax :: uint
  trapno :: uint
  tferr :: uint
  eip :: uint
  tfcs :: ushort
  tfds :: ushort
  tfes :: ushort
  tfss :: ushort
  eflags :: uint
  esp :: uint

text \<open>\<^verbatim>\<open>struct proc\<close> of \<^verbatim>\<open>proc.h\<close>; the saved kernel context is its entry point.\<close>

record proc =
  p_sz :: uint
  p_pgdir :: uint
  p_kstack :: uint
  p_state :: procstate
  p_pid :: int
  p_parent :: "nat option"
  p_tf :: trapframe
  p_context_eip :: uint
  p_chan :: "chan option"
  p_killed :: bool
  p_ofile :: "nat option list"
  p_cwd :: "nat option"
  p_name :: string
  p_heapSize :: int
  p_created :: rtcdate
  p_switchedOut :: rtcdate
  p_switchedIn :: rtcdate
  p_exitstatus :: int

text \<open>Static data of the kernel starts out zeroed.\<close>

definition zero_date :: rtcdate where
  "zero_date = \<lparr>second = 0, minute = 0, hour = 0, day = 0, month = 0, year = 0\<rparr>"

definition zero_tf :: trapframe where
  "zero_tf = \<lparr>eax = 0, trapno = 0, tferr = 0, eip = 0, tfcs = 0, tfds = 0, tfes = 0, tfss = 0,
     eflags = 0, esp = 0\<rparr>"

definition zero_proc :: proc where
  "zero_proc = \<lparr>p_sz = 0, p_pgdir = 0, p_kstack = 0, p_state = UNUSED, p_pid = 0, p_parent = None,
     p_tf = zero_tf, p_context_eip = 0, p_chan = None, p_killed = False,
     p_ofile = replicate NOFILE None, p_cwd = None, p_name = [], p_heapSize = 0,
     p_created = zero_date, p_switchedOut = zero_date, p_switchedIn = zero_date,
     p_exitstatus = 0\<rparr>"

subsection \<open>The machine\<close>

text \<open>
  \<open>cpu_id\<close> is the index of the running processor in \<^verbatim>\<open>cpus\<close>; \<open>iflag\<close> is its interrupt
  enable flag, \<open>ncli\<close> and \<open>intena\<close> are the fields of its \<^verbatim>\<open>struct cpu\<close>, \<open>cur\<close> is its
  \<^verbatim>\<open>c->proc\<close>. \<open>kmemory\<close> is the memory as the kernel addresses it, \<open>freelist\<close> and \<open>use_lock\<close> are
  the fields of \<^verbatim>\<open>kmem\<close> in \<^verbatim>\<open>kalloc.c\<close>.
\<close>

record mach =
  cpu_id :: nat
  iflag :: bool
  ncli :: int
  intena :: bool
  cur :: "nat option"
  locks :: "lockid \<Rightarrow> spinlock"
  procs :: "proc list"
  nextpid :: int
  initproc :: "nat option"
  kmemory :: "uint \<Rightarrow> uchar"
  freelist :: uint
  use_lock :: bool

text \<open>
  \<^verbatim>\<open>myproc()\<close>; a null process that is dereferenced faults, and the trap handler panics. Its
  \<^verbatim>\<open>pushcli\<close> and \<^verbatim>\<open>popcli\<close> cancel out and are left out.
\<close>

definition myproc :: "'a mach_scheme \<Rightarrow> nat outcome" where
  "myproc s = (case cur s of None \<Rightarrow> Panic ''trap'' | Some p \<Rightarrow> Ret p)"

definition mypid :: "'a mach_scheme \<Rightarrow> int outcome" where
  "mypid s = obind (myproc s) (\<lambda>p. Ret (p_pid (procs s ! p)))"

end
