(* ===== verification/Spinlock.thy ===== *)
theory Spinlock
  imports Machine
begin

text \<open>
  Spin locks (\<^verbatim>\<open>xv6-public/spinlock.c\<close>). The operations run on the kernel state of one
  processor; where \<^verbatim>\<open>acquire\<close> would spin because another processor holds the lock, the
  outcome is \<open>Wait\<close>. A second model interleaves the instructions of \<^verbatim>\<open>acquire\<close> and
  \<^verbatim>\<open>release\<close> on any number of processors; mutual exclusion is proved there.
\<close>

subsection \<open>Nested interrupt disabling\<close>

definition pushcli :: "'a mach_scheme \<Rightarrow> 'a mach_scheme" where
  "pushcli s =
     (let fl = iflag s;
          s1 = s\<lparr>iflag := False\<rparr>;
          s2 = (if ncli s1 = 0 then s1\<lparr>intena := fl\<rparr> else s1)
      in s2\<lparr>ncli := ncli s2 + 1\<rparr>)"

definition popcli :: "'a mach_scheme \<Rightarrow> 'a mach_scheme outcome" where
  "popcli s =
     (if iflag s then Panic ''popcli - interruptible''
      else let s1 = s\<lparr>ncli := ncli s - 1\<rparr>
           in if ncli s1 < 0 then Panic ''popcli''
              else Ret (if ncli s1 = 0 \<and> intena s1 then s1\<lparr>iflag := True\<rparr> else s1))"

subsection \<open>Locks\<close>

definition initlock :: "lockid \<Rightarrow> 'a mach_scheme \<Rightarrow> 'a mach_scheme" where
  "initlock l s = s\<lparr>locks := (locks s)(l := \<lparr>locked = False, lk_cpu = None\<rparr>)\<rparr>"

definition holding :: "lockid \<Rightarrow> 'a mach_scheme \<Rightarrow> (bool \<times> 'a mach_scheme) outcome" where
  "holding l s =
     (let s1 = pushcli s;
          r = (locked (locks s1 l) \<and> lk_cpu (locks s1 l) = Some (cpu_id s1))
      in obind (popcli s1) (\<lambda>s2. Ret (r, s2)))"

definition acquire :: "lockid \<Rightarrow> 'a mach_scheme \<Rightarrow> 'a mach_scheme outcome" where
  "acquire l s =
     obind (holding l (pushcli s)) (\<lambda>(r, s1).
       if r then Panic ''acquire''
       else if locked (locks s1 l) then Wait ''spin''
       else let s2 = s1\<lparr>locks := (locks s1)(l := (locks s1 l)\<lparr>locked := True\<rparr>)\<rparr>
            in Ret (s2\<lparr>locks := (locks s2)(l := (locks s2 l)\<lparr>lk_cpu := Some (cpu_id s2)\<rparr>)\<rparr>))"

definition release :: "lockid \<Rightarrow> 'a mach_scheme \<Rightarrow> 'a mach_scheme outcome" where
  "release l s =
     obind (holding l s) (\<lambda>(r, s1).
       if \<not> r then Panic ''release''
       else let s2 = s1\<lparr>locks := (locks s1)(l := (locks s1 l)\<lparr>lk_cpu := None\<rparr>)\<rparr>;
                s3 = s2\<lparr>locks := (locks s2)(l := (locks s2 l)\<lparr>locked := False\<rparr>)\<rparr>
            in popcli s3)"

text \<open>
  \<^verbatim>\<open>getcallerpcs\<close>: the saved return addresses along the chain of frame pointers. \<open>mem\<close> reads a
  word of kernel memory; the kernel starts at \<^verbatim>\<open>KERNBASE\<close>.
\<close>

abbreviation KERNBASE :: uint where "KERNBASE \<equiv> 0x80000000"

fun callerpcs :: "(uint \<Rightarrow> uint) \<Rightarrow> nat \<Rightarrow> uint \<Rightarrow> uint list" where
  "callerpcs mem 0 ebp = []"
| "callerpcs mem (Suc k) ebp =
     (if ebp = 0 \<or> ebp < KERNBASE \<or> ebp = 0xffffffff then replicate (Suc k) 0
      else mem (ebp + 4) # callerpcs mem k (mem ebp))"

definition getcallerpcs :: "(uint \<Rightarrow> uint) \<Rightarrow> uint \<Rightarrow> uint list" where
  "getcallerpcs mem v = callerpcs mem 10 (v - 8)"

subsection \<open>Sequential contract\<close>

text \<open>
  The interrupt state a processor is in between critical sections: with no lock held,
  \<open>intena\<close> is what the last \<^verbatim>\<open>pushcli\<close> saved, and with a lock held interrupts are off.
\<close>

definition cli_ok :: "'a mach_scheme \<Rightarrow> bool" where
  "cli_ok s \<longleftrightarrow> 0 \<le> ncli s \<and> (if ncli s = 0 then intena s = iflag s else \<not> iflag s)"

definition held_lock :: "'a mach_scheme \<Rightarrow> spinlock" where
  "held_lock s = \<lparr>locked = True, lk_cpu = Some (cpu_id s)\<rparr>"

lemma pushcli_cli_ok:
  "cli_ok s \<Longrightarrow> pushcli s = s\<lparr>iflag := False, ncli := ncli s + 1\<rparr>"
  by (simp add: pushcli_def cli_ok_def Let_def split: if_splits)

lemma popcli_nested:
  "\<not> iflag s \<Longrightarrow> 1 \<le> ncli s \<Longrightarrow>
   popcli s = Ret (s\<lparr>ncli := ncli s - 1, iflag := (ncli s = 1 \<and> intena s)\<rparr>)"
  by (auto simp: popcli_def Let_def)

lemma holding_nested:
  "\<not> iflag s \<Longrightarrow> 1 \<le> ncli s \<Longrightarrow>
   holding l s = Ret (locked (locks s l) \<and> lk_cpu (locks s l) = Some (cpu_id s), s)"
  by (auto simp: holding_def pushcli_def popcli_def Let_def)

lemma acquire_free [simp]:
  "cli_ok s \<Longrightarrow> locks s l = unlocked \<Longrightarrow>
   acquire l s = Ret (s\<lparr>iflag := False, ncli := ncli s + 1,
     locks := (locks s)(l := \<lparr>locked = True, lk_cpu = Some (cpu_id s)\<rparr>)\<rparr>)"
  by (auto simp: acquire_def pushcli_cli_ok holding_nested unlocked_def cli_ok_def Let_def)

lemma release_held [simp]:
  "\<not> iflag s \<Longrightarrow> 1 \<le> ncli s \<Longrightarrow> locks s l = \<lparr>locked = True, lk_cpu = Some (cpu_id s)\<rparr> \<Longrightarrow>
   release l s = Ret (s\<lparr>locks := (locks s)(l := unlocked),
     ncli := ncli s - 1, iflag := (ncli s = 1 \<and> intena s)\<rparr>)"
  by (auto simp: release_def holding_nested popcli_nested unlocked_def Let_def)

lemma cli_okD: "cli_ok s \<Longrightarrow> 0 \<le> ncli s"
  by (simp add: cli_ok_def)

lemma cli_ok_iflag: "cli_ok s \<Longrightarrow> (ncli s = 0 \<and> intena s) = iflag s"
  by (auto simp: cli_ok_def split: if_splits)

lemmas crit_simps = cli_okD cli_ok_iflag

text \<open>Releasing a lock nobody holds, or another processor holds, panics.\<close>

lemma release_not_held:
  "cli_ok s \<Longrightarrow> \<not> (locked (locks s l) \<and> lk_cpu (locks s l) = Some (cpu_id s)) \<Longrightarrow>
   release l s = Panic ''release''"
  by (auto simp: release_def holding_def pushcli_cli_ok popcli_nested cli_ok_def Let_def)

lemma acquire_twice:
  "cli_ok s \<Longrightarrow> locks s l = \<lparr>locked = True, lk_cpu = Some (cpu_id s)\<rparr> \<Longrightarrow>
   acquire l s = Panic ''acquire''"
  by (auto simp: acquire_def pushcli_cli_ok holding_nested cli_ok_def Let_def)

lemma acquire_contended:
  "cli_ok s \<Longrightarrow> locked (locks s l) \<Longrightarrow> lk_cpu (locks s l) \<noteq> Some (cpu_id s) \<Longrightarrow>
   acquire l s = Wait ''spin''"
  by (auto simp: acquire_def pushcli_cli_ok holding_nested cli_ok_def Let_def)

lemma length_callerpcs: "length (callerpcs mem k ebp) = k"
  by (induction k arbitrary: ebp) auto

subsection \<open>Interleaving on many processors\<close>

text \<open>
  Program points of one processor inside \<^verbatim>\<open>acquire\<close> and \<^verbatim>\<open>release\<close>; each transition is one
  access to the shared lock.
\<close>

datatype lpc =
    Idle | AChkLocked | AChkCpu | ASpin | ARecord | Crit
  | RChkLocked | RChkCpu | RClear | RStore | RPop | Panicked

record locksys =
  lk :: spinlock
  pcs :: "nat \<Rightarrow> lpc"
  ifl :: "nat \<Rightarrow> bool"
  sav :: "nat \<Rightarrow> bool"

abbreviation goto :: "nat \<Rightarrow> lpc \<Rightarrow> locksys \<Rightarrow> locksys" where
  "goto i p s \<equiv> s\<lparr>pcs := (pcs s)(i := p)\<rparr>"

inductive lock_step :: "locksys \<Rightarrow> locksys \<Rightarrow> bool" where
  acq_pushcli: "pcs s i = Idle \<Longrightarrow>
    lock_step s (goto i AChkLocked (s\<lparr>ifl := (ifl s)(i := False), sav := (sav s)(i := ifl s i)\<rparr>))"
| acq_read_locked: "pcs s i = AChkLocked \<Longrightarrow>
    lock_step s (goto i (if locked (lk s) then AChkCpu else ASpin) s)"
| acq_read_cpu: "pcs s i = AChkCpu \<Longrightarrow>
    lock_step s (goto i (if lk_cpu (lk s) = Some i then Panicked else ASpin) s)"
| acq_xchg: "pcs s i = ASpin \<Longrightarrow>
    lock_step s (goto i (if locked (lk s) then ASpin else ARecord) (s\<lparr>lk := (lk s)\<lparr>locked := True\<rparr>\<rparr>))"
| acq_record: "pcs s i = ARecord \<Longrightarrow>
    lock_step s (goto i Crit (s\<lparr>lk := (lk s)\<lparr>lk_cpu := Some i\<rparr>\<rparr>))"
| rel_start: "pcs s i = Crit \<Longrightarrow> lock_step s (goto i RChkLocked s)"
| rel_read_locked: "pcs s i = RChkLocked \<Longrightarrow>
    lock_step s (goto i (if locked (lk s) then RChkCpu else Panicked) s)"
| rel_read_cpu: "pcs s i = RChkCpu \<Longrightarrow>
    lock_step s (goto i (if lk_cpu (lk s) = Some i then RClear else Panicked) s)"
| rel_clear: "pcs s i = RClear \<Longrightarrow>
    lock_step s (goto i RStore (s\<lparr>lk := (lk s)\<lparr>lk_cpu := None\<rparr>\<rparr>))"
| rel_store: "pcs s i = RStore \<Longrightarrow>
    lock_step s (goto i RPop (s\<lparr>lk := (lk s)\<lparr>locked := False\<rparr>\<rparr>))"
| rel_popcli: "pcs s i = RPop \<Longrightarrow>
    lock_step s (goto i Idle (s\<lparr>ifl := (ifl s)(i := sav s i)\<rparr>))"

definition lock_init :: "locksys \<Rightarrow> bool" where
  "lock_init s \<longleftrightarrow> lk s = unlocked \<and> (\<forall>i. pcs s i = Idle)"

definition owns :: "lpc \<Rightarrow> bool" where
  "owns p \<longleftrightarrow> p \<in> {ARecord, Crit, RChkLocked, RChkCpu, RClear, RStore}"

definition named :: "lpc \<Rightarrow> bool" where
  "named p \<longleftrightarrow> p \<in> {Crit, RChkLocked, RChkCpu, RClear}"

definition lock_inv :: "locksys \<Rightarrow> bool" where
  "lock_inv s \<longleftrightarrow>
     (\<exists>w. (\<forall>i. owns (pcs s i) \<longleftrightarrow> w = Some i) \<and> (locked (lk s) \<longleftrightarrow> w \<noteq> None)) \<and>
     (\<forall>i. named (pcs s i) \<longleftrightarrow> lk_cpu (lk s) = Some i) \<and>
     (\<forall>i. pcs s i \<noteq> Panicked) \<and>
     (\<forall>i. pcs s i \<noteq> Idle \<longrightarrow> \<not> ifl s i)"

lemma owns_simps [simp]:
  "owns ARecord" "owns Crit" "owns RChkLocked" "owns RChkCpu" "owns RClear" "owns RStore"
  "\<not> owns Idle" "\<not> owns AChkLocked" "\<not> owns AChkCpu" "\<not> owns ASpin" "\<not> owns RPop" "\<not> owns Panicked"
  by (simp_all add: owns_def)

lemma named_simps [simp]:
  "named Crit" "named RChkLocked" "named RChkCpu" "named RClear"
  "\<not> named ARecord" "\<not> named RStore" "\<not> named Idle" "\<not> named AChkLocked" "\<not> named AChkCpu"
  "\<not> named ASpin" "\<not> named RPop" "\<not> named Panicked"
  by (simp_all add: named_def)

lemma named_owns: "named p \<Longrightarrow> owns p"
  by (auto simp: named_def)

lemma lock_invI:
  "(\<And>i. owns (pcs s i) \<longleftrightarrow> w = Some i) \<Longrightarrow> (locked (lk s) \<longleftrightarrow> w \<noteq> None) \<Longrightarrow>
   (\<And>i. named (pcs s i) \<longleftrightarrow> lk_cpu (lk s) = Some i) \<Longrightarrow> (\<And>i. pcs s i \<noteq> Panicked) \<Longrightarrow>
   (\<And>i. pcs s i \<noteq> Idle \<Longrightarrow> \<not> ifl s i) \<Longrightarrow> lock_inv s"
  unfolding lock_inv_def by blast

text \<open>A processor that moves between points which agree on owning the lock.\<close>

lemma lock_inv_move:
  assumes "lock_inv s" and "owns q = owns (pcs s i)" and "named q = named (pcs s i)"
    and "q \<noteq> Panicked" and "\<And>j. j \<noteq> i \<Longrightarrow> ifl t j = ifl s j" and "q = Idle \<or> \<not> ifl t i"
    and "lk t = lk s" and "pcs t = (pcs s)(i := q)"
  shows "lock_inv t"
proof -
  obtain w where "\<And>i. owns (pcs s i) \<longleftrightarrow> w = Some i" "locked (lk s) \<longleftrightarrow> w \<noteq> None"
    using assms(1) unfolding lock_inv_def by blast
  then show ?thesis
    by (intro lock_invI [where w = w]) (use assms in \<open>auto simp: lock_inv_def split: if_splits\<close>)
qed

lemma lock_inv_facts:
  assumes "lock_inv s"
  shows "named (pcs s i) \<longleftrightarrow> lk_cpu (lk s) = Some i" "pcs s i \<noteq> Panicked"
    "pcs s i \<noteq> Idle \<Longrightarrow> \<not> ifl s i" "owns (pcs s i) \<Longrightarrow> locked (lk s)"
    "owns (pcs s i) \<Longrightarrow> owns (pcs s j) \<Longrightarrow> i = j" "locked (lk s) \<Longrightarrow> \<exists>j. owns (pcs s j)"
proof -
  obtain w where "\<And>i. owns (pcs s i) \<longleftrightarrow> w = Some i" "locked (lk s) \<longleftrightarrow> w \<noteq> None"
    using assms unfolding lock_inv_def by blast
  then show "owns (pcs s i) \<Longrightarrow> locked (lk s)"
    "owns (pcs s i) \<Longrightarrow> owns (pcs s j) \<Longrightarrow> i = j" "locked (lk s) \<Longrightarrow> \<exists>j. owns (pcs s j)"
    by auto
  show "named (pcs s i) \<longleftrightarrow> lk_cpu (lk s) = Some i" "pcs s i \<noteq> Panicked"
    "pcs s i \<noteq> Idle \<Longrightarrow> \<not> ifl s i"
    using assms unfolding lock_inv_def by blast+
qed

lemma lock_step_inv:
  assumes step: "lock_step s t" and inv: "lock_inv s"
  shows "lock_inv t"
  using step
proof (cases rule: lock_step.cases)
  case (acq_xchg i)
  then show ?thesis
  proof (cases "locked (lk s)")
    case True
    then have "t = goto i ASpin s" using acq_xchg by simp
    then show ?thesis
      using acq_xchg lock_inv_facts(3) [OF inv, of i] by (intro lock_inv_move [OF inv]) auto
  next
    case False
    then have free: "\<not> owns (pcs s j)" "\<not> named (pcs s j)" for j
      using lock_inv_facts(4) [OF inv] named_owns by blast+
    with False acq_xchg lock_inv_facts(1,2,3) [OF inv] show ?thesis
      by (intro lock_invI [where w = "Some i"]) (auto split: if_splits)
  qed
next
  case (acq_record i)
  then have other: "j \<noteq> i \<Longrightarrow> \<not> owns (pcs s j)" "j \<noteq> i \<Longrightarrow> \<not> named (pcs s j)" for j
    using lock_inv_facts(5) [OF inv, of i j] named_owns by auto
  with acq_record lock_inv_facts(2,3) [OF inv] lock_inv_facts(4) [OF inv, of i] show ?thesis
    by (intro lock_invI [where w = "Some i"]) (auto split: if_splits)
next
  case (rel_clear i)
  then have other: "j \<noteq> i \<Longrightarrow> \<not> owns (pcs s j)" "j \<noteq> i \<Longrightarrow> \<not> named (pcs s j)" for j
    using lock_inv_facts(5) [OF inv, of i j] named_owns by auto
  with rel_clear lock_inv_facts(2,3) [OF inv] lock_inv_facts(4) [OF inv, of i] show ?thesis
    by (intro lock_invI [where w = "Some i"]) (auto split: if_splits)
next
  case (rel_store i)
  then have other: "j \<noteq> i \<Longrightarrow> \<not> owns (pcs s j)" for j
    using lock_inv_facts(5) [OF inv, of i j] by auto
  have "lk_cpu (lk s) \<noteq> Some i"
    using rel_store lock_inv_facts(1) [OF inv, of i] by simp
  with other rel_store lock_inv_facts(1,2,3) [OF inv] show ?thesis
    by (intro lock_invI [where w = None]) (auto split: if_splits dest: named_owns)
next
  case (acq_pushcli i)
  then show ?thesis by (intro lock_inv_move [OF inv, of AChkLocked i]) auto
next
  case (acq_read_locked i)
  with lock_inv_facts(3) [OF inv, of i] show ?thesis
    by (intro lock_inv_move [OF inv, of "if locked (lk s) then AChkCpu else ASpin" i]) auto
next
  case (acq_read_cpu i)
  with lock_inv_facts(1,3) [OF inv, of i] show ?thesis
    by (intro lock_inv_move [OF inv, of ASpin i]) auto
next
  case (rel_start i)
  with lock_inv_facts(3) [OF inv, of i] show ?thesis
    by (intro lock_inv_move [OF inv, of RChkLocked i]) auto
next
  case (rel_read_locked i)
  with lock_inv_facts(3,4) [OF inv, of i] show ?thesis
    by (intro lock_inv_move [OF inv, of RChkCpu i]) auto
next
  case (rel_read_cpu i)
  with lock_inv_facts(1,3) [OF inv, of i] show ?thesis
    by (intro lock_inv_move [OF inv, of RClear i]) auto
next
  case (rel_popcli i)
  then show ?thesis by (intro lock_inv_move [OF inv, of Idle i]) auto
qed

interpretation spin: invariant_system lock_init lock_step lock_inv
proof
  show "lock_inv s" if "lock_init s" for s
    using that by (simp add: lock_init_def lock_inv_def unlocked_def)
  show "lock_inv t" if "lock_inv s" "lock_step s t" for s t
    using that by (blast intro: lock_step_inv)
qed

text \<open>
  C2: mutual exclusion of spin locks. Whatever order the instructions of \<^verbatim>\<open>acquire\<close> and
  \<^verbatim>\<open>release\<close> of any number of processors run in, at most one processor is between the two at
  a time, the lock names that processor, its interrupts are off, and no processor has reached
  one of the panics of \<^verbatim>\<open>acquire\<close> and \<^verbatim>\<open>release\<close>.
\<close>

theorem spinlock_mutual_exclusion:
  assumes "reachable lock_init lock_step s"
  shows "(pcs s i = Crit \<longrightarrow> locked (lk s) \<and> lk_cpu (lk s) = Some i \<and> \<not> ifl s i) \<and>
    (pcs s i = Crit \<longrightarrow> pcs s j = Crit \<longrightarrow> i = j) \<and> pcs s i \<noteq> Panicked"
proof -
  have inv: "lock_inv s" by (rule spin.reachable_invar [OF assms])
  show ?thesis
    using lock_inv_facts(1-4) [OF inv, of i] lock_inv_facts(5) [OF inv, of i j]
    by (metis named_simps(1) owns_simps(2) lpc.distinct(9))
qed

text \<open>A run of one \<^verbatim>\<open>acquire\<close> on processor 0.\<close>

lemma lock_run_one: "\<exists>s. reachable lock_init lock_step s \<and> pcs s 0 = Crit"
proof -
  let ?s0 = "\<lparr>lk = unlocked, pcs = (\<lambda>_. Idle), ifl = (\<lambda>_. True), sav = (\<lambda>_. False)\<rparr>"
  let ?s1 = "?s0\<lparr>pcs := (\<lambda>_. Idle)(0 := AChkLocked), ifl := (\<lambda>_. True)(0 := False),
    sav := (\<lambda>_. False)(0 := True)\<rparr>"
  let ?s2 = "goto 0 ASpin ?s1"
  let ?s3 = "goto 0 ARecord (?s2\<lparr>lk := \<lparr>locked = True, lk_cpu = None\<rparr>\<rparr>)"
  let ?s4 = "goto 0 Crit (?s3\<lparr>lk := \<lparr>locked = True, lk_cpu = Some 0\<rparr>\<rparr>)"
  have "lock_step ?s0 ?s1" using lock_step.acq_pushcli [of ?s0 0] by simp
  moreover have "lock_step ?s1 ?s2"
    using lock_step.acq_read_locked [of ?s1 0] by (simp add: unlocked_def)
  moreover have "lock_step ?s2 ?s3"
    using lock_step.acq_xchg [of ?s2 0] by (simp add: unlocked_def)
  moreover have "lock_step ?s3 ?s4" using lock_step.acq_record [of ?s3 0] by simp
  moreover have "reachable lock_init lock_step ?s0"
    by (rule reachable_init) (simp add: lock_init_def)
  ultimately have "reachable lock_init lock_step ?s4" by (blast intro: reachable_step)
  moreover have "pcs ?s4 0 = Crit" by simp
  ultimately show ?thesis by blast
qed

lemma spinlock_mutual_exclusion_witness:
  "\<exists>s. reachable lock_init lock_step s \<and> pcs s 0 = Crit \<and> \<not> ifl s 0 \<and>
     (\<forall>j. pcs s j = Crit \<longrightarrow> j = 0) \<and> (\<forall>j. pcs s j \<noteq> Panicked)"
proof -
  obtain s where s: "reachable lock_init lock_step s" "pcs s 0 = Crit"
    using lock_run_one by blast
  show ?thesis
    using spinlock_mutual_exclusion [OF s(1)] s by blast
qed

end
