(* ===== verification/Sched.thy ===== *)
theory Sched
  imports Spinlock
begin

text \<open>
  Sleep and wakeup, the part of \<^verbatim>\<open>xv6-public/proc.c\<close> the other components build on, and the
  sequential contract of the kernel state between operations. A process that has to sleep
  gives the outcome \<open>Wait\<close>.
\<close>

subsection \<open>Wakeup\<close>

definition wake :: "chan \<Rightarrow> proc \<Rightarrow> proc" where
  "wake c p = (if p_state p = SLEEPING \<and> p_chan p = Some c then p\<lparr>p_state := RUNNABLE\<rparr> else p)"

definition wakeup1 :: "chan \<Rightarrow> 'a mach_scheme \<Rightarrow> 'a mach_scheme" where
  "wakeup1 c s = s\<lparr>procs := map (wake c) (procs s)\<rparr>"

definition wakeup :: "chan \<Rightarrow> 'a mach_scheme \<Rightarrow> 'a mach_scheme outcome" where
  "wakeup c s = obind (acquire LPtable s) (\<lambda>s1. release LPtable (wakeup1 c s1))"

subsection \<open>The kernel between operations\<close>

text \<open>
  What holds on the running processor when an operation starts and when it has returned:
  no spin lock is held, the interrupt state is balanced, and a process runs.
\<close>

definition kernel_ok :: "'a mach_scheme \<Rightarrow> bool" where
  "kernel_ok s \<longleftrightarrow> cli_ok s \<and> locks s = (\<lambda>_. unlocked) \<and>
     (\<exists>p. cur s = Some p \<and> p < length (procs s))"

definition my_pid :: "'a mach_scheme \<Rightarrow> int" where
  "my_pid s = p_pid (procs s ! the (cur s))"

lemma kernel_ok_cli [simp]: "kernel_ok s \<Longrightarrow> cli_ok s"
  by (simp add: kernel_ok_def)

lemma kernel_ok_locks [simp]: "kernel_ok s \<Longrightarrow> locks s l = unlocked"
  by (simp add: kernel_ok_def)

lemma kernel_ok_lock_map: "kernel_ok s \<Longrightarrow> (locks s)(l := unlocked) = locks s"
  by (simp add: fun_upd_idem)

lemma kernel_ok_mypid [simp]: "kernel_ok s \<Longrightarrow> mypid s = Ret (my_pid s)"
  by (auto simp: kernel_ok_def mypid_def myproc_def my_pid_def)

lemma p_pid_wake [simp]: "p_pid (wake c p) = p_pid p"
  by (simp add: wake_def)

lemma kernel_ok_wakeup1 [simp]: "kernel_ok (wakeup1 c s) = kernel_ok s"
  by (auto simp: kernel_ok_def wakeup1_def cli_ok_def)

lemma my_pid_wakeup1 [simp]: "kernel_ok s \<Longrightarrow> my_pid (wakeup1 c s) = my_pid s"
  by (auto simp: kernel_ok_def my_pid_def wakeup1_def)

lemma cli_ok_inside: "cli_ok s \<Longrightarrow>
  cli_ok (s\<lparr>iflag := False, ncli := ncli s + 1, locks := x\<rparr>)"
  by (auto simp: cli_ok_def)

lemma wakeup_free:
  "cli_ok s \<Longrightarrow> locks s LPtable = unlocked \<Longrightarrow> wakeup c s = Ret (wakeup1 c s)"
  by (simp add: wakeup_def wakeup1_def crit_simps fun_upd_idem)

text \<open>Inside a critical section of another lock.\<close>

lemma cli_ok_nested [simp]: "\<not> iflag s \<Longrightarrow> 1 \<le> ncli s \<Longrightarrow> cli_ok s"
  by (simp add: cli_ok_def)

lemma wakeup_nested [simp]:
  "\<not> iflag s \<Longrightarrow> 1 \<le> ncli s \<Longrightarrow> locks s LPtable = unlocked \<Longrightarrow> wakeup c s = Ret (wakeup1 c s)"
  by (simp add: wakeup_free)

lemma wakeup_kernel_ok [simp]: "kernel_ok s \<Longrightarrow> wakeup c s = Ret (wakeup1 c s)"
  by (simp add: wakeup_free)

subsection \<open>Sleep\<close>

text \<open>
  \<^verbatim>\<open>sleep\<close> in two halves, around its call of \<^verbatim>\<open>sched\<close>: the first ends with \<^verbatim>\<open>ptable.lock\<close> held and
  the process marked as sleeping, the second starts when the process runs again, holding
  \<^verbatim>\<open>ptable.lock\<close>.
\<close>

definition set_proc :: "nat \<Rightarrow> (proc \<Rightarrow> proc) \<Rightarrow> 'a mach_scheme \<Rightarrow> 'a mach_scheme" where
  "set_proc p f s = s\<lparr>procs := (procs s)[p := f (procs s ! p)]\<rparr>"

definition sleep_enter :: "chan \<Rightarrow> lockid \<Rightarrow> 'a mach_scheme \<Rightarrow> 'a mach_scheme outcome" where
  "sleep_enter c l s =
     (case cur s of
        None \<Rightarrow> Panic ''sleep''
      | Some p \<Rightarrow>
          obind (if l \<noteq> LPtable then obind (acquire LPtable s) (\<lambda>s1. release l s1) else Ret s) (\<lambda>s2.
          Ret (set_proc p (\<lambda>x. x\<lparr>p_chan := Some c, p_state := SLEEPING\<rparr>) s2)))"

definition sleep_leave :: "lockid \<Rightarrow> 'a mach_scheme \<Rightarrow> 'a mach_scheme outcome" where
  "sleep_leave l s =
     (case cur s of
        None \<Rightarrow> Panic ''sleep''
      | Some p \<Rightarrow>
          let s1 = set_proc p (\<lambda>x. x\<lparr>p_chan := None\<rparr>) s
          in if l \<noteq> LPtable then obind (release LPtable s1) (\<lambda>s2. acquire l s2) else Ret s1)"

definition killed :: "'a mach_scheme \<Rightarrow> bool outcome" where
  "killed s = obind (myproc s) (\<lambda>p. Ret (p_killed (procs s ! p)))"

text \<open>\<^verbatim>\<open>sched\<close> up to the switch to the scheduler; \<open>now\<close> is what the real-time clock shows.\<close>

definition sched_enter :: "rtcdate \<Rightarrow> 'a mach_scheme \<Rightarrow> 'a mach_scheme outcome" where
  "sched_enter now s =
     obind (myproc s) (\<lambda>p.
     obind (holding LPtable s) (\<lambda>(h, s1).
       if \<not> h then Panic ''sched ptable.lock''
       else if ncli s1 \<noteq> 1 then Panic ''sched locks''
       else if p_state (procs s1 ! p) = RUNNING then Panic ''sched running''
       else if iflag s1 then Panic ''sched interruptible''
       else Ret (set_proc p (\<lambda>x. x\<lparr>p_switchedOut := now\<rparr>) s1)))"

text \<open>\<^verbatim>\<open>yield\<close> up to the switch.\<close>

definition yield_enter :: "rtcdate \<Rightarrow> 'a mach_scheme \<Rightarrow> 'a mach_scheme outcome" where
  "yield_enter now s =
     obind (acquire LPtable s) (\<lambda>s1.
     obind (myproc s1) (\<lambda>p.
     sched_enter now (set_proc p (\<lambda>x. x\<lparr>p_state := RUNNABLE\<rparr>) s1)))"

end
