(* ===== verification/Sleeplock.thy ===== *)
theory Sleeplock
  imports Sched
begin

text \<open>
  Sleep locks (\<^verbatim>\<open>xv6-public/sleeplock.c\<close>), kept in the structure they protect: the operations
  take the lock's contents and return the new ones.
\<close>

record sleeplock =
  sl_locked :: bool
  sl_pid :: int

definition initsleeplock :: "sleepid \<Rightarrow> 'a mach_scheme \<Rightarrow> sleeplock \<times> 'a mach_scheme" where
  "initsleeplock i s = (\<lparr>sl_locked = False, sl_pid = 0\<rparr>, initlock (LSleep i) s)"

definition acquiresleep ::
  "sleepid \<Rightarrow> sleeplock \<Rightarrow> 'a mach_scheme \<Rightarrow> (sleeplock \<times> 'a mach_scheme) outcome" where
  "acquiresleep i l s =
     obind (acquire (LSleep i) s) (\<lambda>s1.
       if sl_locked l then Wait ''sleep''
       else obind (mypid s1) (\<lambda>pid.
            obind (release (LSleep i) s1) (\<lambda>s2.
            Ret (l\<lparr>sl_locked := True, sl_pid := pid\<rparr>, s2))))"

definition releasesleep ::
  "sleepid \<Rightarrow> sleeplock \<Rightarrow> 'a mach_scheme \<Rightarrow> (sleeplock \<times> 'a mach_scheme) outcome" where
  "releasesleep i l s =
     obind (acquire (LSleep i) s) (\<lambda>s1.
       let l1 = l\<lparr>sl_locked := False, sl_pid := 0\<rparr>
       in obind (wakeup (ChSleep i) s1) (\<lambda>s2.
          obind (release (LSleep i) s2) (\<lambda>s3.
          Ret (l1, s3))))"

definition holdingsleep ::
  "sleepid \<Rightarrow> sleeplock \<Rightarrow> 'a mach_scheme \<Rightarrow> (bool \<times> 'a mach_scheme) outcome" where
  "holdingsleep i l s =
     obind (acquire (LSleep i) s) (\<lambda>s1.
     obind (if sl_locked l then obind (mypid s1) (\<lambda>pid. Ret (sl_pid l = pid)) else Ret False) (\<lambda>r.
     obind (release (LSleep i) s1) (\<lambda>s2.
     Ret (r, s2))))"

subsection \<open>Sequential contract\<close>

definition held_by :: "int \<Rightarrow> sleeplock" where
  "held_by pid = \<lparr>sl_locked = True, sl_pid = pid\<rparr>"

definition sl_free :: sleeplock where
  "sl_free = \<lparr>sl_locked = False, sl_pid = 0\<rparr>"

lemma sleeplock_simps [simp]:
  "sl_locked (held_by p)" "sl_pid (held_by p) = p" "\<not> sl_locked sl_free"
  by (simp_all add: held_by_def sl_free_def)

lemma mypid_inside [simp]: "mypid (s\<lparr>iflag := a, ncli := b, locks := c\<rparr>) = mypid s"
  by (simp add: mypid_def myproc_def)

lemma acquiresleep_free [simp]:
  "kernel_ok s \<Longrightarrow> \<not> sl_locked l \<Longrightarrow> acquiresleep i l s = Ret (held_by (my_pid s), s)"
  by (cases l) (simp add: acquiresleep_def held_by_def crit_simps kernel_ok_lock_map)

lemma acquiresleep_taken:
  "kernel_ok s \<Longrightarrow> sl_locked l \<Longrightarrow> acquiresleep i l s = Wait ''sleep''"
  by (simp add: acquiresleep_def)

lemma releasesleep_ok [simp]:
  "kernel_ok s \<Longrightarrow> releasesleep i l s = Ret (sl_free, wakeup1 (ChSleep i) s)"
  by (cases l)
     (simp add: releasesleep_def sl_free_def crit_simps wakeup_free cli_ok_inside wakeup1_def
        kernel_ok_lock_map)

lemma holdingsleep_ok [simp]:
  "kernel_ok s \<Longrightarrow> holdingsleep i l s = Ret (sl_locked l \<and> sl_pid l = my_pid s, s)"
  by (simp add: holdingsleep_def crit_simps kernel_ok_lock_map)

end
