(* ===== verification/Bio.thy ===== *)
theory Bio
  imports Dll Sleeplock
begin

text \<open>
  The buffer cache (\<^verbatim>\<open>xv6-public/bio.c\<close>) over the memory disk driver
  (\<^verbatim>\<open>xv6-public/memide.c\<close>). The buffers are linked in a ring through \<^verbatim>\<open>bcache.head\<close>, most
  recently used first. The main lemmas are contracts of \<open>bread\<close>, \<open>bwrite\<close> and \<open>brelse\<close> over
  the content of the disk as seen through the cache.
\<close>

subsection \<open>State\<close>

text \<open>
  \<^verbatim>\<open>struct buf\<close>: the two flag bits \<^verbatim>\<open>B_VALID\<close> and \<^verbatim>\<open>B_DIRTY\<close> are separate fields; the list
  links are in \<open>blinks\<close>.
\<close>

record buf =
  b_valid :: bool
  b_dirty :: bool
  b_dev :: nat
  b_blockno :: nat
  b_lock :: sleeplock
  b_refcnt :: uint
  b_data :: "uchar list"

text \<open>
  \<open>bufs\<close> is the array \<^verbatim>\<open>bcache.buf\<close>, the node \<open>NBUF\<close> of \<open>blinks\<close> is \<^verbatim>\<open>bcache.head\<close>.
  \<open>disk\<close> is the memory disk by block number and \<open>disksize\<close> its number of blocks. \<open>dwrites\<close> is
  a history variable: the disk writes made so far, oldest first.
\<close>

record bstate = mach +
  bufs :: "nat \<Rightarrow> buf"
  blinks :: "nat dll"
  disk :: "nat \<Rightarrow> uchar list"
  disksize :: nat
  dwrites :: "(nat \<times> uchar list) list"

abbreviation HEAD :: nat where "HEAD \<equiv> NBUF"

definition upd_buf :: "nat \<Rightarrow> (buf \<Rightarrow> buf) \<Rightarrow> 'a bstate_scheme \<Rightarrow> 'a bstate_scheme" where
  "upd_buf b f s = s\<lparr>bufs := (bufs s)(b := f (bufs s b))\<rparr>"

subsection \<open>The disk driver\<close>

definition iderw :: "nat \<Rightarrow> 'a bstate_scheme \<Rightarrow> 'a bstate_scheme outcome" where
  "iderw b s =
     obind (holdingsleep (SBuf b) (b_lock (bufs s b)) s) (\<lambda>(r, s1).
       if \<not> r then Panic ''iderw: buf not locked''
       else if b_valid (bufs s1 b) \<and> \<not> b_dirty (bufs s1 b) then Panic ''iderw: nothing to do''
       else if b_dev (bufs s1 b) \<noteq> 1 then Panic ''iderw: request not for disk 1''
       else if b_blockno (bufs s1 b) \<ge> disksize s1 then Panic ''iderw: block out of range''
       else let p = b_blockno (bufs s1 b);
                s2 = (if b_dirty (bufs s1 b)
                      then let s3 = upd_buf b (\<lambda>x. x\<lparr>b_dirty := False\<rparr>) s1
                           in s3\<lparr>disk := (disk s3)(p := b_data (bufs s3 b)),
                                 dwrites := dwrites s3 @ [(p, b_data (bufs s3 b))]\<rparr>
                      else upd_buf b (\<lambda>x. x\<lparr>b_data := disk s1 p\<rparr>) s1)
            in Ret (upd_buf b (\<lambda>x. x\<lparr>b_valid := True\<rparr>) s2))"

subsection \<open>The cache\<close>

text \<open>The loop of \<^verbatim>\<open>binit\<close> that links the buffers \<open>b, b+1, ..., b+n-1\<close>.\<close>

fun binit_loop :: "nat \<Rightarrow> nat \<Rightarrow> 'a bstate_scheme \<Rightarrow> 'a bstate_scheme" where
  "binit_loop b 0 s = s"
| "binit_loop b (Suc n) s =
     (let (l, s1) = initsleeplock (SBuf b) s;
          s2 = upd_buf b (\<lambda>x. x\<lparr>b_lock := l\<rparr>) s1
      in binit_loop (Suc b) n (s2\<lparr>blinks := add_front HEAD b (blinks s2)\<rparr>))"

definition binit :: "'a bstate_scheme \<Rightarrow> 'a bstate_scheme" where
  "binit s =
     (let s1 = initlock LBcache s;
          s2 = s1\<lparr>blinks := (blinks s1)\<lparr>prv := (prv (blinks s1))(HEAD := HEAD),
                                        nxt := (nxt (blinks s1))(HEAD := HEAD)\<rparr>\<rparr>
      in binit_loop 0 NBUF s2)"

definition lock_buf :: "nat \<Rightarrow> 'a bstate_scheme \<Rightarrow> 'a bstate_scheme outcome" where
  "lock_buf b s =
     obind (acquiresleep (SBuf b) (b_lock (bufs s b)) s) (\<lambda>(l, s1).
     Ret (upd_buf b (\<lambda>x. x\<lparr>b_lock := l\<rparr>) s1))"

definition bget :: "nat \<Rightarrow> nat \<Rightarrow> 'a bstate_scheme \<Rightarrow> (nat \<times> 'a bstate_scheme) outcome" where
  "bget dev blockno s =
     obind (acquire LBcache s) (\<lambda>s1.
     case scan (nxt (blinks s1))
            (\<lambda>b. b_dev (bufs s1 b) = dev \<and> b_blockno (bufs s1 b) = blockno)
            HEAD (Suc NBUF) (nxt (blinks s1) HEAD) of
       None \<Rightarrow> Wait ''bget: list is not a ring''
     | Some (Some b) \<Rightarrow>
         obind (release LBcache (upd_buf b (\<lambda>x. x\<lparr>b_refcnt := b_refcnt x + 1\<rparr>) s1)) (\<lambda>s2.
         obind (lock_buf b s2) (\<lambda>s3. Ret (b, s3)))
     | Some None \<Rightarrow>
         (case scan (prv (blinks s1))
                 (\<lambda>b. b_refcnt (bufs s1 b) = 0 \<and> \<not> b_dirty (bufs s1 b))
                 HEAD (Suc NBUF) (prv (blinks s1) HEAD) of
            None \<Rightarrow> Wait ''bget: list is not a ring''
          | Some None \<Rightarrow> Panic ''bget: no buffers''
          | Some (Some b) \<Rightarrow>
              obind (release LBcache
                (upd_buf b (\<lambda>x. x\<lparr>b_dev := dev, b_blockno := blockno, b_valid := False,
                                  b_dirty := False, b_refcnt := 1\<rparr>) s1)) (\<lambda>s2.
              obind (lock_buf b s2) (\<lambda>s3. Ret (b, s3)))))"

definition bread :: "nat \<Rightarrow> nat \<Rightarrow> 'a bstate_scheme \<Rightarrow> (nat \<times> 'a bstate_scheme) outcome" where
  "bread dev blockno s =
     obind (bget dev blockno s) (\<lambda>(b, s1).
     obind (if \<not> b_valid (bufs s1 b) then iderw b s1 else Ret s1) (\<lambda>s2.
     Ret (b, s2)))"

definition bwrite :: "nat \<Rightarrow> 'a bstate_scheme \<Rightarrow> 'a bstate_scheme outcome" where
  "bwrite b s =
     obind (holdingsleep (SBuf b) (b_lock (bufs s b)) s) (\<lambda>(r, s1).
       if \<not> r then Panic ''bwrite''
       else iderw b (upd_buf b (\<lambda>x. x\<lparr>b_dirty := True\<rparr>) s1))"

definition brelse :: "nat \<Rightarrow> 'a bstate_scheme \<Rightarrow> 'a bstate_scheme outcome" where
  "brelse b s =
     obind (holdingsleep (SBuf b) (b_lock (bufs s b)) s) (\<lambda>(r, s1).
       if \<not> r then Panic ''brelse''
       else obind (releasesleep (SBuf b) (b_lock (bufs s1 b)) s1) (\<lambda>(l, s2).
            obind (acquire LBcache (upd_buf b (\<lambda>x. x\<lparr>b_lock := l\<rparr>) s2)) (\<lambda>s3.
            let s4 = upd_buf b (\<lambda>x. x\<lparr>b_refcnt := b_refcnt x - 1\<rparr>) s3;
                s5 = (if b_refcnt (bufs s4 b) = 0
                      then s4\<lparr>blinks := add_front HEAD b (unlink_node b (blinks s4))\<rparr>
                      else s4)
            in release LBcache s5)))"

subsection \<open>Frame\<close>

text \<open>
  What no operation of the cache changes: the processor, the running process, everything of the
  processes but their scheduling state, the size of the disk, and the state of the components
  built on top.
\<close>

definition erase_state :: "proc \<Rightarrow> proc" where
  "erase_state p = p\<lparr>p_state := UNUSED\<rparr>"

definition bframe :: "'a bstate_scheme \<Rightarrow> 'a bstate_scheme \<Rightarrow> bool" where
  "bframe s t \<longleftrightarrow> cpu_id t = cpu_id s \<and> cur t = cur s \<and> nextpid t = nextpid s \<and>
     initproc t = initproc s \<and> map erase_state (procs t) = map erase_state (procs s) \<and>
     disksize t = disksize s \<and> bstate.more t = bstate.more s"

lemma bframe_refl [simp]: "bframe s s"
  by (simp add: bframe_def)

lemma bframe_trans [trans]: "bframe s t \<Longrightarrow> bframe t u \<Longrightarrow> bframe s u"
  by (simp add: bframe_def)

lemma bframe_disksize: "bframe s t \<Longrightarrow> disksize t = disksize s"
  by (simp add: bframe_def)

lemma bframe_my_pid:
  assumes "bframe s t" and "kernel_ok s"
  shows "my_pid t = my_pid s"
proof -
  obtain p where p: "cur s = Some p" "p < length (procs s)" "cur t = Some p"
    using assms by (auto simp: kernel_ok_def bframe_def)
  have eq: "map erase_state (procs t) = map erase_state (procs s)"
    using assms(1) by (simp add: bframe_def)
  then have "length (procs t) = length (procs s)" by (metis length_map)
  with eq p have "erase_state (procs t ! p) = erase_state (procs s ! p)"
    by (metis nth_map)
  then have "p_pid (procs t ! p) = p_pid (procs s ! p)"
    by (metis erase_state_def proc.ext_inject proc.surjective proc.update_convs(4))
  with p show ?thesis by (simp add: my_pid_def)
qed

lemma erase_state_wake [simp]: "erase_state (wake c p) = erase_state p"
  by (simp add: erase_state_def wake_def)

lemma bframe_wakeup1 [simp]: "bframe s (wakeup1 c s)"
  by (simp add: bframe_def wakeup1_def comp_def)

lemma wakeup1_bstate [simp]:
  "bufs (wakeup1 c s) = bufs s" "blinks (wakeup1 c s) = blinks s" "disk (wakeup1 c s) = disk s"
  "disksize (wakeup1 c s) = disksize s" "dwrites (wakeup1 c s) = dwrites s"
  by (simp_all add: wakeup1_def)

lemma upd_buf_bstate [simp]:
  "bufs (upd_buf b f s) = (bufs s)(b := f (bufs s b))" "blinks (upd_buf b f s) = blinks s"
  "disk (upd_buf b f s) = disk s" "disksize (upd_buf b f s) = disksize s"
  "dwrites (upd_buf b f s) = dwrites s" "kernel_ok (upd_buf b f s) = kernel_ok s"
  "my_pid (upd_buf b f s) = my_pid s" "bframe s (upd_buf b f s)"
  by (simp_all add: upd_buf_def kernel_ok_def cli_ok_def my_pid_def bframe_def)

lemma kernel_ok_bstate [simp]:
  "kernel_ok (s\<lparr>bufs := w\<rparr>) = kernel_ok s" "my_pid (s\<lparr>bufs := w\<rparr>) = my_pid s"
  "kernel_ok (s\<lparr>blinks := x\<rparr>) = kernel_ok s" "kernel_ok (s\<lparr>disk := y\<rparr>) = kernel_ok s"
  "kernel_ok (s\<lparr>dwrites := z\<rparr>) = kernel_ok s"
  "my_pid (s\<lparr>blinks := x\<rparr>) = my_pid s" "my_pid (s\<lparr>disk := y\<rparr>) = my_pid s"
  "my_pid (s\<lparr>dwrites := z\<rparr>) = my_pid s"
  by (simp_all add: kernel_ok_def cli_ok_def my_pid_def)

lemma bframe_bstate [simp]:
  "bframe s (t\<lparr>blinks := x\<rparr>) = bframe s t" "bframe s (t\<lparr>disk := y\<rparr>) = bframe s t"
  "bframe s (t\<lparr>dwrites := z\<rparr>) = bframe s t" "bframe s (upd_buf b f t) = bframe s t"
  by (simp_all add: bframe_def upd_buf_def)

subsection \<open>Invariant and view\<close>

text \<open>
  Between operations of one process that holds the buffers \<open>H\<close>: the buffers form a ring, exactly
  those of \<open>H\<close> are locked and referenced, the valid ones hold blocks of the disk, no block of a device other than 0 is cached twice
  (the buffers start out naming block 0 of device 0), and a buffer nobody holds that is
  not dirty agrees with the disk.
\<close>

definition bring_list :: "'a bstate_scheme \<Rightarrow> nat list \<Rightarrow> bool" where
  "bring_list s xs \<longleftrightarrow> dlist (blinks s) HEAD xs HEAD \<and> set xs = {..<NBUF}"

definition bring :: "'a bstate_scheme \<Rightarrow> bool" where
  "bring s \<longleftrightarrow> (\<exists>xs. bring_list s xs)"

definition buf_ok :: "'a bstate_scheme \<Rightarrow> bool \<Rightarrow> buf \<Rightarrow> bool" where
  "buf_ok s held x \<longleftrightarrow>
     b_lock x = (if held then held_by (my_pid s) else sl_free) \<and>
     b_refcnt x = (if held then 1 else 0) \<and>
     (b_dirty x \<or> held \<longrightarrow> b_valid x) \<and>
     b_dev x = (if b_valid x then ROOTDEV else 0) \<and>
     (b_valid x \<longrightarrow> b_blockno x < disksize s \<and> length (b_data x) = BSIZE) \<and>
     (\<not> held \<longrightarrow> b_valid x \<longrightarrow> \<not> b_dirty x \<longrightarrow> b_data x = disk s (b_blockno x))"

definition bufs_distinct :: "'a bstate_scheme \<Rightarrow> bool" where
  "bufs_distinct s \<longleftrightarrow>
     (\<forall>a<NBUF. \<forall>b<NBUF. b_dev (bufs s a) = b_dev (bufs s b) \<longrightarrow> b_dev (bufs s a) \<noteq> 0 \<longrightarrow>
        b_blockno (bufs s a) = b_blockno (bufs s b) \<longrightarrow> a = b)"

definition disk_ok :: "'a bstate_scheme \<Rightarrow> bool" where
  "disk_ok s \<longleftrightarrow> (\<forall>n<disksize s. length (disk s n) = BSIZE)"

definition bwf :: "nat set \<Rightarrow> 'a bstate_scheme \<Rightarrow> bool" where
  "bwf H s \<longleftrightarrow> kernel_ok s \<and> H \<subseteq> {..<NBUF} \<and> bring s \<and> bufs_distinct s \<and> disk_ok s \<and>
     (\<forall>b<NBUF. buf_ok s (b \<in> H) (bufs s b))"

text \<open>The content of a block as \<^verbatim>\<open>bread\<close> shows it, and the blocks with a dirty buffer.\<close>

definition caches :: "'a bstate_scheme \<Rightarrow> nat \<Rightarrow> nat \<Rightarrow> bool" where
  "caches s n b \<longleftrightarrow> b_valid (bufs s b) \<and> b_dev (bufs s b) = ROOTDEV \<and> b_blockno (bufs s b) = n"

definition all_bufs :: "nat list" where
  "all_bufs = [0..<NBUF]"

lemma set_all_bufs [simp]: "set all_bufs = {..<NBUF}"
  by (simp only: all_bufs_def set_upt atLeast0LessThan)

definition view :: "'a bstate_scheme \<Rightarrow> nat \<Rightarrow> uchar list" where
  "view s n = (case List.find (caches s n) all_bufs of
     Some b \<Rightarrow> b_data (bufs s b) | None \<Rightarrow> disk s n)"

definition dirty_blocks :: "'a bstate_scheme \<Rightarrow> nat set" where
  "dirty_blocks s = (\<lambda>b. b_blockno (bufs s b)) ` {b. b < NBUF \<and> b_dirty (bufs s b)}"

lemma bwfD:
  assumes "bwf H s"
  shows "kernel_ok s" "H \<subseteq> {..<NBUF}" "bring s" "bufs_distinct s" "disk_ok s"
    "b < NBUF \<Longrightarrow> buf_ok s (b \<in> H) (bufs s b)"
  using assms by (simp_all add: bwf_def)

lemma bufs_distinctD:
  "bufs_distinct s \<Longrightarrow> a < NBUF \<Longrightarrow> b < NBUF \<Longrightarrow> b_dev (bufs s a) = b_dev (bufs s b) \<Longrightarrow>
   b_dev (bufs s a) \<noteq> 0 \<Longrightarrow> b_blockno (bufs s a) = b_blockno (bufs s b) \<Longrightarrow> a = b"
  by (simp add: bufs_distinct_def)

lemma view_cached:
  assumes "bufs_distinct s" and "b < NBUF" and "caches s n b"
  shows "view s n = b_data (bufs s b)"
proof -
  have "List.find (caches s n) all_bufs = Some b"
  proof (rule find_unique)
    show "b \<in> set all_bufs" "caches s n b" using assms(2,3) by simp_all
    show "c = b" if "c \<in> set all_bufs" "caches s n c" for c
      by (rule bufs_distinctD [OF assms(1)]) (use that assms in \<open>simp_all add: caches_def\<close>)
  qed
  then show ?thesis by (simp add: view_def)
qed

lemma view_uncached:
  assumes "\<And>b. b < NBUF \<Longrightarrow> \<not> caches s n b"
  shows "view s n = disk s n"
proof -
  have "List.find (caches s n) all_bufs = None" using assms by (auto simp: find_None_iff)
  then show ?thesis by (simp add: view_def)
qed

lemma view_clean:
  assumes "bwf H s" and "b < NBUF" and "b \<notin> H" and "\<not> b_dirty (bufs s b)" and "caches s n b"
  shows "view s n = disk s n"
  using view_cached [of s b n] assms bwfD(4,6) [OF assms(1)]
  by (auto simp: buf_ok_def caches_def)

lemma length_view:
  assumes "bwf H s" and "n < disksize s"
  shows "length (view s n) = BSIZE"
proof (cases "\<exists>b<NBUF. caches s n b")
  case True
  then obtain b where "b < NBUF" "caches s n b" by blast
  with assms bwfD(4,6) [OF assms(1)] show ?thesis
    by (auto simp: view_cached [of s b n] buf_ok_def caches_def)
next
  case False
  with assms bwfD(5) [OF assms(1)] show ?thesis by (auto simp: view_uncached disk_ok_def)
qed

subsection \<open>Contracts\<close>

lemma buf_free:
  assumes "bwf H s" and "b < NBUF" and "b \<notin> H"
  shows "b_lock (bufs s b) = sl_free" "b_refcnt (bufs s b) = 0"
  using bwfD(6) [OF assms(1,2)] assms(3) by (simp_all add: buf_ok_def)

lemma buf_held:
  assumes "bwf H s" and "b \<in> H"
  shows "b < NBUF" "b_lock (bufs s b) = held_by (my_pid s)" "b_refcnt (bufs s b) = 1"
  using bwfD(6) [OF assms(1), of b] bwfD(2) [OF assms(1)] assms(2) by (auto simp: buf_ok_def)

lemma lock_buf_free:
  "kernel_ok s \<Longrightarrow> b_lock (bufs s b) = sl_free \<Longrightarrow>
   lock_buf b s = Ret (upd_buf b (\<lambda>x. x\<lparr>b_lock := held_by (my_pid s)\<rparr>) s)"
  by (simp add: lock_buf_def sl_free_def)

lemma crit_upd_buf:
  "kernel_ok s \<Longrightarrow> obind (acquire l s) (\<lambda>s1. release l (upd_buf b f s1)) = Ret (upd_buf b f s)"
  by (simp add: upd_buf_def crit_simps kernel_ok_lock_map)

lemma bring_scans:
  assumes "bring_list s xs"
  shows "set xs = {..<NBUF}"
    "NBUF < f \<Longrightarrow> scan (nxt (blinks s)) P HEAD f (nxt (blinks s) HEAD) = Some (List.find P xs)"
    "NBUF < f \<Longrightarrow> scan (prv (blinks s)) P HEAD f (prv (blinks s) HEAD) = Some (List.find P (rev xs))"
proof -
  have xs: "dlist (blinks s) HEAD xs HEAD" "set xs = {..<NBUF}"
    using assms by (simp_all add: bring_list_def)
  then have "length xs = card {..<NBUF}" by (metis dlist_def distinct_card)
  with xs show "set xs = {..<NBUF}"
    "NBUF < f \<Longrightarrow> scan (nxt (blinks s)) P HEAD f (nxt (blinks s) HEAD) = Some (List.find P xs)"
    "NBUF < f \<Longrightarrow> scan (prv (blinks s)) P HEAD f (prv (blinks s) HEAD) = Some (List.find P (rev xs))"
    by (simp_all add: dlist_scan_nxt dlist_scan_prv)
qed

lemma bring_obtain:
  assumes "bwf H s"
  obtains xs where "bring_list s xs"
  using bwfD(3) [OF assms] by (auto simp: bring_def)

lemma find_buf:
  assumes wf: "bwf H s" and ring: "bring_list s xs" and b: "b < NBUF" and dev: "dev \<noteq> 0"
    and eq: "b_dev (bufs s b) = dev" "b_blockno (bufs s b) = n"
  shows "List.find (\<lambda>b. b_dev (bufs s b) = dev \<and> b_blockno (bufs s b) = n) xs = Some b"
    (is "List.find ?P xs = _")
proof (rule find_unique)
  show "b \<in> set xs" "?P b" using bring_scans(1) [OF ring] b eq by simp_all
  show "c = b" if "c \<in> set xs" "?P c" for c
    by (rule bufs_distinctD [OF bwfD(4) [OF wf]])
       (use that bring_scans(1) [OF ring] b eq dev in simp_all)
qed

lemma bget_cached:
  assumes wf: "bwf H s" and b: "b < NBUF" "b \<notin> H" and dev: "dev \<noteq> 0"
    and eq: "b_dev (bufs s b) = dev" "b_blockno (bufs s b) = n"
  shows "bget dev n s =
    Ret (b, upd_buf b (\<lambda>x. x\<lparr>b_refcnt := 1, b_lock := held_by (my_pid s)\<rparr>) s)"
proof -
  obtain xs where ring: "bring_list s xs" by (rule bring_obtain [OF wf])
  note xs = bring_scans [OF ring]
  show ?thesis
    using find_buf [OF wf ring b(1) dev eq] bwfD(1) [OF wf] buf_free [OF wf b]
    by (simp add: bget_def xs(2,3) upd_buf_def crit_simps kernel_ok_lock_map lock_buf_def sl_free_def)
qed

lemma bget_busy:
  assumes wf: "bwf H s" and b: "b \<in> H" and dev: "dev \<noteq> 0"
    and eq: "b_dev (bufs s b) = dev" "b_blockno (bufs s b) = n"
  shows "bget dev n s = Wait ''sleep''"
proof -
  obtain xs where ring: "bring_list s xs" by (rule bring_obtain [OF wf])
  note xs = bring_scans [OF ring]
  note h = buf_held [OF wf b]
  show ?thesis
    using find_buf [OF wf ring h(1) dev eq] bwfD(1) [OF wf] h
    by (simp add: bget_def xs(2,3) upd_buf_def crit_simps kernel_ok_lock_map lock_buf_def held_by_def
        acquiresleep_taken)
qed

text \<open>The least recently used clean buffer that nobody holds, in the order of the backward scan.\<close>

definition victim :: "'a bstate_scheme \<Rightarrow> nat \<Rightarrow> bool" where
  "victim s b \<longleftrightarrow> b_refcnt (bufs s b) = 0 \<and> \<not> b_dirty (bufs s b)"

lemma bget_recycle:
  assumes wf: "bwf H s" and b: "b < NBUF" "b \<notin> H" "\<not> b_dirty (bufs s b)"
    and new: "\<And>b. b < NBUF \<Longrightarrow> \<not> (b_dev (bufs s b) = dev \<and> b_blockno (bufs s b) = n)"
  obtains c where "c < NBUF" "c \<notin> H" "\<not> b_dirty (bufs s c)"
    "bget dev n s = Ret (c, upd_buf c (\<lambda>x. x\<lparr>b_dev := dev, b_blockno := n, b_valid := False,
       b_dirty := False, b_refcnt := 1, b_lock := held_by (my_pid s)\<rparr>) s)"
proof -
  obtain xs where "bring_list s xs" by (rule bring_obtain [OF wf])
  note xs = bring_scans [OF this]
  have none: "List.find (\<lambda>b. b_dev (bufs s b) = dev \<and> b_blockno (bufs s b) = n) xs = None"
    using xs(1) new by (auto simp: find_None_iff)
  have "List.find (victim s) (rev xs) \<noteq> None"
    using xs(1) b buf_free [OF wf b(1,2)] by (auto simp: find_None_iff victim_def)
  then obtain c where c: "List.find (victim s) (rev xs) = Some c" by blast
  then have "c \<in> set (rev xs)" and v: "victim s c" by (auto dest: find_SomeD)
  with xs(1) have c1: "c < NBUF" by auto
  have c2: "c \<notin> H" using v buf_held [OF wf] by (auto simp: victim_def)
  show thesis
  proof (rule that [OF c1 c2])
    show "\<not> b_dirty (bufs s c)" using v by (simp add: victim_def)
    show "bget dev n s = Ret (c, upd_buf c (\<lambda>x. x\<lparr>b_dev := dev, b_blockno := n, b_valid := False,
       b_dirty := False, b_refcnt := 1, b_lock := held_by (my_pid s)\<rparr>) s)"
      using none c bwfD(1) [OF wf] buf_free [OF wf c1 c2]
      by (simp add: bget_def xs(2,3) upd_buf_def crit_simps kernel_ok_lock_map lock_buf_def sl_free_def
          victim_def [abs_def])
  qed
qed

lemma bget_no_buffers:
  assumes wf: "bwf H s" and full: "\<And>b. b < NBUF \<Longrightarrow> b \<notin> H \<Longrightarrow> b_dirty (bufs s b)"
    and new: "\<And>b. b < NBUF \<Longrightarrow> \<not> (b_dev (bufs s b) = dev \<and> b_blockno (bufs s b) = n)"
  shows "bget dev n s = Panic ''bget: no buffers''"
proof -
  obtain xs where "bring_list s xs" by (rule bring_obtain [OF wf])
  note xs = bring_scans [OF this]
  have none: "List.find (\<lambda>b. b_dev (bufs s b) = dev \<and> b_blockno (bufs s b) = n) xs = None"
    using xs(1) new by (auto simp: find_None_iff)
  have "\<not> victim s b" if "b < NBUF" for b
    using that full [of b] buf_held(3) [OF wf, of b] by (cases "b \<in> H") (auto simp: victim_def)
  then have "List.find (victim s) (rev xs) = None"
    using xs(1) by (auto simp: find_None_iff)
  then show ?thesis using none bwfD(1) [OF wf]
    by (simp add: bget_def xs(2,3) crit_simps victim_def [abs_def])
qed

text \<open>
  \<open>loaded\<close> is the buffer \<^verbatim>\<open>bread\<close> returns for block \<open>n\<close>; it is dirty only if it was cached
  and dirty before.
\<close>

definition loaded :: "'a bstate_scheme \<Rightarrow> nat \<Rightarrow> nat \<Rightarrow> buf" where
  "loaded s n b = \<lparr>b_valid = True, b_dirty = (b_dirty (bufs s b)), b_dev = ROOTDEV,
     b_blockno = n, b_lock = held_by (my_pid s), b_refcnt = 1, b_data = view s n\<rparr>"

lemma loaded_simps [simp]:
  "b_valid (loaded s n b)" "b_dirty (loaded s n b) = b_dirty (bufs s b)"
  "b_dev (loaded s n b) = ROOTDEV" "b_blockno (loaded s n b) = n"
  "b_data (loaded s n b) = view s n" "b_lock (loaded s n b) = held_by (my_pid s)"
  "b_refcnt (loaded s n b) = 1"
  by (simp_all add: loaded_def)

definition cacheable :: "'a bstate_scheme \<Rightarrow> nat \<Rightarrow> nat \<Rightarrow> bool" where
  "cacheable s n b \<longleftrightarrow> caches s n b \<or> \<not> b_dirty (bufs s b) \<and> (\<forall>c<NBUF. \<not> caches s n c)"

definition held_blocks :: "nat set \<Rightarrow> 'a bstate_scheme \<Rightarrow> nat set" where
  "held_blocks H s = (\<lambda>b. b_blockno (bufs s b)) ` H"

lemma bread_eq:
  assumes wf: "bwf H s" and n: "n < disksize s" "n \<notin> held_blocks H s"
    and room: "\<exists>b<NBUF. b \<notin> H \<and> cacheable s n b"
  obtains b where "b < NBUF" "b \<notin> H" "cacheable s n b"
    "bread ROOTDEV n s = Ret (b, upd_buf b (\<lambda>_. loaded s n b) s)"
proof (cases "\<exists>b<NBUF. caches s n b")
  case True
  then obtain b where b: "b < NBUF" "caches s n b" by blast
  then have v: "b_valid (bufs s b)" "b_dev (bufs s b) = ROOTDEV" "b_blockno (bufs s b) = n"
    by (simp_all add: caches_def)
  have h: "b \<notin> H" using v(3) n(2) by (auto simp: held_blocks_def)
  have "bufs s b\<lparr>b_refcnt := 1, b_lock := held_by (my_pid s)\<rparr> = loaded s n b"
    using view_cached [OF bwfD(4) [OF wf] b] v by (simp add: loaded_def)
  then have "bread ROOTDEV n s = Ret (b, upd_buf b (\<lambda>_. loaded s n b) s)"
    using bget_cached [OF wf b(1) h _ v(2,3)] v(1) by (simp add: bread_def upd_buf_def)
  with b h show thesis by (intro that) (simp_all add: cacheable_def)
next
  case False
  with room obtain b where b: "b < NBUF" "b \<notin> H" "\<not> b_dirty (bufs s b)"
    by (auto simp: cacheable_def)
  have new: "\<not> (b_dev (bufs s b) = ROOTDEV \<and> b_blockno (bufs s b) = n)" if "b < NBUF" for b
    using False that bwfD(6) [OF wf that] by (auto simp: caches_def buf_ok_def)
  obtain c where c: "c < NBUF" "c \<notin> H" "\<not> b_dirty (bufs s c)"
    "bget ROOTDEV n s = Ret (c, upd_buf c (\<lambda>x. x\<lparr>b_dev := ROOTDEV, b_blockno := n,
       b_valid := False, b_dirty := False, b_refcnt := 1, b_lock := held_by (my_pid s)\<rparr>) s)"
    by (rule bget_recycle [OF wf b new])
  have eq: "bufs s c\<lparr>b_dev := Suc 0, b_blockno := n, b_dirty := False, b_refcnt := 1,
      b_lock := held_by (my_pid s), b_data := disk s n, b_valid := True\<rparr> = loaded s n c"
    using c(3) view_uncached [of s n] False by (simp add: loaded_def)
  have "bread ROOTDEV n s = Ret (c, upd_buf c (\<lambda>_. loaded s n c) s)"
    using c view_uncached [of s n] False n(1) bwfD(1) [OF wf]
    by (simp add: bread_def iderw_def Let_def upd_buf_def eq)
  with c False show thesis by (intro that) (simp_all add: cacheable_def)
qed

lemma buf_ok_upd_buf [simp]: "buf_ok (upd_buf b f s) h x = buf_ok s h x"
  by (simp add: buf_ok_def)

lemma bwf_set_buf:
  assumes wf: "bwf H s" and c: "c < NBUF" and x: "buf_ok s h x"
    and fresh: "\<And>b. b < NBUF \<Longrightarrow> b \<noteq> c \<Longrightarrow> \<not> caches s (b_blockno x) b"
    and H': "H' = (if h then insert c H else H - {c})"
  shows "bwf H' (upd_buf c (\<lambda>_. x) s)"
proof -
  let ?t = "upd_buf c (\<lambda>_. x) s"
  have new: "b_dev (bufs s b) \<noteq> b_dev x \<or> b_blockno (bufs s b) \<noteq> b_blockno x \<or> b_dev x = 0"
    if "b < NBUF" "b \<noteq> c" for b
    using fresh [OF that] bwfD(6) [OF wf that(1)] x by (auto simp: caches_def buf_ok_def)
  have "bufs_distinct ?t"
    unfolding bufs_distinct_def
  proof (intro allI impI)
    fix a b assume ab: "a < NBUF" "b < NBUF" "b_dev (bufs ?t a) = b_dev (bufs ?t b)"
      "b_dev (bufs ?t a) \<noteq> 0" "b_blockno (bufs ?t a) = b_blockno (bufs ?t b)"
    consider "a = b" | "a = c" "b \<noteq> c" | "a \<noteq> c" "b = c" | "a \<noteq> c" "b \<noteq> c" by blast
    then show "a = b"
    proof cases
      case 2
      then show ?thesis using ab new [of b] by simp
    next
      case 3
      then show ?thesis using ab new [of a] by simp
    next
      case 4
      then show ?thesis using ab(3-) bufs_distinctD [OF bwfD(4) [OF wf] ab(1,2)] by simp
    qed simp
  qed
  moreover have "buf_ok s (b \<in> H') (bufs ?t b)" if "b < NBUF" for b
    using bwfD(6) [OF wf that] x H' by (cases "b = c") (auto split: if_splits)
  ultimately show ?thesis
    using wf c H' by (auto simp: bwf_def bring_def bring_list_def disk_ok_def)
qed

lemma view_set_buf:
  assumes wf: "bwf H s" and c: "c < NBUF" and x: "b_valid x" "b_dev x = ROOTDEV"
    and fresh: "\<And>b. b < NBUF \<Longrightarrow> b \<noteq> c \<Longrightarrow> \<not> caches s (b_blockno x) b"
    and old: "caches s (b_blockno x) c \<or> c \<notin> H \<and> \<not> b_dirty (bufs s c)"
  shows "view (upd_buf c (\<lambda>_. x) s) = (view s)(b_blockno x := b_data x)"
proof
  fix m
  let ?t = "upd_buf c (\<lambda>_. x) s"
  have other: "caches ?t m b \<longleftrightarrow> (if b = c then b_blockno x = m else caches s m b)" for b m
    using x by (simp add: caches_def)
  consider "m = b_blockno x" | "m \<noteq> b_blockno x" "caches s m c" | "m \<noteq> b_blockno x" "\<not> caches s m c"
    by blast
  then show "view ?t m = ((view s)(b_blockno x := b_data x)) m"
  proof cases
    case 1
    have "List.find (caches ?t m) all_bufs = Some c"
    proof (rule find_unique)
      show "c \<in> set all_bufs" using c by simp
      show "caches ?t m c" using 1 by (simp add: other)
      show "b = c" if "b \<in> set all_bufs" "caches ?t m b" for b
        using that fresh [of b] 1 by (auto simp: other split: if_splits)
    qed
    with 1 show ?thesis by (simp add: view_def)
  next
    case 2
    have "\<not> caches ?t m b" if "b < NBUF" for b
    proof (cases "b = c")
      case True
      with 2 show ?thesis by (simp add: other)
    next
      case False
      have "b = c" if "caches s m b"
        by (rule bufs_distinctD [OF bwfD(4) [OF wf] \<open>b < NBUF\<close> c])
           (use that 2 in \<open>simp_all add: caches_def\<close>)
      with False show ?thesis by (auto simp: other)
    qed
    moreover have "view s m = disk s m"
      using view_clean [OF wf c, of m] 2 old by (auto simp: caches_def)
    ultimately show ?thesis using 2 by (simp add: view_uncached)
  next
    case 3
    then have "caches ?t m = caches s m" by (intro ext) (auto simp: other)
    moreover have "b \<noteq> c" if "List.find (caches s m) all_bufs = Some b" for b
      using find_SomeD [OF that] 3 by auto
    ultimately show ?thesis using 3 by (simp add: view_def split: option.split)
  qed
qed

lemma unique_cacher:
  assumes "bwf H s" and "c < NBUF" and "caches s n c" and "b < NBUF" and "b \<noteq> c"
  shows "\<not> caches s n b"
  using bufs_distinctD [OF bwfD(4) [OF assms(1)] assms(4,2)] assms(3,5) by (auto simp: caches_def)

lemma cacheable_fresh:
  "bwf H s \<Longrightarrow> c < NBUF \<Longrightarrow> cacheable s n c \<Longrightarrow> b < NBUF \<Longrightarrow> b \<noteq> c \<Longrightarrow> \<not> caches s n b"
  using unique_cacher [of H s c n b] by (auto simp: cacheable_def)

lemma dirty_caches:
  "bwf H s \<Longrightarrow> b < NBUF \<Longrightarrow> b_dirty (bufs s b) \<or> b \<in> H \<Longrightarrow> caches s (b_blockno (bufs s b)) b"
  using bwfD(6) [of H s b] by (auto simp: buf_ok_def caches_def)

lemma dirty_blocks_iff:
  "bwf H s \<Longrightarrow> n \<in> dirty_blocks s \<longleftrightarrow> (\<exists>b<NBUF. caches s n b \<and> b_dirty (bufs s b))"
  using dirty_caches [of H s] by (auto simp: dirty_blocks_def caches_def)

lemma dirty_blocks_cacheable:
  assumes "bwf H s" and "c < NBUF" and "cacheable s n c"
  shows "n \<in> dirty_blocks s \<longleftrightarrow> b_dirty (bufs s c)"
  using assms cacheable_fresh [OF assms] dirty_blocks_iff [OF assms(1), of n]
  by (auto simp: cacheable_def)

lemma view_not_dirty:
  assumes wf: "bwf H s" and n: "n \<notin> dirty_blocks s" "n \<notin> (\<lambda>b. b_blockno (bufs s b)) ` H"
  shows "view s n = disk s n"
proof (cases "\<exists>b<NBUF. caches s n b")
  case True
  then obtain b where b: "b < NBUF" "caches s n b" by blast
  then have "b \<notin> H" "\<not> b_dirty (bufs s b)"
    using n dirty_blocks_iff [OF wf, of n] by (auto simp: caches_def)
  with b show ?thesis using view_clean [OF wf] by blast
qed (auto simp: view_uncached)

text \<open>A clean buffer that is not held, which \<^verbatim>\<open>bget\<close> can recycle.\<close>

definition room :: "nat set \<Rightarrow> 'a bstate_scheme \<Rightarrow> bool" where
  "room H s \<longleftrightarrow> (\<exists>b<NBUF. b \<notin> H \<and> \<not> b_dirty (bufs s b))"

lemma held_caches:
  "n \<notin> held_blocks H s \<Longrightarrow> caches s n b \<Longrightarrow> b \<notin> H"
  by (auto simp: held_blocks_def caches_def)

lemma room_cacheable:
  "n \<notin> held_blocks H s \<Longrightarrow> room H s \<or> (\<exists>b<NBUF. caches s n b) \<Longrightarrow>
   \<exists>b<NBUF. b \<notin> H \<and> cacheable s n b"
  using held_caches [of n H s] by (auto simp: cacheable_def room_def)

lemma bread_ok:
  assumes wf: "bwf H s" and n: "n < disksize s" "n \<notin> held_blocks H s"
    and room: "room H s \<or> (\<exists>b<NBUF. caches s n b)"
  obtains b t where "bread ROOTDEV n s = Ret (b, t)" "bwf (insert b H) t" "b < NBUF" "b \<notin> H"
    "bufs t b = loaded s n b" "view t = view s" "disk t = disk s" "dwrites t = dwrites s"
    "bframe s t" "\<And>c. c \<noteq> b \<Longrightarrow> bufs t c = bufs s c" "dirty_blocks t = dirty_blocks s"
    "n \<in> dirty_blocks s \<longleftrightarrow> b_dirty (bufs s b)" "n \<notin> dirty_blocks s \<Longrightarrow> view s n = disk s n"
proof -
  obtain b where b: "b < NBUF" "b \<notin> H" "cacheable s n b"
    and eq: "bread ROOTDEV n s = Ret (b, upd_buf b (\<lambda>_. loaded s n b) s)"
    by (rule bread_eq [OF wf n room_cacheable [OF n(2) room]])
  let ?t = "upd_buf b (\<lambda>_. loaded s n b) s"
  note fresh = cacheable_fresh [OF wf b(1,3)]
  have wf': "bwf (insert b H) ?t"
    by (rule bwf_set_buf [OF wf b(1), where h = True])
       (use fresh n(1) length_view [OF wf n(1)] in \<open>simp_all add: buf_ok_def\<close>)
  have view: "view ?t = view s"
    using view_set_buf [OF wf b(1), of "loaded s n b"] fresh b(2,3) by (auto simp: cacheable_def)
  have dirty: "dirty_blocks ?t = dirty_blocks s"
    using b(3) by (auto simp: dirty_blocks_def cacheable_def caches_def image_iff)
  have clean: "view s n = disk s n" if "n \<notin> dirty_blocks s"
    using that b dirty_blocks_cacheable [OF wf b(1,3)] view_clean [OF wf b(1,2)]
      view_uncached [of s n] by (auto simp: cacheable_def)
  show thesis
    by (rule that [OF eq wf' b(1,2) _ view _ _ _ _ dirty dirty_blocks_cacheable [OF wf b(1,3)] clean])
       simp_all
qed

text \<open>Writing the data of a held buffer, or pinning it as \<^verbatim>\<open>log_write\<close> does.\<close>

lemma held_fresh:
  "bwf H s \<Longrightarrow> b \<in> H \<Longrightarrow> c < NBUF \<Longrightarrow> c \<noteq> b \<Longrightarrow> \<not> caches s (b_blockno (bufs s b)) c"
  using unique_cacher [of H s b _ c] dirty_caches [of H s b] buf_held(1) [of H s b] by blast

lemma upd_buf_const: "upd_buf b f s = upd_buf b (\<lambda>_. f (bufs s b)) s"
  by (simp add: upd_buf_def)

lemma held_modify:
  assumes wf: "bwf H s" and b: "b \<in> H"
    and f: "b_blockno (f (bufs s b)) = b_blockno (bufs s b)" "buf_ok s True (f (bufs s b))"
  shows "bwf H (upd_buf b f s)"
    and "view (upd_buf b f s) = (view s)(b_blockno (bufs s b) := b_data (f (bufs s b)))"
proof -
  let ?x = "f (bufs s b)"
  note lt = buf_held(1) [OF wf b]
  have fresh: "\<And>c. c < NBUF \<Longrightarrow> c \<noteq> b \<Longrightarrow> \<not> caches s (b_blockno ?x) c"
    using held_fresh [OF wf b] f(1) by simp
  have "bwf H (upd_buf b (\<lambda>_. ?x) s)"
    by (rule bwf_set_buf [OF wf lt f(2) fresh]) (use b in auto)
  then show "bwf H (upd_buf b f s)" by (simp add: upd_buf_const [of b f])
  have "view (upd_buf b (\<lambda>_. ?x) s) = (view s)(b_blockno ?x := b_data ?x)"
    by (rule view_set_buf [OF wf lt _ _ fresh])
       (use f(2) dirty_caches [OF wf lt] b f(1) in \<open>auto simp: buf_ok_def\<close>)
  then show "view (upd_buf b f s) = (view s)(b_blockno (bufs s b) := b_data (f (bufs s b)))"
    using f(1) by (simp add: upd_buf_const [of b f])
qed

lemma held_ok: "bwf H s \<Longrightarrow> b \<in> H \<Longrightarrow> buf_ok s True (bufs s b)"
  using bwfD(6) [of H s b] buf_held(1) [of H s b] by simp

lemma view_held: "bwf H s \<Longrightarrow> b \<in> H \<Longrightarrow> view s (b_blockno (bufs s b)) = b_data (bufs s b)"
  using view_cached [OF bwfD(4) buf_held(1)] dirty_caches buf_held(1) by blast

lemma set_data:
  assumes "bwf H s" and "b \<in> H" and "length d = BSIZE"
  shows "bwf H (upd_buf b (\<lambda>x. x\<lparr>b_data := d\<rparr>) s)"
    and "view (upd_buf b (\<lambda>x. x\<lparr>b_data := d\<rparr>) s) = (view s)(b_blockno (bufs s b) := d)"
  using held_modify [OF assms(1,2), of "\<lambda>x. x\<lparr>b_data := d\<rparr>"] held_ok [OF assms(1,2)] assms(3)
  by (simp_all add: buf_ok_def)

lemma set_dirty:
  assumes "bwf H s" and "b \<in> H"
  shows "bwf H (upd_buf b (\<lambda>x. x\<lparr>b_dirty := d\<rparr>) s)"
    and "view (upd_buf b (\<lambda>x. x\<lparr>b_dirty := d\<rparr>) s) = view s"
  using held_modify [OF assms(1,2), of "\<lambda>x. x\<lparr>b_dirty := d\<rparr>"] held_ok [OF assms(1,2)]
    view_held [OF assms]
  by (simp_all add: buf_ok_def fun_upd_idem)

lemma dirty_blocks_set_dirty:
  assumes wf: "bwf H s" and b: "b \<in> H"
  shows "dirty_blocks (upd_buf b (\<lambda>x. x\<lparr>b_dirty := d\<rparr>) s) =
    (if d then insert (b_blockno (bufs s b)) (dirty_blocks s)
     else dirty_blocks s - {b_blockno (bufs s b)})"
proof -
  let ?D = "{c. c < NBUF \<and> b_dirty (bufs s c)}" and ?n = "\<lambda>c. b_blockno (bufs s c)"
  have "?n c \<noteq> ?n b" if "c \<in> ?D - {b}" for c
    using that held_fresh [OF wf b, of c] dirty_caches [OF wf, of c] by auto
  then have "?n ` (?D - {b}) = ?n ` ?D - {?n b}" by (auto simp del: mem_Collect_eq)
  moreover have "dirty_blocks (upd_buf b (\<lambda>x. x\<lparr>b_dirty := d\<rparr>) s) =
      ?n ` (if d then insert b ?D else ?D - {b})"
    unfolding dirty_blocks_def using buf_held(1) [OF wf b] by (intro image_cong) auto
  ultimately show ?thesis by (simp add: dirty_blocks_def)
qed

text \<open>
  The disk as a whole seen through a write: \<^verbatim>\<open>bwrite\<close> makes the block of the buffer permanent
  and leaves the view unchanged.
\<close>

lemma bwf_disk:
  assumes wf: "bwf H s" and b: "b \<in> H" and d: "length d = BSIZE"
  shows "bwf H (s\<lparr>disk := (disk s)(b_blockno (bufs s b) := d), dwrites := w\<rparr>)"
proof -
  let ?n = "b_blockno (bufs s b)"
  let ?t = "s\<lparr>disk := (disk s)(?n := d), dwrites := w\<rparr>"
  have "buf_ok ?t (c \<in> H) (bufs s c)" if "c < NBUF" for c
  proof (cases "c \<in> H \<or> \<not> b_valid (bufs s c)")
    case True
    then show ?thesis using bwfD(6) [OF wf that] by (auto simp: buf_ok_def)
  next
    case False
    then have "b_blockno (bufs s c) \<noteq> ?n"
      using held_fresh [OF wf b that] b bwfD(6) [OF wf that] by (auto simp: caches_def buf_ok_def)
    with False show ?thesis using bwfD(6) [OF wf that] by (auto simp: buf_ok_def)
  qed
  with wf d show ?thesis
    by (auto simp: bwf_def bring_def bring_list_def bufs_distinct_def disk_ok_def)
qed

lemma bwrite_ok:
  assumes wf: "bwf H s" and b: "b \<in> H"
  obtains t where "bwrite b s = Ret t" "bwf H t" "view t = view s"
    "disk t = (disk s)(b_blockno (bufs s b) := b_data (bufs s b))"
    "dwrites t = dwrites s @ [(b_blockno (bufs s b), b_data (bufs s b))]"
    "bufs t = (bufs s)(b := bufs s b\<lparr>b_dirty := False\<rparr>)" "bframe s t"
    "dirty_blocks t = dirty_blocks s - {b_blockno (bufs s b)}"
proof -
  let ?n = "b_blockno (bufs s b)" and ?d = "b_data (bufs s b)"
  let ?u = "upd_buf b (\<lambda>x. x\<lparr>b_dirty := False\<rparr>) s"
  let ?t = "?u\<lparr>disk := (disk s)(?n := ?d), dwrites := dwrites s @ [(?n, ?d)]\<rparr>"
  have ok: "b_valid (bufs s b)" "b_dev (bufs s b) = ROOTDEV" "?n < disksize s" "length ?d = BSIZE"
    "b_lock (bufs s b) = held_by (my_pid s)"
    using held_ok [OF wf b] by (auto simp: buf_ok_def)
  have eq: "bufs s b\<lparr>b_dirty := False, b_valid := True\<rparr> = bufs s b\<lparr>b_dirty := False\<rparr>"
    using ok(1) by (cases "bufs s b") simp
  have bw: "bwrite b s = Ret ?t"
    using ok bwfD(1) [OF wf] by (simp add: bwrite_def iderw_def Let_def upd_buf_def eq)
  have wf': "bwf H ?t"
    using bwf_disk [OF set_dirty(1) [OF wf b] b, of ?d] ok(4) by simp
  have caches: "caches ?t = caches ?u" by (simp add: caches_def fun_eq_iff)
  have view: "view ?t m = view s m" for m
  proof (cases "m = ?n")
    case True
    then show ?thesis using view_held [OF wf' b] view_held [OF wf b] by simp
  next
    case False
    then have "view ?t m = view ?u m" by (simp add: view_def caches split: option.split)
    then show ?thesis by (simp add: set_dirty(2) [OF wf b])
  qed
  have dirty: "dirty_blocks ?t = dirty_blocks s - {?n}"
    using dirty_blocks_set_dirty [OF wf b, of False] by (simp add: dirty_blocks_def)
  show thesis by (rule that [OF bw wf' ext [OF view] _ _ _ _ dirty]) simp_all
qed

definition unheld :: "buf \<Rightarrow> buf" where
  "unheld x = x\<lparr>b_lock := sl_free, b_refcnt := 0\<rparr>"

lemma unheld_simps [simp]:
  "b_valid (unheld x) = b_valid x" "b_dirty (unheld x) = b_dirty x" "b_dev (unheld x) = b_dev x"
  "b_blockno (unheld x) = b_blockno x" "b_data (unheld x) = b_data x"
  "b_lock (unheld x) = sl_free" "b_refcnt (unheld x) = 0"
  by (simp_all add: unheld_def)

lemma brelse_eq:
  assumes wf: "bwf H s" and b: "b \<in> H"
  shows "brelse b s =
    Ret ((upd_buf b unheld (wakeup1 (ChSleep (SBuf b)) s))
      \<lparr>blinks := add_front HEAD b (unlink_node b (blinks s))\<rparr>)"
proof -
  have ok: "b_lock (bufs s b) = held_by (my_pid s)" "b_refcnt (bufs s b) = 1"
    using held_ok [OF wf b] by (auto simp: buf_ok_def)
  let ?w = "wakeup1 (ChSleep (SBuf b)) s"
  have k: "kernel_ok ?w" using bwfD(1) [OF wf] by simp
  have "brelse b s =
      obind (acquire LBcache (upd_buf b (\<lambda>x. x\<lparr>b_lock := sl_free\<rparr>) ?w)) (\<lambda>s3.
        release LBcache ((upd_buf b (\<lambda>x. x\<lparr>b_refcnt := 0\<rparr>) s3)
          \<lparr>blinks := add_front HEAD b (unlink_node b (blinks s3))\<rparr>))"
    using ok bwfD(1) [OF wf] k by (simp add: brelse_def upd_buf_def)
  then show ?thesis
    using k by (simp add: upd_buf_def unheld_def crit_simps kernel_ok_lock_map)
qed

lemma bring_move_front:
  assumes "bring_list s xs" and "b < NBUF"
    and "blinks t = add_front HEAD b (unlink_node b (blinks s))"
  shows "bring_list t (b # removeAll b xs)"
  using dlist_move_front [of "blinks s" HEAD xs HEAD b] assms by (auto simp: bring_list_def)

lemma buf_ok_bframe:
  "bframe s t \<Longrightarrow> kernel_ok s \<Longrightarrow> disk t = disk s \<Longrightarrow> buf_ok t h x = buf_ok s h x"
  by (simp add: buf_ok_def bframe_my_pid bframe_disksize)

lemma bufs_distinct_cong:
  assumes "\<And>b. b_dev (bufs t b) = b_dev (bufs s b)" "\<And>b. b_blockno (bufs t b) = b_blockno (bufs s b)"
  shows "bufs_distinct t = bufs_distinct s"
  unfolding bufs_distinct_def assms ..

lemma view_cong:
  assumes "\<And>b. b_valid (bufs t b) = b_valid (bufs s b)" "\<And>b. b_dev (bufs t b) = b_dev (bufs s b)"
    "\<And>b. b_blockno (bufs t b) = b_blockno (bufs s b)" "\<And>b. b_data (bufs t b) = b_data (bufs s b)"
    "disk t = disk s"
  shows "view t = view s"
proof
  fix m
  have "caches t m = caches s m" by (simp add: caches_def fun_eq_iff assms)
  then show "view t m = view s m" by (simp add: view_def assms split: option.split)
qed

lemma brelse_ok:
  assumes wf: "bwf H s" and b: "b \<in> H"
    and pinned: "b_dirty (bufs s b) \<or> b_data (bufs s b) = disk s (b_blockno (bufs s b))"
  obtains t where "brelse b s = Ret t" "bwf (H - {b}) t" "view t = view s" "disk t = disk s"
    "dwrites t = dwrites s" "bufs t = (bufs s)(b := unheld (bufs s b))" "bframe s t"
    "dirty_blocks t = dirty_blocks s" "\<And>xs. bring_list s xs \<Longrightarrow> bring_list t (b # removeAll b xs)"
proof -
  let ?u = "upd_buf b unheld (wakeup1 (ChSleep (SBuf b)) s)"
  let ?t = "?u\<lparr>blinks := add_front HEAD b (unlink_node b (blinks s))\<rparr>"
  note lt = buf_held(1) [OF wf b]
  have frame: "bframe s ?t" by simp
  have ring: "bring_list ?t (b # removeAll b xs)" if "bring_list s xs" for xs
    by (rule bring_move_front [OF that lt]) simp
  have "bufs_distinct ?t = bufs_distinct s" by (rule bufs_distinct_cong) simp_all
  moreover have "buf_ok ?t (c \<in> H - {b}) (bufs ?t c)" if "c < NBUF" for c
    using bwfD(6) [OF wf that] b pinned
    by (simp add: buf_ok_bframe [OF frame bwfD(1) [OF wf]]) (auto simp: buf_ok_def)
  moreover have "bring ?t" using bwfD(3) [OF wf] ring unfolding bring_def by blast
  ultimately have wf': "bwf (H - {b}) ?t"
    using wf by (auto simp: bwf_def disk_ok_def)
  have view: "view ?t = view s" by (rule view_cong) simp_all
  have "{c. c < NBUF \<and> b_dirty (bufs ?t c)} = {c. c < NBUF \<and> b_dirty (bufs s c)}" by auto
  then have dirty: "dirty_blocks ?t = dirty_blocks s"
    by (auto simp: dirty_blocks_def)
  show thesis
    by (rule that [OF brelse_eq [OF wf b] wf' view _ _ _ frame dirty ring]) simp_all
qed

lemma wakeup1_view [simp]: "view (wakeup1 c s) = view s" "dirty_blocks (wakeup1 c s) = dirty_blocks s"
  by (rule view_cong) (simp_all add: dirty_blocks_def)

lemma wakeup1_bwf [simp]: "bwf H (wakeup1 c s) = bwf H s"
proof (cases "kernel_ok s")
  case True
  then show ?thesis
    using bufs_distinct_cong [of "wakeup1 c s" s] buf_ok_bframe [of s "wakeup1 c s"]
    by (simp add: bwf_def bring_def bring_list_def disk_ok_def)
qed (simp add: bwf_def)

text \<open>
  \<^verbatim>\<open>binit\<close> runs before the first process: the cache it builds satisfies the invariant in every
  later state that has not touched it. The static \<^verbatim>\<open>bcache\<close> starts out zeroed.
\<close>

definition zero_buf :: buf where
  "zero_buf = \<lparr>b_valid = False, b_dirty = False, b_dev = 0, b_blockno = 0, b_lock = sl_free,
     b_refcnt = 0, b_data = []\<rparr>"

lemma binit_loop_ok:
  "dlist (blinks s) HEAD xs HEAD \<Longrightarrow> set xs \<subseteq> {..<b} \<Longrightarrow> b + n \<le> HEAD \<Longrightarrow> bufs s = (\<lambda>_. zero_buf) \<Longrightarrow>
   dlist (blinks (binit_loop b n s)) HEAD (rev [b..<b + n] @ xs) HEAD \<and>
   bufs (binit_loop b n s) = bufs s \<and> disk (binit_loop b n s) = disk s \<and>
   disksize (binit_loop b n s) = disksize s"
proof (induction n arbitrary: b s xs)
  case (Suc n)
  let ?s = "(initlock (LSleep (SBuf b)) s)\<lparr>blinks := add_front HEAD b (blinks s)\<rparr>"
  have "(bufs s)(b := bufs s b\<lparr>b_lock := \<lparr>sl_locked = False, sl_pid = 0\<rparr>\<rparr>) = bufs s"
    using Suc.prems(4) by (simp add: zero_buf_def sl_free_def fun_eq_iff)
  then have step: "binit_loop b (Suc n) s = binit_loop (Suc b) n ?s"
    by (simp add: initsleeplock_def initlock_def upd_buf_def)
  have ring: "dlist (blinks ?s) HEAD (b # xs) HEAD"
    using dlist_add_front [OF Suc.prems(1), of b] Suc.prems(2,3) by auto
  have up: "rev [b..<b + Suc n] @ xs = rev [Suc b..<Suc b + n] @ b # xs"
    by (simp add: upt_conv_Cons del: upt_Suc)
  have le: "set (b # xs) \<subseteq> {..<Suc b}" "Suc b + n \<le> HEAD" "bufs ?s = (\<lambda>_. zero_buf)"
    using Suc.prems(2-4) by (auto simp: initlock_def)
  show ?case
    using Suc.IH [OF ring le] unfolding step up by (simp add: initlock_def)
qed simp

lemma binit_disk:
  assumes "bufs s = (\<lambda>_. zero_buf)"
  shows "bring_list (binit s) (rev [0..<NBUF])" "bufs (binit s) = (\<lambda>_. zero_buf)"
    "disk (binit s) = disk s" "disksize (binit s) = disksize s"
proof -
  let ?s = "(initlock LBcache s)\<lparr>blinks := (blinks s)\<lparr>prv := (prv (blinks s))(HEAD := HEAD),
    nxt := (nxt (blinks s))(HEAD := HEAD)\<rparr>\<rparr>"
  have "binit s = binit_loop 0 NBUF ?s" by (simp add: binit_def Let_def initlock_def)
  moreover have "dlist (blinks ?s) HEAD [] HEAD" by (simp add: dlist_def)
  ultimately have "dlist (blinks (binit s)) HEAD (rev [0..<NBUF]) HEAD"
    and b: "bufs (binit s) = (\<lambda>_. zero_buf)" "disk (binit s) = disk s"
      "disksize (binit s) = disksize s"
    using binit_loop_ok [of ?s "[]" 0 NBUF] assms(1) by (simp_all add: initlock_def)
  then show "bring_list (binit s) (rev [0..<NBUF])"
    by (simp only: bring_list_def set_rev set_upt atLeast0LessThan simp_thms)
  show "bufs (binit s) = (\<lambda>_. zero_buf)" "disk (binit s) = disk s" "disksize (binit s) = disksize s"
    by (fact b)+
qed

lemma binit_ok:
  assumes "bufs s = (\<lambda>_. zero_buf)" and "disk_ok s" and "kernel_ok t"
    and "bufs t = bufs (binit s)" "blinks t = blinks (binit s)" "disk t = disk (binit s)"
    "disksize t = disksize (binit s)"
  shows "bwf {} t" and "view t = disk s" and "dirty_blocks t = {}"
proof -
  note b = binit_disk [OF assms(1)]
  have ring: "bring t" using b(1) assms(5) unfolding bring_def bring_list_def by metis
  have no: "\<not> caches t n c" for n c using assms(4) b by (simp add: caches_def zero_buf_def)
  show "bwf {} t"
    using ring assms b
    by (simp add: bwf_def bufs_distinct_def disk_ok_def buf_ok_def zero_buf_def)
  show "view t = disk s"
    using no assms(6) b by (intro ext) (simp add: view_uncached)
  show "dirty_blocks t = {}"
    using assms(4) b by (simp add: dirty_blocks_def zero_buf_def)
qed

lemma kernel_ok_initlock [simp]:
  "kernel_ok s \<Longrightarrow> initlock l s = s"
  by (simp add: initlock_def kernel_ok_lock_map flip: unlocked_def)

lemma binit_loop_mach:
  "kernel_ok s \<Longrightarrow> kernel_ok (binit_loop b n s) \<and> bstate.more (binit_loop b n s) = bstate.more s"
  by (induction n arbitrary: b s) (auto simp: initsleeplock_def upd_buf_def)

lemma binit_mach: "kernel_ok s \<Longrightarrow> kernel_ok (binit s) \<and> bstate.more (binit s) = bstate.more s"
  by (simp add: binit_def Let_def binit_loop_mach)

end
