(* ===== verification/Bytes.thy ===== *)
theory Bytes
  imports Prelude
begin

text \<open>
  Byte arrays: the \<^verbatim>\<open>memmove\<close> of a piece of an array, and integers as they lie in memory and on
  disk, least significant byte first. The log header, the superblock, the inodes, the
  indirect blocks and the directory entries are read and written with these.
\<close>

subsection \<open>Pieces of an array\<close>

definition slice :: "nat \<Rightarrow> nat \<Rightarrow> 'a list \<Rightarrow> 'a list" where
  "slice i n d = take n (drop i d)"

definition splice :: "nat \<Rightarrow> 'a list \<Rightarrow> 'a list \<Rightarrow> 'a list" where
  "splice i xs d = take i d @ xs @ drop (i + length xs) d"

lemma length_slice [simp]: "i + n \<le> length d \<Longrightarrow> length (slice i n d) = n"
  by (simp add: slice_def)

lemma length_splice [simp]: "i + length xs \<le> length d \<Longrightarrow> length (splice i xs d) = length d"
  by (simp add: splice_def)

lemma nth_splice:
  "i + length xs \<le> length d \<Longrightarrow> j < length d \<Longrightarrow>
   splice i xs d ! j = (if i \<le> j \<and> j < i + length xs then xs ! (j - i) else d ! j)"
  by (auto simp: splice_def nth_append min_def add.commute)

lemma nth_slice: "i + n \<le> length d \<Longrightarrow> j < n \<Longrightarrow> slice i n d ! j = d ! (i + j)"
  by (simp add: slice_def)

lemma slice_splice_same [simp]:
  "i + length xs \<le> length d \<Longrightarrow> n = length xs \<Longrightarrow> slice i n (splice i xs d) = xs"
  by (simp add: slice_def splice_def)

lemma slice_splice_other:
  "i + length xs \<le> length d \<Longrightarrow> j + n \<le> length d \<Longrightarrow> j + n \<le> i \<or> i + length xs \<le> j \<Longrightarrow>
   slice j n (splice i xs d) = slice j n d"
  by (rule nth_equalityI) (auto simp: nth_slice nth_splice)

subsection \<open>Little-endian integers\<close>

fun le_word :: "uchar list \<Rightarrow> 'a::len word" where
  "le_word [] = 0"
| "le_word (b # bs) = ucast b OR push_bit 8 (le_word bs)"

definition le16 :: "ushort \<Rightarrow> uchar list" where
  "le16 w = [ucast w, ucast (drop_bit 8 w)]"

definition le32 :: "uint \<Rightarrow> uchar list" where
  "le32 w = [ucast w, ucast (drop_bit 8 w), ucast (drop_bit 16 w), ucast (drop_bit 24 w)]"

definition get16 :: "nat \<Rightarrow> uchar list \<Rightarrow> ushort" where
  "get16 i d = le_word (slice i 2 d)"

definition get32 :: "nat \<Rightarrow> uchar list \<Rightarrow> uint" where
  "get32 i d = le_word (slice i 4 d)"

definition put16 :: "nat \<Rightarrow> ushort \<Rightarrow> uchar list \<Rightarrow> uchar list" where
  "put16 i w d = splice i (le16 w) d"

definition put32 :: "nat \<Rightarrow> uint \<Rightarrow> uchar list \<Rightarrow> uchar list" where
  "put32 i w d = splice i (le32 w) d"

lemma length_le [simp]: "length (le16 v) = 2" "length (le32 w) = 4"
  by (simp_all add: le16_def le32_def)

lemma le_word_le16 [simp]: "le_word (le16 w) = w"
  unfolding le16_def
  by (rule bit_word_eqI) (auto simp: bit_simps)

lemma le_word_le32 [simp]: "le_word (le32 w) = w"
proof (rule bit_word_eqI)
  fix n assume "n < LENGTH(32)"
  then show "bit (le_word (le32 w) :: uint) n = bit w n"
    by (cases "n < 24"; cases "n < 16") (auto simp: le32_def bit_simps)
qed

lemma length_put [simp]:
  "i + 2 \<le> length d \<Longrightarrow> length (put16 i v d) = length d"
  "i + 4 \<le> length d \<Longrightarrow> length (put32 i w d) = length d"
  by (simp_all add: put16_def put32_def)

lemma get_put_same [simp]:
  "i + 2 \<le> length d \<Longrightarrow> get16 i (put16 i v d) = v"
  "i + 4 \<le> length d \<Longrightarrow> get32 i (put32 i w d) = w"
  by (simp_all add: get16_def put16_def get32_def put32_def)

lemma get_put_other:
  "i + 2 \<le> length d \<Longrightarrow> j + 2 \<le> length d \<Longrightarrow> j + 2 \<le> i \<or> i + 2 \<le> j \<Longrightarrow>
   get16 j (put16 i v d) = get16 j d"
  "i + 4 \<le> length d \<Longrightarrow> j + 4 \<le> length d \<Longrightarrow> j + 4 \<le> i \<or> i + 4 \<le> j \<Longrightarrow>
   get32 j (put32 i w d) = get32 j d"
  by (simp_all add: get16_def put16_def get32_def put32_def slice_splice_other)

lemma get_splice_other:
  "i + length xs \<le> length d \<Longrightarrow> j + 2 \<le> length d \<Longrightarrow> j + 2 \<le> i \<or> i + length xs \<le> j \<Longrightarrow>
   get16 j (splice i xs d) = get16 j d"
  "i + length xs \<le> length d \<Longrightarrow> j + 4 \<le> length d \<Longrightarrow> j + 4 \<le> i \<or> i + length xs \<le> j \<Longrightarrow>
   get32 j (splice i xs d) = get32 j d"
  by (simp_all add: get16_def get32_def slice_splice_other)

end
