(* ===== verification/Log.thy ===== *)
theory Log
  imports Bio Bytes
begin

text \<open>
  The redo log of the file system (\<^verbatim>\<open>xv6-public/log.c\<close>) with \<^verbatim>\<open>readsb\<close> of \<^verbatim>\<open>xv6-public/fs.c\<close>, which
  it uses to find the log on the disk. The theory shows that \<^verbatim>\<open>commit\<close> makes the logged blocks
  permanent, and that at whatever disk write a crash happens, recovery leaves all or none of
  the transaction's blocks.
\<close>

subsection \<open>State\<close>

text \<open>
  \<^verbatim>\<open>struct log\<close> with its \<^verbatim>\<open>struct logheader\<close>; \<open>lh_block\<close> is the array \<^verbatim>\<open>lh.block\<close> of
  \<open>LOGSIZE\<close> elements.
\<close>

record lstate = bstate +
  l_start :: nat
  l_size :: int
  l_outstanding :: int
  l_committing :: bool
  l_dev :: nat
  lh_n :: int
  lh_block :: "nat list"

record superblock =
  sb_size :: uint
  sb_nblocks :: uint
  sb_ninodes :: uint
  sb_nlog :: uint
  sb_logstart :: uint
  sb_inodestart :: uint
  sb_bmapstart :: uint

definition read_sb :: "uchar list \<Rightarrow> superblock" where
  "read_sb d = \<lparr>sb_size = get32 0 d, sb_nblocks = get32 4 d, sb_ninodes = get32 8 d,
     sb_nlog = get32 12 d, sb_logstart = get32 16 d, sb_inodestart = get32 20 d,
     sb_bmapstart = get32 24 d\<rparr>"

definition readsb :: "nat \<Rightarrow> 'a bstate_scheme \<Rightarrow> (superblock \<times> 'a bstate_scheme) outcome" where
  "readsb dev s =
     obind (bread dev 1 s) (\<lambda>(b, s1).
     let sb = read_sb (b_data (bufs s1 b))
     in obind (brelse b s1) (\<lambda>s2. Ret (sb, s2)))"

subsection \<open>Operations\<close>

text \<open>
  The loops over the entries take the index of the next entry and the number of entries left.
  An index beyond the array \<^verbatim>\<open>lh.block\<close> is an error of its own.
\<close>

fun install_loop :: "nat \<Rightarrow> nat \<Rightarrow> 'a lstate_scheme \<Rightarrow> 'a lstate_scheme outcome" where
  "install_loop tail 0 s = Ret s"
| "install_loop tail (Suc k) s =
     (if tail \<ge> length (lh_block s) then Panic ''lh.block: out of bounds''
      else
     obind (bread (l_dev s) (l_start s + tail + 1) s) (\<lambda>(lbuf, s1).
     obind (bread (l_dev s1) (lh_block s1 ! tail) s1) (\<lambda>(dbuf, s2).
     obind (bwrite dbuf (upd_buf dbuf (\<lambda>x. x\<lparr>b_data := b_data (bufs s2 lbuf)\<rparr>) s2)) (\<lambda>s3.
     obind (brelse lbuf s3) (\<lambda>s4.
     obind (brelse dbuf s4) (\<lambda>s5.
     install_loop (Suc tail) k s5))))))"

definition install_trans :: "'a lstate_scheme \<Rightarrow> 'a lstate_scheme outcome" where
  "install_trans s = install_loop 0 (nat (lh_n s)) s"

fun get_blocks :: "nat \<Rightarrow> nat \<Rightarrow> uchar list \<Rightarrow> nat list \<Rightarrow> nat list outcome" where
  "get_blocks i 0 d bl = Ret bl"
| "get_blocks i (Suc k) d bl =
     (if i \<ge> length bl then Panic ''lh.block: out of bounds''
      else get_blocks (Suc i) k d (bl[i := unat (get32 (4 + 4 * i) d)]))"

definition read_head :: "'a lstate_scheme \<Rightarrow> 'a lstate_scheme outcome" where
  "read_head s =
     obind (bread (l_dev s) (l_start s) s) (\<lambda>(b, s1).
     let d = b_data (bufs s1 b); s2 = s1\<lparr>lh_n := sint (get32 0 d)\<rparr>
     in obind (get_blocks 0 (nat (lh_n s2)) d (lh_block s2)) (\<lambda>bl.
        brelse b (s2\<lparr>lh_block := bl\<rparr>)))"

fun put_blocks :: "nat \<Rightarrow> nat \<Rightarrow> nat list \<Rightarrow> uchar list \<Rightarrow> uchar list outcome" where
  "put_blocks i 0 bl d = Ret d"
| "put_blocks i (Suc k) bl d =
     (if i \<ge> length bl then Panic ''lh.block: out of bounds''
      else put_blocks (Suc i) k bl (put32 (4 + 4 * i) (of_nat (bl ! i)) d))"

definition write_head :: "'a lstate_scheme \<Rightarrow> 'a lstate_scheme outcome" where
  "write_head s =
     obind (bread (l_dev s) (l_start s) s) (\<lambda>(b, s1).
     let d = put32 0 (of_int (lh_n s1)) (b_data (bufs s1 b))
     in obind (put_blocks 0 (nat (lh_n s1)) (lh_block s1) d) (\<lambda>d'.
        obind (bwrite b (upd_buf b (\<lambda>x. x\<lparr>b_data := d'\<rparr>) s1)) (\<lambda>s2.
        brelse b s2)))"

definition recover_from_log :: "'a lstate_scheme \<Rightarrow> 'a lstate_scheme outcome" where
  "recover_from_log s =
     obind (read_head s) (\<lambda>s1.
     obind (install_trans s1) (\<lambda>s2.
     write_head (s2\<lparr>lh_n := 0\<rparr>)))"

definition initlog :: "nat \<Rightarrow> 'a lstate_scheme \<Rightarrow> 'a lstate_scheme outcome" where
  "initlog dev s =
     (if 4 + 4 * LOGSIZE \<ge> BSIZE then Panic ''initlog: too big logheader''
      else obind (readsb dev (initlock LLog s)) (\<lambda>(sb, s1).
           recover_from_log (s1\<lparr>l_start := unat (sb_logstart sb), l_size := sint (sb_nlog sb),
             l_dev := dev\<rparr>)))"

definition begin_op :: "'a lstate_scheme \<Rightarrow> 'a lstate_scheme outcome" where
  "begin_op s =
     obind (acquire LLog s) (\<lambda>s1.
       if l_committing s1 then Wait ''sleep''
       else if lh_n s1 + (l_outstanding s1 + 1) * int MAXOPBLOCKS > int LOGSIZE then Wait ''sleep''
       else release LLog (s1\<lparr>l_outstanding := l_outstanding s1 + 1\<rparr>))"

fun write_loop :: "nat \<Rightarrow> nat \<Rightarrow> 'a lstate_scheme \<Rightarrow> 'a lstate_scheme outcome" where
  "write_loop tail 0 s = Ret s"
| "write_loop tail (Suc k) s =
     (if tail \<ge> length (lh_block s) then Panic ''lh.block: out of bounds''
      else
     obind (bread (l_dev s) (l_start s + tail + 1) s) (\<lambda>(tob, s1).
     obind (bread (l_dev s1) (lh_block s1 ! tail) s1) (\<lambda>(from, s2).
     obind (bwrite tob (upd_buf tob (\<lambda>x. x\<lparr>b_data := b_data (bufs s2 from)\<rparr>) s2)) (\<lambda>s3.
     obind (brelse from s3) (\<lambda>s4.
     obind (brelse tob s4) (\<lambda>s5.
     write_loop (Suc tail) k s5))))))"

definition write_log :: "'a lstate_scheme \<Rightarrow> 'a lstate_scheme outcome" where
  "write_log s = write_loop 0 (nat (lh_n s)) s"

definition commit :: "'a lstate_scheme \<Rightarrow> 'a lstate_scheme outcome" where
  "commit s =
     (if lh_n s > 0
      then obind (write_log s) (\<lambda>s1.
           obind (write_head s1) (\<lambda>s2.
           obind (install_trans s2) (\<lambda>s3.
           write_head (s3\<lparr>lh_n := 0\<rparr>))))
      else Ret s)"

definition end_op :: "'a lstate_scheme \<Rightarrow> 'a lstate_scheme outcome" where
  "end_op s =
     obind (acquire LLog s) (\<lambda>s1.
     let s2 = s1\<lparr>l_outstanding := l_outstanding s1 - 1\<rparr>
     in if l_committing s2 then Panic ''log.committing''
        else if l_outstanding s2 = 0
        then obind (release LLog (s2\<lparr>l_committing := True\<rparr>)) (\<lambda>s3.
             obind (commit s3) (\<lambda>s4.
             obind (acquire LLog s4) (\<lambda>s5.
             obind (wakeup ChLog (s5\<lparr>l_committing := False\<rparr>)) (\<lambda>s6.
             release LLog s6))))
        else obind (wakeup ChLog s2) (\<lambda>s3. release LLog s3))"

text \<open>The search of \<^verbatim>\<open>log_write\<close> for the block, from entry \<open>i\<close> on with \<open>k\<close> entries left.\<close>

fun find_entry :: "nat \<Rightarrow> nat \<Rightarrow> nat list \<Rightarrow> nat \<Rightarrow> nat" where
  "find_entry i 0 bl n = i"
| "find_entry i (Suc k) bl n = (if bl ! i = n then i else find_entry (Suc i) k bl n)"

definition log_write :: "nat \<Rightarrow> 'a lstate_scheme \<Rightarrow> 'a lstate_scheme outcome" where
  "log_write b s =
     (if lh_n s \<ge> int LOGSIZE \<or> lh_n s \<ge> l_size s - 1 then Panic ''too big a transaction''
      else if l_outstanding s < 1 then Panic ''log_write outside of trans''
      else obind (acquire LLog s) (\<lambda>s1.
           let i = find_entry 0 (nat (lh_n s1)) (lh_block s1) (b_blockno (bufs s1 b));
               s2 = s1\<lparr>lh_block := (lh_block s1)[i := b_blockno (bufs s1 b)]\<rparr>;
               s3 = (if int i = lh_n s2 then s2\<lparr>lh_n := lh_n s2 + 1\<rparr> else s2)
           in release LLog (upd_buf b (\<lambda>x. x\<lparr>b_dirty := True\<rparr>) s3)))"

subsection \<open>The log and the cache\<close>

text \<open>The fields of the log are no concern of the cache, and the cache leaves them alone.\<close>

lemma lstate_kernel [simp]:
  "kernel_ok (s\<lparr>l_start := x1\<rparr>) = kernel_ok s" "kernel_ok (s\<lparr>l_size := x2\<rparr>) = kernel_ok s" "kernel_ok (s\<lparr>l_outstanding := x3\<rparr>) = kernel_ok s"
  "kernel_ok (s\<lparr>l_committing := x4\<rparr>) = kernel_ok s" "kernel_ok (s\<lparr>l_dev := x5\<rparr>) = kernel_ok s"
  "kernel_ok (s\<lparr>lh_n := x6\<rparr>) = kernel_ok s" "kernel_ok (s\<lparr>lh_block := x7\<rparr>) = kernel_ok s"
  "my_pid (s\<lparr>l_start := x1\<rparr>) = my_pid s" "my_pid (s\<lparr>l_size := x2\<rparr>) = my_pid s" "my_pid (s\<lparr>l_outstanding := x3\<rparr>) = my_pid s"
  "my_pid (s\<lparr>l_committing := x4\<rparr>) = my_pid s" "my_pid (s\<lparr>l_dev := x5\<rparr>) = my_pid s"
  "my_pid (s\<lparr>lh_n := x6\<rparr>) = my_pid s" "my_pid (s\<lparr>lh_block := x7\<rparr>) = my_pid s"
  by (simp_all add: kernel_ok_def cli_ok_def my_pid_def)

lemma lstate_caches [simp]:
  "caches (s\<lparr>l_start := x1\<rparr>) = caches s" "caches (s\<lparr>l_size := x2\<rparr>) = caches s" "caches (s\<lparr>l_outstanding := x3\<rparr>) = caches s"
  "caches (s\<lparr>l_committing := x4\<rparr>) = caches s" "caches (s\<lparr>l_dev := x5\<rparr>) = caches s"
  "caches (s\<lparr>lh_n := x6\<rparr>) = caches s" "caches (s\<lparr>lh_block := x7\<rparr>) = caches s"
  "dirty_blocks (s\<lparr>l_start := x1\<rparr>) = dirty_blocks s" "dirty_blocks (s\<lparr>l_size := x2\<rparr>) = dirty_blocks s" "dirty_blocks (s\<lparr>l_outstanding := x3\<rparr>) = dirty_blocks s"
  "dirty_blocks (s\<lparr>l_committing := x4\<rparr>) = dirty_blocks s" "dirty_blocks (s\<lparr>l_dev := x5\<rparr>) = dirty_blocks s"
  "dirty_blocks (s\<lparr>lh_n := x6\<rparr>) = dirty_blocks s" "dirty_blocks (s\<lparr>lh_block := x7\<rparr>) = dirty_blocks s"
  "room H (s\<lparr>l_start := x1\<rparr>) = room H s" "room H (s\<lparr>l_size := x2\<rparr>) = room H s" "room H (s\<lparr>l_outstanding := x3\<rparr>) = room H s"
  "room H (s\<lparr>l_committing := x4\<rparr>) = room H s" "room H (s\<lparr>l_dev := x5\<rparr>) = room H s"
  "room H (s\<lparr>lh_n := x6\<rparr>) = room H s" "room H (s\<lparr>lh_block := x7\<rparr>) = room H s"
  "held_blocks H (s\<lparr>l_start := x1\<rparr>) = held_blocks H s" "held_blocks H (s\<lparr>l_size := x2\<rparr>) = held_blocks H s" "held_blocks H (s\<lparr>l_outstanding := x3\<rparr>) = held_blocks H s"
  "held_blocks H (s\<lparr>l_committing := x4\<rparr>) = held_blocks H s" "held_blocks H (s\<lparr>l_dev := x5\<rparr>) = held_blocks H s"
  "held_blocks H (s\<lparr>lh_n := x6\<rparr>) = held_blocks H s" "held_blocks H (s\<lparr>lh_block := x7\<rparr>) = held_blocks H s"
  by (simp_all add: caches_def fun_eq_iff dirty_blocks_def room_def held_blocks_def)

lemma lstate_view [simp]:
  "view (s\<lparr>l_start := x1\<rparr>) = view s" "view (s\<lparr>l_size := x2\<rparr>) = view s" "view (s\<lparr>l_outstanding := x3\<rparr>) = view s"
  "view (s\<lparr>l_committing := x4\<rparr>) = view s" "view (s\<lparr>l_dev := x5\<rparr>) = view s"
  "view (s\<lparr>lh_n := x6\<rparr>) = view s" "view (s\<lparr>lh_block := x7\<rparr>) = view s"
  by (simp_all add: view_def fun_eq_iff split: option.split)

lemma lstate_bwf [simp]:
  "bwf H (s\<lparr>l_start := x1\<rparr>) = bwf H s" "bwf H (s\<lparr>l_size := x2\<rparr>) = bwf H s" "bwf H (s\<lparr>l_outstanding := x3\<rparr>) = bwf H s"
  "bwf H (s\<lparr>l_committing := x4\<rparr>) = bwf H s" "bwf H (s\<lparr>l_dev := x5\<rparr>) = bwf H s"
  "bwf H (s\<lparr>lh_n := x6\<rparr>) = bwf H s" "bwf H (s\<lparr>lh_block := x7\<rparr>) = bwf H s"
  by (simp_all add: bwf_def bring_def bring_list_def bufs_distinct_def disk_ok_def buf_ok_def)

lemma wakeup1_lstate [simp]:
  "l_start (wakeup1 c s) = l_start s" "l_size (wakeup1 c s) = l_size s" "l_dev (wakeup1 c s) = l_dev s"
  "l_outstanding (wakeup1 c s) = l_outstanding s" "l_committing (wakeup1 c s) = l_committing s"
  "lh_n (wakeup1 c s) = lh_n s" "lh_block (wakeup1 c s) = lh_block s"
  by (simp_all add: wakeup1_def)

lemma bframe_log:
  fixes s t :: "'a lstate_scheme"
  assumes "bframe s t"
  shows "l_start t = l_start s" "l_size t = l_size s" "l_outstanding t = l_outstanding s"
    "l_committing t = l_committing s" "l_dev t = l_dev s" "lh_n t = lh_n s"
    "lh_block t = lh_block s" "lstate.more t = lstate.more s"
  using assms by (cases s; cases t; simp add: bframe_def)+

lemma room_card:
  assumes wf: "bwf H s" and few: "card (dirty_blocks s) + card H < NBUF"
  shows "room H s"
proof (rule ccontr)
  let ?D = "{b. b < NBUF \<and> b_dirty (bufs s b)}"
  assume "\<not> room H s"
  then have "{..<NBUF} \<subseteq> H \<union> ?D" by (auto simp: room_def)
  moreover have fin: "finite H" "finite ?D"
    using bwfD(2) [OF wf] by (auto intro: finite_subset)
  ultimately have "card {..<NBUF} \<le> card H + card ?D"
    by (meson card_Un_le card_mono finite_UnI order_trans)
  moreover have "inj_on (\<lambda>b. b_blockno (bufs s b)) ?D"
  proof (rule inj_onI)
    fix a b assume "a \<in> ?D" "b \<in> ?D" "b_blockno (bufs s a) = b_blockno (bufs s b)"
    then show "a = b"
      using dirty_caches [OF wf, of a] dirty_caches [OF wf, of b] unique_cacher [OF wf, of a _ b]
      by auto
  qed
  ultimately show False using few by (simp add: dirty_blocks_def card_image)
qed

text \<open>Two blocks read one after the other, as the loops of the log do.\<close>

lemma two_breads:
  assumes wf: "bwf {} s" and n: "n1 < disksize s" "n2 < disksize s" "n1 \<noteq> n2"
    and few: "card (dirty_blocks s) < NBUF" "n2 \<in> dirty_blocks s \<or> card (dirty_blocks s) + 1 < NBUF"
  obtains a b s1 t where "bread ROOTDEV n1 s = Ret (a, s1)" "bread ROOTDEV n2 s1 = Ret (b, t)"
    "bframe s s1" "bwf {a, b} t" "a \<noteq> b" "b_blockno (bufs t a) = n1" "b_blockno (bufs t b) = n2"
    "b_data (bufs t a) = view s n1" "b_data (bufs t b) = view s n2" "view t = view s"
    "disk t = disk s" "dwrites t = dwrites s" "bframe s t" "dirty_blocks t = dirty_blocks s"
    "b_dirty (bufs t a) \<longleftrightarrow> n1 \<in> dirty_blocks s" "b_dirty (bufs t b) \<longleftrightarrow> n2 \<in> dirty_blocks s"
proof -
  have room0: "room {} s \<or> (\<exists>b<NBUF. caches s n1 b)"
    using room_card [OF wf] few by simp
  have free0: "n1 \<notin> held_blocks {} s" by (simp add: held_blocks_def)
  obtain a s1 where a: "bread ROOTDEV n1 s = Ret (a, s1)" "bwf {a} s1" "a < NBUF"
    "bufs s1 a = loaded s n1 a" "view s1 = view s" "disk s1 = disk s" "dwrites s1 = dwrites s"
    "bframe s s1" "\<And>c. c \<noteq> a \<Longrightarrow> bufs s1 c = bufs s c" "dirty_blocks s1 = dirty_blocks s"
    "n1 \<in> dirty_blocks s \<longleftrightarrow> b_dirty (bufs s a)"
    by (rule bread_ok [OF wf n(1) free0 room0]) auto
  have free: "n2 \<notin> held_blocks {a} s1" using a(4) n(3) by (simp add: held_blocks_def)
  have n2: "n2 < disksize s1" using bframe_disksize [OF a(8)] n(2) by simp
  have room: "room {a} s1 \<or> (\<exists>b<NBUF. caches s1 n2 b)"
    using few(2) dirty_blocks_iff [OF a(2), of n2] room_card [OF a(2)] a(10) by auto
  obtain b t where b: "bread ROOTDEV n2 s1 = Ret (b, t)" "bwf {b, a} t" "b \<notin> {a}"
    "bufs t b = loaded s1 n2 b" "view t = view s1" "disk t = disk s1" "dwrites t = dwrites s1"
    "bframe s1 t" "\<And>c. c \<noteq> b \<Longrightarrow> bufs t c = bufs s1 c" "dirty_blocks t = dirty_blocks s1"
    "n2 \<in> dirty_blocks s1 \<longleftrightarrow> b_dirty (bufs s1 b)"
    by (rule bread_ok [OF a(2) n2 free room]) auto
  show thesis
    by (rule that [OF a(1) b(1) a(8)])
       (use a b bframe_trans [OF a(8) b(8)] in \<open>auto simp: insert_commute\<close>)
qed

text \<open>The contents of \<open>y\<close> written to the disk through \<open>x\<close>, and both released.\<close>

lemma copy_and_release:
  assumes wf: "bwf {x, y} s" and xy: "x \<noteq> y"
    and pinned: "b_dirty (bufs s y) \<or> b_data (bufs s y) = disk s (b_blockno (bufs s y))"
  defines "n \<equiv> b_blockno (bufs s x)" and "d \<equiv> b_data (bufs s y)"
  obtains s3 s4 t where "bwrite x (upd_buf x (\<lambda>b. b\<lparr>b_data := d\<rparr>) s) = Ret s3"
    "brelse y s3 = Ret s4" "brelse x s4 = Ret t" "bwf {} t" "view t = (view s)(n := d)"
    "disk t = (disk s)(n := d)" "dwrites t = dwrites s @ [(n, d)]" "bframe s t"
    "dirty_blocks t = dirty_blocks s - {n}"
proof -
  let ?s2 = "upd_buf x (\<lambda>b. b\<lparr>b_data := d\<rparr>) s"
  have len: "length d = BSIZE" using held_ok [OF wf, of y] by (simp add: d_def buf_ok_def)
  have wf2: "bwf {x, y} ?s2" and view2: "view ?s2 = (view s)(n := d)"
    using set_data [OF wf, of x d] len by (simp_all add: n_def)
  obtain s3 where s3: "bwrite x ?s2 = Ret s3" "bwf {x, y} s3" "view s3 = view ?s2"
    "disk s3 = (disk ?s2)(b_blockno (bufs ?s2 x) := b_data (bufs ?s2 x))"
    "dwrites s3 = dwrites ?s2 @ [(b_blockno (bufs ?s2 x), b_data (bufs ?s2 x))]"
    "bufs s3 = (bufs ?s2)(x := bufs ?s2 x\<lparr>b_dirty := False\<rparr>)" "bframe ?s2 s3"
    "dirty_blocks s3 = dirty_blocks ?s2 - {b_blockno (bufs ?s2 x)}"
    by (rule bwrite_ok [OF wf2, of x]) auto
  have dirty2: "dirty_blocks ?s2 = dirty_blocks s" by (auto simp: dirty_blocks_def image_iff)
  have ne: "b_blockno (bufs s y) \<noteq> n"
    using held_fresh [OF wf, of x y] dirty_caches [OF wf, of y] buf_held(1) [OF wf, of y] xy
    by (auto simp: n_def)
  have y3: "b_dirty (bufs s3 y) \<or> b_data (bufs s3 y) = disk s3 (b_blockno (bufs s3 y))"
    using pinned xy ne s3(4,6) by (auto simp: n_def)
  obtain s4 where s4: "brelse y s3 = Ret s4" "bwf ({x, y} - {y}) s4" "view s4 = view s3"
    "disk s4 = disk s3" "dwrites s4 = dwrites s3" "bufs s4 = (bufs s3)(y := unheld (bufs s3 y))"
    "bframe s3 s4" "dirty_blocks s4 = dirty_blocks s3"
    by (rule brelse_ok [OF s3(2) _ y3]) auto
  have wf4: "bwf {x} s4" using s4(2) xy by (simp add: insert_Diff_if)
  have x4: "b_dirty (bufs s4 x) \<or> b_data (bufs s4 x) = disk s4 (b_blockno (bufs s4 x))"
    using xy s3(4,6) s4(4,6) by simp
  obtain t where t: "brelse x s4 = Ret t" "bwf ({x} - {x}) t" "view t = view s4"
    "disk t = disk s4" "dwrites t = dwrites s4" "bframe s4 t" "dirty_blocks t = dirty_blocks s4"
    by (rule brelse_ok [OF wf4 _ x4]) auto
  have "bframe s t" using bframe_trans [OF bframe_trans [OF s3(7) s4(7)] t(6)]
    by (simp add: bframe_def upd_buf_def)
  then show thesis
    by (intro that [OF s3(1) s4(1) t(1)]) (use t s3 s4 view2 dirty2 in \<open>simp_all add: n_def\<close>)
qed

subsection \<open>Sequences of disk writes\<close>

definition replay :: "(nat \<Rightarrow> 'b) \<Rightarrow> (nat \<times> 'b) list \<Rightarrow> nat \<Rightarrow> 'b" where
  "replay d ws = foldl (\<lambda>d (n, x). d(n := x)) d ws"

lemma replay_simps [simp]:
  "replay d [] = d" "replay d ((n, x) # ws) = replay (d(n := x)) ws"
  "replay d (ws @ [(n, x)]) = (replay d ws)(n := x)"
  by (simp_all add: replay_def)

lemma replay_append: "replay d (ws @ vs) = replay (replay d ws) vs"
  by (simp add: replay_def)

lemma replay_other: "n \<notin> fst ` set ws \<Longrightarrow> replay d ws n = d n"
  by (induction ws arbitrary: d) auto

lemma replay_last:
  assumes "\<And>x. (n, x) \<in> set ws \<Longrightarrow> x = y" and "n \<in> fst ` set ws"
  shows "replay d ws n = y"
  using assms
proof (induction ws arbitrary: d rule: rev_induct)
  case (snoc w ws)
  obtain m z where w: "w = (m, z)" by fastforce
  show ?case
  proof (cases "m = n")
    case True
    with snoc.prems w show ?thesis by simp
  next
    case False
    then show ?thesis using snoc w by auto
  qed
qed simp

subsection \<open>Geometry\<close>

text \<open>
  The log lies within the disk, with its header in block \<^verbatim>\<open>log.start\<close>; the other blocks are home
  blocks. \<^verbatim>\<open>mkfs\<close> makes a log of \<open>LOGSIZE\<close> blocks, the header included.
\<close>

definition lgeom :: "'a lstate_scheme \<Rightarrow> bool" where
  "lgeom s \<longleftrightarrow> l_dev s = ROOTDEV \<and> length (lh_block s) = LOGSIZE \<and> 2 \<le> l_size s \<and>
     l_size s \<le> int LOGSIZE \<and> l_start s + nat (l_size s) \<le> disksize s \<and> disksize s < 2 ^ 32"

definition home :: "'a lstate_scheme \<Rightarrow> nat \<Rightarrow> bool" where
  "home s n \<longleftrightarrow> n < disksize s \<and> (n < l_start s \<or> l_start s + nat (l_size s) \<le> n)"

definition logged :: "'a lstate_scheme \<Rightarrow> nat list" where
  "logged s = take (nat (lh_n s)) (lh_block s)"

text \<open>The entries fit in the log and name home blocks.\<close>

definition lfits :: "'a lstate_scheme \<Rightarrow> bool" where
  "lfits s \<longleftrightarrow> lgeom s \<and> 0 \<le> lh_n s \<and> lh_n s \<le> l_size s - 1 \<and> (\<forall>n\<in>set (logged s). home s n)"

lemma lfitsD:
  assumes "lfits s"
  shows "l_dev s = ROOTDEV" "length (lh_block s) = LOGSIZE" "l_start s < disksize s"
    "length (logged s) = nat (lh_n s)" "nat (lh_n s) < NBUF"
    "i < nat (lh_n s) \<Longrightarrow> l_start s + i + 1 < l_start s + nat (l_size s)"
    "i < nat (lh_n s) \<Longrightarrow> l_start s + i + 1 < disksize s"
    "i < nat (lh_n s) \<Longrightarrow> i < length (lh_block s)"
    "i < nat (lh_n s) \<Longrightarrow> home s (lh_block s ! i)"
proof -
  have g: "lgeom s" "0 \<le> lh_n s" "lh_n s \<le> l_size s - 1" "\<forall>n\<in>set (logged s). home s n"
    using assms by (simp_all add: lfits_def)
  then show "l_dev s = ROOTDEV" "length (lh_block s) = LOGSIZE" "l_start s < disksize s"
    "length (logged s) = nat (lh_n s)" "nat (lh_n s) < NBUF"
    "i < nat (lh_n s) \<Longrightarrow> l_start s + i + 1 < l_start s + nat (l_size s)"
    "i < nat (lh_n s) \<Longrightarrow> l_start s + i + 1 < disksize s"
    "i < nat (lh_n s) \<Longrightarrow> i < length (lh_block s)"
    by (auto simp: lgeom_def logged_def)
  show "home s (lh_block s ! i)" if "i < nat (lh_n s)"
    using g that by (force simp: lgeom_def logged_def in_set_conv_nth)
qed

lemma home_not_log:
  "home s n \<Longrightarrow> n \<noteq> l_start s + i" if "lfits s" "i \<le> nat (lh_n s)"
  using that by (auto simp: home_def lfits_def)

lemma logged_home: "lfits s \<Longrightarrow> n \<in> set (logged s) \<Longrightarrow> home s n"
  by (simp add: lfits_def)

lemma logged_nth: "lfits s \<Longrightarrow> i < nat (lh_n s) \<Longrightarrow> lh_block s ! i \<in> set (logged s)"
  using lfitsD(8) [of s i] by (auto simp: logged_def in_set_conv_nth)

lemma home_disk: "home s n \<Longrightarrow> n < disksize s"
  by (simp add: home_def)

lemma lfits_bframe: "bframe s t \<Longrightarrow> lfits t = lfits s" "bframe s t \<Longrightarrow> logged t = logged s"
  "bframe s t \<Longrightarrow> home t = home s"
  using bframe_log [of s t]
  by (auto simp: lfits_def lgeom_def logged_def home_def fun_eq_iff bframe_disksize)

subsection \<open>The loops\<close>

text \<open>The disk writes of \<^verbatim>\<open>write_log\<close> and \<^verbatim>\<open>install_trans\<close> for the entries from \<open>tail\<close> on.\<close>

definition log_writes :: "'a lstate_scheme \<Rightarrow> nat \<Rightarrow> nat \<Rightarrow> (nat \<times> uchar list) list" where
  "log_writes s tail k =
     map (\<lambda>i. (l_start s + i + 1, view s (lh_block s ! i))) [tail..<tail + k]"

definition home_writes :: "'a lstate_scheme \<Rightarrow> nat \<Rightarrow> nat \<Rightarrow> (nat \<times> uchar list) list" where
  "home_writes s tail k =
     map (\<lambda>i. (lh_block s ! i, view s (l_start s + i + 1))) [tail..<tail + k]"

lemma writes_Suc:
  "log_writes s tail (Suc k) =
     (l_start s + tail + 1, view s (lh_block s ! tail)) # log_writes s (Suc tail) k"
  "home_writes s tail (Suc k) =
     (lh_block s ! tail, view s (l_start s + tail + 1)) # home_writes s (Suc tail) k"
  by (simp_all add: log_writes_def home_writes_def upt_conv_Cons del: upt_Suc)

lemma log_writes_cong:
  assumes "l_start t = l_start s" "lh_block t = lh_block s"
    "\<And>i. tail \<le> i \<Longrightarrow> i < tail + k \<Longrightarrow> view t (lh_block s ! i) = view s (lh_block s ! i)"
  shows "log_writes t tail k = log_writes s tail k"
  using assms by (simp add: log_writes_def)

lemma home_writes_cong:
  assumes "l_start t = l_start s" "lh_block t = lh_block s"
    "\<And>i. tail \<le> i \<Longrightarrow> i < tail + k \<Longrightarrow> view t (l_start s + i + 1) = view s (l_start s + i + 1)"
  shows "home_writes t tail k = home_writes s tail k"
  using assms by (simp add: home_writes_def)

lemma write_loop_ok:
  assumes "bwf {} s" and "lfits s" and "dirty_blocks s = set (logged s)"
    and "tail + k = nat (lh_n s)"
  shows "\<exists>t. write_loop tail k s = Ret t \<and> bwf {} t \<and> bframe s t \<and>
    dirty_blocks t = dirty_blocks s \<and> view t = replay (view s) (log_writes s tail k) \<and>
    disk t = replay (disk s) (log_writes s tail k) \<and>
    dwrites t = dwrites s @ log_writes s tail k"
  using assms
proof (induction k arbitrary: tail s)
  case 0
  then show ?case by (auto simp: log_writes_def)
next
  case (Suc k)
  note fit = lfitsD [OF Suc.prems(2)]
  have i: "tail < nat (lh_n s)" using Suc.prems(4) by simp
  let ?n1 = "l_start s + tail + 1" and ?n2 = "lh_block s ! tail"
  have ne: "?n1 \<noteq> ?n2"
    using home_not_log [OF Suc.prems(2), of "Suc tail" ?n2] fit(9) [OF i] i by auto
  have dirty: "?n2 \<in> dirty_blocks s" "?n1 \<notin> dirty_blocks s"
    using i Suc.prems(3) logged_nth [OF Suc.prems(2) i] logged_home [OF Suc.prems(2), of ?n1]
      home_not_log [OF Suc.prems(2), of "Suc tail" ?n1]
    by auto
  have few: "card (dirty_blocks s) < NBUF"
    using fit(4,5) Suc.prems(3) card_length [of "logged s"] by simp
  obtain a b s1 s2 where rd: "bread ROOTDEV ?n1 s = Ret (a, s1)" "bread ROOTDEV ?n2 s1 = Ret (b, s2)"
    "bframe s s1" "bwf {a, b} s2" "a \<noteq> b" "b_blockno (bufs s2 a) = ?n1" "b_blockno (bufs s2 b) = ?n2"
    "b_data (bufs s2 b) = view s ?n2" "view s2 = view s" "disk s2 = disk s"
    "dwrites s2 = dwrites s" "bframe s s2" "dirty_blocks s2 = dirty_blocks s" "b_dirty (bufs s2 b)"
    by (rule two_breads [OF Suc.prems(1) fit(7) [OF i] home_disk [OF fit(9) [OF i]] ne few])
       (use dirty(1) in auto)
  obtain s3 s4 t where wr: "bwrite a (upd_buf a (\<lambda>x. x\<lparr>b_data := view s ?n2\<rparr>) s2) = Ret s3"
    "brelse b s3 = Ret s4" "brelse a s4 = Ret t" "bwf {} t" "view t = (view s)(?n1 := view s ?n2)"
    "disk t = (disk s)(?n1 := view s ?n2)" "dwrites t = dwrites s @ [(?n1, view s ?n2)]"
    "bframe s2 t" "dirty_blocks t = dirty_blocks s - {?n1}"
    by (rule copy_and_release [OF rd(4,5)]) (use rd in auto)
  have frame: "bframe s t" by (rule bframe_trans [OF rd(12) wr(8)])
  note lf = bframe_log [OF frame] lfits_bframe [OF frame]
  have "write_loop (Suc tail) k t = write_loop tail (Suc k) s"
    using rd(1,2) wr(1-3) rd(8) fit(1) fit(8) [OF i] bframe_log [OF rd(3)] by simp
  moreover have "log_writes t (Suc tail) k = log_writes s (Suc tail) k"
  proof (rule log_writes_cong [OF lf(1,7)])
    fix j assume "Suc tail \<le> j" "j < Suc tail + k"
    then have "home s (lh_block s ! j)" using fit(9) [of j] Suc.prems(4) by simp
    then show "view t (lh_block s ! j) = view s (lh_block s ! j)"
      using home_not_log [OF Suc.prems(2), of "Suc tail"] i wr(5) by auto
  qed
  moreover have "\<exists>u. write_loop (Suc tail) k t = Ret u \<and> bwf {} u \<and> bframe t u \<and>
    dirty_blocks u = dirty_blocks t \<and> view u = replay (view t) (log_writes t (Suc tail) k) \<and>
    disk u = replay (disk t) (log_writes t (Suc tail) k) \<and>
    dwrites u = dwrites t @ log_writes t (Suc tail) k"
    by (rule Suc.IH) (use wr dirty Suc.prems lf in auto)
  ultimately show ?case
    using bframe_trans [OF frame] wr(5-7,9) dirty(2) by (auto simp: writes_Suc)
qed

lemma set_drop_Suc:
  assumes "distinct xs" and "i < length xs"
  shows "set (drop (Suc i) xs) = set (drop i xs) - {xs ! i}" "xs ! i \<in> set (drop i xs)"
proof -
  have "drop i xs = xs ! i # drop (Suc i) xs" by (rule Cons_nth_drop_Suc [symmetric, OF assms(2)])
  moreover have "distinct (drop i xs)" using assms(1) by simp
  ultimately show "set (drop (Suc i) xs) = set (drop i xs) - {xs ! i}" "xs ! i \<in> set (drop i xs)"
    by simp_all
qed

text \<open>
  \<^verbatim>\<open>install_trans\<close> runs with the logged blocks pinned in the cache when a transaction commits,
  and with an empty cache at recovery.
\<close>

definition installing :: "'a lstate_scheme \<Rightarrow> nat \<Rightarrow> bool" where
  "installing s tail \<longleftrightarrow>
     distinct (logged s) \<and> dirty_blocks s = set (drop tail (logged s)) \<or> dirty_blocks s = {}"

lemma installing_dirty:
  assumes fit: "lfits s" and inst: "installing s tail" and i: "tail < nat (lh_n s)"
  shows "card (dirty_blocks s) < NBUF" "l_start s + tail + 1 \<notin> dirty_blocks s"
    "lh_block s ! tail \<in> dirty_blocks s \<or> card (dirty_blocks s) + 1 < NBUF"
    "\<And>t. lfits t \<Longrightarrow> logged t = logged s \<Longrightarrow>
       dirty_blocks t = dirty_blocks s - {lh_block s ! tail} \<Longrightarrow> installing t (Suc tail)"
proof -
  note f = lfitsD [OF fit]
  have sub: "dirty_blocks s \<subseteq> set (logged s)"
    using inst by (auto simp: installing_def dest: in_set_dropD)
  show "card (dirty_blocks s) < NBUF"
    using card_mono [OF _ sub] card_length [of "logged s"] f(4,5) by simp
  show "l_start s + tail + 1 \<notin> dirty_blocks s"
    using sub logged_home [OF fit] home_not_log [OF fit, of "Suc tail"] i by fastforce
  have nth: "lh_block s ! tail = logged s ! tail" "tail < length (logged s)"
    using i f(4) by (simp_all add: logged_def)
  then show "lh_block s ! tail \<in> dirty_blocks s \<or> card (dirty_blocks s) + 1 < NBUF"
    using inst set_drop_Suc(2) [of "logged s" tail] by (auto simp: installing_def)
  fix t :: "'b lstate_scheme"
  assume "logged t = logged s" "dirty_blocks t = dirty_blocks s - {lh_block s ! tail}"
  then show "installing t (Suc tail)"
    using inst nth set_drop_Suc(1) [of "logged s" tail] by (auto simp: installing_def)
qed

lemma install_loop_ok:
  assumes "bwf {} s" and "lfits s" and "installing s tail" and "tail + k = nat (lh_n s)"
  shows "\<exists>t. install_loop tail k s = Ret t \<and> bwf {} t \<and> bframe s t \<and> dirty_blocks t = {} \<and>
    view t = replay (view s) (home_writes s tail k) \<and>
    disk t = replay (disk s) (home_writes s tail k) \<and>
    dwrites t = dwrites s @ home_writes s tail k"
  using assms
proof (induction k arbitrary: tail s)
  case 0
  then show ?case by (auto simp: home_writes_def installing_def logged_def)
next
  case (Suc k)
  note fit = lfitsD [OF Suc.prems(2)]
  have i: "tail < nat (lh_n s)" using Suc.prems(4) by simp
  let ?n1 = "l_start s + tail + 1" and ?n2 = "lh_block s ! tail"
  have ne: "?n1 \<noteq> ?n2"
    using home_not_log [OF Suc.prems(2), of "Suc tail" ?n2] fit(9) [OF i] i by auto
  note dirty = installing_dirty [OF Suc.prems(2,3) i]
  have clean: "view s ?n1 = disk s ?n1"
    by (rule view_not_dirty [OF Suc.prems(1) dirty(2)]) simp
  obtain a b s1 s2 where rd: "bread ROOTDEV ?n1 s = Ret (a, s1)" "bread ROOTDEV ?n2 s1 = Ret (b, s2)"
    "bframe s s1" "bwf {b, a} s2" "b \<noteq> a" "b_blockno (bufs s2 a) = ?n1" "b_blockno (bufs s2 b) = ?n2"
    "b_data (bufs s2 a) = view s ?n1" "view s2 = view s" "disk s2 = disk s"
    "dwrites s2 = dwrites s" "bframe s s2" "dirty_blocks s2 = dirty_blocks s"
    by (rule two_breads [OF Suc.prems(1) fit(7) [OF i] home_disk [OF fit(9) [OF i]] ne dirty(1,3)])
       (auto simp: insert_commute)
  obtain s3 s4 t where wr: "bwrite b (upd_buf b (\<lambda>x. x\<lparr>b_data := view s ?n1\<rparr>) s2) = Ret s3"
    "brelse a s3 = Ret s4" "brelse b s4 = Ret t" "bwf {} t" "view t = (view s)(?n2 := view s ?n1)"
    "disk t = (disk s)(?n2 := view s ?n1)" "dwrites t = dwrites s @ [(?n2, view s ?n1)]"
    "bframe s2 t" "dirty_blocks t = dirty_blocks s - {?n2}"
    by (rule copy_and_release [OF rd(4,5)]) (use rd clean in auto)
  have frame: "bframe s t" by (rule bframe_trans [OF rd(12) wr(8)])
  note lf = bframe_log [OF frame] lfits_bframe [OF frame]
  have "install_loop (Suc tail) k t = install_loop tail (Suc k) s"
    using rd(1,2) wr(1-3) rd(8) fit(1) fit(8) [OF i] bframe_log [OF rd(3)] by simp
  moreover have "home_writes t (Suc tail) k = home_writes s (Suc tail) k"
  proof (rule home_writes_cong [OF lf(1,7)])
    fix j assume "Suc tail \<le> j" "j < Suc tail + k"
    then show "view t (l_start s + j + 1) = view s (l_start s + j + 1)"
      using home_not_log [OF Suc.prems(2), of "Suc j" ?n2] fit(9) [OF i] Suc.prems(4) wr(5) by auto
  qed
  moreover have "\<exists>u. install_loop (Suc tail) k t = Ret u \<and> bwf {} u \<and> bframe t u \<and>
    dirty_blocks u = {} \<and> view u = replay (view t) (home_writes t (Suc tail) k) \<and>
    disk u = replay (disk t) (home_writes t (Suc tail) k) \<and>
    dwrites u = dwrites t @ home_writes t (Suc tail) k"
    by (rule Suc.IH) (use wr dirty(4) [of t] Suc.prems lf in auto)
  ultimately show ?case
    using bframe_trans [OF frame] wr(5-7) by (auto simp: writes_Suc)
qed

subsection \<open>The header block\<close>

definition head_n :: "uchar list \<Rightarrow> int" where
  "head_n d = sint (get32 0 d)"

definition head_blocks :: "uchar list \<Rightarrow> nat list" where
  "head_blocks d = map (\<lambda>i. unat (get32 (4 + 4 * i) d)) [0..<nat (head_n d)]"

lemma put_blocks_ok:
  assumes "i + k \<le> length bl" and "length bl \<le> LOGSIZE" and "length d = BSIZE"
  shows "\<exists>d'. put_blocks i k bl d = Ret d' \<and> length d' = BSIZE \<and>
    (\<forall>j. j + 4 \<le> 4 + 4 * i \<longrightarrow> get32 j d' = get32 j d) \<and>
    (\<forall>j. i \<le> j \<longrightarrow> j < i + k \<longrightarrow> get32 (4 + 4 * j) d' = of_nat (bl ! j))"
  using assms
proof (induction k arbitrary: i d)
  case (Suc k)
  let ?d = "put32 (4 + 4 * i) (of_nat (bl ! i)) d"
  have len: "4 + 4 * i + 4 \<le> length d" using Suc.prems by simp
  have "length ?d = BSIZE" using len Suc.prems(3) by simp
  then obtain d' where d': "put_blocks (Suc i) k bl ?d = Ret d'" "length d' = BSIZE"
    "\<And>j. j + 4 \<le> 4 + 4 * Suc i \<Longrightarrow> get32 j d' = get32 j ?d"
    "\<And>j. Suc i \<le> j \<Longrightarrow> j < Suc i + k \<Longrightarrow> get32 (4 + 4 * j) d' = of_nat (bl ! j)"
    using Suc.IH [of "Suc i" ?d] Suc.prems by auto
  have low: "get32 j d' = get32 j d" if "j + 4 \<le> 4 + 4 * i" for j
    using d'(3) [of j] get_put_other(2) [of "4 + 4 * i" d j] len that by simp
  have new: "get32 (4 + 4 * j) d' = of_nat (bl ! j)" if "i \<le> j" "j < i + Suc k" for j
  proof (cases "j = i")
    case True
    then show ?thesis using d'(3) [of "4 + 4 * i"] len by simp
  next
    case False
    with that show ?thesis using d'(4) [of j] by simp
  qed
  show ?case using d'(1,2) low new Suc.prems(1) by auto
qed simp

lemma get_blocks_ok:
  "i + k \<le> length bl \<Longrightarrow>
   get_blocks i k d bl =
     Ret (take i bl @ map (\<lambda>j. unat (get32 (4 + 4 * j) d)) [i..<i + k] @ drop (i + k) bl)"
proof (induction k arbitrary: i bl)
  case (Suc k)
  then have "get_blocks i (Suc k) d bl =
      get_blocks (Suc i) k d (bl[i := unat (get32 (4 + 4 * i) d)])" by simp
  also have "\<dots> = Ret (take (Suc i) (bl[i := unat (get32 (4 + 4 * i) d)]) @
      map (\<lambda>j. unat (get32 (4 + 4 * j) d)) [Suc i..<Suc i + k] @
      drop (Suc i + k) (bl[i := unat (get32 (4 + 4 * i) d)]))"
    by (rule Suc.IH) (use Suc.prems in simp)
  also have "\<dots> = Ret (take i bl @ map (\<lambda>j. unat (get32 (4 + 4 * j) d)) [i..<i + Suc k] @
      drop (i + Suc k) bl)"
    using Suc.prems
    by (simp add: upt_conv_Cons [of i] take_Suc_conv_app_nth del: upt_Suc)
  finally show ?case .
qed simp

text \<open>A block read, changed, written and released.\<close>

lemma rewrite_ok:
  assumes wf: "bwf {} s" and n: "n < disksize s" and few: "card (dirty_blocks s) < NBUF"
    and d: "length d = BSIZE"
  obtains b s1 s2 t where "bread ROOTDEV n s = Ret (b, s1)" "b_data (bufs s1 b) = view s n"
    "bframe s s1" "bwrite b (upd_buf b (\<lambda>x. x\<lparr>b_data := d\<rparr>) s1) = Ret s2" "brelse b s2 = Ret t"
    "bwf {} t" "view t = (view s)(n := d)" "disk t = (disk s)(n := d)"
    "dwrites t = dwrites s @ [(n, d)]" "bframe s t" "dirty_blocks t = dirty_blocks s - {n}"
proof -
  have room: "room {} s \<or> (\<exists>b<NBUF. caches s n b)" using room_card [OF wf] few by simp
  have free: "n \<notin> held_blocks {} s" by (simp add: held_blocks_def)
  obtain b s1 where b: "bread ROOTDEV n s = Ret (b, s1)" "bwf {b} s1" "bufs s1 b = loaded s n b"
    "view s1 = view s" "disk s1 = disk s" "dwrites s1 = dwrites s" "bframe s s1"
    "dirty_blocks s1 = dirty_blocks s"
    by (rule bread_ok [OF wf n free room]) auto
  let ?s = "upd_buf b (\<lambda>x. x\<lparr>b_data := d\<rparr>) s1"
  have wf1: "bwf {b} ?s" and view1: "view ?s = (view s)(n := d)"
    using set_data [OF b(2), of b d] d b(3,4) by simp_all
  have dirty1: "dirty_blocks ?s = dirty_blocks s1" by (auto simp: dirty_blocks_def image_iff)
  obtain s2 where s2: "bwrite b ?s = Ret s2" "bwf {b} s2" "view s2 = view ?s"
    "disk s2 = (disk s)(n := d)" "dwrites s2 = dwrites s @ [(n, d)]"
    "bufs s2 = (bufs ?s)(b := bufs ?s b\<lparr>b_dirty := False\<rparr>)" "bframe ?s s2"
    "dirty_blocks s2 = dirty_blocks s - {n}"
    by (rule bwrite_ok [OF wf1, of b]) (use b dirty1 in auto)
  have pin: "b_dirty (bufs s2 b) \<or> b_data (bufs s2 b) = disk s2 (b_blockno (bufs s2 b))"
    using s2(4,6) b(3) by simp
  obtain t where t: "brelse b s2 = Ret t" "bwf ({b} - {b}) t" "view t = view s2"
    "disk t = disk s2" "dwrites t = dwrites s2" "bframe s2 t" "dirty_blocks t = dirty_blocks s2"
    by (rule brelse_ok [OF s2(2) _ pin]) auto
  have "bframe s1 s2" using s2(7) by (simp add: bframe_def upd_buf_def)
  then have "bframe s t" using bframe_trans [OF bframe_trans [OF b(7)] t(6)] by blast
  then show thesis
    by (intro that [OF b(1) _ b(7) s2(1) t(1)]) (use b s2 t view1 in simp_all)
qed

lemma write_head_ok:
  assumes wf: "bwf {} s" and fit: "lfits s" and few: "card (dirty_blocks s) < NBUF"
  obtains d t where "write_head s = Ret t" "length d = BSIZE" "head_n d = lh_n s"
    "head_blocks d = logged s"
    "bwf {} t" "view t = (view s)(l_start s := d)" "disk t = (disk s)(l_start s := d)"
    "dwrites t = dwrites s @ [(l_start s, d)]" "bframe s t"
    "dirty_blocks t = dirty_blocks s - {l_start s}"
proof -
  note f = lfitsD [OF fit]
  have len: "length (view s (l_start s)) = BSIZE" by (rule length_view [OF wf f(3)])
  let ?d0 = "put32 0 (of_int (lh_n s)) (view s (l_start s))"
  obtain d where d: "put_blocks 0 (nat (lh_n s)) (lh_block s) ?d0 = Ret d" "length d = BSIZE"
    "get32 0 d = get32 0 ?d0"
    "\<And>j. j < nat (lh_n s) \<Longrightarrow> get32 (4 + 4 * j) d = of_nat (lh_block s ! j)"
    using put_blocks_ok [of 0 "nat (lh_n s)" "lh_block s" ?d0] f(2,5) len by auto
  have hn: "head_n d = lh_n s"
    using d(3) len f(5) fit by (simp add: head_n_def sint_of_int_uint lfits_def)
  have "unat (get32 (4 + 4 * j) d) = lh_block s ! j" if "j < nat (lh_n s)" for j
    using d(4) [OF that] f(9) [OF that] fit
    by (simp add: unat_of_nat_uint home_def lfits_def lgeom_def)
  then have hb: "head_blocks d = logged s"
    using f(4,8) hn by (intro nth_equalityI) (auto simp: head_blocks_def logged_def)
  obtain b s1 s2 t where t: "bread ROOTDEV (l_start s) s = Ret (b, s1)"
    "b_data (bufs s1 b) = view s (l_start s)" "bframe s s1"
    "bwrite b (upd_buf b (\<lambda>x. x\<lparr>b_data := d\<rparr>) s1) = Ret s2" "brelse b s2 = Ret t"
    "bwf {} t" "view t = (view s)(l_start s := d)" "disk t = (disk s)(l_start s := d)"
    "dwrites t = dwrites s @ [(l_start s, d)]" "bframe s t"
    "dirty_blocks t = dirty_blocks s - {l_start s}"
    by (rule rewrite_ok [OF wf f(3) few d(2)])
  have "write_head s = Ret t"
    using t(1,2,4,5) bframe_log [OF t(3)] d(1) f(1) by (simp add: write_head_def Let_def)
  then show thesis by (rule that [OF _ d(2) hn hb t(6-11)])
qed

lemma read_head_ok:
  assumes wf: "bwf {} s" and dev: "l_dev s = ROOTDEV" "l_start s < disksize s"
    and clean: "dirty_blocks s = {}" and arr: "length (lh_block s) = LOGSIZE"
    and hdr: "head_n (disk s (l_start s)) \<le> int LOGSIZE"
  obtains t bl where "read_head s = Ret (t\<lparr>lh_n := head_n (disk s (l_start s)), lh_block := bl\<rparr>)"
    "length bl = LOGSIZE" "take (nat (head_n (disk s (l_start s)))) bl = head_blocks (disk s (l_start s))"
    "bwf {} t" "view t = view s" "disk t = disk s" "dwrites t = dwrites s" "bframe s t"
    "dirty_blocks t = {}"
proof -
  let ?d = "disk s (l_start s)"
  have room: "room {} s \<or> (\<exists>b<NBUF. caches s (l_start s) b)" using room_card [OF wf] clean by simp
  have free: "l_start s \<notin> held_blocks {} s" by (simp add: held_blocks_def)
  obtain b s1 where b: "bread ROOTDEV (l_start s) s = Ret (b, s1)" "bwf {b} s1"
    "bufs s1 b = loaded s (l_start s) b" "view s1 = view s" "disk s1 = disk s"
    "dwrites s1 = dwrites s" "bframe s s1" "dirty_blocks s1 = dirty_blocks s"
    by (rule bread_ok [OF wf dev(2) free room]) auto
  have view: "view s (l_start s) = ?d" by (rule view_not_dirty [OF wf]) (simp_all add: clean)
  let ?bl = "map (\<lambda>j. unat (get32 (4 + 4 * j) ?d)) [0..<nat (head_n ?d)] @
    drop (nat (head_n ?d)) (lh_block s)"
  have bl: "get_blocks 0 (nat (head_n ?d)) ?d (lh_block s) = Ret ?bl"
    using get_blocks_ok [of 0 "nat (head_n ?d)" "lh_block s" ?d] hdr arr by simp
  let ?u = "\<lambda>t. t\<lparr>lh_n := head_n ?d, lh_block := ?bl\<rparr>"
  have pin: "b_dirty (bufs s1 b) \<or> b_data (bufs s1 b) = disk s1 (b_blockno (bufs s1 b))"
    using b(3,5) view by simp
  have eq: "brelse b (?u s1) = (case brelse b s1 of Ret t \<Rightarrow> Ret (?u t) | Panic e \<Rightarrow> Panic e | Wait e \<Rightarrow> Wait e)"
    using brelse_eq [OF b(2), of b] brelse_eq [of "{b}" "?u s1" b] b(2)
    by (simp add: upd_buf_def wakeup1_def)
  obtain t where t: "brelse b s1 = Ret t" "bwf ({b} - {b}) t" "view t = view s1"
    "disk t = disk s1" "dwrites t = dwrites s1" "bframe s1 t" "dirty_blocks t = dirty_blocks s1"
    by (rule brelse_ok [OF b(2) _ pin]) auto
  have "read_head s = Ret (?u t)"
    using b(1,3) view bl eq t(1) dev(1) bframe_log [OF b(7)]
    by (simp add: read_head_def Let_def head_n_def)
  then show thesis
    by (rule that) (use b t bframe_trans [OF b(7) t(6)] clean hdr arr in \<open>simp_all add: head_blocks_def\<close>)
qed

end
