(* ===== verification/Recovery.thy ===== *)
theory Recovery
  imports Log "HOL-Library.Sublist"
begin

text \<open>
  What the log promises: the invariant of the log between operations, commit as a sequence of
  disk writes, recovery, and crash atomicity.
\<close>

subsection \<open>Invariant\<close>

text \<open>
  Outside of a commit: exactly the logged blocks are pinned in the cache, each once, and the
  header on disk is empty.
\<close>

definition lwf :: "nat set \<Rightarrow> 'a lstate_scheme \<Rightarrow> bool" where
  "lwf H s \<longleftrightarrow> bwf H s \<and> lfits s \<and> distinct (logged s) \<and> dirty_blocks s = set (logged s) \<and>
     head_n (disk s (l_start s)) = 0"

text \<open>What the log operations keep besides the log's own entries and the cache.\<close>

definition lframe :: "'a lstate_scheme \<Rightarrow> 'a lstate_scheme \<Rightarrow> bool" where
  "lframe s t \<longleftrightarrow> cpu_id t = cpu_id s \<and> cur t = cur s \<and> nextpid t = nextpid s \<and>
     initproc t = initproc s \<and> map erase_state (procs t) = map erase_state (procs s) \<and>
     disksize t = disksize s \<and> l_start t = l_start s \<and> l_size t = l_size s \<and> l_dev t = l_dev s \<and>
     lstate.more t = lstate.more s"

lemma lframe_refl [simp]: "lframe s s"
  by (simp add: lframe_def)

lemma lframe_trans [trans]: "lframe s t \<Longrightarrow> lframe t u \<Longrightarrow> lframe s u"
  by (simp add: lframe_def)

lemma bframe_lframe: "bframe s t \<Longrightarrow> lframe s t"
  using bframe_log [of s t] by (auto simp: bframe_def lframe_def)

lemma lframe_upd [simp]:
  "lframe s (t\<lparr>l_outstanding := a\<rparr>) = lframe s t" "lframe s (t\<lparr>l_committing := b\<rparr>) = lframe s t"
  "lframe s (t\<lparr>lh_n := c\<rparr>) = lframe s t" "lframe s (t\<lparr>lh_block := d\<rparr>) = lframe s t"
  "lframe (s\<lparr>l_outstanding := a\<rparr>) t = lframe s t" "lframe (s\<lparr>l_committing := b\<rparr>) t = lframe s t"
  "lframe s (upd_buf e f t) = lframe s t" "lframe s (wakeup1 g t) = lframe s t"
  by (simp_all add: lframe_def upd_buf_def wakeup1_def comp_def)

lemma lframe_home: "lframe s t \<Longrightarrow> home t = home s"
  by (simp add: lframe_def home_def fun_eq_iff)

lemma lwfD:
  assumes "lwf H s"
  shows "bwf H s" "lfits s" "distinct (logged s)" "dirty_blocks s = set (logged s)"
    "head_n (disk s (l_start s)) = 0"
  using assms by (simp_all add: lwf_def)

lemma bstate_more_log:
  fixes s t :: "'a lstate_scheme"
  assumes "bstate.more t = bstate.more s"
  shows "lh_n t = lh_n s" "l_outstanding t = l_outstanding s" "l_committing t = l_committing s"
    "l_size t = l_size s" "l_start t = l_start s" "l_dev t = l_dev s" "lh_block t = lh_block s"
  using assms by (cases s; cases t; simp)+

lemma lwf_wakeup1 [simp]: "lwf H (wakeup1 c s) = lwf H s"
  by (simp add: lwf_def lfits_def lgeom_def logged_def home_def)

lemma lwf_upd [simp]:
  "lwf H (s\<lparr>l_outstanding := a\<rparr>) = lwf H s" "lwf H (s\<lparr>l_committing := b\<rparr>) = lwf H s"
  by (simp_all add: lwf_def lfits_def lgeom_def logged_def home_def)

lemma lwf_few:
  assumes "lwf H s" shows "card (dirty_blocks s) < NBUF"
  using lwfD [OF assms] lfitsD(4,5) [OF lwfD(2) [OF assms]] by (simp add: distinct_card)

lemma view_home_clean:
  "lwf {} s \<Longrightarrow> n \<notin> set (logged s) \<Longrightarrow> view s n = disk s n"
  using view_not_dirty [of "{}" s n] by (simp add: lwf_def)

lemma length_head_blocks [simp]: "length (head_blocks d) = nat (head_n d)"
  by (simp add: head_blocks_def)

subsection \<open>Commit\<close>

definition new_writes :: "'a lstate_scheme \<Rightarrow> (nat \<times> uchar list) list" where
  "new_writes s = map (\<lambda>n. (n, view s n)) (logged s)"

lemma fst_log_writes: "fst ` set (log_writes s 0 k) = (\<lambda>i. l_start s + i + 1) ` {..<k}"
  by (auto simp: log_writes_def image_comp comp_def)

lemma replay_log_writes:
  assumes "i < k"
  shows "replay d (log_writes s 0 k) (l_start s + i + 1) = view s (lh_block s ! i)"
proof (rule replay_last)
  show "l_start s + i + 1 \<in> fst ` set (log_writes s 0 k)"
    using assms by (auto simp: fst_log_writes)
qed (auto simp: log_writes_def)

lemma log_writes_other:
  assumes "lfits s" and "home s n \<or> n = l_start s" and "k \<le> nat (lh_n s)"
  shows "replay d (log_writes s 0 k) n = d n"
proof (rule replay_other)
  show "n \<notin> fst ` set (log_writes s 0 k)"
    unfolding fst_log_writes
  proof
    assume "n \<in> (\<lambda>i. l_start s + i + 1) ` {..<k}"
    then obtain i where "i < k" "n = l_start s + Suc i" by auto
    then show False using assms(2,3) home_not_log [OF assms(1), of "Suc i" n] by auto
  qed
qed

lemma replay_new_writes:
  "replay d (new_writes s) n = (if n \<in> set (logged s) then view s n else d n)"
  by (auto simp: new_writes_def image_iff intro: replay_last replay_other)

lemma commit_trace:
  assumes wf: "lwf {} s" and n: "lh_n s > 0"
  obtains t h1 h0 where "commit s = Ret t" "bwf {} t" "lframe s t" "lh_n t = 0"
    "lh_block t = lh_block s" "l_outstanding t = l_outstanding s"
    "l_committing t = l_committing s" "dirty_blocks t = {}" "head_blocks h1 = logged s"
    "head_n h1 = lh_n s" "head_n h0 = 0"
    "dwrites t = dwrites s @ log_writes s 0 (nat (lh_n s)) @ [(l_start s, h1)] @ new_writes s @
       [(l_start s, h0)]"
    "disk t = replay (disk s) (log_writes s 0 (nat (lh_n s)) @ [(l_start s, h1)] @ new_writes s @
       [(l_start s, h0)])"
    "view t = replay (view s) (log_writes s 0 (nat (lh_n s)) @ [(l_start s, h1)] @ new_writes s @
       [(l_start s, h0)])"
proof -
  let ?k = "nat (lh_n s)"
  note w = lwfD [OF wf]
  obtain s1 where s1: "write_log s = Ret s1" "bwf {} s1" "bframe s s1"
    "dirty_blocks s1 = dirty_blocks s" "view s1 = replay (view s) (log_writes s 0 ?k)"
    "disk s1 = replay (disk s) (log_writes s 0 ?k)" "dwrites s1 = dwrites s @ log_writes s 0 ?k"
    using write_loop_ok [OF w(1,2,4), of 0 ?k] by (auto simp: write_log_def)
  note f1 = bframe_log [OF s1(3)] lfits_bframe [OF s1(3)]
  obtain h1 s2 where s2: "write_head s1 = Ret s2" "head_n h1 = lh_n s" "head_blocks h1 = logged s"
    "bwf {} s2" "view s2 = (view s1)(l_start s := h1)" "disk s2 = (disk s1)(l_start s := h1)"
    "dwrites s2 = dwrites s1 @ [(l_start s, h1)]" "bframe s1 s2"
    "dirty_blocks s2 = dirty_blocks s1 - {l_start s}"
    by (rule write_head_ok [OF s1(2)]) (use f1 w lwf_few [OF wf] s1(4) in auto)
  note fr2 = bframe_trans [OF s1(3) s2(8)]
  note f2 = bframe_log [OF fr2] lfits_bframe [OF fr2]
  have start: "l_start s \<notin> set (logged s)"
    using logged_home [OF w(2)] home_not_log [OF w(2), of 0] by auto
  then have dirty2: "dirty_blocks s2 = set (logged s)" using s2(9) s1(4) w(4) by simp
  then have inst: "installing s2 0" using w(3) f2(10) by (simp add: installing_def)
  have hw: "home_writes s2 0 ?k = new_writes s"
  proof (rule nth_equalityI)
    show "length (home_writes s2 0 ?k) = length (new_writes s)"
      using lfitsD(4) [OF w(2)] by (simp add: home_writes_def new_writes_def)
    fix i assume "i < length (home_writes s2 0 ?k)"
    then have i: "i < ?k" by (simp add: home_writes_def)
    have "view s2 (l_start s + i + 1) = view s (lh_block s ! i)"
      using s2(5) s1(5) replay_log_writes [OF i, of "view s" s] by simp
    then show "home_writes s2 0 ?k ! i = new_writes s ! i"
      using i f2(1,7) lfitsD(4) [OF w(2)] by (simp add: home_writes_def new_writes_def logged_def)
  qed
  obtain s3 where s3: "install_trans s2 = Ret s3" "bwf {} s3" "bframe s2 s3" "dirty_blocks s3 = {}"
    "view s3 = replay (view s2) (new_writes s)" "disk s3 = replay (disk s2) (new_writes s)"
    "dwrites s3 = dwrites s2 @ new_writes s"
    using install_loop_ok [OF s2(4) _ inst, of ?k] f2 w(2) hw by (auto simp: install_trans_def)
  note fr3 = bframe_trans [OF fr2 s3(3)]
  note f3 = bframe_log [OF fr3] lfits_bframe [OF fr3]
  have fit3: "lfits (s3\<lparr>lh_n := 0\<rparr>)"
    using w(2) f3 bframe_disksize [OF fr3] by (auto simp: lfits_def lgeom_def logged_def)
  obtain h0 t where t: "write_head (s3\<lparr>lh_n := 0\<rparr>) = Ret t" "head_n h0 = 0"
    "bwf {} t" "view t = (view s3)(l_start s := h0)" "disk t = (disk s3)(l_start s := h0)"
    "dwrites t = dwrites s3 @ [(l_start s, h0)]" "bframe (s3\<lparr>lh_n := 0\<rparr>) t" "dirty_blocks t = {}"
    by (rule write_head_ok [OF _ fit3]) (use s3 f3 in auto)
  note f4 = bframe_log [OF t(7)]
  have c: "commit s = Ret t" using n s1(1) s2(1) s3(1) t(1) by (simp add: commit_def)
  have "lframe s t"
    using bframe_lframe [OF fr3] bframe_lframe [OF t(7)] by (simp add: lframe_def)
  then show thesis
    by (rule that [OF c t(3) _ _ _ _ _ t(8) s2(3,2) t(2)])
       (use f3 f4 s1 s2 s3 t in \<open>simp_all add: replay_append\<close>)
qed

lemma commit_ok:
  assumes wf: "lwf {} s"
  obtains t where "commit s = Ret t" "lwf {} t" "lframe s t" "lh_n t = 0"
    "l_outstanding t = l_outstanding s" "l_committing t = l_committing s"
    "\<And>n. home s n \<Longrightarrow> view t n = view s n" "\<And>n. home s n \<Longrightarrow> disk t n = view s n"
proof (cases "lh_n s > 0")
  case False
  then have "commit s = Ret s" "lh_n s = 0"
    using lwfD(2) [OF wf] by (simp_all add: commit_def lfits_def)
  then show thesis
    using wf view_home_clean [OF wf] by (intro that [of s]) (auto simp: logged_def)
next
  case True
  note w = lwfD [OF wf]
  obtain t h1 h0 where t: "commit s = Ret t" "bwf {} t" "lframe s t" "lh_n t = 0"
    "lh_block t = lh_block s" "l_outstanding t = l_outstanding s"
    "l_committing t = l_committing s" "dirty_blocks t = {}" "head_n h0 = 0"
    "disk t = replay (disk s) (log_writes s 0 (nat (lh_n s)) @ [(l_start s, h1)] @ new_writes s @
       [(l_start s, h0)])"
    "view t = replay (view s) (log_writes s 0 (nat (lh_n s)) @ [(l_start s, h1)] @ new_writes s @
       [(l_start s, h0)])"
    by (rule commit_trace [OF wf True])
  have start: "home s n \<Longrightarrow> n \<noteq> l_start s" for n using home_not_log [OF w(2), of 0 n] by simp
  have out: "replay d (log_writes s 0 (nat (lh_n s))) n = d n" if "home s n" for d n
    by (rule log_writes_other [OF w(2)]) (simp_all add: that)
  have "lfits t"
    using w(2) t(3-5) by (auto simp: lframe_def lfits_def lgeom_def logged_def)
  moreover have "l_start t = l_start s" using t(3) by (simp add: lframe_def)
  ultimately have "lwf {} t"
    using t(2,4,8,9,10) by (simp add: lwf_def logged_def replay_append)
  moreover have "view t n = view s n" "disk t n = view s n" if "home s n" for n
    using start [OF that] out [OF that] t(10,11) view_home_clean [OF wf, of n]
    by (simp_all add: replay_append replay_new_writes)
  ultimately show thesis using t by (intro that [OF t(1)]) auto
qed

subsection \<open>Recovery\<close>

text \<open>What recovery makes of a disk whose log header is in block \<open>st\<close>.\<close>

definition recovered :: "nat \<Rightarrow> (nat \<Rightarrow> uchar list) \<Rightarrow> nat \<Rightarrow> uchar list" where
  "recovered st d = replay d (map (\<lambda>i. (head_blocks (d st) ! i, d (st + i + 1)))
     [0..<nat (head_n (d st))])"

definition head_ok :: "'a lstate_scheme \<Rightarrow> uchar list \<Rightarrow> bool" where
  "head_ok s h \<longleftrightarrow> 0 \<le> head_n h \<and> head_n h \<le> l_size s - 1 \<and> (\<forall>n\<in>set (head_blocks h). home s n)"

lemma recover_ok:
  assumes wf: "bwf {} s" and geom: "lgeom s" and clean: "dirty_blocks s = {}"
    and hdr: "head_ok s (disk s (l_start s))"
  obtains t where "recover_from_log s = Ret t" "lwf {} t" "lframe s t" "lh_n t = 0"
    "l_outstanding t = l_outstanding s" "l_committing t = l_committing s"
    "\<And>n. n \<noteq> l_start s \<Longrightarrow> disk t n = recovered (l_start s) (disk s) n"
proof -
  let ?h = "disk s (l_start s)"
  have g: "l_dev s = ROOTDEV" "l_start s < disksize s" "length (lh_block s) = LOGSIZE"
    "head_n ?h \<le> int LOGSIZE"
    using geom hdr by (auto simp: lgeom_def head_ok_def)
  obtain u bl where u: "read_head s = Ret (u\<lparr>lh_n := head_n ?h, lh_block := bl\<rparr>)"
    "length bl = LOGSIZE" "take (nat (head_n ?h)) bl = head_blocks ?h"
    "bwf {} u" "view u = view s" "disk u = disk s" "dwrites u = dwrites s" "bframe s u"
    "dirty_blocks u = {}"
    by (rule read_head_ok [OF wf g(1,2) clean g(3,4)])
  let ?u = "u\<lparr>lh_n := head_n ?h, lh_block := bl\<rparr>"
  note fu = bframe_log [OF u(8)] bframe_disksize [OF u(8)]
  have logged: "logged ?u = head_blocks ?h" using u(3) by (simp add: logged_def)
  have fit: "lfits ?u"
    using geom hdr fu u(2) logged by (auto simp: lfits_def lgeom_def head_ok_def home_def)
  have inst: "installing ?u 0" using u(9) by (simp add: installing_def)
  obtain v where v: "install_trans ?u = Ret v" "bwf {} v" "bframe ?u v" "dirty_blocks v = {}"
    "disk v = replay (disk s) (home_writes ?u 0 (nat (head_n ?h)))"
    using install_loop_ok [OF _ fit inst, of "nat (head_n ?h)"] u(4,6)
    by (auto simp: install_trans_def)
  note fv = bframe_log [OF v(3)] lfits_bframe [OF v(3)] bframe_disksize [OF v(3)]
  have fit0: "lfits (v\<lparr>lh_n := 0\<rparr>)" using fit fv by (auto simp: lfits_def lgeom_def logged_def)
  obtain h0 t where t: "write_head (v\<lparr>lh_n := 0\<rparr>) = Ret t" "head_n h0 = 0" "bwf {} t"
    "disk t = (disk v)(l_start s := h0)" "bframe (v\<lparr>lh_n := 0\<rparr>) t" "dirty_blocks t = {}"
    by (rule write_head_ok [OF _ fit0]) (use v fv fu in auto)
  note ft = bframe_log [OF t(5)] lfits_bframe [OF t(5)]
  have "lwf {} t"
    using t ft fit0 fv fu by (auto simp: lwf_def logged_def)
  moreover have "view s (l_start s + i + 1) = disk s (l_start s + i + 1)" for i
    using view_not_dirty [OF wf] clean by simp
  then have "home_writes ?u 0 (nat (head_n ?h)) =
      map (\<lambda>i. (head_blocks ?h ! i, disk s (l_start s + i + 1))) [0..<nat (head_n ?h)]"
    using u(5) fu(1) by (auto simp: home_writes_def simp flip: u(3))
  then have "disk t n = recovered (l_start s) (disk s) n" if "n \<noteq> l_start s" for n
    using that t(4) v(5) by (simp add: recovered_def)
  moreover have "recover_from_log s = Ret t"
    using u(1) v(1) t(1) by (simp add: recover_from_log_def)
  moreover have "lframe s t"
    using bframe_lframe [OF u(8)] bframe_lframe [OF v(3)] bframe_lframe [OF t(5)]
    by (simp add: lframe_def)
  ultimately show thesis using ft fv fu by (intro that [of t]) simp_all
qed

subsection \<open>Crash atomicity\<close>

lemma recovered_empty: "head_n (d st) = 0 \<Longrightarrow> recovered st d = d"
  by (simp add: recovered_def)

lemma recovered_committed:
  assumes wf: "lwf {} s" and h: "d (l_start s) = h" "head_blocks h = logged s" "head_n h = lh_n s"
    and log: "\<And>i. i < nat (lh_n s) \<Longrightarrow> d (l_start s + i + 1) = view s (lh_block s ! i)"
  shows "recovered (l_start s) d = replay d (new_writes s)"
proof -
  have "map (\<lambda>i. (head_blocks (d (l_start s)) ! i, d (l_start s + i + 1))) [0..<nat (lh_n s)] =
      new_writes s"
    using lfitsD(4) [OF lwfD(2) [OF wf]] h log
    by (intro nth_equalityI) (auto simp: new_writes_def logged_def)
  then show ?thesis using h by (simp add: recovered_def)
qed

lemma prefix_trace:
  assumes "prefix P (L @ [a] @ N @ [b])"
  obtains "prefix P L" | N' where "P = L @ a # N'" "prefix N' N" | "P = L @ [a] @ N @ [b]"
  using assms by (auto simp: prefix_append prefix_Cons)

lemma head_ok_empty: "lfits s \<Longrightarrow> head_n h = 0 \<Longrightarrow> head_ok s h"
  by (simp add: head_ok_def head_blocks_def lfits_def lgeom_def)

lemma head_ok_logged:
  "lfits s \<Longrightarrow> head_n h = lh_n s \<Longrightarrow> head_blocks h = logged s \<Longrightarrow> head_ok s h"
  by (simp add: head_ok_def lfits_def)

text \<open>Writes to the log area leave the home blocks and the header alone, and conversely.\<close>

lemma replay_log_area:
  assumes fit: "lfits s" and n: "home s n \<or> n = l_start s"
    and Q: "set Q \<subseteq> set (log_writes s 0 (nat (lh_n s)))"
  shows "replay d Q n = d n"
proof (rule replay_other)
  have "n \<noteq> l_start s + i + 1" if "i < nat (lh_n s)" for i
    using home_not_log [OF fit, of "Suc i" n] that n by auto
  then have "n \<notin> fst ` set (log_writes s 0 (nat (lh_n s)))" by (auto simp: fst_log_writes)
  with Q show "n \<notin> fst ` set Q" by blast
qed

lemma replay_home_area:
  assumes fit: "lfits s" and i: "i \<le> nat (lh_n s)" and Q: "set Q \<subseteq> set (new_writes s)"
  shows "replay d Q (l_start s + i) = d (l_start s + i)"
proof (rule replay_other)
  have "l_start s + i \<notin> set (logged s)"
    using home_not_log [OF fit i] logged_home [OF fit] by blast
  then show "l_start s + i \<notin> fst ` set Q" using Q by (force simp: new_writes_def)
qed

lemma replay_new_prefix:
  assumes "set Q \<subseteq> set (new_writes s)" and "n \<notin> set (logged s)"
  shows "replay d Q n = d n"
  using assms by (intro replay_other) (force simp: new_writes_def)

lemma crash_committed:
  assumes wf: "lwf {} s" and N: "set N \<subseteq> set (new_writes s)"
    and h: "head_blocks h = logged s" "head_n h = lh_n s"
  defines "d \<equiv> replay (disk s) (log_writes s 0 (nat (lh_n s)) @ (l_start s, h) # N)"
  shows "d (l_start s) = h"
    and "home s n \<Longrightarrow> recovered (l_start s) d n = view s n"
proof -
  note w = lwfD [OF wf]
  let ?d1 = "replay (disk s) (log_writes s 0 (nat (lh_n s)))"
  have d: "d = replay (?d1(l_start s := h)) N" by (simp add: d_def replay_append)
  show start: "d (l_start s) = h" using replay_home_area [OF w(2) _ N, of 0] d by simp
  have "d (l_start s + i + 1) = view s (lh_block s ! i)" if "i < nat (lh_n s)" for i
    using replay_home_area [OF w(2) _ N, of "Suc i"] that d
      replay_log_writes [OF that, of "disk s" s] by simp
  then have rec: "recovered (l_start s) d = replay d (new_writes s)"
    by (rule recovered_committed [where d = d, OF wf start h])
  show "recovered (l_start s) d n = view s n" if n: "home s n"
  proof (cases "n \<in> set (logged s)")
    case True
    then show ?thesis by (simp add: rec replay_new_writes)
  next
    case False
    then have "d n = disk s n"
      using replay_new_prefix [OF N False] replay_log_area [OF w(2), of n] n d
        home_not_log [OF w(2), of 0 n] by simp
    with False show ?thesis using view_home_clean [OF wf False] by (simp add: rec replay_new_writes)
  qed
qed

lemma crash_recovered:
  assumes wf: "lwf {} s" and t: "commit s = Ret t" and P: "prefix P W" "dwrites t = dwrites s @ W"
  defines "d \<equiv> replay (disk s) P"
  shows "head_ok s (d (l_start s)) \<and>
    ((\<forall>n. home s n \<longrightarrow> recovered (l_start s) d n = disk s n) \<or>
     (\<forall>n. home s n \<longrightarrow> recovered (l_start s) d n = view s n))"
proof (cases "lh_n s > 0")
  case False
  then have "commit s = Ret s" by (simp add: commit_def)
  with t P have "P = []" by simp
  then show ?thesis
    using lwfD(5) [OF wf] head_ok_empty [OF lwfD(2) [OF wf]] by (simp add: recovered_empty d_def)
next
  case True
  note w = lwfD [OF wf]
  let ?L = "log_writes s 0 (nat (lh_n s))" and ?st = "l_start s"
  obtain t' h1 h0 where tr: "commit s = Ret t'" "head_blocks h1 = logged s" "head_n h1 = lh_n s"
    "head_n h0 = 0" "dwrites t' = dwrites s @ ?L @ [(?st, h1)] @ new_writes s @ [(?st, h0)]"
    by (rule commit_trace [OF wf True])
  have "prefix P (?L @ [(?st, h1)] @ new_writes s @ [(?st, h0)])"
    using tr(1,5) t P by simp
  then show ?thesis
  proof (cases rule: prefix_trace)
    case 1
    have "d n = disk s n" if "home s n \<or> n = ?st" for n
      unfolding d_def by (rule replay_log_area [OF w(2) that]) (use 1 in \<open>auto dest: set_mono_prefix\<close>)
    then show ?thesis using w(5) head_ok_empty [OF w(2)] by (simp add: recovered_empty)
  next
    case (2 N)
    then have N: "set N \<subseteq> set (new_writes s)" by (auto dest: set_mono_prefix)
    show ?thesis
      using crash_committed [OF wf N tr(2,3)] head_ok_logged [OF w(2) tr(3,2)] 2 by (simp add: d_def)
  next
    case 3
    have "d = (replay (disk s) (?L @ (?st, h1) # new_writes s))(?st := h0)"
      using 3 by (simp add: d_def replay_append)
    then have st: "d ?st = h0"
      and d: "home s n \<Longrightarrow> d n = replay (replay (disk s) ?L) (new_writes s) n" for n
      using home_not_log [OF w(2), of 0 n] by (auto simp: replay_append replay_new_writes)
    have "d n = view s n" if "home s n" for n
      using d [OF that] view_home_clean [OF wf, of n] replay_log_area [OF w(2), of n ?L] that
      by (simp add: replay_new_writes)
    then show ?thesis
      using st tr(4) head_ok_empty [OF w(2) tr(4)] by (simp add: recovered_empty)
  qed
qed

subsection \<open>Transactions\<close>

lemma begin_op_eq:
  "kernel_ok s \<Longrightarrow>
   begin_op s = (if l_committing s \<or> lh_n s + (l_outstanding s + 1) * 10 > 30 then Wait ''sleep''
     else Ret (s\<lparr>l_outstanding := l_outstanding s + 1\<rparr>))"
  by (simp add: begin_op_def crit_simps kernel_ok_lock_map)

lemma find_entry_bounds: "i \<le> find_entry i k bl n \<and> find_entry i k bl n \<le> i + k"
proof (induction k arbitrary: i)
  case (Suc k)
  show ?case using Suc.IH [of "Suc i"] by auto
qed simp

lemma find_entry_found:
  "n \<in> set (take k (drop i bl)) \<Longrightarrow> i + k \<le> length bl \<Longrightarrow>
   find_entry i k bl n < i + k \<and> bl ! find_entry i k bl n = n"
proof (induction k arbitrary: i)
  case (Suc k)
  have "take (Suc k) (drop i bl) = bl ! i # take k (drop (Suc i) bl)"
    using Suc.prems(2) by (simp flip: Cons_nth_drop_Suc [of i bl])
  with Suc.prems Suc.IH [of "Suc i"] show ?case by auto
qed simp

lemma find_entry_new:
  "n \<notin> set (take k (drop i bl)) \<Longrightarrow> i + k \<le> length bl \<Longrightarrow> find_entry i k bl n = i + k"
proof (induction k arbitrary: i)
  case (Suc k)
  have "take (Suc k) (drop i bl) = bl ! i # take k (drop (Suc i) bl)"
    using Suc.prems(2) by (simp flip: Cons_nth_drop_Suc [of i bl])
  with Suc show ?case by auto
qed simp

lemma log_write_ok:
  assumes wf: "lwf H s" and b: "b \<in> H" and home: "home s (b_blockno (bufs s b))"
    and space: "lh_n s < l_size s - 1" and op: "l_outstanding s \<ge> 1"
  obtains t where "log_write b s = Ret t" "lwf H t" "lframe s t" "view t = view s" "disk t = disk s"
    "dwrites t = dwrites s" "bufs t = (bufs s)(b := bufs s b\<lparr>b_dirty := True\<rparr>)"
    "l_outstanding t = l_outstanding s" "l_committing t = l_committing s"
    "logged t = (if b_blockno (bufs s b) \<in> set (logged s) then logged s
       else logged s @ [b_blockno (bufs s b)])"
proof -
  note w = lwfD [OF wf] and f = lfitsD [OF lwfD(2) [OF wf]]
  let ?n = "b_blockno (bufs s b)" and ?k = "nat (lh_n s)"
  let ?i = "find_entry 0 ?k (lh_block s) ?n"
  let ?bl = "(lh_block s)[?i := ?n]" and ?m = "if ?i = ?k then lh_n s + 1 else lh_n s"
  let ?t = "upd_buf b (\<lambda>x. x\<lparr>b_dirty := True\<rparr>) (s\<lparr>lh_block := ?bl, lh_n := ?m\<rparr>)"
  have size: "lh_n s < 30" "0 \<le> lh_n s" using space w(2) by (auto simp: lfits_def lgeom_def)
  have eq: "log_write b s = Ret ?t"
    using space size op bwfD(1) [OF w(1)]
    by (auto simp: log_write_def Let_def crit_simps kernel_ok_lock_map upd_buf_def)
  have old: "?i < ?k \<and> lh_block s ! ?i = ?n" if "?n \<in> set (logged s)"
    using find_entry_found [of ?n ?k 0 "lh_block s"] that f(2,5) by (simp add: logged_def)
  have new: "?i = ?k" if "?n \<notin> set (logged s)"
    using find_entry_new [of ?n ?k 0 "lh_block s"] that f(2,5) by (simp add: logged_def)
  have lg: "logged ?t = (if ?n \<in> set (logged s) then logged s else logged s @ [?n])"
  proof (cases "?n \<in> set (logged s)")
    case True
    then have "?bl = lh_block s" using old by (metis list_update_id)
    with True old show ?thesis by (simp add: logged_def upd_buf_def)
  next
    case False
    then have "?i = ?k" by (rule new)
    then show ?thesis
      using False size f(2)
      by (simp add: logged_def upd_buf_def nat_add_distrib take_Suc_conv_app_nth)
  qed
  have "lfits ?t"
    using w(2) home space lg f(2) find_entry_bounds [of 0 ?k "lh_block s" ?n]
    by (auto simp: lfits_def lgeom_def home_def upd_buf_def)
  moreover have "distinct (logged ?t)" using lg w(3) by simp
  moreover have "bwf H ?t" "view ?t = view s"
    using set_dirty [of H "s\<lparr>lh_block := ?bl, lh_n := ?m\<rparr>" b True] w(1) b by simp_all
  moreover have "dirty_blocks ?t = set (logged ?t)"
    using dirty_blocks_set_dirty [of H "s\<lparr>lh_block := ?bl, lh_n := ?m\<rparr>" b True] w(1,4) b lg by auto
  ultimately show thesis
    using w(5) lg by (intro that [OF eq]) (simp_all add: lwf_def upd_buf_def lframe_def)
qed

lemma end_op_other:
  assumes "kernel_ok s" and "\<not> l_committing s" and "l_outstanding s \<noteq> 1"
  shows "end_op s = Ret (wakeup1 ChLog (s\<lparr>l_outstanding := l_outstanding s - 1\<rparr>))"
  using assms
  by (simp add: end_op_def Let_def crit_simps wakeup1_def kernel_ok_lock_map)

lemma end_op_last:
  assumes wf: "lwf {} s" and op: "l_outstanding s = 1" "\<not> l_committing s"
  obtains t where "end_op s = Ret t" "lwf {} t" "lframe s t" "lh_n t = 0" "l_outstanding t = 0"
    "\<not> l_committing t" "\<And>n. home s n \<Longrightarrow> view t n = view s n" "\<And>n. home s n \<Longrightarrow> disk t n = view s n"
proof -
  let ?s = "s\<lparr>l_outstanding := 0, l_committing := True\<rparr>"
  have k: "kernel_ok s" by (rule bwfD(1) [OF lwfD(1) [OF wf]])
  have wf': "lwf {} ?s" using wf by simp
  obtain u where u: "commit ?s = Ret u" "lwf {} u" "lframe ?s u" "lh_n u = 0"
    "l_outstanding u = 0" "\<And>n. home ?s n \<Longrightarrow> view u n = view ?s n"
    "\<And>n. home ?s n \<Longrightarrow> disk u n = view ?s n"
    by (rule commit_ok [OF wf']) auto
  have ku: "kernel_ok u" by (rule bwfD(1) [OF lwfD(1) [OF u(2)]])
  let ?t = "wakeup1 ChLog (u\<lparr>l_committing := False\<rparr>)"
  have "end_op s = obind (commit ?s) (\<lambda>s4. obind (acquire LLog s4) (\<lambda>s5.
      obind (wakeup ChLog (s5\<lparr>l_committing := False\<rparr>)) (\<lambda>s6. release LLog s6)))"
    using k op by (simp add: end_op_def Let_def crit_simps kernel_ok_lock_map)
  also have "\<dots> = Ret ?t"
    using ku u(1) by (simp add: crit_simps wakeup1_def kernel_ok_lock_map)
  finally have eq: "end_op s = Ret ?t" .
  show thesis
    by (rule that [OF eq]) (use u in \<open>auto simp: home_def\<close>)
qed

subsection \<open>A booted system\<close>

text \<open>
  A machine that has run \<^verbatim>\<open>binit\<close> on zeroed memory, with an idle log in the place where \<^verbatim>\<open>mkfs\<close>
  puts it, and its first process running.
\<close>

definition boot_lstate :: "(nat \<Rightarrow> uchar list) \<Rightarrow> nat \<Rightarrow> lstate" where
  "boot_lstate d n = binit
     \<lparr>cpu_id = 0, iflag = True, ncli = 0, intena = True, cur = Some 0, locks = (\<lambda>_. unlocked),
      procs = [zero_proc\<lparr>p_pid := 1, p_state := RUNNING\<rparr>], nextpid = 2, initproc = Some 0, kmemory = (\<lambda>_. 0), freelist = 0, use_lock = True,
      bufs = (\<lambda>_. zero_buf), blinks = \<lparr>nxt = (\<lambda>_. 0), prv = (\<lambda>_. 0)\<rparr>, disk = d, disksize = n,
      dwrites = [], l_start = 2, l_size = 30, l_outstanding = 0, l_committing = False, l_dev = 1,
      lh_n = 0, lh_block = replicate 30 0\<rparr>"

lemma boot_lstate:
  assumes d: "\<And>k. k < n \<Longrightarrow> length (d k) = BSIZE" and n: "32 \<le> n" "n < 2 ^ 32"
    and h: "head_n (d 2) = 0"
  shows "lwf {} (boot_lstate d n)" "view (boot_lstate d n) = d" "disk (boot_lstate d n) = d"
    "l_start (boot_lstate d n) = 2" "l_size (boot_lstate d n) = 30"
    "disksize (boot_lstate d n) = n" "l_outstanding (boot_lstate d n) = 0"
    "lh_n (boot_lstate d n) = 0" "\<not> l_committing (boot_lstate d n)"
proof -
  define s where "s = \<lparr>cpu_id = 0, iflag = True, ncli = 0, intena = True, cur = Some 0,
      locks = (\<lambda>_. unlocked),
      procs = [zero_proc\<lparr>p_pid := 1, p_state := RUNNING\<rparr>], nextpid = 2, initproc = Some 0, kmemory = (\<lambda>_. 0), freelist = 0, use_lock = True,
      bufs = (\<lambda>_. zero_buf), blinks = \<lparr>nxt = (\<lambda>_. 0), prv = (\<lambda>_. 0)\<rparr>, disk = d, disksize = n,
      dwrites = [], l_start = 2, l_size = 30, l_outstanding = 0, l_committing = False, l_dev = 1,
      lh_n = 0, lh_block = replicate 30 0\<rparr>"
  have boot: "boot_lstate d n = binit s" by (simp add: boot_lstate_def s_def)
  have k: "kernel_ok s" by (simp add: s_def kernel_ok_def cli_ok_def)
  note m = binit_mach [OF k]
  have b: "bwf {} (binit s)" "view (binit s) = disk s" "dirty_blocks (binit s) = {}"
    "disk (binit s) = disk s" "disksize (binit s) = disksize s"
    using binit_ok [of s "binit s"] m binit_disk [of s] d by (auto simp: s_def disk_ok_def)
  have l: "l_start (binit s) = 2" "l_size (binit s) = 30" "l_outstanding (binit s) = 0"
    "lh_n (binit s) = 0" "\<not> l_committing (binit s)" "l_dev (binit s) = 1"
    "lh_block (binit s) = replicate 30 0"
    using bstate_more_log [OF conjunct2 [OF m]] by (simp_all add: s_def)
  show "lwf {} (boot_lstate d n)" "view (boot_lstate d n) = d" "disk (boot_lstate d n) = d"
    "l_start (boot_lstate d n) = 2" "l_size (boot_lstate d n) = 30"
    "disksize (boot_lstate d n) = n" "l_outstanding (boot_lstate d n) = 0"
    "lh_n (boot_lstate d n) = 0" "\<not> l_committing (boot_lstate d n)"
    using b l n h by (simp_all add: boot lwf_def lfits_def lgeom_def logged_def s_def)
qed

definition zero_disk :: "nat \<Rightarrow> uchar list" where
  "zero_disk n = replicate BSIZE 0"

lemma zero_disk: "length (zero_disk n) = BSIZE" "head_n (zero_disk n) = 0"
  by (simp_all add: zero_disk_def head_n_def get32_def slice_def numeral_eq_Suc)

lemmas booted = boot_lstate [of 1000 zero_disk, simplified zero_disk, simplified]

subsection \<open>Properties\<close>

text \<open>
  The pattern \<^verbatim>\<open>bp = bread(...); modify bp->data; log_write(bp); brelse(bp)\<close> of the file system: the
  block changes for every later reader, and nothing is written to the disk yet.
\<close>

lemma log_block_ok:
  assumes wf: "lwf {} s" and n: "home s n" and op: "l_outstanding s \<ge> 1"
    and space: "lh_n s < l_size s - 1" and d: "length d = BSIZE"
  obtains b s1 s2 t where "bread ROOTDEV n s = Ret (b, s1)" "b_data (bufs s1 b) = view s n"
    "log_write b (upd_buf b (\<lambda>x. x\<lparr>b_data := d\<rparr>) s1) = Ret s2" "brelse b s2 = Ret t"
    "lwf {} t" "lframe s t" "view t = (view s)(n := d)" "disk t = disk s" "dwrites t = dwrites s"
    "l_outstanding t = l_outstanding s" "l_committing t = l_committing s"
    "logged t = (if n \<in> set (logged s) then logged s else logged s @ [n])"
proof -
  note w = lwfD [OF wf]
  have room: "room {} s \<or> (\<exists>b<NBUF. caches s n b)" using room_card [OF w(1)] lwf_few [OF wf] by simp
  have free: "n \<notin> held_blocks {} s" by (simp add: held_blocks_def)
  obtain b s1 where b: "bread ROOTDEV n s = Ret (b, s1)" "bwf {b} s1" "bufs s1 b = loaded s n b"
    "view s1 = view s" "disk s1 = disk s" "dwrites s1 = dwrites s" "bframe s s1"
    "dirty_blocks s1 = dirty_blocks s"
    by (rule bread_ok [OF w(1) home_disk [OF n] free room]) auto
  note f = bframe_log [OF b(7)] lfits_bframe [OF b(7)]
  let ?s = "upd_buf b (\<lambda>x. x\<lparr>b_data := d\<rparr>) s1"
  have wf1: "bwf {b} ?s" and view1: "view ?s = (view s)(n := d)"
    using set_data [OF b(2), of b d] d b(3,4) by simp_all
  have fr: "bframe s ?s" using b(7) by simp
  note f2 = bframe_log [OF fr] lfits_bframe [OF fr]
  have "dirty_blocks ?s = dirty_blocks s1" by (auto simp: dirty_blocks_def image_iff)
  then have lw: "lwf {b} ?s" using wf1 w b(5,8) f2 by (simp add: lwf_def)
  obtain s2 where s2: "log_write b ?s = Ret s2" "lwf {b} s2" "lframe ?s s2" "view s2 = view ?s"
    "disk s2 = disk s" "dwrites s2 = dwrites s" "b_dirty (bufs s2 b)"
    "l_outstanding s2 = l_outstanding s" "l_committing s2 = l_committing s"
    "logged s2 = (if n \<in> set (logged s) then logged s else logged s @ [n])"
    by (rule log_write_ok [OF lw, of b]) (use b(3,5,6) f2 op space n in auto)
  obtain t where t: "brelse b s2 = Ret t" "bwf ({b} - {b}) t" "view t = view s2"
    "disk t = disk s2" "dwrites t = dwrites s2" "bframe s2 t" "dirty_blocks t = dirty_blocks s2"
    by (rule brelse_ok [OF lwfD(1) [OF s2(2)], of b]) (use s2(7) in auto)
  note f3 = bframe_log [OF t(6)] lfits_bframe [OF t(6)]
  have "lwf {} t" using t(2,4,7) lwfD [OF s2(2)] f3 by (simp add: lwf_def)
  moreover have "lframe s t"
    using lframe_trans [OF lframe_trans [OF bframe_lframe [OF fr] s2(3)] bframe_lframe [OF t(6)]] .
  ultimately show thesis
    by (intro that [OF b(1) _ s2(1) t(1)]) (use b(3) s2 t f3 view1 in auto)
qed

text \<open>
  C1: crash atomicity. If the machine stops after any number of the disk writes of \<^verbatim>\<open>commit\<close> and
  a machine with an empty cache boots from the disk as it was left, then \<^verbatim>\<open>recover_from_log\<close>
  returns, and either every block outside the log has the content it had on disk before the
  transaction, or every block has the content the transaction gave it.
\<close>

theorem crash_atomicity:
  assumes "lwf {} s" and "commit s = Ret t" and "dwrites t = dwrites s @ W" and "prefix P W"
    and "bwf {} u" and "dirty_blocks u = {}" and "disk u = replay (disk s) P" and "lgeom u"
    and "l_start u = l_start s" and "l_size u = l_size s" and "disksize u = disksize s"
  shows "\<exists>v. recover_from_log u = Ret v \<and> lwf {} v \<and>
    ((\<forall>n. home s n \<longrightarrow> disk v n = disk s n) \<or> (\<forall>n. home s n \<longrightarrow> disk v n = view s n))"
proof -
  have hm: "home u = home s" using assms(9-11) by (simp add: home_def fun_eq_iff)
  note cr = crash_recovered [OF assms(1,2,4,3)]
  have "head_ok u (disk u (l_start u))" using cr assms(7,9,10) hm by (simp add: head_ok_def)
  then obtain v where v: "recover_from_log u = Ret v" "lwf {} v"
    "\<And>n. n \<noteq> l_start u \<Longrightarrow> disk v n = recovered (l_start u) (disk u) n"
    using recover_ok [OF assms(5,8,6)] by blast
  have "n \<noteq> l_start u" if "home s n" for n
    using home_not_log [OF lwfD(2) [OF assms(1)], of 0 n] that assms(9) by simp
  then have "disk v n = recovered (l_start s) (replay (disk s) P) n" if "home s n" for n
    using v(3) that assms(7,9) by simp
  then show ?thesis using v cr by auto
qed

lemma logged_example:
  obtains s :: lstate where "lwf {} s" "l_outstanding s = 1" "\<not> l_committing s" "l_start s = 2" "l_size s = 30"
    "disksize s = 1000" "disk s = zero_disk" "view s = zero_disk(100 := replicate BSIZE 1)" "logged s = [100]"
proof -
  let ?s = "(boot_lstate zero_disk 1000)\<lparr>l_outstanding := 1\<rparr>"
  have wf: "lwf {} ?s" using booted by simp
  obtain b s1 s2 t where t: "lwf {} t" "lframe ?s t" "view t = (view ?s)(100 := replicate BSIZE 1)"
    "disk t = disk ?s" "l_outstanding t = l_outstanding ?s" "l_committing t = l_committing ?s"
    "logged t = (if 100 \<in> set (logged ?s) then logged ?s else logged ?s @ [100])"
    by (rule log_block_ok [OF wf, of 100 "replicate BSIZE 1"]) (use booted in \<open>auto simp: home_def\<close>)
  show thesis
    by (rule that [OF t(1)]) (use t booted in \<open>simp_all add: lframe_def logged_def\<close>)
qed

lemma crash_atomicity_witness:
  "\<exists>(s::lstate) t W v. lwf {} s \<and> logged s = [100] \<and> commit s = Ret t \<and> dwrites t = dwrites s @ W \<and>
     recover_from_log (boot_lstate (replay zero_disk []) 1000) = Ret v \<and> lwf {} v \<and>
     ((\<forall>n. home s n \<longrightarrow> disk v n = disk s n) \<or> (\<forall>n. home s n \<longrightarrow> disk v n = view s n))"
proof -
  obtain s :: lstate where s: "lwf {} s" "l_start s = 2" "l_size s = 30" "disksize s = 1000"
    "disk s = zero_disk" "logged s = [100]" by (rule logged_example)
  have "lh_n s > 0" using s(6) by (cases "lh_n s > 0") (simp_all add: logged_def)
  then obtain t W where t: "commit s = Ret t" "dwrites t = dwrites s @ W"
    using commit_trace [OF s(1)] by metis
  let ?u = "boot_lstate (replay zero_disk []) 1000"
  have "\<exists>v. recover_from_log ?u = Ret v \<and> lwf {} v \<and>
    ((\<forall>n. home s n \<longrightarrow> disk v n = disk s n) \<or> (\<forall>n. home s n \<longrightarrow> disk v n = view s n))"
    by (rule crash_atomicity [OF s(1) t, of "[]"])
       (use booted lwfD [OF booted(1)] s in \<open>simp_all add: logged_def lfits_def\<close>)
  then show ?thesis using s(1,6) t by blast
qed

end
