(* ===== verification/Reserve.thy ===== *)
theory Reserve
  imports Recovery
begin

text \<open>
  The reservation of log space by \<^verbatim>\<open>begin_op\<close>: any number of processes run file system operations,
  each logging at most \<^verbatim>\<open>MAXOPBLOCKS\<close> different blocks, in any interleaving. The log never holds
  more than \<^verbatim>\<open>LOGSIZE\<close> blocks. The test of \<^verbatim>\<open>log_write\<close> leaves one block less than was reserved: with the
  log that \<^verbatim>\<open>mkfs\<close> makes it panics at \<^verbatim>\<open>LOGSIZE - 1\<close> blocks.
\<close>

subsection \<open>What the layers below the log leave alone\<close>

text \<open>
  These hold of every run that returns, not only of those from well-formed states.
\<close>

lemma pushcli_more [simp]: "mach.more (pushcli s) = mach.more s"
  by (simp add: pushcli_def Let_def)

lemma popcli_more: "popcli s = Ret t \<Longrightarrow> mach.more t = mach.more s"
  by (auto simp: popcli_def Let_def split: if_splits)

lemma holding_more: "holding l s = Ret (r, t) \<Longrightarrow> mach.more t = mach.more s"
  by (auto simp: holding_def Let_def dest!: popcli_more)

lemma acquire_more: "acquire l s = Ret t \<Longrightarrow> mach.more t = mach.more s"
  by (auto simp: acquire_def Let_def split: if_splits dest!: holding_more)

lemma release_more: "release l s = Ret t \<Longrightarrow> mach.more t = mach.more s"
  by (auto simp: release_def Let_def split: if_splits dest!: holding_more popcli_more)

lemma wakeup_more: "wakeup c s = Ret t \<Longrightarrow> mach.more t = mach.more s"
  by (auto simp: wakeup_def wakeup1_def dest!: acquire_more release_more)

lemma sleeplock_more:
  "acquiresleep i l s = Ret (l', t) \<Longrightarrow> mach.more t = mach.more s"
  "releasesleep i l s = Ret (l', t) \<Longrightarrow> mach.more t = mach.more s"
  "holdingsleep i l s = Ret (r, t) \<Longrightarrow> mach.more t = mach.more s"
  by (auto simp: acquiresleep_def releasesleep_def holdingsleep_def Let_def split: if_splits
      dest!: acquire_more release_more wakeup_more)

lemma mach_more_bstate:
  fixes s t :: "'a bstate_scheme"
  assumes "mach.more t = mach.more s"
  shows "bstate.more t = bstate.more s"
  using assms by (cases s; cases t) simp

lemmas bmore = acquire_more [THEN mach_more_bstate] release_more [THEN mach_more_bstate]
  wakeup_more [THEN mach_more_bstate] sleeplock_more [THEN mach_more_bstate]

lemma upd_buf_more [simp]: "bstate.more (upd_buf b f s) = bstate.more s"
  by (simp add: upd_buf_def)

lemma iderw_more: "iderw b s = Ret t \<Longrightarrow> bstate.more t = bstate.more s"
  by (auto simp: iderw_def Let_def split: if_splits dest!: bmore)

lemma lock_buf_more: "lock_buf b s = Ret t \<Longrightarrow> bstate.more t = bstate.more s"
  by (auto simp: lock_buf_def dest!: bmore)

lemma bget_more: "bget dev n s = Ret (b, t) \<Longrightarrow> bstate.more t = bstate.more s"
  by (auto simp: bget_def split: option.splits dest!: bmore lock_buf_more)

lemma bread_more: "bread dev n s = Ret (b, t) \<Longrightarrow> bstate.more t = bstate.more s"
  by (auto simp: bread_def split: if_splits dest!: bget_more iderw_more)

lemma bwrite_more: "bwrite b s = Ret t \<Longrightarrow> bstate.more t = bstate.more s"
  by (auto simp: bwrite_def split: if_splits dest!: bmore iderw_more)

lemma brelse_more: "brelse b s = Ret t \<Longrightarrow> bstate.more t = bstate.more s"
  by (auto simp: brelse_def Let_def split: if_splits dest!: bmore)

lemmas io_more = bread_more bwrite_more brelse_more

lemma write_loop_more: "write_loop i k s = Ret t \<Longrightarrow> bstate.more t = bstate.more s"
  by (induction k arbitrary: i s) (fastforce split: if_splits dest!: io_more)+

lemma install_loop_more: "install_loop i k s = Ret t \<Longrightarrow> bstate.more t = bstate.more s"
  by (induction k arbitrary: i s) (fastforce split: if_splits dest!: io_more)+

lemma write_head_more: "write_head s = Ret t \<Longrightarrow> bstate.more t = bstate.more s"
  by (auto simp: write_head_def Let_def dest!: io_more)

lemma commit_log:
  assumes "commit s = Ret t" and "0 \<le> lh_n s"
  shows "lh_n t = 0" "l_outstanding t = l_outstanding s" "l_size t = l_size s" "lh_block t = lh_block s"
proof -
  consider "t = s" "lh_n s = 0"
    | s1 s2 s3 where "write_log s = Ret s1" "write_head s1 = Ret s2" "install_trans s2 = Ret s3"
        "write_head (s3\<lparr>lh_n := 0\<rparr>) = Ret t"
    using assms by (auto simp: commit_def split: if_splits)
  then have "lh_n t = 0 \<and> l_outstanding t = l_outstanding s \<and> l_size t = l_size s \<and> lh_block t = lh_block s"
  proof cases
    case 2
    then have "bstate.more s3 = bstate.more s" "bstate.more t = bstate.more (s3\<lparr>lh_n := 0\<rparr>)"
      by (auto simp: write_log_def install_trans_def dest!: write_loop_more write_head_more install_loop_more)
    then show ?thesis
      using bstate_more_log [of s3 s] bstate_more_log [of t "s3\<lparr>lh_n := 0\<rparr>"] by simp
  qed simp
  then show "lh_n t = 0" "l_outstanding t = l_outstanding s" "l_size t = l_size s" "lh_block t = lh_block s"
    by auto
qed

subsection \<open>The effect of the log's operations on its counters\<close>

lemma begin_op_log:
  assumes "begin_op s = Ret t"
  shows "\<not> l_committing s" "lh_n s + (l_outstanding s + 1) * 10 \<le> 30" "lh_n t = lh_n s"
    "l_outstanding t = l_outstanding s + 1" "l_size t = l_size s" "lh_block t = lh_block s"
proof -
  obtain s1 where s1: "acquire LLog s = Ret s1" "\<not> l_committing s1"
    "lh_n s1 + (l_outstanding s1 + 1) * 10 \<le> 30"
    "release LLog (s1\<lparr>l_outstanding := l_outstanding s1 + 1\<rparr>) = Ret t"
    using assms by (auto simp: begin_op_def split: if_splits)
  note m = bstate_more_log [OF mach_more_bstate [OF acquire_more [OF s1(1)]]]
    bstate_more_log [OF mach_more_bstate [OF release_more [OF s1(4)]]]
  then show "\<not> l_committing s" "lh_n s + (l_outstanding s + 1) * 10 \<le> 30" "lh_n t = lh_n s"
    "l_outstanding t = l_outstanding s + 1" "l_size t = l_size s" "lh_block t = lh_block s"
    using s1 by simp_all
qed

lemma mach_more_bufs:
  fixes s t :: "'a bstate_scheme"
  assumes "mach.more t = mach.more s"
  shows "bufs t = bufs s"
  using assms by (cases s; cases t) simp

text \<open>The new log header of \<^verbatim>\<open>log_write\<close>: a block that is there already is absorbed.\<close>

lemma log_entry:
  assumes "n = find_entry 0 k bl x" and "k < length bl"
  shows "x \<in> set (take k bl) \<Longrightarrow> n < k \<and> bl[n := x] = bl"
    and "x \<notin> set (take k bl) \<Longrightarrow> n = k \<and> set (take (Suc k) (bl[n := x])) = insert x (set (take k bl))"
proof -
  show "n < k \<and> bl[n := x] = bl" if "x \<in> set (take k bl)"
    using find_entry_found [of x k 0 bl] that assms by (metis add_0 drop0 less_imp_le list_update_id)
  show "n = k \<and> set (take (Suc k) (bl[n := x])) = insert x (set (take k bl))" if "x \<notin> set (take k bl)"
    using find_entry_new [of x k 0 bl] that assms by (simp add: take_Suc_conv_app_nth)
qed

lemma log_write_log:
  assumes "log_write b s = Ret t" and "0 \<le> lh_n s" and "length (lh_block s) = 30"
  defines "x \<equiv> b_blockno (bufs s b)"
  shows "lh_n t = (if x \<in> set (logged s) then lh_n s else lh_n s + 1)" "set (logged t) = insert x (set (logged s))"
    "l_outstanding t = l_outstanding s" "l_size t = l_size s" "length (lh_block t) = 30"
proof -
  let ?k = "nat (lh_n s)"
  let ?i = "find_entry 0 ?k (lh_block s) x"
  obtain s1 where acq: "acquire LLog s = Ret s1" and lt: "lh_n s < 30"
    using assms(1) by (auto simp: log_write_def split: if_splits)
  note m1 = bstate_more_log [OF mach_more_bstate [OF acquire_more [OF acq]]]
  let ?u = "s1\<lparr>lh_block := (lh_block s)[?i := x]\<rparr>"
  let ?v = "if int ?i = lh_n s then ?u\<lparr>lh_n := lh_n s + 1\<rparr> else ?u"
  have "release LLog (upd_buf b (\<lambda>x. x\<lparr>b_dirty := True\<rparr>) ?v) = Ret t"
    using assms(1) acq m1 mach_more_bufs [OF acquire_more [OF acq]]
    by (auto simp: log_write_def Let_def x_def split: if_splits)
  note m2 = bstate_more_log [OF mach_more_bstate [OF release_more [OF this]]]
  then have t: "lh_n t = (if int ?i = lh_n s then lh_n s + 1 else lh_n s)" "lh_block t = (lh_block s)[?i := x]"
    using m1 by (simp_all add: upd_buf_def split: if_splits)
  show "l_outstanding t = l_outstanding s" "l_size t = l_size s" "length (lh_block t) = 30"
    using m1 m2 assms(3) by (simp_all add: upd_buf_def split: if_splits)
  have k: "?k < length (lh_block s)" "int ?k = lh_n s" using assms(2,3) lt by auto
  show "lh_n t = (if x \<in> set (logged s) then lh_n s else lh_n s + 1)"
    "set (logged t) = insert x (set (logged s))"
  proof (atomize(full), cases "x \<in> set (logged s)")
    case True
    then have "?i < ?k" "(lh_block s)[?i := x] = lh_block s" using log_entry(1) [OF refl k(1)] by (auto simp: logged_def)
    then show "lh_n t = (if x \<in> set (logged s) then lh_n s else lh_n s + 1) \<and> set (logged t) = insert x (set (logged s))"
      using t True k(2) by (auto simp: logged_def)
  next
    case False
    then have "?i = ?k" "set (take (Suc ?k) ((lh_block s)[?i := x])) = insert x (set (logged s))"
      using log_entry(2) [OF refl k(1), of x] unfolding logged_def by blast+
    then show "lh_n t = (if x \<in> set (logged s) then lh_n s else lh_n s + 1) \<and> set (logged t) = insert x (set (logged s))"
      using t False k(2) nat_add_distrib [OF assms(2), of 1] by (simp add: logged_def)
  qed
qed

lemma end_op_log:
  assumes "end_op s = Ret t" and "0 \<le> lh_n s"
  shows "lh_n t = (if l_outstanding s = 1 then 0 else lh_n s)" "l_outstanding t = l_outstanding s - 1"
    "l_size t = l_size s" "lh_block t = lh_block s"
proof -
  obtain s1 where s1: "acquire LLog s = Ret s1"
    using assms by (auto simp: end_op_def)
  note m = bstate_more_log [OF mach_more_bstate [OF acquire_more [OF s1]]]
  let ?s2 = "s1\<lparr>l_outstanding := l_outstanding s1 - 1\<rparr>"
  have "lh_n t = (if l_outstanding s = 1 then 0 else lh_n s) \<and>
    l_outstanding t = l_outstanding s - 1 \<and> l_size t = l_size s \<and> lh_block t = lh_block s"
  proof (cases "l_outstanding s = 1")
    case True
    with assms s1 m obtain s3 s4 s5 s6 where st: "release LLog (?s2\<lparr>l_committing := True\<rparr>) = Ret s3"
      "commit s3 = Ret s4" "acquire LLog s4 = Ret s5"
      "wakeup ChLog (s5\<lparr>l_committing := False\<rparr>) = Ret s6" "release LLog s6 = Ret t"
      by (auto simp: end_op_def Let_def split: if_splits)
    note m2 = bstate_more_log [OF mach_more_bstate [OF release_more [OF st(1)]]]
      bstate_more_log [OF mach_more_bstate [OF acquire_more [OF st(3)]]]
      bstate_more_log [OF mach_more_bstate [OF wakeup_more [OF st(4)]]]
      bstate_more_log [OF mach_more_bstate [OF release_more [OF st(5)]]]
    show ?thesis using m m2 commit_log [OF st(2)] assms(2) True by simp
  next
    case False
    with assms s1 m obtain s3 where st: "wakeup ChLog ?s2 = Ret s3" "release LLog s3 = Ret t"
      by (auto simp: end_op_def Let_def split: if_splits)
    show ?thesis
      using m bstate_more_log [OF mach_more_bstate [OF wakeup_more [OF st(1)]]]
        bstate_more_log [OF mach_more_bstate [OF release_more [OF st(2)]]] False by simp
  qed
  then show "lh_n t = (if l_outstanding s = 1 then 0 else lh_n s)"
    "l_outstanding t = l_outstanding s - 1" "l_size t = l_size s" "lh_block t = lh_block s" by auto
qed

subsection \<open>Any number of operations\<close>

text \<open>
  The log together with the operations in progress: \<open>ops p\<close> is the set of the numbers of the blocks
  that the operation of process \<open>p\<close> has logged. It may log a block again as often as it likes.
  Between the calls anything may happen that leaves the log alone. A panic stops the kernel, so
  there is no step after it.
\<close>

inductive op_step :: "lstate \<times> (nat \<rightharpoonup> nat set) \<Rightarrow> lstate \<times> (nat \<rightharpoonup> nat set) \<Rightarrow> bool" where
  op_begin: "ops p = None \<Longrightarrow> begin_op s = Ret t \<Longrightarrow> op_step (s, ops) (t, ops(p \<mapsto> {}))"
| op_write: "ops p = Some B \<Longrightarrow> B' = insert (b_blockno (bufs s b)) B \<Longrightarrow> card B' \<le> MAXOPBLOCKS \<Longrightarrow>
    log_write b s = Ret t \<Longrightarrow> op_step (s, ops) (t, ops(p \<mapsto> B'))"
| op_end: "ops p = Some B \<Longrightarrow> end_op s = Ret t \<Longrightarrow> op_step (s, ops) (t, ops(p := None))"
| op_other: "bstate.more t = bstate.more s \<Longrightarrow> op_step (s, ops) (t, ops)"

definition op_init :: "lstate \<times> (nat \<rightharpoonup> nat set) \<Rightarrow> bool" where
  "op_init x \<longleftrightarrow> lh_n (fst x) = 0 \<and> l_outstanding (fst x) = 0 \<and> length (lh_block (fst x)) = LOGSIZE \<and>
     snd x = Map.empty"

text \<open>The blocks the operations in progress may still log, all together.\<close>

definition reserve :: "(nat \<rightharpoonup> nat set) \<Rightarrow> int" where
  "reserve ops = (\<Sum>p\<in>dom ops. 10 - int (card (the (ops p))))"

definition op_inv :: "lstate \<times> (nat \<rightharpoonup> nat set) \<Rightarrow> bool" where
  "op_inv x \<longleftrightarrow> (case x of (s, ops) \<Rightarrow> finite (dom ops) \<and> 0 \<le> lh_n s \<and> length (lh_block s) = 30 \<and>
     l_outstanding s = int (card (dom ops)) \<and> l_outstanding s \<le> 3 \<and>
     (\<forall>p B. ops p = Some B \<longrightarrow> card B \<le> 10 \<and> B \<subseteq> set (logged s)) \<and> lh_n s + reserve ops \<le> 30)"

lemma op_invD:
  assumes "op_inv (s, ops)"
  shows "finite (dom ops)" "0 \<le> lh_n s" "length (lh_block s) = 30" "l_outstanding s = int (card (dom ops))"
    "l_outstanding s \<le> 3" "ops p = Some B \<Longrightarrow> card B \<le> 10" "ops p = Some B \<Longrightarrow> B \<subseteq> set (logged s)"
    "lh_n s + reserve ops \<le> 30"
  using assms by (auto simp: op_inv_def)

lemma reserve_upd:
  assumes "finite (dom ops)"
  shows "ops p = None \<Longrightarrow> reserve (ops(p \<mapsto> B)) = reserve ops + (10 - int (card B))"
    and "ops p = Some A \<Longrightarrow> reserve (ops(p \<mapsto> B)) = reserve ops + (int (card A) - int (card B))"
    and "ops p = Some A \<Longrightarrow> reserve (ops(p := None)) = reserve ops - (10 - int (card A))"
proof -
  let ?D = "dom ops - {p}"
  let ?rest = "\<Sum>q\<in>?D. 10 - int (card (the (ops q)))"
  have same: "(\<Sum>q\<in>?D. 10 - int (card (the ((ops(p \<mapsto> B)) q)))) = ?rest"
    by (rule sum.cong) auto
  have upd: "reserve (ops(p \<mapsto> B)) = (10 - int (card B)) + ?rest"
    using assms same by (simp add: reserve_def sum.insert_remove)
  show "ops p = None \<Longrightarrow> reserve (ops(p \<mapsto> B)) = reserve ops + (10 - int (card B))"
    using upd by (simp add: reserve_def domIff Diff_insert_absorb)
  have rm: "reserve ops = (10 - int (card A)) + ?rest" if "ops p = Some A"
    using assms that by (simp add: reserve_def sum.remove [of "dom ops" p] domI)
  then show "ops p = Some A \<Longrightarrow> reserve (ops(p \<mapsto> B)) = reserve ops + (int (card A) - int (card B))"
    using upd by simp
  have "(\<Sum>q\<in>?D. 10 - int (card (the ((ops(p := None)) q)))) = ?rest"
    by (rule sum.cong) auto
  then show "ops p = Some A \<Longrightarrow> reserve (ops(p := None)) = reserve ops - (10 - int (card A))"
    using rm by (simp add: reserve_def)
qed

lemma reserve_nonneg: "\<forall>p B. ops p = Some B \<longrightarrow> card B \<le> 10 \<Longrightarrow> 0 \<le> reserve ops"
  unfolding reserve_def by (rule sum_nonneg) auto

lemma reserve_le: "reserve ops \<le> 10 * int (card (dom ops))"
proof (cases "finite (dom ops)")
  case True
  have "reserve ops \<le> (\<Sum>p\<in>dom ops. 10)" unfolding reserve_def by (rule sum_mono) simp
  then show ?thesis by simp
qed (simp add: reserve_def)

lemma op_begin_inv:
  assumes inv: "op_inv (s, ops)" and "ops p = None" and "begin_op s = Ret t"
  shows "op_inv (t, ops(p \<mapsto> {}))"
proof -
  note d = op_invD [OF inv] and l = begin_op_log [OF assms(3)]
  have "reserve ops \<le> 10 * l_outstanding s" using d(4) reserve_le [of ops] by simp
  moreover have "p \<notin> dom ops" using assms(2) by (simp add: domIff)
  ultimately show ?thesis
    using d l reserve_upd(1) [OF d(1) assms(2), of "{}"] by (auto simp: op_inv_def logged_def)
qed

lemma op_write_inv:
  assumes inv: "op_inv (s, ops)" and p: "ops p = Some B" and B': "B' = insert (b_blockno (bufs s b)) B"
    and card: "card B' \<le> MAXOPBLOCKS" and w: "log_write b s = Ret t"
  shows "op_inv (t, ops(p \<mapsto> B'))"
proof -
  note d = op_invD [OF inv]
  note l = log_write_log [OF w d(2,3)]
  let ?x = "b_blockno (bufs s b)"
  have "finite B" by (rule finite_subset [OF d(7) [OF p]]) simp
  then have "lh_n t + (int (card B) - int (card B')) \<le> lh_n s"
    using d(7) [OF p] l(1) B' by (cases "?x \<in> B") (auto simp: insert_absorb)
  then have "lh_n t + reserve (ops(p \<mapsto> B')) \<le> 30"
    using reserve_upd(2) [OF d(1) p, of B'] d(8) by simp
  moreover have "insert p (dom ops) = dom ops" using p by (auto simp: domIff)
  moreover have "card A \<le> 10 \<and> A \<subseteq> set (logged t)" if "(ops(p \<mapsto> B')) q = Some A" for q A
    using that d(6,7) [of q A] d(7) [OF p] l(2) B' card by (cases "q = p") auto
  ultimately show ?thesis using d(1,2,4,5) l(1,3,5) by (simp add: op_inv_def)
qed

lemma op_end_inv:
  assumes inv: "op_inv (s, ops)" and p: "ops p = Some B" and e: "end_op s = Ret t"
  shows "op_inv (t, ops(p := None))"
proof -
  note d = op_invD [OF inv]
  note l = end_op_log [OF e d(2)]
  have "p \<in> dom ops" using p by (rule domI)
  then have card: "card (dom ops - {p}) = card (dom ops) - 1" "0 < card (dom ops)"
    using d(1) by (auto simp: card_gt_0_iff)
  show ?thesis
  proof (cases "l_outstanding s = 1")
    case True
    then have "dom ops - {p} = {}" using d(1,4) card by auto
    then have "ops(p := None) = Map.empty" by (intro ext) (auto simp: dom_def)
    then show ?thesis using d l True by (simp add: op_inv_def reserve_def)
  next
    case False
    have "reserve (ops(p := None)) \<le> reserve ops"
      using reserve_upd(3) [OF d(1) p] d(6) [OF p] by simp
    moreover have "logged t = logged s" using l(1,4) False by (simp add: logged_def)
    ultimately show ?thesis
      using inv l False card by (auto simp: op_inv_def of_nat_diff)
  qed
qed

interpretation ops: invariant_system op_init op_step op_inv
proof
  show "op_inv x" if "op_init x" for x
    using that by (cases x) (simp add: op_init_def op_inv_def reserve_def)
  show "op_inv y" if "op_inv x" "op_step x y" for x y
    using that(2)
  proof cases
    case (op_other t s ops)
    then show ?thesis using that(1) bstate_more_log [OF op_other(3)] by (simp add: op_inv_def logged_def)
  qed (use that(1) in \<open>auto intro: op_begin_inv op_write_inv op_end_inv\<close>)
qed

lemma log_write_free:
  assumes "kernel_ok s" and "1 \<le> l_outstanding s" and "lh_n s < 30" and "lh_n s < l_size s - 1"
  shows "\<exists>t. log_write b s = Ret t"
  using assms by (simp add: log_write_def Let_def crit_simps kernel_ok_lock_map upd_buf_def)

text \<open>
  C4: the space that \<^verbatim>\<open>begin_op\<close> reserves bounds the log. In every interleaving of operations that log
  at most \<^verbatim>\<open>MAXOPBLOCKS\<close> different blocks each, at most three operations run at a time; the blocks
  in the log and the blocks the operations may still log are together at most \<^verbatim>\<open>LOGSIZE\<close>; what an
  operation has logged is in the log until it ends; and an operation that has not used up its
  \<^verbatim>\<open>MAXOPBLOCKS\<close> finds room in the array \<^verbatim>\<open>log.lh.block\<close>. Its \<^verbatim>\<open>log_write\<close> returns, with a log of at
  least \<^verbatim>\<open>LOGSIZE\<close> blocks on the disk, as long as the operations in progress have two of the
  reserved blocks left. The last reserved block is not usable: with a log of \<^verbatim>\<open>LOGSIZE\<close> blocks, which
  is what \<^verbatim>\<open>mkfs\<close> makes, \<^verbatim>\<open>log_write\<close> panics when \<^verbatim>\<open>LOGSIZE - 1\<close> blocks are in the log.
\<close>

theorem log_reservation:
  assumes "reachable op_init op_step (s, ops)"
  shows "0 \<le> lh_n s \<and> lh_n s \<le> int LOGSIZE \<and> lh_n s + reserve ops \<le> int LOGSIZE \<and> l_outstanding s \<le> 3 \<and>
    (ops p = Some B \<longrightarrow> card B \<le> MAXOPBLOCKS \<and> B \<subseteq> set (logged s) \<and>
      (card B < MAXOPBLOCKS \<longrightarrow> lh_n s < int LOGSIZE) \<and>
      (kernel_ok s \<longrightarrow> int LOGSIZE \<le> l_size s \<longrightarrow> 2 \<le> reserve ops \<longrightarrow> (\<exists>t. log_write b s = Ret t)) \<and>
      (l_size s = int LOGSIZE \<longrightarrow> lh_n s = int LOGSIZE - 1 \<longrightarrow> log_write b s = Panic ''too big a transaction''))"
proof -
  have inv: "op_inv (s, ops)" by (rule ops.reachable_invar [OF assms])
  note d = op_invD [OF inv]
  have res: "0 \<le> reserve ops" by (rule reserve_nonneg) (use d(6) in auto)
  have "lh_n s < 30" if p: "ops p = Some B" and k: "card B < 10"
  proof -
    have "0 \<le> reserve (ops(p := None))" by (rule reserve_nonneg) (use d(6) in auto)
    then show ?thesis using d(8) reserve_upd(3) [OF d(1) p] k by simp
  qed
  moreover have "\<exists>t. log_write b s = Ret t"
    if "ops p = Some B" "kernel_ok s" "30 \<le> l_size s" "2 \<le> reserve ops"
  proof (rule log_write_free)
    have "0 < card (dom ops)" using d(1) that(1) by (auto simp: card_gt_0_iff)
    then show "1 \<le> l_outstanding s" using d(4) by simp
  qed (use that d(8) in auto)
  moreover have "log_write b s = Panic ''too big a transaction''" if "l_size s = 30" "lh_n s = 29"
    using that by (simp add: log_write_def)
  ultimately show ?thesis using d(2,5-8) res by auto
qed

lemma log_reservation_witness:
  "\<exists>s ops t. reachable op_init op_step (s, ops) \<and> ops 7 = Some {} \<and> l_outstanding s = 1 \<and>
     lh_n s < int LOGSIZE \<and> log_write 0 s = Ret t"
proof -
  let ?s = "boot_lstate zero_disk 1000"
  let ?t = "?s\<lparr>l_outstanding := 1\<rparr>"
  have k: "kernel_ok ?s" by (rule bwfD(1) [OF lwfD(1) [OF booted(1)]])
  have "op_step (?s, Map.empty) (?t, Map.empty(7 \<mapsto> {}))"
    by (rule op_begin) (use k booted in \<open>simp_all add: begin_op_eq\<close>)
  moreover have "length (lh_block ?s) = 30"
    using lfitsD(2) [OF lwfD(2) [OF booted(1)]] by simp
  then have "op_init (?s, Map.empty)" using booted by (simp add: op_init_def)
  ultimately have r: "reachable op_init op_step (?t, Map.empty(7 \<mapsto> {}))"
    by (blast intro: reachable.intros)
  have "reserve (Map.empty(7 \<mapsto> {})) = 10" by (simp add: reserve_def)
  then have "\<exists>t. log_write 0 ?t = Ret t"
    using log_reservation [OF r, of 7 "{}" 0] k booted by simp
  then obtain u where "log_write 0 ?t = Ret u" by blast
  then show ?thesis using r booted by (intro exI [of _ ?t] exI [of _ "Map.empty(7 \<mapsto> {})"] exI [of _ u]) auto
qed

end
