(* ===== verification/Ring.thy ===== *)
theory Ring
  imports Prelude
begin

text \<open>
  Ring buffers addressed by free-running 32-bit counters, as in the pipes (\<^verbatim>\<open>pipe.c\<close>) and the
  console input (\<^verbatim>\<open>console.c\<close>): element number \<open>i\<close> lives at index \<open>i % N\<close>. The counters wrap
  around at \<open>2 ^ 32\<close>, which is harmless because \<open>N\<close> divides it. The second half is the
  interface of a bounded first-in-first-out buffer that both components implement.
\<close>

subsection \<open>Counters that wrap around\<close>

definition ring_contents :: "nat \<Rightarrow> 'a list \<Rightarrow> uint \<Rightarrow> uint \<Rightarrow> 'a list" where
  "ring_contents N d r w = map (\<lambda>k. d ! ((unat r + k) mod N)) [0..<unat (w - r)]"

lemma length_ring_contents [simp]: "length (ring_contents N d r w) = unat (w - r)"
  by (simp add: ring_contents_def)

lemma ring_contents_empty: "ring_contents N d r w = [] \<longleftrightarrow> r = w"
proof -
  have "ring_contents N d r w = [] \<longleftrightarrow> unat (w - r) = 0"
    using length_ring_contents [of N d r w] by (metis length_0_conv)
  then show ?thesis by (auto simp: unat_eq_0)
qed

lemma unat_mod_add:
  assumes "N dvd 2 ^ 32"
  shows "unat (r + v :: uint) mod N = (unat r + unat v) mod N"
  using assms by (simp add: unat_word_ariths mod_mod_cancel)

lemma unat_Suc_diff:
  assumes "unat (w - r :: uint) < 2 ^ 32 - 1"
  shows "unat (w + 1 - r) = Suc (unat (w - r))"
proof -
  have "unat ((w - r) + 1) = Suc (unat (w - r)) mod 2 ^ 32"
    by (simp only: unat_word_ariths(1)) simp
  moreover have "w + 1 - r = (w - r) + 1" by simp
  ultimately have "unat (w + 1 - r) = Suc (unat (w - r)) mod 2 ^ 32" by (simp only:)
  then show ?thesis using assms by simp
qed

lemma unat_diff_Suc:
  assumes "r \<noteq> (w :: uint)"
  shows "unat (w - r) = Suc (unat (w - (r + 1)))"
proof -
  have "w - r = 1 + (w - (r + 1))" by simp
  moreover have "1 + (w - (r + 1)) \<noteq> 0" using assms by (metis calculation eq_iff_diff_eq_0)
  ultimately show ?thesis by (metis unatSuc)
qed

lemma ring_put:
  assumes N: "N dvd 2 ^ 32" "N < 2 ^ 32" "length d = N" and room: "unat (w - r) < N"
  shows "ring_contents N (d[unat w mod N := x]) r (w + 1) = ring_contents N d r w @ [x]"
    and "unat (w + 1 - r) = Suc (unat (w - r))"
proof -
  let ?n = "unat (w - r)"
  show len: "unat (w + 1 - r) = Suc ?n" by (rule unat_Suc_diff) (use room N(2) in simp)
  have w: "unat w mod N = (unat r + ?n) mod N"
    using unat_mod_add [OF N(1), of r "w - r"] by simp
  have ne: "(unat r + ?n) mod N \<noteq> (unat r + k) mod N" if "k < ?n" for k
  proof
    assume "(unat r + ?n) mod N = (unat r + k) mod N"
    then have "N dvd ?n - k"
      using that mod_eq_dvd_iff_nat [of "unat r + k" "unat r + ?n" N] by simp
    then show False using that room by (auto dest: dvd_imp_le)
  qed
  have "0 < N" using room by simp
  then show "ring_contents N (d[unat w mod N := x]) r (w + 1) = ring_contents N d r w @ [x]"
    using ne N(3) by (auto simp: ring_contents_def len w)
qed

lemma ring_get:
  assumes N: "N dvd 2 ^ 32" and r: "r \<noteq> w"
  shows "ring_contents N d r w = d ! (unat r mod N) # ring_contents N d (r + 1) w"
proof -
  have "d ! ((unat r + Suc k) mod N) = d ! ((unat (r + 1) + k) mod N)" for k
    using unat_mod_add [OF N, of r 1] by (metis add_Suc_right add_Suc_shift mod_add_left_eq unat_1 Suc_eq_plus1)
  then show ?thesis
    by (simp add: ring_contents_def unat_diff_Suc [OF r] upt_conv_Cons map_Suc_upt [symmetric] del: upt_Suc)
qed

subsection \<open>The interface of a bounded first-in-first-out buffer\<close>

locale bounded_fifo =
  fixes cap :: nat
    and invar :: "'q \<Rightarrow> bool"
    and contents :: "'q \<Rightarrow> 'x list"
    and put :: "'x \<Rightarrow> 'q \<Rightarrow> 'q"
    and get :: "'q \<Rightarrow> 'x \<times> 'q"
  assumes put_ok: "invar q \<Longrightarrow> length (contents q) < cap \<Longrightarrow>
      invar (put x q) \<and> contents (put x q) = contents q @ [x]"
    and get_ok: "invar q \<Longrightarrow> contents q \<noteq> [] \<Longrightarrow>
      invar (snd (get q)) \<and> contents q = fst (get q) # contents (snd (get q))"
    and cap_ok: "invar q \<Longrightarrow> length (contents q) \<le> cap"
begin

fun puts :: "'x list \<Rightarrow> 'q \<Rightarrow> 'q" where
  "puts [] q = q"
| "puts (x # xs) q = puts xs (put x q)"

fun gets :: "nat \<Rightarrow> 'q \<Rightarrow> 'x list \<times> 'q" where
  "gets 0 q = ([], q)"
| "gets (Suc n) q = (let (x, q1) = get q; (xs, q2) = gets n q1 in (x # xs, q2))"

lemma puts_ok:
  "invar q \<Longrightarrow> length (contents q) + length xs \<le> cap \<Longrightarrow>
   invar (puts xs q) \<and> contents (puts xs q) = contents q @ xs"
  by (induction xs arbitrary: q) (auto simp: put_ok)

lemma gets_ok:
  "invar q \<Longrightarrow> n \<le> length (contents q) \<Longrightarrow>
   invar (snd (gets n q)) \<and> fst (gets n q) = take n (contents q) \<and>
   contents (snd (gets n q)) = drop n (contents q)"
proof (induction n arbitrary: q)
  case (Suc n)
  have "contents q \<noteq> []" using Suc.prems(2) by auto
  note g = get_ok [OF Suc.prems(1) this]
  have "n \<le> length (contents (snd (get q)))" using Suc.prems(2) g by (metis Suc_le_mono length_Cons)
  note ih = Suc.IH [OF conjunct1 [OF g] this]
  obtain x q1 where q1: "get q = (x, q1)" by fastforce
  obtain xs q2 where q2: "gets n q1 = (xs, q2)" by fastforce
  show ?case using ih g q1 q2 by (simp add: Let_def)
qed simp

text \<open>What goes in comes out, in order.\<close>

lemma puts_gets:
  assumes "invar q" and "contents q = []" and "length xs \<le> cap"
  shows "fst (gets (length xs) (puts xs q)) = xs"
  using puts_ok [of q xs] gets_ok [of "puts xs q" "length xs"] assms by simp

end

end
