(* ===== verification/Pipe.thy ===== *)
theory Pipe
  imports Ring Sched
begin

text \<open>
  Pipes (\<^verbatim>\<open>xv6-public/pipe.c\<close>), but for \<^verbatim>\<open>pipealloc\<close>, which is with the file table. A call of
  \<^verbatim>\<open>pipewrite\<close> or \<^verbatim>\<open>piperead\<close> runs until it returns or sleeps: the result \<open>Blocked\<close> is the state in
  which it calls \<^verbatim>\<open>sched\<close>, and the rest of the call goes on from there. The main result is
  that a pipe delivers the bytes written to it in order, whatever the interleaving of
  readers and writers.
\<close>

subsection \<open>State and operations\<close>

abbreviation PIPESIZE :: nat where "PIPESIZE \<equiv> 512"

record pipe =
  pi_data :: "uchar list"
  nread :: uint
  nwrite :: uint
  readopen :: bool
  writeopen :: bool

text \<open>
  \<open>Done\<close> carries the return value and the bytes copied out to the caller, \<open>Blocked\<close> the bytes
  still to be written.
\<close>

datatype 's presult = Done int "uchar list" pipe 's | Blocked "uchar list" pipe 's

definition pipe_put :: "uchar \<Rightarrow> pipe \<Rightarrow> pipe" where
  "pipe_put x p = p\<lparr>pi_data := (pi_data p)[unat (nwrite p) mod PIPESIZE := x], nwrite := nwrite p + 1\<rparr>"

definition pipe_get :: "pipe \<Rightarrow> uchar \<times> pipe" where
  "pipe_get p = (pi_data p ! (unat (nread p) mod PIPESIZE), p\<lparr>nread := nread p + 1\<rparr>)"

text \<open>The loop of \<^verbatim>\<open>pipewrite\<close> over the bytes left, with the lock of pipe \<open>i\<close> held.\<close>

fun pipewrite_loop ::
  "nat \<Rightarrow> int \<Rightarrow> uchar list \<Rightarrow> pipe \<Rightarrow> 'a mach_scheme \<Rightarrow> 'a mach_scheme presult outcome" where
  "pipewrite_loop i n [] p s =
     obind (wakeup (ChPipeRead i) s) (\<lambda>s1.
     obind (release (LPipe i) s1) (\<lambda>s2. Ret (Done n [] p s2)))"
| "pipewrite_loop i n (x # xs) p s =
     (if nwrite p = nread p + of_nat PIPESIZE
      then obind (if \<not> readopen p then Ret True else killed s) (\<lambda>stop.
           if stop then obind (release (LPipe i) s) (\<lambda>s1. Ret (Done (-1) [] p s1))
           else obind (wakeup (ChPipeRead i) s) (\<lambda>s1.
                obind (sleep_enter (ChPipeWrite i) (LPipe i) s1) (\<lambda>s2.
                Ret (Blocked (x # xs) p s2))))
      else pipewrite_loop i n xs (pipe_put x p) s)"

definition pipewrite ::
  "nat \<Rightarrow> uchar list \<Rightarrow> int \<Rightarrow> pipe \<Rightarrow> 'a mach_scheme \<Rightarrow> 'a mach_scheme presult outcome" where
  "pipewrite i addr n p s =
     obind (acquire (LPipe i) s) (\<lambda>s1. pipewrite_loop i n (take (nat n) addr) p s1)"

definition pipewrite_resume ::
  "nat \<Rightarrow> uchar list \<Rightarrow> int \<Rightarrow> pipe \<Rightarrow> 'a mach_scheme \<Rightarrow> 'a mach_scheme presult outcome" where
  "pipewrite_resume i rest n p s =
     obind (sleep_leave (LPipe i) s) (\<lambda>s1. pipewrite_loop i n rest p s1)"

fun pipe_copy :: "nat \<Rightarrow> pipe \<Rightarrow> uchar list \<times> pipe" where
  "pipe_copy 0 p = ([], p)"
| "pipe_copy (Suc n) p =
     (if nread p = nwrite p then ([], p)
      else let (x, p1) = pipe_get p; (xs, p2) = pipe_copy n p1 in (x # xs, p2))"

definition piperead_body ::
  "nat \<Rightarrow> int \<Rightarrow> pipe \<Rightarrow> 'a mach_scheme \<Rightarrow> 'a mach_scheme presult outcome" where
  "piperead_body i n p s =
     (if nread p = nwrite p \<and> writeopen p
      then obind (killed s) (\<lambda>k.
           if k then obind (release (LPipe i) s) (\<lambda>s1. Ret (Done (-1) [] p s1))
           else obind (sleep_enter (ChPipeRead i) (LPipe i) s) (\<lambda>s1. Ret (Blocked [] p s1)))
      else let (xs, p1) = pipe_copy (nat n) p
           in obind (wakeup (ChPipeWrite i) s) (\<lambda>s1.
              obind (release (LPipe i) s1) (\<lambda>s2. Ret (Done (int (length xs)) xs p1 s2))))"

definition piperead ::
  "nat \<Rightarrow> int \<Rightarrow> pipe \<Rightarrow> 'a mach_scheme \<Rightarrow> 'a mach_scheme presult outcome" where
  "piperead i n p s = obind (acquire (LPipe i) s) (\<lambda>s1. piperead_body i n p s1)"

definition piperead_resume ::
  "nat \<Rightarrow> int \<Rightarrow> pipe \<Rightarrow> 'a mach_scheme \<Rightarrow> 'a mach_scheme presult outcome" where
  "piperead_resume i n p s = obind (sleep_leave (LPipe i) s) (\<lambda>s1. piperead_body i n p s1)"

text \<open>\<^verbatim>\<open>pipeclose\<close> returns the pipe, or nothing when both ends are closed and its page is freed.\<close>

definition pipeclose ::
  "nat \<Rightarrow> bool \<Rightarrow> pipe \<Rightarrow> 'a mach_scheme \<Rightarrow> (pipe option \<times> 'a mach_scheme) outcome" where
  "pipeclose i writable p s =
     obind (acquire (LPipe i) s) (\<lambda>s1.
     let p1 = (if writable then p\<lparr>writeopen := False\<rparr> else p\<lparr>readopen := False\<rparr>)
     in obind (wakeup (if writable then ChPipeRead i else ChPipeWrite i) s1) (\<lambda>s2.
        obind (release (LPipe i) s2) (\<lambda>s3.
        Ret (if \<not> readopen p1 \<and> \<not> writeopen p1 then None else Some p1, s3))))"

subsection \<open>The buffer\<close>

definition pipe_contents :: "pipe \<Rightarrow> uchar list" where
  "pipe_contents p = ring_contents PIPESIZE (pi_data p) (nread p) (nwrite p)"

definition pipe_ok :: "pipe \<Rightarrow> bool" where
  "pipe_ok p \<longleftrightarrow> length (pi_data p) = PIPESIZE \<and> unat (nwrite p - nread p) \<le> PIPESIZE"

interpretation pb: bounded_fifo PIPESIZE pipe_ok pipe_contents pipe_put pipe_get
proof
  show "pipe_ok (pipe_put x p) \<and> pipe_contents (pipe_put x p) = pipe_contents p @ [x]"
    if "pipe_ok p" "length (pipe_contents p) < PIPESIZE" for p x
    using ring_put(1) [of PIPESIZE "pi_data p" "nwrite p" "nread p" x]
      ring_put(2) [of PIPESIZE "pi_data p" "nwrite p" "nread p"] that
    by (simp add: pipe_ok_def pipe_contents_def pipe_put_def)
  show "pipe_ok (snd (pipe_get p)) \<and> pipe_contents p = fst (pipe_get p) # pipe_contents (snd (pipe_get p))"
    if "pipe_ok p" "pipe_contents p \<noteq> []" for p
  proof -
    have "nread p \<noteq> nwrite p" using that by (simp add: pipe_contents_def ring_contents_empty)
    then show ?thesis
      using that ring_get [of PIPESIZE "nread p" "nwrite p"] unat_diff_Suc [of "nread p" "nwrite p"]
      by (simp add: pipe_ok_def pipe_contents_def pipe_get_def)
  qed
  show "length (pipe_contents p) \<le> PIPESIZE" if "pipe_ok p" for p
    using that by (simp add: pipe_contents_def pipe_ok_def)
qed

lemma pipe_empty: "nread p = nwrite p \<longleftrightarrow> pipe_contents p = []"
  by (simp add: pipe_contents_def ring_contents_empty)

lemma pipe_full:
  assumes "pipe_ok p"
  shows "nwrite p = nread p + of_nat PIPESIZE \<longleftrightarrow> length (pipe_contents p) = PIPESIZE"
proof -
  have "nwrite p = nread p + 512 \<longleftrightarrow> nwrite p - nread p = 512" by (auto simp: algebra_simps)
  also have "\<dots> \<longleftrightarrow> unat (nwrite p - nread p) = 512" by (simp add: word_unat_eq_iff)
  finally show ?thesis by (simp add: pipe_contents_def)
qed

lemma pipe_put_not_full:
  assumes "pipe_ok p" and "nwrite p \<noteq> nread p + of_nat PIPESIZE"
  shows "pipe_ok (pipe_put x p)" "pipe_contents (pipe_put x p) = pipe_contents p @ [x]"
proof -
  have "length (pipe_contents p) < PIPESIZE"
    using pipe_full [OF assms(1)] assms(2) pb.cap_ok [OF assms(1)] by linarith
  then show "pipe_ok (pipe_put x p)" "pipe_contents (pipe_put x p) = pipe_contents p @ [x]"
    using pb.put_ok [OF assms(1)] by blast+
qed

subsection \<open>What a call does to the buffer\<close>

text \<open>
  A call of \<^verbatim>\<open>pipewrite\<close> adds the first bytes of its argument, all of them when it returns their
  number; it returns -1 or sleeps only when the buffer is full.
\<close>

fun write_post :: "pipe \<Rightarrow> int \<Rightarrow> uchar list \<Rightarrow> 's presult \<Rightarrow> bool" where
  "write_post p n bs (Done r out p' s) \<longleftrightarrow> pipe_ok p' \<and> out = [] \<and>
     (if r = n then pipe_contents p' = pipe_contents p @ bs
      else r = -1 \<and> (\<exists>k<length bs. pipe_contents p' = pipe_contents p @ take k bs) \<and>
           length (pipe_contents p') = PIPESIZE)"
| "write_post p n bs (Blocked rest p' s) \<longleftrightarrow> pipe_ok p' \<and> rest \<noteq> [] \<and> readopen p' \<and>
     (\<exists>pre. bs = pre @ rest \<and> pipe_contents p' = pipe_contents p @ pre) \<and>
     length (pipe_contents p') = PIPESIZE"

lemma pipe_put_flags [simp]: "readopen (pipe_put x p) = readopen p" "writeopen (pipe_put x p) = writeopen p"
  by (simp_all add: pipe_put_def)

lemma write_post_Cons:
  assumes "write_post (pipe_put x p) n bs r" and "pipe_contents (pipe_put x p) = pipe_contents p @ [x]"
  shows "write_post p n (x # bs) r"
proof (cases r)
  case (Done v out p' s)
  show ?thesis
  proof (cases "v = n")
    case False
    with assms Done obtain k where "k < length bs" "pipe_contents p' = pipe_contents p @ x # take k bs"
      by auto
    then have "\<exists>k<length (x # bs). pipe_contents p' = pipe_contents p @ take k (x # bs)"
      by (intro exI [of _ "Suc k"]) simp
    with assms Done False show ?thesis by auto
  qed (use assms Done in auto)
next
  case (Blocked rest p' s)
  with assms obtain pre where "bs = pre @ rest" "pipe_contents p' = pipe_contents p @ x # pre" by auto
  then have "\<exists>pre. x # bs = pre @ rest \<and> pipe_contents p' = pipe_contents p @ pre"
    by (intro exI [of _ "x # pre"]) simp
  with assms Blocked show ?thesis by simp
qed

lemma pipewrite_loop_post:
  "pipewrite_loop i n bs p s = Ret r \<Longrightarrow> pipe_ok p \<Longrightarrow> 0 \<le> n \<Longrightarrow> write_post p n bs r"
proof (induction i n bs p s rule: pipewrite_loop.induct)
  case (2 i n x xs p s)
  show ?case
  proof (cases "nwrite p = nread p + of_nat PIPESIZE")
    case True
    then have full: "length (pipe_contents p) = PIPESIZE" using pipe_full [OF 2(3)] by simp
    have "\<exists>k<length (x # xs). pipe_contents p = pipe_contents p @ take k (x # xs)"
      by (intro exI [of _ 0]) simp
    with 2(2-4) True full show ?thesis by (auto split: if_splits)
  next
    case False
    then have "pipewrite_loop i n xs (pipe_put x p) s = Ret r" using 2(2) by simp
    from 2(1) [OF False this pipe_put_not_full(1) [OF 2(3) False] 2(4)]
    show ?thesis by (rule write_post_Cons) (rule pipe_put_not_full(2) [OF 2(3) False])
  qed
qed auto

lemma pipe_copy_ok:
  "pipe_ok p \<Longrightarrow> pipe_ok (snd (pipe_copy n p)) \<and> fst (pipe_copy n p) = take n (pipe_contents p) \<and>
   pipe_contents (snd (pipe_copy n p)) = drop n (pipe_contents p)"
proof (induction n arbitrary: p)
  case (Suc n)
  show ?case
  proof (cases "nread p = nwrite p")
    case False
    then have "pipe_contents p \<noteq> []" by (simp add: pipe_empty)
    note g = pb.get_ok [OF Suc.prems this]
    obtain x p1 where p1: "pipe_get p = (x, p1)" by fastforce
    obtain xs p2 where p2: "pipe_copy n p1 = (xs, p2)" by fastforce
    show ?thesis using Suc.IH [of p1] g p1 p2 False by (simp add: Let_def)
  qed (use Suc.prems in \<open>simp add: pipe_empty\<close>)
qed simp

lemma piperead_body_post:
  assumes "piperead_body i n p s = Ret r" and "pipe_ok p"
  shows "(\<exists>s'. r = Blocked [] p s' \<and> pipe_contents p = [] \<and> writeopen p) \<or>
    (\<exists>s'. r = Done (-1) [] p s' \<and> pipe_contents p = [] \<and> writeopen p) \<or>
    (\<exists>p' s'. r = Done (int (length (take (nat n) (pipe_contents p)))) (take (nat n) (pipe_contents p)) p' s' \<and>
       pipe_ok p' \<and> pipe_contents p' = drop (nat n) (pipe_contents p))"
proof (cases "nread p = nwrite p \<and> writeopen p")
  case True
  then show ?thesis
    using assms by (auto simp: piperead_body_def pipe_empty split: if_splits)
next
  case False
  obtain xs p1 where c: "pipe_copy (nat n) p = (xs, p1)" by fastforce
  then show ?thesis
    using False assms(1) pipe_copy_ok [OF assms(2), of "nat n"] by (auto simp: piperead_body_def)
qed

subsection \<open>Readers and writers\<close>

text \<open>
  A pipe with any number of calls in progress. The pipe's lock makes the stretch of a call
  between two sleeps one step. A call that writes has a number, the bytes it was asked to write, and is
  asleep with the bytes it has left or has returned; it goes on with exactly the bytes it slept
  with. A reader that sleeps goes on with the number of bytes it was asked for. \<open>sent\<close> is the
  history of the buffer: of every call, as many of the bytes it had left as \<^verbatim>\<open>nwrite\<close> moved on,
  with the number of the call. \<open>rcvd\<close> is what readers have got out, oldest first.
\<close>

datatype wstate = Asleep "uchar list" | Returned int

record pipesys =
  ps_pipe :: pipe
  writers :: "nat \<rightharpoonup> uchar list \<times> wstate"
  readers :: "nat \<rightharpoonup> int"
  sent :: "(nat \<times> uchar) list"
  rcvd :: "uchar list"

fun presult_pipe :: "'s presult \<Rightarrow> pipe" where
  "presult_pipe (Done r out p s) = p"
| "presult_pipe (Blocked rest p s) = p"

fun presult_out :: "'s presult \<Rightarrow> uchar list" where
  "presult_out (Done r out p s) = out"
| "presult_out (Blocked rest p s) = []"

fun presult_wstate :: "'s presult \<Rightarrow> wstate" where
  "presult_wstate (Done r out p s) = Returned r"
| "presult_wstate (Blocked rest p s) = Asleep rest"

fun presult_sleeps :: "'s presult \<Rightarrow> bool" where
  "presult_sleeps (Done r out p s) = False"
| "presult_sleeps (Blocked rest p s) = True"

definition after_write :: "nat \<Rightarrow> uchar list \<Rightarrow> uchar list \<Rightarrow> 's presult \<Rightarrow> pipesys \<Rightarrow> pipesys" where
  "after_write c bs rest r x =
     x\<lparr>ps_pipe := presult_pipe r, writers := (writers x)(c \<mapsto> (bs, presult_wstate r)),
       sent := sent x @ map (Pair c) (take (unat (nwrite (presult_pipe r) - nwrite (ps_pipe x))) rest)\<rparr>"

definition after_read :: "nat \<Rightarrow> int \<Rightarrow> 's presult \<Rightarrow> pipesys \<Rightarrow> pipesys" where
  "after_read c n r x =
     x\<lparr>ps_pipe := presult_pipe r, readers := (readers x)(c := if presult_sleeps r then Some n else None),
       rcvd := rcvd x @ presult_out r\<rparr>"

inductive pipe_step :: "pipesys \<Rightarrow> pipesys \<Rightarrow> bool" where
  pstep_write: "writers x c = None \<Longrightarrow> pipewrite i bs (int (length bs)) (ps_pipe x) (s :: mach) = Ret r \<Longrightarrow>
    pipe_step x (after_write c bs bs r x)"
| pstep_write_resume: "writers x c = Some (bs, Asleep rest) \<Longrightarrow>
    pipewrite_resume i rest (int (length bs)) (ps_pipe x) (s :: mach) = Ret r \<Longrightarrow>
    pipe_step x (after_write c bs rest r x)"
| pstep_read: "readers x c = None \<Longrightarrow> piperead i n (ps_pipe x) (s :: mach) = Ret r \<Longrightarrow>
    pipe_step x (after_read c n r x)"
| pstep_read_resume: "readers x c = Some n \<Longrightarrow> piperead_resume i n (ps_pipe x) (s :: mach) = Ret r \<Longrightarrow>
    pipe_step x (after_read c n r x)"
| pstep_close: "pipeclose i writable (ps_pipe x) (s :: mach) = Ret (Some p, s') \<Longrightarrow>
    pipe_step x (x\<lparr>ps_pipe := p\<rparr>)"

definition pipe_init :: "pipesys \<Rightarrow> bool" where
  "pipe_init x \<longleftrightarrow> length (pi_data (ps_pipe x)) = PIPESIZE \<and> nread (ps_pipe x) = nwrite (ps_pipe x) \<and>
     writers x = Map.empty \<and> readers x = Map.empty \<and> sent x = [] \<and> rcvd x = []"

definition bytes_of :: "nat \<Rightarrow> (nat \<times> uchar) list \<Rightarrow> uchar list" where
  "bytes_of c h = map snd (filter (\<lambda>e. fst e = c) h)"

fun writer_ok :: "uchar list \<Rightarrow> (uchar list \<times> wstate) option \<Rightarrow> bool" where
  "writer_ok put None \<longleftrightarrow> put = []"
| "writer_ok put (Some (bs, Asleep rest)) \<longleftrightarrow> bs = put @ rest"
| "writer_ok put (Some (bs, Returned v)) \<longleftrightarrow>
     v = int (length bs) \<and> put = bs \<or> v = - 1 \<and> (\<exists>k<length bs. put = take k bs)"

definition pipe_inv :: "pipesys \<Rightarrow> bool" where
  "pipe_inv x \<longleftrightarrow> pipe_ok (ps_pipe x) \<and> map snd (sent x) = rcvd x @ pipe_contents (ps_pipe x) \<and>
     (\<forall>c. writer_ok (bytes_of c (sent x)) (writers x c))"

lemma bytes_of_simps [simp]:
  "bytes_of c [] = []" "bytes_of c (h @ h') = bytes_of c h @ bytes_of c h'"
  "bytes_of c (map (Pair d) bs) = (if d = c then bs else [])"
  by (simp_all add: bytes_of_def filter_map comp_def)

lemma pipewrite_loop_nread: "pipewrite_loop i n bs p s = Ret r \<Longrightarrow> nread (presult_pipe r) = nread p"
  by (induction i n bs p s rule: pipewrite_loop.induct) (auto simp: pipe_put_def split: if_splits)

lemma nwrite_moved:
  assumes "nread q = nread p" and "pipe_contents q = pipe_contents p @ ys"
  shows "unat (nwrite q - nwrite p) = length ys"
proof -
  have len: "unat (nwrite q - nread p) = unat (nwrite p - nread p) + length ys"
    using arg_cong [OF assms(2), of length] assms(1) by (simp add: pipe_contents_def)
  then have "nwrite p - nread p \<le> nwrite q - nread p" by (simp add: word_le_nat_alt)
  from unat_sub [OF this] have "unat ((nwrite q - nread p) - (nwrite p - nread p)) = length ys"
    unfolding len by simp
  then show ?thesis by simp
qed

text \<open>What a writer that has put \<open>put\<close> so far and has \<open>rest\<close> left does until it sleeps or returns.\<close>

lemma write_stretch:
  assumes "pipewrite_loop i (int (length bs)) rest p s = Ret r" and "pipe_ok p" and "bs = put @ rest"
  obtains ys where "take (unat (nwrite (presult_pipe r) - nwrite p)) rest = ys" "pipe_ok (presult_pipe r)"
    "pipe_contents (presult_pipe r) = pipe_contents p @ ys" "writer_ok (put @ ys) (Some (bs, presult_wstate r))"
proof -
  note post = pipewrite_loop_post [OF assms(1,2)]
  note nr = pipewrite_loop_nread [OF assms(1)]
  obtain k where k: "k \<le> length rest" "pipe_ok (presult_pipe r)"
    "pipe_contents (presult_pipe r) = pipe_contents p @ take k rest"
    "writer_ok (put @ take k rest) (Some (bs, presult_wstate r))"
  proof (cases r)
    case (Done v out p' s')
    show thesis
    proof (cases "v = int (length bs)")
      case True
      then show thesis using Done post assms(3) by (intro that [of "length rest"]) auto
    next
      case False
      then obtain k where "k < length rest" "pipe_contents p' = pipe_contents p @ take k rest" "v = - 1" "pipe_ok p'"
        using Done post by auto
      moreover from this have "\<exists>j<length bs. put @ take k rest = take j bs"
        using assms(3) by (intro exI [of _ "length put + k"]) simp
      ultimately show thesis using Done by (intro that [of k]) auto
    qed
  next
    case (Blocked rest' p' s')
    then obtain pre where "rest = pre @ rest'" "pipe_contents p' = pipe_contents p @ pre" "pipe_ok p'"
      using post by auto
    then show thesis using Blocked assms(3) by (intro that [of "length pre"]) auto
  qed
  have "unat (nwrite (presult_pipe r) - nwrite p) = k" using nwrite_moved [OF nr k(3)] k(1) by simp
  then show thesis using k by (intro that) auto
qed

lemma after_write_inv:
  assumes "pipewrite_loop i (int (length bs)) rest (ps_pipe x) s = Ret r" and "pipe_inv x"
    and "bs = bytes_of c (sent x) @ rest"
  shows "pipe_inv (after_write c bs rest r x)"
proof -
  have ok: "pipe_ok (ps_pipe x)" using assms(2) by (simp add: pipe_inv_def)
  obtain ys where "take (unat (nwrite (presult_pipe r) - nwrite (ps_pipe x))) rest = ys" "pipe_ok (presult_pipe r)"
    "pipe_contents (presult_pipe r) = pipe_contents (ps_pipe x) @ ys"
    "writer_ok (bytes_of c (sent x) @ ys) (Some (bs, presult_wstate r))"
    by (rule write_stretch [OF assms(1) ok assms(3)])
  then show ?thesis using assms(2) by (simp add: pipe_inv_def after_write_def comp_def)
qed

lemma after_read_inv:
  assumes "piperead_body i n (ps_pipe x) s = Ret r" and "pipe_inv x"
  shows "pipe_inv (after_read c n r x)"
proof -
  have "pipe_ok (ps_pipe x)" using assms(2) by (simp add: pipe_inv_def)
  from piperead_body_post [OF assms(1) this] assms(2) show ?thesis
    by (elim disjE exE conjE) (simp_all add: pipe_inv_def after_read_def)
qed

lemma pipeclose_pipe:
  "pipeclose i w p s = Ret (Some p', s') \<Longrightarrow>
   pi_data p' = pi_data p \<and> nread p' = nread p \<and> nwrite p' = nwrite p"
  by (auto simp: pipeclose_def Let_def split: if_splits)

lemma pipe_step_inv:
  assumes inv: "pipe_inv x" and "pipe_step x y"
  shows "pipe_inv y"
  using assms(2)
proof cases
  case (pstep_write c i bs s r)
  obtain s1 where run: "pipewrite_loop i (int (length bs)) bs (ps_pipe x) s1 = Ret r"
    using pstep_write(3) unfolding pipewrite_def by auto
  have "writer_ok (bytes_of c (sent x)) (writers x c)" using inv by (simp add: pipe_inv_def)
  then have "bs = bytes_of c (sent x) @ bs" using pstep_write(2) by simp
  from after_write_inv [OF run inv this] show ?thesis by (simp only: pstep_write(1))
next
  case (pstep_write_resume c bs rest i s r)
  obtain s1 where run: "pipewrite_loop i (int (length bs)) rest (ps_pipe x) s1 = Ret r"
    using pstep_write_resume(3) unfolding pipewrite_resume_def by blast
  have "writer_ok (bytes_of c (sent x)) (writers x c)" using inv by (simp add: pipe_inv_def)
  then have "bs = bytes_of c (sent x) @ rest" using pstep_write_resume(2) by simp
  from after_write_inv [OF run inv this] show ?thesis by (simp only: pstep_write_resume(1))
next
  case (pstep_read c i n s r)
  then obtain s1 where "piperead_body i n (ps_pipe x) s1 = Ret r" unfolding piperead_def by blast
  from after_read_inv [OF this inv] show ?thesis by (simp only: pstep_read(1))
next
  case (pstep_read_resume c n i s r)
  then obtain s1 where "piperead_body i n (ps_pipe x) s1 = Ret r" unfolding piperead_resume_def by blast
  from after_read_inv [OF this inv] show ?thesis by (simp only: pstep_read_resume(1))
next
  case (pstep_close i writable s p s')
  have "pi_data p = pi_data (ps_pipe x)" "nread p = nread (ps_pipe x)" "nwrite p = nwrite (ps_pipe x)"
    using pipeclose_pipe [OF pstep_close(2)] by blast+
  then show ?thesis using inv unfolding pstep_close(1) by (simp add: pipe_inv_def pipe_ok_def pipe_contents_def)
qed

interpretation pipes: invariant_system pipe_init pipe_step pipe_inv
proof
  show "pipe_inv x" if "pipe_init x" for x
    using that pipe_empty [of "ps_pipe x"] by (simp add: pipe_init_def pipe_inv_def pipe_ok_def)
  show "pipe_inv y" if "pipe_inv x" "pipe_step x y" for x y
    using that by (rule pipe_step_inv)
qed

text \<open>
  C3: a pipe is a FIFO channel. Whatever the order in which readers, writers and closers run, sleep
  and go on, and however often the 32-bit counters wrap around, the bytes readers have received
  followed by the bytes in the buffer are exactly the history of the bytes that writers have put
  in, and the buffer never holds more than \<^verbatim>\<open>PIPESIZE\<close> bytes. In this history the bytes of each call
  are the bytes it was asked to write, in order: all of them when it has returned their number,
  all but the bytes it has left while it sleeps, and a proper beginning of them when it has
  returned -1.
\<close>

theorem pipe_fifo:
  assumes "reachable pipe_init pipe_step x"
  shows "map snd (sent x) = rcvd x @ pipe_contents (ps_pipe x) \<and> length (pipe_contents (ps_pipe x)) \<le> PIPESIZE \<and>
    (\<forall>c bs rest. writers x c = Some (bs, Asleep rest) \<longrightarrow> bytes_of c (sent x) @ rest = bs) \<and>
    (\<forall>c bs v. writers x c = Some (bs, Returned v) \<longrightarrow>
       v = int (length bs) \<and> bytes_of c (sent x) = bs \<or>
       v = - 1 \<and> (\<exists>k<length bs. bytes_of c (sent x) = take k bs))"
proof -
  have inv: "pipe_inv x" by (rule pipes.reachable_invar [OF assms])
  then have w: "writer_ok (bytes_of c (sent x)) (writers x c)" for c by (simp add: pipe_inv_def)
  have "bytes_of c (sent x) @ rest = bs" if "writers x c = Some (bs, Asleep rest)" for c bs rest
    using w [of c] that by simp
  moreover have "v = int (length bs) \<and> bytes_of c (sent x) = bs \<or>
      v = - 1 \<and> (\<exists>k<length bs. bytes_of c (sent x) = take k bs)"
    if "writers x c = Some (bs, Returned v)" for c bs v
    using w [of c] that by simp
  ultimately show ?thesis using inv pb.cap_ok by (simp add: pipe_inv_def)
qed

definition pipe_example :: "pipe" where
  "pipe_example = \<lparr>pi_data = replicate 512 0, nread = -1, nwrite = -1, readopen = True, writeopen = True\<rparr>"

definition at_pipe :: mach where
  "at_pipe = \<lparr>cpu_id = 0, iflag = True, ncli = 0, intena = True, cur = Some 0,
     locks = (\<lambda>_. unlocked), procs = [zero_proc],
     nextpid = 2, initproc = None, kmemory = (\<lambda>_. 0), freelist = 0, use_lock = True\<rparr>"

lemma pipe_example_run:
  defines "p \<equiv> pipe_put 66 (pipe_put 65 pipe_example)"
  shows "\<exists>s t. pipewrite 0 [65, 66] 2 pipe_example at_pipe = Ret (Done 2 [] p s) \<and>
    piperead 0 1 p at_pipe = Ret (Done 1 [65] (snd (pipe_get p)) t)"
proof -
  have "unat (- 1 :: uint) mod 512 = 511" by (simp add: unsigned_minus_1_eq_mask mask_eq_exp_minus_1)
  then show ?thesis
    unfolding p_def
    by (simp add: pipewrite_def piperead_def piperead_body_def pipe_example_def pipe_put_def pipe_get_def at_pipe_def
        cli_ok_def wakeup1_def wake_def zero_proc_def Let_def)
qed

lemma pipe_example_reached:
  "\<exists>x. reachable pipe_init pipe_step x \<and> nwrite (ps_pipe x) = 1 \<and> sent x = [(7, 65), (7, 66)] \<and> rcvd x = [65] \<and>
     writers x 7 = Some ([65, 66], Returned 2)"
proof -
  let ?p = "pipe_put 66 (pipe_put 65 pipe_example)"
  let ?x = "\<lparr>ps_pipe = pipe_example, writers = Map.empty, readers = Map.empty, sent = [], rcvd = []\<rparr>"
  obtain s t where run: "pipewrite 0 [65, 66] 2 pipe_example at_pipe = Ret (Done 2 [] ?p s)"
    "piperead 0 1 ?p at_pipe = Ret (Done 1 [65] (snd (pipe_get ?p)) t)" using pipe_example_run by blast
  let ?y = "after_write 7 [65, 66] [65, 66] (Done 2 [] ?p s) ?x"
  let ?z = "after_read 0 1 (Done 1 [65] (snd (pipe_get ?p)) t) ?y"
  have "unat (nwrite ?p - nwrite pipe_example) = 2" by (simp add: pipe_put_def pipe_example_def)
  then have y: "ps_pipe ?y = ?p" "sent ?y = [(7, 65), (7, 66)]" "rcvd ?y = []" "readers ?y = Map.empty"
    "writers ?y 7 = Some ([65, 66], Returned 2)"
    by (simp_all add: after_write_def)
  then have z: "sent ?z = [(7, 65), (7, 66)]" "rcvd ?z = [65]" "nwrite (ps_pipe ?z) = 1"
    "writers ?z 7 = Some ([65, 66], Returned 2)"
    by (simp_all add: after_read_def pipe_put_def pipe_get_def pipe_example_def)
  have "pipe_init ?x" by (simp add: pipe_init_def pipe_example_def)
  then have "reachable pipe_init pipe_step ?x" by (rule reachable_init)
  moreover have "pipe_step ?x ?y" using run(1) by (intro pstep_write) simp_all
  moreover have "pipe_step ?y ?z" using run(2) y by (intro pstep_read) simp_all
  ultimately have "reachable pipe_init pipe_step ?z" by (blast intro: reachable_step)
  with z show ?thesis by blast
qed

lemma pipe_fifo_witness:
  "\<exists>x. reachable pipe_init pipe_step x \<and> nwrite (ps_pipe x) = 1 \<and> rcvd x = [65] \<and>
     pipe_contents (ps_pipe x) = [66] \<and> bytes_of 7 (sent x) = [65, 66]"
proof -
  obtain x where x: "reachable pipe_init pipe_step x" "nwrite (ps_pipe x) = 1" "sent x = [(7, 65), (7, 66)]"
    "rcvd x = [65]" "writers x 7 = Some ([65, 66], Returned 2)" using pipe_example_reached by blast
  show ?thesis using pipe_fifo [OF x(1)] x by (intro exI [of _ x]) (auto simp: bytes_of_def)
qed

end
