(* ===== verification/KvsLru.thy ===== *)
theory KvsLru
  imports Dll
begin

text \<open>
  The caches of the key-value server (\<^verbatim>\<open>KVS/greeter_async_server.cc\<close>): the interface the server
  relies on, and the LRU cache, a hash map from keys to the nodes of a doubly linked list
  between two sentinels. Nodes are addressed by numbers; a node is allocated at the next
  unused address and never moved.
\<close>

subsection \<open>The interface of a cache\<close>

text \<open>
  A cache maps keys to values; looking a key up may reorder it but does not change the mapping,
  an insertion adds the key and may drop others.
\<close>

locale kv_cache =
  fixes invar :: "'c \<Rightarrow> bool"
    and lookup :: "'c \<Rightarrow> string \<Rightarrow> string option"
    and getc :: "string \<Rightarrow> 'c \<Rightarrow> (string \<times> 'c) outcome"
    and putc :: "string \<Rightarrow> string \<Rightarrow> 'c \<Rightarrow> 'c outcome"
  assumes getc_ok: "invar c \<Longrightarrow> \<exists>c'. getc k c = Ret (case lookup c k of None \<Rightarrow> ''-1'' | Some v \<Rightarrow> v, c') \<and>
      invar c' \<and> lookup c' = lookup c"
    and putc_ok: "invar c \<Longrightarrow> \<exists>c'. putc k v c = Ret c' \<and> invar c' \<and>
      lookup c' k = Some v \<and> (\<forall>x. x \<noteq> k \<longrightarrow> lookup c' x = lookup c x \<or> lookup c' x = None)"
begin

lemma get_after_put:
  assumes "invar c" and "putc k v c = Ret c'"
  shows "\<exists>c2. getc k c' = Ret (v, c2) \<and> invar c2"
proof -
  from putc_ok [OF assms(1), of k v] assms(2) have "invar c'" and l: "lookup c' k = Some v"
    by auto
  from getc_ok [OF this(1), of k] l show ?thesis by auto
qed

lemma put_never_invents:
  assumes "invar c" and "putc k v c = Ret c'" and "x \<noteq> k" and "lookup c' x = Some w"
  shows "lookup c x = Some w"
proof -
  have "lookup c' x = lookup c x \<or> lookup c' x = None"
    using putc_ok [OF assms(1), of k v] assms(2,3) by auto
  with assms(4) show ?thesis by auto
qed

end

locale kv_cache_del = kv_cache +
  fixes delc :: "string \<Rightarrow> 'a \<Rightarrow> 'a"
  assumes delc_ok: "invar c \<Longrightarrow> invar (delc k c) \<and> lookup (delc k c) = (lookup c)(k := None)"
begin

lemma get_after_del: "invar c \<Longrightarrow> \<exists>c'. getc k (delc k c) = Ret (''-1'', c') \<and> invar c'"
  using delc_ok [of c k] getc_ok [of "delc k c" k] by auto

end

subsection \<open>The standard library's maps\<close>

text \<open>A map of the C++ library as a list of pairs with different keys.\<close>

definition m_erase :: "'k \<Rightarrow> ('k \<times> 'v) list \<Rightarrow> ('k \<times> 'v) list" where
  "m_erase k m = filter (\<lambda>(x, _). x \<noteq> k) m"

definition m_set :: "'k \<Rightarrow> 'v \<Rightarrow> ('k \<times> 'v) list \<Rightarrow> ('k \<times> 'v) list" where
  "m_set k v m = (k, v) # m_erase k m"

lemma map_of_m_erase [simp]: "map_of (m_erase k m) = (map_of m)(k := None)"
  by (induction m) (auto simp: m_erase_def)

lemma map_of_m_set [simp]: "map_of (m_set k v m) = (map_of m)(k \<mapsto> v)"
  by (simp add: m_set_def)

lemma fst_m_erase [simp]: "map fst (m_erase k m) = removeAll k (map fst m)"
  by (induction m) (auto simp: m_erase_def)

lemma set_m_erase: "set (m_erase k m) = {(x, v) \<in> set m. x \<noteq> k}"
  by (auto simp: m_erase_def)

subsection \<open>The LRU cache\<close>

record lru =
  l_links :: "nat dll"
  l_key :: "nat \<Rightarrow> string"
  l_val :: "nat \<Rightarrow> string"
  l_map :: "(string \<times> nat) list"
  l_cap :: int
  l_fresh :: nat

abbreviation HEADN :: nat where "HEADN \<equiv> 0"
abbreviation TAILN :: nat where "TAILN \<equiv> 1"

definition LRUCache :: "int \<Rightarrow> lru" where
  "LRUCache capacity =
     \<lparr>l_links = \<lparr>nxt = (\<lambda>_. 0)(HEADN := TAILN), prv = (\<lambda>_. 0)(TAILN := HEADN)\<rparr>,
      l_key = (\<lambda>_. ''-1''), l_val = (\<lambda>_. ''-1''), l_map = [], l_cap = capacity, l_fresh = 2\<rparr>"

definition addnode :: "nat \<Rightarrow> lru \<Rightarrow> lru" where
  "addnode a c = c\<lparr>l_links := add_front HEADN a (l_links c)\<rparr>"

definition deletenode :: "nat \<Rightarrow> lru \<Rightarrow> lru" where
  "deletenode a c = c\<lparr>l_links := unlink_node a (l_links c)\<rparr>"

definition lru_get :: "string \<Rightarrow> lru \<Rightarrow> string \<times> lru" where
  "lru_get k c =
     (case map_of (l_map c) k of
        Some a \<Rightarrow>
          let res = l_val c a;
              c1 = c\<lparr>l_map := m_erase k (l_map c)\<rparr>;
              c2 = addnode a (deletenode a c1)
          in (res, c2\<lparr>l_map := m_set k (nxt (l_links c2) HEADN) (l_map c2)\<rparr>)
      | None \<Rightarrow> (''-1'', c))"

text \<open>
  Evicting from an empty list would unlink the head sentinel, whose \<^verbatim>\<open>prev\<close> pointer was never
  set.
\<close>

definition lru_put :: "string \<Rightarrow> string \<Rightarrow> lru \<Rightarrow> lru outcome" where
  "lru_put k value c =
     (let c1 = (case map_of (l_map c) k of
                  Some a \<Rightarrow> deletenode a (c\<lparr>l_map := m_erase k (l_map c)\<rparr>)
                | None \<Rightarrow> c)
      in obind
           (if int (length (l_map c1)) = l_cap c1
            then let t = prv (l_links c1) TAILN
                 in if t = HEADN then Panic ''deletenode: uninitialised pointer''
                    else Ret (deletenode t (c1\<lparr>l_map := m_erase (l_key c1 t) (l_map c1)\<rparr>))
            else Ret c1)
           (\<lambda>c2.
              let a = l_fresh c2;
                  c3 = c2\<lparr>l_key := (l_key c2)(a := k), l_val := (l_val c2)(a := value),
                          l_fresh := Suc a\<rparr>;
                  c4 = addnode a c3
              in Ret (c4\<lparr>l_map := m_set k (nxt (l_links c4) HEADN) (l_map c4)\<rparr>)))"

definition lru_del :: "string \<Rightarrow> lru \<Rightarrow> lru" where
  "lru_del k c =
     (case map_of (l_map c) k of
        Some a \<Rightarrow> deletenode a (c\<lparr>l_map := m_erase k (l_map c)\<rparr>)
      | None \<Rightarrow> c)"

text \<open>
  \<^verbatim>\<open>cachestate\<close> lists the keys in the order in which the hash map iterates, which is the library's
  choice: a parameter.
\<close>

definition lru_cachestate :: "((string \<times> nat) list \<Rightarrow> string list) \<Rightarrow> lru \<Rightarrow> string" where
  "lru_cachestate iter c = concat (map (\<lambda>k. k @ '' '') (iter (l_map c)))"

subsection \<open>Specification: a list in order of use\<close>

definition spec_get :: "string \<Rightarrow> (string \<times> string) list \<Rightarrow> string \<times> (string \<times> string) list" where
  "spec_get k ys = (case map_of ys k of None \<Rightarrow> (''-1'', ys) | Some v \<Rightarrow> (v, m_set k v ys))"

definition spec_put ::
  "int \<Rightarrow> string \<Rightarrow> string \<Rightarrow> (string \<times> string) list \<Rightarrow> (string \<times> string) list" where
  "spec_put cap k v ys =
     (let zs = m_erase k ys in (k, v) # (if int (length zs) = cap then butlast zs else zs))"

text \<open>The nodes between the sentinels, most recently used first.\<close>

definition lru_nodes :: "lru \<Rightarrow> nat list \<Rightarrow> bool" where
  "lru_nodes c xs \<longleftrightarrow> dlist (l_links c) HEADN xs TAILN \<and> distinct (map (l_key c) xs) \<and>
     distinct (map fst (l_map c)) \<and> set (l_map c) = (\<lambda>a. (l_key c a, a)) ` set xs \<and>
     (\<forall>a\<in>set xs. 2 \<le> a \<and> a < l_fresh c) \<and> 2 \<le> l_fresh c \<and> 0 < l_cap c \<and> int (length xs) \<le> l_cap c"

definition lru_entries :: "lru \<Rightarrow> nat list \<Rightarrow> (string \<times> string) list" where
  "lru_entries c xs = map (\<lambda>a. (l_key c a, l_val c a)) xs"

definition lru_rep :: "lru \<Rightarrow> (string \<times> string) list \<Rightarrow> bool" where
  "lru_rep c ys \<longleftrightarrow> (\<exists>xs. lru_nodes c xs \<and> ys = lru_entries c xs)"

lemma key_index:
  assumes d: "distinct (map fst m)" "distinct (map key xs)" and s: "set m = (\<lambda>a. (key a, a)) ` set xs"
  shows "map_of m k = Some a \<longleftrightarrow> a \<in> set xs \<and> key a = k"
    and "map_of (map (\<lambda>a. (key a, f a)) xs) k = map_option f (map_of m k)"
proof -
  show m: "map_of m k = Some a \<longleftrightarrow> a \<in> set xs \<and> key a = k" for k a
    using d(1) s by (auto simp: map_of_eq_Some_iff)
  show "map_of (map (\<lambda>a. (key a, f a)) xs) k = map_option f (map_of m k)"
  proof (cases "map_of m k")
    case None
    then have "k \<notin> key ` set xs" using m [of k] by auto
    then have "map_of (map (\<lambda>a. (key a, f a)) xs) k = None"
      by (simp add: map_of_eq_None_iff image_comp comp_def)
    with None show ?thesis by (simp only: option.map)
  next
    case (Some a)
    then have "(k, f a) \<in> set (map (\<lambda>a. (key a, f a)) xs)" using m [of k a] by auto
    moreover have "distinct (map fst (map (\<lambda>a. (key a, f a)) xs))" using d(2) by (simp add: comp_def)
    ultimately show ?thesis using Some by simp
  qed
qed

lemma lru_nodesD:
  assumes "lru_nodes c xs"
  shows "distinct xs" "length (l_map c) = length xs"
    "map_of (l_map c) k = Some a \<longleftrightarrow> a \<in> set xs \<and> l_key c a = k"
    "map_of (lru_entries c xs) k = map_option (l_val c) (map_of (l_map c) k)"
proof -
  have d: "distinct xs" "distinct (map fst (l_map c))" "distinct (map (l_key c) xs)"
    and s: "set (l_map c) = (\<lambda>a. (l_key c a, a)) ` set xs"
    using assms by (auto simp: lru_nodes_def distinct_map)
  show "distinct xs" by (fact d(1))
  have "length (l_map c) = card (set (l_map c))"
    using d(2) by (simp add: distinct_map distinct_card)
  also have "\<dots> = card (set xs)" unfolding s by (rule card_image) (simp add: inj_on_def)
  finally show "length (l_map c) = length xs" using d(1) by (simp add: distinct_card)
  show "map_of (l_map c) k = Some a \<longleftrightarrow> a \<in> set xs \<and> l_key c a = k" for k a
    by (rule key_index(1) [OF d(2,3) s])
  show "map_of (lru_entries c xs) k = map_option (l_val c) (map_of (l_map c) k)"
    unfolding lru_entries_def by (rule key_index(2) [OF d(2,3) s])
qed

lemma lru_nodes_delete:
  assumes "lru_nodes c xs" and "a \<in> set xs"
  shows "lru_nodes (deletenode a (c\<lparr>l_map := m_erase (l_key c a) (l_map c)\<rparr>)) (removeAll a xs)"
proof -
  have n: "dlist (l_links c) HEADN xs TAILN" "distinct (map (l_key c) xs)" "distinct (map fst (l_map c))"
    "set (l_map c) = (\<lambda>a. (l_key c a, a)) ` set xs" "int (length xs) \<le> l_cap c"
    using assms(1) by (simp_all add: lru_nodes_def)
  have "l_key c b \<noteq> l_key c a" if "b \<in> set xs" "b \<noteq> a" for b
    using n(2) that assms(2) by (auto simp: distinct_map inj_on_def)
  then have "set (m_erase (l_key c a) (l_map c)) = (\<lambda>a. (l_key c a, a)) ` set (removeAll a xs)"
    using n(4) by (auto simp: set_m_erase)
  moreover have "distinct (map (l_key c) (removeAll a xs))"
    using n(2) by (simp add: distinct_map inj_on_def distinct_removeAll)
  moreover have "int (length (removeAll a xs)) \<le> l_cap c"
    using n(5) length_removeAll_less_eq [of a xs] by linarith
  ultimately show ?thesis
    using assms(1) dlist_unlink_member [OF n(1) assms(2)]
    by (auto simp: lru_nodes_def deletenode_def distinct_removeAll)
qed

lemma lru_nodes_add:
  assumes "lru_nodes c xs" and "a \<notin> set xs" and "2 \<le> a" "a < l_fresh c"
    and "l_key c a \<notin> l_key c ` set xs" and "int (length xs) < l_cap c"
  shows "lru_nodes (addnode a c\<lparr>l_map := m_set (l_key c a) (nxt (l_links (addnode a c)) HEADN) (l_map c)\<rparr>)
    (a # xs)"
proof -
  have n: "dlist (l_links c) HEADN xs TAILN" "set (l_map c) = (\<lambda>a. (l_key c a, a)) ` set xs"
    using assms(1) by (simp_all add: lru_nodes_def)
  have "nxt (l_links (addnode a c)) HEADN = a" by (simp add: addnode_def add_front_def Let_def)
  moreover have "dlist (add_front HEADN a (l_links c)) HEADN (a # xs) TAILN"
    by (rule dlist_add_front [OF n(1) assms(2)]) (use assms(3) in auto)
  moreover have new: "\<forall>b\<in>set xs. l_key c b \<noteq> l_key c a" using assms(5) by (metis image_eqI)
  then have "m_erase (l_key c a) (l_map c) = l_map c"
    unfolding m_erase_def filter_id_conv n(2) by simp
  moreover have "l_key c a \<notin> fst ` set (l_map c)"
    unfolding n(2) image_comp comp_def fst_conv by (rule assms(5))
  ultimately show ?thesis
    using assms unfolding lru_nodes_def by (simp add: addnode_def m_set_def)
qed

lemma lru_entries_removeAll:
  assumes "lru_nodes c xs" and "a \<in> set xs"
  shows "lru_entries c (removeAll a xs) = m_erase (l_key c a) (lru_entries c xs)"
proof -
  have "l_key c b \<noteq> l_key c a \<longleftrightarrow> b \<noteq> a" if "b \<in> set xs" for b
    using assms that by (auto simp: lru_nodes_def distinct_map inj_on_def)
  then show ?thesis
    by (auto simp: lru_entries_def m_erase_def removeAll_filter_not_eq filter_map comp_def
        intro!: arg_cong [where f = "map _"] filter_cong)
qed

lemma removeAll_last: "distinct xs \<Longrightarrow> xs \<noteq> [] \<Longrightarrow> removeAll (last xs) xs = butlast xs"
  by (cases xs rule: rev_cases) (auto simp: removeAll_id)

lemma lru_get_nodes:
  assumes rep: "lru_nodes c xs" and a: "a \<in> set xs" "l_key c a = k"
  shows "fst (lru_get k c) = l_val c a"
    and "lru_nodes (snd (lru_get k c)) (a # removeAll a xs)"
    and "lru_entries (snd (lru_get k c)) = lru_entries c"
proof -
  have m: "map_of (l_map c) k = Some a" using lru_nodesD(3) [OF rep] a by simp
  let ?c = "deletenode a (c\<lparr>l_map := m_erase k (l_map c)\<rparr>)"
  have del: "lru_nodes ?c (removeAll a xs)" using lru_nodes_delete [OF rep a(1)] a(2) by simp
  have "l_key ?c a \<notin> l_key ?c ` set (removeAll a xs)"
    using rep a by (auto simp: deletenode_def lru_nodes_def distinct_map inj_on_def)
  moreover have "length (removeAll a xs) < length xs" by (rule length_removeAll_less [OF a(1)])
  ultimately have "lru_nodes (addnode a ?c\<lparr>l_map := m_set (l_key ?c a) (nxt (l_links (addnode a ?c)) HEADN)
      (l_map ?c)\<rparr>) (a # removeAll a xs)"
    using rep a by (intro lru_nodes_add [OF del]) (auto simp: deletenode_def lru_nodes_def)
  then show "lru_nodes (snd (lru_get k c)) (a # removeAll a xs)"
    using m a(2) by (simp add: lru_get_def Let_def addnode_def deletenode_def)
  show "fst (lru_get k c) = l_val c a" "lru_entries (snd (lru_get k c)) = lru_entries c"
    using m by (auto simp: lru_get_def Let_def addnode_def deletenode_def lru_entries_def fun_eq_iff)
qed

lemma lru_get_rep:
  assumes "lru_rep c ys"
  shows "fst (lru_get k c) = fst (spec_get k ys)" "lru_rep (snd (lru_get k c)) (snd (spec_get k ys))"
proof -
  obtain xs where xs: "lru_nodes c xs" "ys = lru_entries c xs" using assms by (auto simp: lru_rep_def)
  note d = lru_nodesD [OF xs(1)]
  have "fst (lru_get k c) = fst (spec_get k ys) \<and> lru_rep (snd (lru_get k c)) (snd (spec_get k ys))"
  proof (cases "map_of (l_map c) k")
    case None
    then show ?thesis using d(4) [of k] xs assms by (simp add: lru_get_def spec_get_def)
  next
    case (Some a)
    then have a: "a \<in> set xs" "l_key c a = k" using d(3) by auto
    have "lru_entries c (a # removeAll a xs) = m_set k (l_val c a) ys"
      using lru_entries_removeAll [OF xs(1) a(1)] a(2) xs(2) by (simp add: lru_entries_def m_set_def)
    with Some show ?thesis
      using lru_get_nodes [OF xs(1) a] d(4) [of k] xs(2) unfolding lru_rep_def
      by (intro conjI exI [of _ "a # removeAll a xs"]) (simp_all add: spec_get_def)
  qed
  then show "fst (lru_get k c) = fst (spec_get k ys)" "lru_rep (snd (lru_get k c)) (snd (spec_get k ys))"
    by simp_all
qed

lemma lru_entries_upd [simp]:
  "lru_entries (deletenode a c) = lru_entries c" "lru_entries (c\<lparr>l_map := m\<rparr>) = lru_entries c"
  "l_key (deletenode a c) = l_key c" "l_val (deletenode a c) = l_val c" "l_cap (deletenode a c) = l_cap c"
  "l_map (deletenode a c) = l_map c" "l_fresh (deletenode a c) = l_fresh c"
  by (simp_all add: deletenode_def lru_entries_def fun_eq_iff)

lemma m_erase_None: "map_of ys k = None \<Longrightarrow> m_erase k ys = ys"
  unfolding m_erase_def filter_id_conv by (force simp: map_of_eq_None_iff)

lemma lru_del_nodes:
  assumes "lru_nodes c xs"
  obtains zs where "lru_nodes (lru_del k c) zs" "lru_entries c zs = m_erase k (lru_entries c xs)"
    "lru_entries (lru_del k c) = lru_entries c" "l_key (lru_del k c) = l_key c"
    "l_cap (lru_del k c) = l_cap c" "l_fresh (lru_del k c) = l_fresh c" "k \<notin> l_key c ` set zs"
proof (cases "map_of (l_map c) k")
  case None
  then have "lru_entries c xs = m_erase k (lru_entries c xs)"
    using lru_nodesD(4) [OF assms, of k] by (simp add: m_erase_None)
  moreover have "k \<notin> l_key c ` set xs" using None lru_nodesD(3) [OF assms, of k] by auto
  ultimately show thesis using that [of xs] assms None by (simp add: lru_del_def)
next
  case (Some a)
  then have a: "a \<in> set xs" "l_key c a = k" using lru_nodesD(3) [OF assms] by auto
  have "k \<notin> l_key c ` set (removeAll a xs)"
    using assms a by (auto simp: lru_nodes_def distinct_map inj_on_def)
  then show thesis
    using that [of "removeAll a xs"] lru_nodes_delete [OF assms a(1)] lru_entries_removeAll [OF assms a(1)]
      a(2) Some by (simp add: lru_del_def)
qed

lemma lru_evict_nodes:
  assumes "lru_nodes c xs" and "xs \<noteq> []"
  defines "t \<equiv> prv (l_links c) TAILN"
  shows "t \<noteq> HEADN" and "lru_nodes (deletenode t (c\<lparr>l_map := m_erase (l_key c t) (l_map c)\<rparr>)) (butlast xs)"
proof -
  have "t = last xs" using dlist_last [of "l_links c" HEADN xs TAILN] assms by (simp add: lru_nodes_def)
  then have t: "t \<in> set xs" "t = last xs" using assms(2) by simp_all
  then show "t \<noteq> HEADN" using assms(1) by (auto simp: lru_nodes_def)
  show "lru_nodes (deletenode t (c\<lparr>l_map := m_erase (l_key c t) (l_map c)\<rparr>)) (butlast xs)"
    using lru_nodes_delete [OF assms(1) t(1)] removeAll_last [OF lru_nodesD(1) [OF assms(1)] assms(2)] t(2)
    by simp
qed

definition lru_insert :: "string \<Rightarrow> string \<Rightarrow> lru \<Rightarrow> lru" where
  "lru_insert k v c =
     (let a = l_fresh c;
          c3 = c\<lparr>l_key := (l_key c)(a := k), l_val := (l_val c)(a := v), l_fresh := Suc a\<rparr>;
          c4 = addnode a c3
      in c4\<lparr>l_map := m_set k (nxt (l_links c4) HEADN) (l_map c4)\<rparr>)"

lemma lru_insert_nodes:
  assumes "lru_nodes c xs" and "k \<notin> l_key c ` set xs" and "int (length xs) < l_cap c"
  shows "lru_rep (lru_insert k v c) ((k, v) # lru_entries c xs)"
proof -
  let ?a = "l_fresh c"
  let ?c = "c\<lparr>l_key := (l_key c)(?a := k), l_val := (l_val c)(?a := v), l_fresh := Suc ?a\<rparr>"
  have lt: "\<forall>b\<in>set xs. b \<noteq> ?a" using assms(1) by (auto simp: lru_nodes_def)
  then have keys: "map (l_key ?c) xs = map (l_key c) xs" "l_key ?c ` set xs = l_key c ` set xs"
    by (auto simp: image_def)
  have "(\<lambda>a. (l_key ?c a, a)) ` set xs = (\<lambda>a. (l_key c a, a)) ` set xs"
    using lt by (intro image_cong) auto
  then have "lru_nodes ?c xs" using assms(1) keys unfolding lru_nodes_def by auto
  from lru_nodes_add [OF this, of ?a]
  have "lru_nodes (lru_insert k v c) (?a # xs)"
    using lt keys assms by (auto simp: lru_insert_def Let_def addnode_def lru_nodes_def)
  moreover have "lru_entries (lru_insert k v c) (?a # xs) = (k, v) # lru_entries c xs"
    using lt by (auto simp: lru_entries_def lru_insert_def Let_def addnode_def)
  ultimately show ?thesis unfolding lru_rep_def by metis
qed

lemma lru_put_rep:
  assumes "lru_rep c ys"
  shows "\<exists>c'. lru_put k v c = Ret c' \<and> lru_rep c' (spec_put (l_cap c) k v ys) \<and> l_cap c' = l_cap c"
proof -
  obtain xs where xs: "lru_nodes c xs" "ys = lru_entries c xs" using assms by (auto simp: lru_rep_def)
  let ?d = "lru_del k c"
  obtain zs where zs: "lru_nodes ?d zs" "lru_entries c zs = m_erase k ys" "lru_entries ?d = lru_entries c"
    "l_key ?d = l_key c" "l_cap ?d = l_cap c" "l_fresh ?d = l_fresh c" "k \<notin> l_key c ` set zs"
    using lru_del_nodes [OF xs(1), of k] xs(2) by metis
  have len: "length (l_map ?d) = length zs" by (rule lru_nodesD(2) [OF zs(1)])
  have len': "length (m_erase k ys) = length zs" by (simp add: lru_entries_def flip: zs(2))
  let ?t = "prv (l_links ?d) TAILN"
  let ?e = "deletenode ?t (?d\<lparr>l_map := m_erase (l_key ?d ?t) (l_map ?d)\<rparr>)"
  have put: "lru_put k v c = obind
      (if int (length (l_map ?d)) = l_cap ?d
       then if ?t = HEADN then Panic ''deletenode: uninitialised pointer'' else Ret ?e
       else Ret ?d) (\<lambda>c2. Ret (lru_insert k v c2))"
    by (simp add: lru_put_def lru_del_def lru_insert_def Let_def split: option.split)
  have le: "0 < l_cap c" "int (length zs) \<le> l_cap c"
    using zs(1,5) by (auto simp: lru_nodes_def)
  show ?thesis
  proof (cases "int (length zs) = l_cap c")
    case True
    then have ne: "zs \<noteq> []" using le(1) by auto
    note ev = lru_evict_nodes [OF zs(1) ne]
    have lt: "int (length zs - Suc 0) < l_cap c" using True ne by (cases zs) auto
    have "lru_rep (lru_insert k v ?e) ((k, v) # lru_entries ?e (butlast zs))"
      by (rule lru_insert_nodes [OF ev(2)])
         (use zs lt in \<open>auto simp: lru_del_def deletenode_def dest: in_set_butlastD split: option.splits\<close>)
    moreover have "lru_entries ?e (butlast zs) = butlast (m_erase k ys)"
      using zs(2,3) by (simp add: lru_entries_def map_butlast flip: zs(2))
    ultimately show ?thesis
      using put ev(1) len len' True zs(5)
      by (simp add: spec_put_def Let_def lru_insert_def addnode_def)
  next
    case False
    then have "lru_rep (lru_insert k v ?d) ((k, v) # lru_entries ?d zs)"
      using le zs by (intro lru_insert_nodes [OF zs(1)]) auto
    then show ?thesis
      using put len len' False zs by (simp add: spec_put_def Let_def lru_insert_def addnode_def)
  qed
qed

subsection \<open>The LRU cache is a cache\<close>

definition lru_lookup :: "lru \<Rightarrow> string \<Rightarrow> string option" where
  "lru_lookup c k = map_option (l_val c) (map_of (l_map c) k)"

definition lru_ok :: "lru \<Rightarrow> bool" where
  "lru_ok c \<longleftrightarrow> (\<exists>ys. lru_rep c ys)"

lemma lru_rep_lookup: "lru_rep c ys \<Longrightarrow> lru_lookup c = map_of ys"
  by (auto simp: lru_rep_def lru_lookup_def lru_nodesD(4) fun_eq_iff)

lemma spec_put_lookup:
  "map_of (spec_put cap k v ys) k = Some v"
  "x \<noteq> k \<Longrightarrow> distinct (map fst ys) \<Longrightarrow>
     map_of (spec_put cap k v ys) x = map_of ys x \<or> map_of (spec_put cap k v ys) x = None"
proof -
  show "map_of (spec_put cap k v ys) k = Some v" by (simp add: spec_put_def Let_def)
  assume x: "x \<noteq> k" and d: "distinct (map fst ys)"
  have "map_of (butlast zs) x = map_of zs x \<or> map_of (butlast zs) x = None" for zs :: "(string \<times> string) list"
    by (cases zs rule: rev_cases) (auto simp: map_add_def split: option.splits)
  from this [of "m_erase k ys"] x
  show "map_of (spec_put cap k v ys) x = map_of ys x \<or> map_of (spec_put cap k v ys) x = None"
    by (auto simp: spec_put_def Let_def)
qed

lemma lru_rep_distinct: "lru_rep c ys \<Longrightarrow> distinct (map fst ys)"
  by (auto simp: lru_rep_def lru_nodes_def lru_entries_def comp_def)

interpretation lru: kv_cache_del lru_ok lru_lookup "\<lambda>k c. Ret (lru_get k c)" lru_put lru_del
proof
  fix c k
  assume "lru_ok c"
  then obtain ys where ys: "lru_rep c ys" by (auto simp: lru_ok_def)
  note gr = lru_get_rep [OF ys, of k]
  have "map_of (snd (spec_get k ys)) = map_of ys"
    by (auto simp: spec_get_def split: option.split)
  then show "\<exists>c'. Ret (lru_get k c) = Ret (case lru_lookup c k of None \<Rightarrow> ''-1'' | Some v \<Rightarrow> v, c') \<and>
      lru_ok c' \<and> lru_lookup c' = lru_lookup c"
    using gr lru_rep_lookup [OF ys] lru_rep_lookup [OF gr(2)]
    by (intro exI [of _ "snd (lru_get k c)"]) (auto simp: lru_ok_def spec_get_def prod_eq_iff split: option.splits)
next
  fix c k v
  assume "lru_ok c"
  then obtain ys where ys: "lru_rep c ys" by (auto simp: lru_ok_def)
  obtain c' where c': "lru_put k v c = Ret c'" "lru_rep c' (spec_put (l_cap c) k v ys)"
    using lru_put_rep [OF ys] by blast
  show "\<exists>c'. lru_put k v c = Ret c' \<and> lru_ok c' \<and> lru_lookup c' k = Some v \<and>
      (\<forall>x. x \<noteq> k \<longrightarrow> lru_lookup c' x = lru_lookup c x \<or> lru_lookup c' x = None)"
    using c' lru_rep_lookup [OF ys] lru_rep_lookup [OF c'(2)] spec_put_lookup lru_rep_distinct [OF ys]
    by (auto simp: lru_ok_def)
next
  fix c k
  assume "lru_ok c"
  then obtain xs where xs: "lru_nodes c xs" by (auto simp: lru_ok_def lru_rep_def)
  obtain zs where zs: "lru_nodes (lru_del k c) zs" "lru_entries c zs = m_erase k (lru_entries c xs)"
    "lru_entries (lru_del k c) = lru_entries c"
    by (rule lru_del_nodes [OF xs]) blast
  have rep: "lru_rep c (lru_entries c xs)" "lru_rep (lru_del k c) (m_erase k (lru_entries c xs))"
    using xs zs unfolding lru_rep_def by metis+
  show "lru_ok (lru_del k c) \<and> lru_lookup (lru_del k c) = (lru_lookup c)(k := None)"
    using rep lru_rep_lookup [OF rep(1)] lru_rep_lookup [OF rep(2)] by (auto simp: lru_ok_def)
qed

text \<open>
  C28: the LRU cache refines a list of entries in order of use. From a state that represents the
  list \<open>ys\<close>, \<^verbatim>\<open>get\<close> returns what the list holds and moves the entry to the front, and \<^verbatim>\<open>put\<close>
  returns with the new entry in front, the last entry dropped if the capacity was reached,
  for every positive capacity.
\<close>

theorem lru_refines:
  assumes "lru_rep c ys"
  shows "fst (lru_get k c) = fst (spec_get k ys) \<and> lru_rep (snd (lru_get k c)) (snd (spec_get k ys)) \<and>
    (\<exists>c'. lru_put k v c = Ret c' \<and> lru_rep c' (spec_put (l_cap c) k v ys)) \<and>
    lru_rep (lru_del k c) (m_erase k ys)"
proof -
  obtain xs where xs: "lru_nodes c xs" "ys = lru_entries c xs" using assms by (auto simp: lru_rep_def)
  obtain zs where zs: "lru_nodes (lru_del k c) zs" "lru_entries c zs = m_erase k (lru_entries c xs)"
    "lru_entries (lru_del k c) = lru_entries c"
    by (rule lru_del_nodes [OF xs(1)]) blast
  then have "lru_rep (lru_del k c) (m_erase k ys)" unfolding lru_rep_def xs(2) by metis
  then show ?thesis using lru_get_rep [OF assms] lru_put_rep [OF assms] by blast
qed

lemma LRUCache_rep: "0 < n \<Longrightarrow> lru_rep (LRUCache n) []"
  unfolding lru_rep_def
  by (rule exI [of _ "[]"]) (simp add: lru_nodes_def lru_entries_def LRUCache_def dlist_def)

lemma lru_refines_witness:
  "lru_rep (LRUCache 1) [] \<and> fst (lru_get ''a'' (LRUCache 1)) = ''-1'' \<and>
   (\<exists>c'. lru_put ''a'' ''1'' (LRUCache 1) = Ret c' \<and> lru_rep c' [(''a'', ''1'')])"
  using lru_refines [OF LRUCache_rep [of 1], of "''a''" "''1''"] LRUCache_rep [of 1]
  by (simp add: spec_get_def spec_put_def Let_def m_erase_def LRUCache_def)

text \<open>
  The LRU cache never answers with anything but the last value put. In every well-formed
  cache, a \<^verbatim>\<open>get\<close> after a \<^verbatim>\<open>put\<close> of the same key returns its value, a \<^verbatim>\<open>get\<close> after a \<^verbatim>\<open>del\<close> misses,
  and a \<^verbatim>\<open>put\<close> of another key either keeps an entry or drops it.
\<close>

theorem lru_get_put_del:
  assumes "lru_ok c" and "lru_put k v c = Ret c'"
  shows "lru_ok c' \<and> fst (lru_get k c') = v \<and> fst (lru_get k (lru_del k c)) = ''-1'' \<and>
    (x \<noteq> k \<longrightarrow> lru_lookup c' x = Some w \<longrightarrow> lru_lookup c x = Some w)"
  using lru.get_after_put [OF assms] lru.get_after_del [OF assms(1), of k] lru.put_never_invents [OF assms]
    lru.putc_ok [OF assms(1), of k v] assms(2) by auto

lemma lru_get_put_del_witness:
  "\<exists>c'. lru_ok (LRUCache 1) \<and> lru_put ''a'' ''1'' (LRUCache 1) = Ret c' \<and> fst (lru_get ''a'' c') = ''1''"
proof -
  have ok: "lru_ok (LRUCache 1)" using LRUCache_rep [of 1] by (auto simp: lru_ok_def)
  obtain c' where "lru_put ''a'' ''1'' (LRUCache 1) = Ret c'"
    using lru.putc_ok [OF ok] by blast
  then show ?thesis using lru_get_put_del [OF ok] ok by blast
qed

end
