(* ===== verification/KvsLfu.thy ===== *)
theory KvsLfu
  imports KvsLru "HOL-Library.List_Lexorder" "HOL-Library.Char_ord"
begin

text \<open>
  The LFU cache of the key-value server: an ordered map from keys to nodes, and for every use
  count the doubly linked list of the nodes with that count. A node is in one list at a time, so
  every list keeps links of its own. Without deletions the cache implements ``evict the entry
  used least often, and among those the one used longest ago'' as long as no use count overflows;
  it stays a correct cache also after that. A deletion does not update the number of entries.
\<close>

subsection \<open>Lists and the cache\<close>

record freq_list =
  f_size :: int
  f_links :: "nat dll"

definition List_new :: freq_list where
  "List_new = \<lparr>f_size = 0, f_links = \<lparr>nxt = (\<lambda>_. 0)(HEADN := TAILN), prv = (\<lambda>_. 0)(TAILN := HEADN)\<rparr>\<rparr>"

definition addtoFront :: "nat \<Rightarrow> freq_list \<Rightarrow> freq_list" where
  "addtoFront a l = l\<lparr>f_links := add_front HEADN a (f_links l), f_size := f_size l + 1\<rparr>"

definition removeNode :: "nat \<Rightarrow> freq_list \<Rightarrow> freq_list" where
  "removeNode a l = l\<lparr>f_links := unlink_node a (f_links l), f_size := f_size l - 1\<rparr>"

record lfu =
  n_key :: "nat \<Rightarrow> string"
  n_val :: "nat \<Rightarrow> string"
  n_cnt :: "nat \<Rightarrow> int"
  knMap :: "(string \<times> nat) list"
  flMap :: "(int \<times> freq_list) list"
  mxsize :: int
  minFreq :: int
  currentSize :: int
  n_fresh :: nat

definition LFUCache :: "int \<Rightarrow> lfu" where
  "LFUCache capacity =
     \<lparr>n_key = (\<lambda>_. ''0''), n_val = (\<lambda>_. ''0''), n_cnt = (\<lambda>_. 1), knMap = [], flMap = [],
      mxsize = capacity, minFreq = 0, currentSize = 0, n_fresh = 2\<rparr>"

text \<open>
  \<^verbatim>\<open>flMap[f]\<close> of a missing count is a null pointer. A use count is an \<^verbatim>\<open>int\<close> that grows with every use
  and can overflow, and \<^verbatim>\<open>minFreq\<close> with it; in a cache of positive capacity the sizes never exceed
  the capacity, which is an \<^verbatim>\<open>int\<close>.
\<close>

definition flist :: "int \<Rightarrow> lfu \<Rightarrow> freq_list outcome" where
  "flist f c = (case map_of (flMap c) f of None \<Rightarrow> Panic ''null list'' | Some l \<Rightarrow> Ret l)"

definition updateflMap :: "nat \<Rightarrow> lfu \<Rightarrow> lfu outcome" where
  "updateflMap a c =
     (let c1 = c\<lparr>knMap := m_erase (n_key c a) (knMap c)\<rparr>
      in obind (flist (n_cnt c1 a) c1) (\<lambda>l.
           let l1 = removeNode a l;
               c2 = c1\<lparr>flMap := m_set (n_cnt c1 a) l1 (flMap c1)\<rparr>;
               c3 = (if n_cnt c2 a = minFreq c2 \<and> f_size l1 = 0
                     then c2\<lparr>minFreq := int32 (minFreq c2 + 1)\<rparr> else c2);
               higher = (case map_of (flMap c3) (int32 (n_cnt c3 a + 1)) of Some h \<Rightarrow> h | None \<Rightarrow> List_new);
               c4 = c3\<lparr>n_cnt := (n_cnt c3)(a := int32 (n_cnt c3 a + 1))\<rparr>;
               c5 = c4\<lparr>flMap := m_set (n_cnt c4 a) (addtoFront a higher) (flMap c4)\<rparr>
           in Ret (c5\<lparr>knMap := m_set (n_key c5 a) a (knMap c5)\<rparr>)))"

definition lfu_get :: "string \<Rightarrow> lfu \<Rightarrow> (string \<times> lfu) outcome" where
  "lfu_get k c =
     (case map_of (knMap c) k of
        Some a \<Rightarrow> obind (updateflMap a c) (\<lambda>c'. Ret (n_val c a, c'))
      | None \<Rightarrow> Ret (''-1'', c))"

text \<open>Evicting from an empty list unlinks the head sentinel, whose \<^verbatim>\<open>prev\<close> was never set.\<close>

definition lfu_evict :: "lfu \<Rightarrow> lfu outcome" where
  "lfu_evict c =
     obind (flist (minFreq c) c) (\<lambda>l.
       let t = prv (f_links l) TAILN;
           c1 = c\<lparr>knMap := m_erase (n_key c t) (knMap c)\<rparr>
       in if t = HEADN then Panic ''removeNode: uninitialised pointer''
          else Ret (c1\<lparr>flMap := m_set (minFreq c1) (removeNode t l) (flMap c1),
                       currentSize := currentSize c1 - 1\<rparr>))"

definition lfu_put :: "string \<Rightarrow> string \<Rightarrow> lfu \<Rightarrow> lfu outcome" where
  "lfu_put k v c =
     (if mxsize c = 0 then Ret c
      else case map_of (knMap c) k of
        Some a \<Rightarrow> updateflMap a (c\<lparr>n_val := (n_val c)(a := v)\<rparr>)
      | None \<Rightarrow>
          obind (if currentSize c = mxsize c then lfu_evict c else Ret c) (\<lambda>c1.
            let c2 = c1\<lparr>currentSize := currentSize c1 + 1, minFreq := 1\<rparr>;
                l = (case map_of (flMap c2) (minFreq c2) of Some l \<Rightarrow> l | None \<Rightarrow> List_new);
                a = n_fresh c2;
                c3 = c2\<lparr>n_key := (n_key c2)(a := k), n_val := (n_val c2)(a := v),
                        n_cnt := (n_cnt c2)(a := 1), n_fresh := Suc a\<rparr>
            in Ret (c3\<lparr>knMap := m_set k a (knMap c3),
                       flMap := m_set (minFreq c3) (addtoFront a l) (flMap c3)\<rparr>)))"

definition lfu_del :: "string \<Rightarrow> lfu \<Rightarrow> lfu outcome" where
  "lfu_del k c =
     (case map_of (knMap c) k of
        Some a \<Rightarrow>
          let c1 = c\<lparr>knMap := m_erase (n_key c a) (knMap c)\<rparr>
          in obind (flist (n_cnt c1 a) c1) (\<lambda>l.
               Ret (c1\<lparr>flMap := m_set (n_cnt c1 a) (removeNode a l) (flMap c1)\<rparr>))
      | None \<Rightarrow> Ret c)"

text \<open>\<^verbatim>\<open>std::map\<close> iterates in the order of the keys.\<close>

definition lfu_cachestate :: "lfu \<Rightarrow> string" where
  "lfu_cachestate c = concat (map (\<lambda>k. k @ '' '') (sort (map fst (knMap c))))"

subsection \<open>Specification\<close>

text \<open>Entries in order of use, the most recent first, with their use counts.\<close>

type_synonym lfu_spec = "(string \<times> string \<times> int) list"

definition lfu_spec_get :: "string \<Rightarrow> lfu_spec \<Rightarrow> string \<times> lfu_spec" where
  "lfu_spec_get k ys =
     (case map_of ys k of None \<Rightarrow> (''-1'', ys) | Some (v, f) \<Rightarrow> (v, m_set k (v, f + 1) ys))"

definition least_used :: "lfu_spec \<Rightarrow> string" where
  "least_used ys =
     (let m = Min ((\<lambda>(_, _, f). f) ` set ys) in fst (last (filter (\<lambda>(_, _, f). f = m) ys)))"

definition lfu_spec_put :: "int \<Rightarrow> string \<Rightarrow> string \<Rightarrow> lfu_spec \<Rightarrow> lfu_spec" where
  "lfu_spec_put cap k v ys =
     (case map_of ys k of
        Some (_, f) \<Rightarrow> m_set k (v, f + 1) ys
      | None \<Rightarrow> (k, v, 1) # (if int (length ys) = cap then m_erase (least_used ys) ys else ys))"

definition bucket :: "lfu \<Rightarrow> nat list \<Rightarrow> int \<Rightarrow> nat list" where
  "bucket c as f = filter (\<lambda>a. n_cnt c a = f) as"

definition flist_ok :: "freq_list \<Rightarrow> nat list \<Rightarrow> bool" where
  "flist_ok l xs \<longleftrightarrow> dlist (f_links l) HEADN xs TAILN \<and> f_size l = int (length xs)"

definition lfu_nodes :: "lfu \<Rightarrow> nat list \<Rightarrow> bool" where
  "lfu_nodes c as \<longleftrightarrow>
     distinct (map (n_key c) as) \<and>
     distinct (map fst (knMap c)) \<and> set (knMap c) = (\<lambda>a. (n_key c a, a)) ` set as \<and>
     (\<forall>a\<in>set as. 2 \<le> a \<and> a < n_fresh c \<and> map_of (flMap c) (n_cnt c a) \<noteq> None) \<and>
     (\<forall>f l. map_of (flMap c) f = Some l \<longrightarrow> flist_ok l (bucket c as f)) \<and> 2 \<le> n_fresh c"

definition lfu_sizes :: "lfu \<Rightarrow> nat list \<Rightarrow> bool" where
  "lfu_sizes c as \<longleftrightarrow> 0 < mxsize c \<and> currentSize c = int (length as) \<and> int (length as) \<le> mxsize c \<and>
     (as \<noteq> [] \<longrightarrow> minFreq c \<in> n_cnt c ` set as)"

definition lfu_entries :: "lfu \<Rightarrow> nat list \<Rightarrow> lfu_spec" where
  "lfu_entries c as = map (\<lambda>a. (n_key c a, n_val c a, n_cnt c a)) as"

text \<open>
  The structure that all uses keep, and the order of the counts that is lost when a count overflows.
\<close>

definition lfu_state :: "lfu \<Rightarrow> lfu_spec \<Rightarrow> bool" where
  "lfu_state c ys \<longleftrightarrow> (\<exists>as. lfu_nodes c as \<and> lfu_sizes c as \<and> ys = lfu_entries c as)"

definition lfu_counts :: "lfu \<Rightarrow> lfu_spec \<Rightarrow> bool" where
  "lfu_counts c ys \<longleftrightarrow> (\<forall>(_, _, f)\<in>set ys. 1 \<le> f \<and> minFreq c \<le> f)"

definition lfu_rep :: "lfu \<Rightarrow> lfu_spec \<Rightarrow> bool" where
  "lfu_rep c ys \<longleftrightarrow> lfu_state c ys \<and> lfu_counts c ys"

subsection \<open>Refinement\<close>

lemma lfu_nodesD:
  assumes "lfu_nodes c as"
  shows "distinct as" "map_of (knMap c) k = Some a \<longleftrightarrow> a \<in> set as \<and> n_key c a = k"
    "map_of (lfu_entries c as) k = map_option (\<lambda>a. (n_val c a, n_cnt c a)) (map_of (knMap c) k)"
    "a \<in> set as \<Longrightarrow> n_key c b = n_key c a \<Longrightarrow> b \<in> set as \<Longrightarrow> b = a"
proof -
  have d: "distinct (map fst (knMap c))" "distinct (map (n_key c) as)"
    "set (knMap c) = (\<lambda>a. (n_key c a, a)) ` set as"
    using assms by (auto simp: lfu_nodes_def)
  show "distinct as" "map_of (knMap c) k = Some a \<longleftrightarrow> a \<in> set as \<and> n_key c a = k"
    "map_of (lfu_entries c as) k = map_option (\<lambda>a. (n_val c a, n_cnt c a)) (map_of (knMap c) k)"
    "a \<in> set as \<Longrightarrow> n_key c b = n_key c a \<Longrightarrow> b \<in> set as \<Longrightarrow> b = a"
    using d(2) key_index [OF d] by (auto simp: lfu_entries_def distinct_map inj_on_def)
qed

lemma flist_ok_remove: "flist_ok l xs \<Longrightarrow> a \<in> set xs \<Longrightarrow> flist_ok (removeNode a l) (removeAll a xs)"
  using dlist_unlink_member [of "f_links l" HEADN xs TAILN a] length_pos_if_in_set [of a xs]
  by (auto simp: flist_ok_def removeNode_def dlist_def distinct_remove1_removeAll [symmetric]
      length_remove1 of_nat_diff Suc_le_eq)

lemma flist_ok_add: "flist_ok l xs \<Longrightarrow> a \<notin> set xs \<Longrightarrow> 2 \<le> a \<Longrightarrow> flist_ok (addtoFront a l) (a # xs)"
  using dlist_add_front [of "f_links l" HEADN xs TAILN a]
  by (auto simp: flist_ok_def addtoFront_def)

lemma flist_ok_new: "flist_ok List_new []"
  by (simp add: flist_ok_def List_new_def dlist_def)

lemma filter_removeAll: "filter P (removeAll a xs) = removeAll a (filter P xs)"
  by (induction xs) auto

lemma lfu_move:
  assumes n: "lfu_nodes c as" and a: "a \<in> set as"
  obtains c' where "updateflMap a c = Ret c'" "lfu_nodes c' (a # removeAll a as)"
    "n_key c' = n_key c" "n_val c' = n_val c" "n_cnt c' = (n_cnt c)(a := int32 (n_cnt c a + 1))"
    "mxsize c' = mxsize c" "currentSize c' = currentSize c"
    "minFreq c' = (if n_cnt c a = minFreq c \<and> bucket c (removeAll a as) (n_cnt c a) = []
       then int32 (minFreq c + 1) else minFreq c)"
proof -
  let ?f = "n_cnt c a"
  let ?g = "int32 (?f + 1)"
  have fg: "?g \<noteq> ?f" by (rule int32_next)
  obtain l where l: "map_of (flMap c) ?f = Some l" "flist_ok l (bucket c as ?f)"
    using n a by (auto simp: lfu_nodes_def)
  let ?l = "removeNode a l"
  have ain: "a \<in> set (bucket c as ?f)" using a by (simp add: bucket_def)
  note l1 = flist_ok_remove [OF l(2) ain]
  have sz: "f_size ?l = 0 \<longleftrightarrow> bucket c (removeAll a as) ?f = []"
    using l1 by (simp add: flist_ok_def bucket_def filter_removeAll)
  define higher where "higher = (case map_of (flMap c) ?g of Some h \<Rightarrow> h | None \<Rightarrow> List_new)"
  have "bucket c as ?g = []" if "map_of (flMap c) ?g = None"
    using n that by (auto simp: lfu_nodes_def bucket_def filter_empty_conv)
  then have "flist_ok higher (bucket c as ?g)"
    using n flist_ok_new by (auto simp: higher_def lfu_nodes_def split: option.split)
  moreover have "2 \<le> a" using n a by (auto simp: lfu_nodes_def)
  ultimately have h: "flist_ok (addtoFront a higher) (a # bucket c as ?g)"
    using fg by (intro flist_ok_add) (auto simp: bucket_def)
  define c' where "c' = c\<lparr>knMap := m_set (n_key c a) a (m_erase (n_key c a) (knMap c)),
    flMap := m_set ?g (addtoFront a higher) (m_set ?f ?l (flMap c)),
    minFreq := (if ?f = minFreq c \<and> f_size ?l = 0 then int32 (minFreq c + 1) else minFreq c),
    n_cnt := (n_cnt c)(a := ?g)\<rparr>"
  have upd: "updateflMap a c = Ret c'"
    using l(1) by (simp add: int32_next updateflMap_def flist_def Let_def c'_def higher_def)
  have b: "bucket c' (a # removeAll a as) f =
     (if f = ?g then a # bucket c as f else if f = ?f then removeAll a (bucket c as f) else bucket c as f)" for f
  proof -
    have "filter (\<lambda>b. n_cnt c' b = f) (removeAll a as) = filter (\<lambda>b. n_cnt c b = f) (removeAll a as)"
      by (intro filter_cong) (auto simp: c'_def)
    then have "filter (\<lambda>b. n_cnt c' b = f) (removeAll a as) = removeAll a (bucket c as f)"
      by (simp add: filter_removeAll bucket_def)
    moreover have "a \<notin> set (bucket c as f)" if "f \<noteq> ?f" using that by (auto simp: bucket_def)
    moreover have "n_cnt c' a = ?g" by (simp add: c'_def)
    ultimately show ?thesis unfolding bucket_def using fg by auto
  qed
  have keys: "set (knMap c') = (\<lambda>b. (n_key c b, b)) ` set (a # removeAll a as)"
    using n lfu_nodesD(4) [OF n a] by (auto simp: c'_def m_set_def set_m_erase lfu_nodes_def)
  moreover have "distinct (map fst (knMap c'))"
    using n by (auto simp: c'_def lfu_nodes_def m_set_def set_m_erase distinct_removeAll)
  moreover have "distinct (map (n_key c) (a # removeAll a as))"
    using n a lfu_nodesD(4) [OF n a] by (auto simp: lfu_nodes_def distinct_map distinct_removeAll inj_on_def)
  moreover have "\<forall>f l'. map_of (flMap c') f = Some l' \<longrightarrow> flist_ok l' (bucket c' (a # removeAll a as) f)"
    using n l1 h fg unfolding b by (auto simp: c'_def lfu_nodes_def m_set_def)
  moreover have "\<forall>b\<in>set (a # removeAll a as). 2 \<le> b \<and> b < n_fresh c' \<and>
      map_of (flMap c') (n_cnt c' b) \<noteq> None"
    using n a by (auto simp: c'_def lfu_nodes_def m_set_def)
  ultimately have "lfu_nodes c' (a # removeAll a as)"
    using n by (simp add: lfu_nodes_def c'_def)
  then show thesis using that [OF upd] sz by (simp add: c'_def)
qed

lemma length_removeAll_distinct: "distinct xs \<Longrightarrow> a \<in> set xs \<Longrightarrow> Suc (length (removeAll a xs)) = length xs"
  using length_pos_if_in_set [of a xs] by (auto simp: distinct_remove1_removeAll [symmetric] length_remove1)

lemma lfu_entries_removeAll:
  assumes "lfu_nodes c as" and "a \<in> set as"
  shows "lfu_entries c (removeAll a as) = m_erase (n_key c a) (lfu_entries c as)"
proof -
  have "n_key c b \<noteq> n_key c a \<longleftrightarrow> b \<noteq> a" if "b \<in> set as" for b
    using lfu_nodesD(4) [OF assms(1,2) _ that] by auto
  then show ?thesis
    by (auto simp: lfu_entries_def m_erase_def removeAll_filter_not_eq filter_map comp_def
        intro!: arg_cong [where f = "map _"] filter_cong)
qed

lemma lfu_touch:
  assumes n: "lfu_nodes c as" and z: "lfu_sizes c as" and a: "a \<in> set as"
  obtains c' where "updateflMap a c = Ret c'"
    "lfu_state c' (m_set (n_key c a) (n_val c a, int32 (n_cnt c a + 1)) (lfu_entries c as))"
    "lfu_counts c (lfu_entries c as) \<and> n_cnt c a < 2 ^ 31 - 1 \<longrightarrow>
       lfu_counts c' (m_set (n_key c a) (n_val c a, n_cnt c a + 1) (lfu_entries c as))"
proof -
  obtain c' where c': "updateflMap a c = Ret c'" "lfu_nodes c' (a # removeAll a as)"
    "n_key c' = n_key c" "n_val c' = n_val c" "n_cnt c' = (n_cnt c)(a := int32 (n_cnt c a + 1))"
    "mxsize c' = mxsize c" "currentSize c' = currentSize c"
    "minFreq c' = (if n_cnt c a = minFreq c \<and> bucket c (removeAll a as) (n_cnt c a) = []
       then int32 (minFreq c + 1) else minFreq c)"
    using lfu_move [OF n a] by blast
  let ?emptied = "n_cnt c a = minFreq c \<and> bucket c (removeAll a as) (n_cnt c a) = []"
  have "minFreq c' \<in> n_cnt c' ` set (a # removeAll a as)"
  proof (cases ?emptied)
    case True
    then show ?thesis using c'(5,8) by auto
  next
    case False
    obtain x where "x \<in> set as" "n_cnt c x = minFreq c" using z a by (auto simp: lfu_sizes_def)
    then obtain b where "b \<in> set as" "b \<noteq> a" "n_cnt c b = minFreq c"
      using False by (cases "x = a") (auto simp: bucket_def filter_empty_conv)
    then have "n_cnt c' b = minFreq c'" "b \<in> set (a # removeAll a as)" using False c'(5,8) by auto
    then show ?thesis by (metis image_eqI)
  qed
  then have "lfu_sizes c' (a # removeAll a as)"
    using z c'(6,7) length_removeAll_distinct [OF lfu_nodesD(1) [OF n] a] by (auto simp: lfu_sizes_def)
  moreover have entries: "lfu_entries c' (a # removeAll a as) =
      m_set (n_key c a) (n_val c a, int32 (n_cnt c a + 1)) (lfu_entries c as)"
  proof -
    have "lfu_entries c' (removeAll a as) = lfu_entries c (removeAll a as)"
      by (simp add: lfu_entries_def c'(3-5))
    then show ?thesis
      using lfu_entries_removeAll [OF n a] by (simp add: m_set_def) (simp add: lfu_entries_def c'(3-5))
  qed
  ultimately have st: "lfu_state c' (m_set (n_key c a) (n_val c a, int32 (n_cnt c a + 1)) (lfu_entries c as))"
    using c'(2) unfolding lfu_state_def by metis
  have "lfu_counts c' (m_set (n_key c a) (n_val c a, n_cnt c a + 1) (lfu_entries c as))"
    if cs: "lfu_counts c (lfu_entries c as)" and lt: "n_cnt c a < 2 ^ 31 - 1"
  proof -
    have mn: "\<forall>b\<in>set as. 1 \<le> n_cnt c b \<and> minFreq c \<le> n_cnt c b"
      using cs by (auto simp: lfu_counts_def lfu_entries_def)
    then have ca: "int32 (n_cnt c a + 1) = n_cnt c a + 1" using a lt by (intro int32_id) auto
    have "minFreq c + 1 \<le> n_cnt c b" if ?emptied "b \<in> set (removeAll a as)" for b
    proof -
      have "n_cnt c b \<noteq> minFreq c" using that by (auto simp: bucket_def filter_empty_conv)
      moreover have "minFreq c \<le> n_cnt c b" using that(2) mn by auto
      ultimately show ?thesis by simp
    qed
    moreover have "minFreq c' = (if ?emptied then minFreq c + 1 else minFreq c)"
      using c'(8) ca by (auto split: if_splits)
    moreover have "n_cnt c' b = (if b = a then n_cnt c a + 1 else n_cnt c b)" for b
      using c'(5) ca by simp
    ultimately have "1 \<le> n_cnt c' b \<and> minFreq c' \<le> n_cnt c' b" if "b \<in> set (a # removeAll a as)" for b
      using mn a that by (cases "b = a") auto
    then have "lfu_counts c' (lfu_entries c' (a # removeAll a as))"
      by (auto simp: lfu_counts_def lfu_entries_def)
    then show ?thesis by (simp only: entries ca)
  qed
  then show thesis using that [OF c'(1) st] by blast
qed

text \<open>A use of an entry, by \<^verbatim>\<open>get\<close> or by \<^verbatim>\<open>put\<close>, and the same with the counts still in order.\<close>

lemma lfu_get_state:
  assumes "lfu_state c ys"
  obtains c' where "map_of ys k = None \<longrightarrow> lfu_get k c = Ret (''-1'', c)"
    "\<forall>v f. map_of ys k = Some (v, f) \<longrightarrow> lfu_get k c = Ret (v, c') \<and>
       lfu_state c' (m_set k (v, int32 (f + 1)) ys) \<and>
       (lfu_counts c ys \<and> f < 2 ^ 31 - 1 \<longrightarrow> lfu_counts c' (m_set k (v, f + 1) ys))"
proof -
  obtain as where as: "lfu_nodes c as" "lfu_sizes c as" "ys = lfu_entries c as"
    using assms by (auto simp: lfu_state_def)
  note d = lfu_nodesD [OF as(1)]
  show thesis
  proof (cases "map_of (knMap c) k")
    case None
    then show thesis using d(3) [of k] as by (intro that) (simp_all add: lfu_get_def)
  next
    case (Some a)
    then have a: "a \<in> set as" "n_key c a = k" using d(2) by auto
    from lfu_touch [OF as(1,2) a(1)] obtain c' where "updateflMap a c = Ret c'"
      "lfu_state c' (m_set k (n_val c a, int32 (n_cnt c a + 1)) ys)"
      "lfu_counts c ys \<and> n_cnt c a < 2 ^ 31 - 1 \<longrightarrow> lfu_counts c' (m_set k (n_val c a, n_cnt c a + 1) ys)"
      unfolding a(2) as(3) by blast
    then show thesis using Some d(3) [of k] as(3) by (intro that [of c']) (simp_all add: lfu_get_def)
  qed
qed

lemma lfu_evict_rep:
  assumes n: "lfu_nodes c as" and z: "lfu_sizes c as" and ne: "as \<noteq> []"
  obtains c' t where "lfu_evict c = Ret c'" "lfu_nodes c' (removeAll t as)" "t \<in> set as"
    "lfu_entries c' = lfu_entries c" "n_key c' = n_key c" "n_cnt c' = n_cnt c"
    "lfu_entries c (removeAll t as) = m_erase (n_key c t) (lfu_entries c as)"
    "lfu_counts c (lfu_entries c as) \<longrightarrow> least_used (lfu_entries c as) = n_key c t"
    "mxsize c' = mxsize c" "currentSize c' = currentSize c - 1"
proof -
  let ?m = "minFreq c"
  have m: "?m \<in> n_cnt c ` set as" using z ne by (auto simp: lfu_sizes_def)
  then have bne: "bucket c as ?m \<noteq> []" by (auto simp: bucket_def filter_empty_conv)
  obtain l where l: "map_of (flMap c) ?m = Some l" "flist_ok l (bucket c as ?m)"
    using n m by (auto simp: lfu_nodes_def)
  define t where "t = last (bucket c as ?m)"
  have tin: "t \<in> set (bucket c as ?m)" using bne by (simp add: t_def)
  then have t: "t \<in> set as" "n_cnt c t = ?m" by (auto simp: bucket_def)
  have tp: "prv (f_links l) TAILN = t"
    using dlist_last [of "f_links l" HEADN "bucket c as ?m" TAILN] l(2) bne by (simp add: flist_ok_def t_def)
  have t2: "t \<noteq> HEADN" using n t(1) by (auto simp: lfu_nodes_def)
  define c' where "c' = c\<lparr>knMap := m_erase (n_key c t) (knMap c),
    flMap := m_set ?m (removeNode t l) (flMap c), currentSize := currentSize c - 1\<rparr>"
  have ev: "lfu_evict c = Ret c'"
    using l(1) tp t2 by (simp add: lfu_evict_def flist_def Let_def c'_def)
  have b: "bucket c' (removeAll t as) f = (if f = ?m then removeAll t (bucket c as f) else bucket c as f)" for f
  proof -
    have "t \<notin> set (bucket c as f)" if "f \<noteq> ?m" using that t by (auto simp: bucket_def)
    then show ?thesis by (auto simp: bucket_def c'_def filter_removeAll)
  qed
  have "set (knMap c') = (\<lambda>b. (n_key c b, b)) ` set (removeAll t as)"
    using n lfu_nodesD(4) [OF n t(1)] by (auto simp: c'_def set_m_erase lfu_nodes_def)
  moreover have "distinct (map (n_key c) (removeAll t as))"
    using n by (simp add: lfu_nodes_def distinct_map distinct_removeAll inj_on_def)
  moreover have "\<forall>f l'. map_of (flMap c') f = Some l' \<longrightarrow> flist_ok l' (bucket c' (removeAll t as) f)"
    using n flist_ok_remove [OF l(2) tin] unfolding b by (auto simp: c'_def lfu_nodes_def m_set_def)
  ultimately have nodes: "lfu_nodes c' (removeAll t as)"
    using n by (simp add: lfu_nodes_def c'_def distinct_removeAll m_set_def)
  have "least_used (lfu_entries c as) = n_key c t" if "lfu_counts c (lfu_entries c as)"
  proof -
    have "\<forall>a\<in>set as. ?m \<le> n_cnt c a" using that by (auto simp: lfu_counts_def lfu_entries_def)
    then have "Min ((\<lambda>(_, _, f). f) ` set (lfu_entries c as)) = ?m"
      using m by (intro Min_eqI) (auto simp: lfu_entries_def image_comp comp_def)
    then show ?thesis
      using bne by (simp add: least_used_def lfu_entries_def filter_map comp_def last_map bucket_def t_def)
  qed
  moreover have "lfu_entries c' = lfu_entries c" by (simp add: fun_eq_iff lfu_entries_def c'_def)
  ultimately show thesis
    using that [OF ev nodes t(1)] lfu_entries_removeAll [OF n t(1)] by (simp add: c'_def)
qed

lemma lfu_insert_nodes:
  assumes n: "lfu_nodes c as" and k: "k \<notin> n_key c ` set as"
  defines "l \<equiv> (case map_of (flMap c) 1 of Some l \<Rightarrow> l | None \<Rightarrow> List_new)"
  shows "lfu_nodes (c\<lparr>currentSize := s, minFreq := m, n_key := (n_key c)(n_fresh c := k),
      n_val := (n_val c)(n_fresh c := v), n_cnt := (n_cnt c)(n_fresh c := 1), n_fresh := Suc (n_fresh c),
      knMap := m_set k (n_fresh c) (knMap c), flMap := m_set 1 (addtoFront (n_fresh c) l) (flMap c)\<rparr>)
    (n_fresh c # as)" (is "lfu_nodes ?c (?a # as)")
proof -
  have lt: "\<forall>b\<in>set as. b \<noteq> ?a" using n by (auto simp: lfu_nodes_def)
  have b: "bucket ?c (?a # as) f = (if f = 1 then ?a # bucket c as f else bucket c as f)" for f
    using lt by (auto simp: bucket_def intro!: filter_cong)
  have "bucket c as 1 = []" if "map_of (flMap c) 1 = None"
    using n that by (auto simp: lfu_nodes_def bucket_def filter_empty_conv)
  then have "flist_ok l (bucket c as 1)"
    using n flist_ok_new by (auto simp: l_def lfu_nodes_def split: option.split)
  then have h: "flist_ok (addtoFront ?a l) (?a # bucket c as 1)"
    using n lt by (intro flist_ok_add) (auto simp: bucket_def lfu_nodes_def)
  have kn: "set (knMap c) = (\<lambda>b. (n_key c b, b)) ` set as" using n by (simp add: lfu_nodes_def)
  have nk: "k \<noteq> n_key c b" if "b \<in> set as" for b using k that by auto
  then have "set (knMap ?c) = (\<lambda>b. (n_key ?c b, b)) ` set (?a # as)"
    using lt by (auto simp: m_set_def set_m_erase kn image_iff)
  moreover have "distinct (map (n_key ?c) (?a # as))"
  proof -
    have "distinct (map (n_key ?c) as) = distinct (map (n_key c) as)"
      using lt by (intro arg_cong [of _ _ distinct] map_cong) auto
    moreover have "n_key ?c ` set as = n_key c ` set as" using lt by (intro image_cong) auto
    ultimately show ?thesis using n k by (simp add: lfu_nodes_def)
  qed
  moreover have "distinct (map fst (knMap ?c))"
    using n by (auto simp: lfu_nodes_def m_set_def set_m_erase distinct_removeAll)
  moreover have "\<forall>f l'. map_of (flMap ?c) f = Some l' \<longrightarrow> flist_ok l' (bucket ?c (?a # as) f)"
    using n h unfolding b by (auto simp: lfu_nodes_def m_set_def)
  moreover have "\<forall>b\<in>set (?a # as). 2 \<le> b \<and> b < n_fresh ?c \<and>
      map_of (flMap ?c) (n_cnt ?c b) \<noteq> None"
    using n lt by (auto simp: lfu_nodes_def m_set_def)
  ultimately show ?thesis using n by (simp add: lfu_nodes_def)
qed

lemma lfu_insert_state:
  assumes n: "lfu_nodes c as" and k: "k \<notin> n_key c ` set as" and z: "0 < mxsize c"
    "currentSize c = int (length as)" "int (length as) < mxsize c"
  shows "lfu_state
    (let c2 = c\<lparr>currentSize := currentSize c + 1, minFreq := 1\<rparr>;
         l = (case map_of (flMap c2) (minFreq c2) of Some l \<Rightarrow> l | None \<Rightarrow> List_new);
         a = n_fresh c2;
         c3 = c2\<lparr>n_key := (n_key c2)(a := k), n_val := (n_val c2)(a := v),
                 n_cnt := (n_cnt c2)(a := 1), n_fresh := Suc a\<rparr>
     in c3\<lparr>knMap := m_set k a (knMap c3), flMap := m_set (minFreq c3) (addtoFront a l) (flMap c3)\<rparr>)
    ((k, v, 1) # lfu_entries c as)" (is "lfu_state ?c _")
proof -
  have lt: "\<forall>b\<in>set as. b \<noteq> n_fresh c" using n by (auto simp: lfu_nodes_def)
  have "lfu_nodes ?c (n_fresh c # as)"
    using lfu_insert_nodes [OF n k, where s = "currentSize c + 1" and m = 1 and v = v] by (simp add: Let_def)
  moreover have "lfu_sizes ?c (n_fresh c # as)"
    using z by (auto simp: lfu_sizes_def Let_def)
  moreover have "lfu_entries ?c (n_fresh c # as) = (k, v, 1) # lfu_entries c as"
    using lt by (simp add: lfu_entries_def Let_def)
  ultimately show ?thesis unfolding lfu_state_def by metis
qed

lemma lfu_put_hit:
  assumes "lfu_state c ys" and "map_of ys k = Some (w, f)"
  obtains c' where "lfu_put k v c = Ret c'" "lfu_state c' (m_set k (v, int32 (f + 1)) ys)"
    "lfu_counts c ys \<and> f < 2 ^ 31 - 1 \<longrightarrow> lfu_counts c' (m_set k (v, f + 1) ys)"
proof -
  obtain as where as: "lfu_nodes c as" "lfu_sizes c as" "ys = lfu_entries c as"
    using assms(1) by (auto simp: lfu_state_def)
  note d = lfu_nodesD [OF as(1)]
  obtain a where a: "map_of (knMap c) k = Some a" "a \<in> set as" "n_key c a = k" "n_cnt c a = f"
    using assms(2) d(2,3) [of k] unfolding as(3) by auto
  let ?c = "c\<lparr>n_val := (n_val c)(a := v)\<rparr>"
  have nz: "lfu_nodes ?c as" "lfu_sizes ?c as"
    using as(1,2) by (simp_all add: lfu_nodes_def lfu_sizes_def bucket_def)
  have same: "m_set k e (lfu_entries ?c as) = m_set k e ys" for e
    using a(3) by (auto simp: m_set_def m_erase_def lfu_entries_def as(3) filter_map comp_def)
  have cs: "lfu_counts ?c (lfu_entries ?c as) = lfu_counts c ys"
    by (auto simp: lfu_counts_def lfu_entries_def as(3))
  obtain c' where c': "updateflMap a ?c = Ret c'" "lfu_state c' (m_set k (v, int32 (f + 1)) ys)"
    "lfu_counts c ys \<and> f < 2 ^ 31 - 1 \<longrightarrow> lfu_counts c' (m_set k (v, f + 1) ys)"
    using lfu_touch [OF nz a(2)] a(3,4) unfolding same cs by (auto simp: same)
  have "mxsize c \<noteq> 0" using as(2) by (simp add: lfu_sizes_def)
  then show thesis using a(1) c' by (intro that) (simp_all add: lfu_put_def)
qed

lemma lfu_put_new:
  assumes "lfu_state c ys" and "map_of ys k = None"
  obtains c' x where "lfu_put k v c = Ret c'" "minFreq c' = 1" "lfu_counts c ys \<longrightarrow> x = least_used ys"
    "lfu_state c' ((k, v, 1) # (if int (length ys) = mxsize c then m_erase x ys else ys))"
proof -
  obtain as where as: "lfu_nodes c as" "lfu_sizes c as" "ys = lfu_entries c as"
    using assms(1) by (auto simp: lfu_state_def)
  note d = lfu_nodesD [OF as(1)]
  have z: "0 < mxsize c" "currentSize c = int (length as)" "int (length as) \<le> mxsize c" "length ys = length as"
    using as(2,3) by (auto simp: lfu_sizes_def lfu_entries_def)
  have None: "map_of (knMap c) k = None" using assms(2) d(3) [of k] as(3) by simp
  then have k: "k \<notin> n_key c ` set as" using d(2) [of k] by auto
  show thesis
  proof (cases "int (length as) = mxsize c")
    case True
    then have "as \<noteq> []" using z by auto
    from lfu_evict_rep [OF as(1,2) this] obtain c' t where e: "lfu_evict c = Ret c'"
      "lfu_nodes c' (removeAll t as)" "t \<in> set as"
      "lfu_entries c' = lfu_entries c" "n_key c' = n_key c"
      "lfu_entries c (removeAll t as) = m_erase (n_key c t) ys"
      "lfu_counts c ys \<longrightarrow> n_key c t = least_used ys"
      "mxsize c' = mxsize c" "currentSize c' = currentSize c - 1" using as(3) by metis
    have "Suc (length (removeAll t as)) = length as"
      by (rule length_removeAll_distinct [OF d(1) e(3)])
    then show thesis
      using lfu_insert_state [OF e(2), of k v] k z e True None
      by (intro that [of _ "n_key c t"]) (auto simp: lfu_put_def Let_def)
  next
    case False
    then show thesis
      using lfu_insert_state [OF as(1) k, of v] z None as(3)
      by (intro that [of _ "least_used ys"]) (auto simp: lfu_put_def Let_def)
  qed
qed

subsection \<open>The LFU cache is a cache\<close>

text \<open>This needs no order of the counts, so it holds also after a count has overflowed.\<close>

definition lfu_lookup :: "lfu \<Rightarrow> string \<Rightarrow> string option" where
  "lfu_lookup c k = map_option (n_val c) (map_of (knMap c) k)"

definition lfu_ok :: "lfu \<Rightarrow> bool" where
  "lfu_ok c \<longleftrightarrow> (\<exists>ys. lfu_state c ys)"

lemma lfu_state_lookup: "lfu_state c ys \<Longrightarrow> lfu_lookup c k = map_option fst (map_of ys k)"
  by (auto simp: lfu_state_def lfu_lookup_def lfu_nodesD(3) option.map_comp comp_def)

lemma lfu_get_contract:
  assumes "lfu_ok c"
  shows "\<exists>c'. lfu_get k c = Ret (case lfu_lookup c k of None \<Rightarrow> ''-1'' | Some v \<Rightarrow> v, c') \<and>
    lfu_ok c' \<and> lfu_lookup c' = lfu_lookup c"
proof -
  obtain ys where ys: "lfu_state c ys" using assms by (auto simp: lfu_ok_def)
  note look = lfu_state_lookup [OF ys]
  obtain c' where c': "map_of ys k = None \<longrightarrow> lfu_get k c = Ret (''-1'', c)"
    "\<forall>v f. map_of ys k = Some (v, f) \<longrightarrow> lfu_get k c = Ret (v, c') \<and>
       lfu_state c' (m_set k (v, int32 (f + 1)) ys) \<and>
       (lfu_counts c ys \<and> f < 2 ^ 31 - 1 \<longrightarrow> lfu_counts c' (m_set k (v, f + 1) ys))"
    by (rule lfu_get_state [OF ys, of k])
  show ?thesis
  proof (cases "map_of ys k")
    case None
    then show ?thesis using c'(1) look [of k] assms by auto
  next
    case (Some e)
    then obtain v f where vf: "map_of ys k = Some (v, f)" by (cases e) auto
    then have g: "lfu_get k c = Ret (v, c')" "lfu_state c' (m_set k (v, int32 (f + 1)) ys)" using c'(2) by auto
    have "lfu_lookup c' = lfu_lookup c"
      using lfu_state_lookup [OF g(2)] look vf by (auto simp: fun_eq_iff m_set_def)
    then show ?thesis using g look [of k] vf by (auto simp: lfu_ok_def)
  qed
qed

lemma lfu_put_contract:
  assumes "lfu_ok c"
  shows "\<exists>c'. lfu_put k v c = Ret c' \<and> lfu_ok c' \<and> lfu_lookup c' k = Some v \<and>
    (\<forall>x. x \<noteq> k \<longrightarrow> lfu_lookup c' x = lfu_lookup c x \<or> lfu_lookup c' x = None)"
proof -
  obtain ys where ys: "lfu_state c ys" using assms by (auto simp: lfu_ok_def)
  note look = lfu_state_lookup [OF ys]
  have "\<exists>c' zs. lfu_put k v c = Ret c' \<and> lfu_state c' zs \<and> map_option fst (map_of zs k) = Some v \<and>
      (\<forall>x. x \<noteq> k \<longrightarrow> map_of zs x = map_of ys x \<or> map_of zs x = None)"
  proof (cases "map_of ys k")
    case None
    obtain c' x where c': "lfu_put k v c = Ret c'"
      "lfu_state c' ((k, v, 1) # (if int (length ys) = mxsize c then m_erase x ys else ys))"
      by (rule lfu_put_new [OF ys None])
    then show ?thesis by (intro exI conjI) (auto split: if_splits)
  next
    case (Some e)
    then obtain w f where "map_of ys k = Some (w, f)" by (cases e) auto
    then obtain c' where c': "lfu_put k v c = Ret c'" "lfu_state c' (m_set k (v, int32 (f + 1)) ys)"
      by (rule lfu_put_hit [OF ys])
    then show ?thesis by (intro exI conjI) (auto simp: m_set_def)
  qed
  then obtain c' zs where c': "lfu_put k v c = Ret c'" "lfu_state c' zs" "map_option fst (map_of zs k) = Some v"
    "\<forall>x. x \<noteq> k \<longrightarrow> map_of zs x = map_of ys x \<or> map_of zs x = None" by blast
  have "lfu_lookup c' x = lfu_lookup c x \<or> lfu_lookup c' x = None" if "x \<noteq> k" for x
    using c'(4) that lfu_state_lookup [OF c'(2), of x] look [of x] by auto
  then show ?thesis using c'(1-3) lfu_state_lookup [OF c'(2), of k] by (auto simp: lfu_ok_def)
qed

interpretation lfu: kv_cache lfu_ok lfu_lookup lfu_get lfu_put
  by unfold_locales (rule lfu_get_contract lfu_put_contract, assumption)+

subsection \<open>Least often used\<close>

lemma lfu_repD:
  assumes "lfu_rep c ys" and "map_of ys k = Some (v, f)"
  shows "lfu_state c ys" "lfu_counts c ys" "f < 2 ^ 31 - 1 \<Longrightarrow> int32 (f + 1) = f + 1"
proof -
  show r: "lfu_state c ys" "lfu_counts c ys" using assms(1) by (simp_all add: lfu_rep_def)
  have "(k, v, f) \<in> set ys" using assms(2) by (rule map_of_SomeD)
  then have "1 \<le> f" using r(2) by (auto simp: lfu_counts_def)
  then show "int32 (f + 1) = f + 1" if "f < 2 ^ 31 - 1" using that by (intro int32_id) auto
qed

lemma lfu_get_rep:
  assumes rep: "lfu_rep c ys" and "\<forall>v f. map_of ys k = Some (v, f) \<longrightarrow> f < 2 ^ 31 - 1"
  shows "\<exists>c'. lfu_get k c = Ret (fst (lfu_spec_get k ys), c') \<and> lfu_rep c' (snd (lfu_spec_get k ys))"
proof -
  have ys: "lfu_state c ys" "lfu_counts c ys" using rep by (auto simp: lfu_rep_def)
  obtain c' where c': "map_of ys k = None \<longrightarrow> lfu_get k c = Ret (''-1'', c)"
    "\<forall>v f. map_of ys k = Some (v, f) \<longrightarrow> lfu_get k c = Ret (v, c') \<and>
       lfu_state c' (m_set k (v, int32 (f + 1)) ys) \<and>
       (lfu_counts c ys \<and> f < 2 ^ 31 - 1 \<longrightarrow> lfu_counts c' (m_set k (v, f + 1) ys))"
    by (rule lfu_get_state [OF ys(1), of k])
  show ?thesis
  proof (cases "map_of ys k")
    case None
    then show ?thesis using c'(1) rep by (simp add: lfu_spec_get_def)
  next
    case (Some e)
    then obtain v f where "map_of ys k = Some (v, f)" by (cases e) auto
    then show ?thesis using c'(2) assms(2) ys(2) lfu_repD(3) [OF rep] by (auto simp: lfu_spec_get_def lfu_rep_def)
  qed
qed

lemma lfu_put_rep:
  assumes rep: "lfu_rep c ys" and "\<forall>v f. map_of ys k = Some (v, f) \<longrightarrow> f < 2 ^ 31 - 1"
  shows "\<exists>c'. lfu_put k v c = Ret c' \<and> lfu_rep c' (lfu_spec_put (mxsize c) k v ys)"
proof -
  have ys: "lfu_state c ys" "lfu_counts c ys" using rep by (auto simp: lfu_rep_def)
  show ?thesis
  proof (cases "map_of ys k")
    case None
    obtain c' x where c': "lfu_put k v c = Ret c'" "minFreq c' = 1" "lfu_counts c ys \<longrightarrow> x = least_used ys"
      "lfu_state c' ((k, v, 1) # (if int (length ys) = mxsize c then m_erase x ys else ys))"
      by (rule lfu_put_new [OF ys(1) None])
    then have "lfu_counts c' (lfu_spec_put (mxsize c) k v ys)"
      using None ys(2) by (auto simp: lfu_spec_put_def lfu_counts_def set_m_erase)
    moreover have "lfu_state c' (lfu_spec_put (mxsize c) k v ys)"
      using None c'(3,4) ys(2) by (simp only: lfu_spec_put_def) simp
    ultimately show ?thesis using c'(1) by (simp add: lfu_rep_def)
  next
    case (Some e)
    then obtain w f where f: "map_of ys k = Some (w, f)" by (cases e) auto
    then obtain c' where "lfu_put k v c = Ret c'" "lfu_state c' (m_set k (v, int32 (f + 1)) ys)"
      "lfu_counts c ys \<and> f < 2 ^ 31 - 1 \<longrightarrow> lfu_counts c' (m_set k (v, f + 1) ys)"
      by (rule lfu_put_hit [OF ys(1)])
    then show ?thesis
      using f assms(2) ys(2) lfu_repD(3) [OF rep f] by (simp add: lfu_spec_put_def lfu_rep_def)
  qed
qed

text \<open>
  C29: the LFU cache refines the list of entries in order of use with their counts. A \<^verbatim>\<open>get\<close> and a
  \<^verbatim>\<open>put\<close> of a key that is present add one to its count and make it the most recent; a \<^verbatim>\<open>put\<close> of a
  new key into a full cache drops the entry used least often, the least recent of them. The
  count is an \<^verbatim>\<open>int\<close>, so a key that is present must have been used fewer than $2^{31} - 1$ times.
\<close>

theorem lfu_refines:
  assumes "lfu_rep c ys" and "\<forall>w f. map_of ys k = Some (w, f) \<longrightarrow> f < 2 ^ 31 - 1"
  shows "(\<exists>c'. lfu_get k c = Ret (fst (lfu_spec_get k ys), c') \<and> lfu_rep c' (snd (lfu_spec_get k ys))) \<and>
    (\<exists>c'. lfu_put k v c = Ret c' \<and> lfu_rep c' (lfu_spec_put (mxsize c) k v ys))"
  using lfu_get_rep [OF assms] lfu_put_rep [OF assms] by blast

lemma LFUCache_rep: "0 < n \<Longrightarrow> lfu_rep (LFUCache n) []"
  unfolding lfu_rep_def lfu_state_def
  by (rule conjI, rule exI [of _ "[]"])
    (simp_all add: lfu_nodes_def lfu_sizes_def lfu_counts_def lfu_entries_def LFUCache_def)

definition lfu_two :: lfu where
  "lfu_two = (case obind (lfu_put ''a'' ''1'' (LFUCache 2)) (lfu_put ''b'' ''2'') of Ret c \<Rightarrow> c)"

lemma lfu_two_rep: "lfu_rep lfu_two [(''b'', ''2'', 1), (''a'', ''1'', 1)]" "mxsize lfu_two = 2"
proof -
  obtain c where c: "lfu_put ''a'' ''1'' (LFUCache 2) = Ret c" "lfu_rep c [(''a'', ''1'', 1)]"
    using lfu_put_rep [OF LFUCache_rep [of 2], of "''a''" "''1''"] by (auto simp: lfu_spec_put_def LFUCache_def)
  then have m: "mxsize c = 2" by (auto simp: lfu_put_def LFUCache_def Let_def)
  obtain d where d: "lfu_put ''b'' ''2'' c = Ret d" "lfu_rep d [(''b'', ''2'', 1), (''a'', ''1'', 1)]"
    using lfu_put_rep [OF c(2), of "''b''" "''2''"] m by (auto simp: lfu_spec_put_def)
  then have "lfu_two = d" using c(1) by (simp add: lfu_two_def)
  then show "lfu_rep lfu_two [(''b'', ''2'', 1), (''a'', ''1'', 1)]" using d(2) by simp
  show "mxsize lfu_two = 2" by code_simp
qed

lemma lfu_refines_witness:
  "\<exists>c' d. lfu_get ''a'' lfu_two = Ret (''1'', c') \<and> lfu_rep c' [(''a'', ''1'', 2), (''b'', ''2'', 1)] \<and>
   lfu_put ''c'' ''3'' lfu_two = Ret d \<and> lfu_rep d [(''c'', ''3'', 1), (''b'', ''2'', 1)]"
  using lfu_refines [OF lfu_two_rep(1), of "''a''" "''1''"] lfu_refines [OF lfu_two_rep(1), of "''c''" "''3''"]
  by (simp add: lfu_spec_get_def lfu_spec_put_def lfu_two_rep(2) m_set_def m_erase_def least_used_def)

text \<open>
  C40: a deletion breaks the LFU cache. \<^verbatim>\<open>del\<close> removes the node but leaves \<^verbatim>\<open>currentSize\<close> and \<^verbatim>\<open>minFreq\<close> as
  they are. When the cache is full and the deleted entry was the only one with the least count, the
  next insertion of a key that is not cached tries to evict from the list of that count, which is
  empty, and unlinks the head sentinel through a pointer that was never set. In a cache of
  capacity one every deletion is of this kind.
\<close>

theorem lfu_put_after_del:
  assumes "lfu_rep c ys" and "int (length ys) = mxsize c"
    and "map_of ys k = Some (w, f)" and "\<forall>(x, _, g)\<in>set ys. x \<noteq> k \<longrightarrow> f < g"
    and "k' = k \<or> map_of ys k' = None"
  shows "\<exists>c'. lfu_del k c = Ret c' \<and> lfu_put k' v' c' = Panic ''removeNode: uninitialised pointer''"
proof -
  obtain as where as: "lfu_nodes c as" "lfu_sizes c as" "ys = lfu_entries c as" and cs: "lfu_counts c ys"
    using assms(1) by (auto simp: lfu_rep_def lfu_state_def)
  note d = lfu_nodesD [OF as(1)]
  obtain a where a: "map_of (knMap c) k = Some a" "a \<in> set as" "n_key c a = k" "n_cnt c a = f"
    using assms(3) d(2,3) [of k] unfolding as(3) by auto
  have other: "f < n_cnt c b" if "b \<in> set as" "b \<noteq> a" for b
    using that assms(4) d(4) [OF a(2) _ that(1)] a(3) by (auto simp: as(3) lfu_entries_def)
  obtain x where x: "x \<in> set as" "n_cnt c x = minFreq c" using as(2) a(2) by (auto simp: lfu_sizes_def)
  moreover have "minFreq c \<le> f" using cs a(2,4) by (auto simp: lfu_counts_def as(3) lfu_entries_def)
  ultimately have m: "minFreq c = f" using other [of x] a(4) by (cases "x = a") auto
  obtain l where l: "map_of (flMap c) f = Some l" "flist_ok l (bucket c as f)"
    using as(1) a(2,4) by (auto simp: lfu_nodes_def)
  have "removeAll a (bucket c as f) = []"
    using other by (fastforce simp: bucket_def filter_empty_conv removeAll_filter_not_eq)
  then have "flist_ok (removeNode a l) []"
    using flist_ok_remove [OF l(2), of a] a(2,4) by (simp add: bucket_def)
  then have p: "prv (f_links (removeNode a l)) TAILN = HEADN" by (simp add: flist_ok_def dlist_def)
  have k': "map_of (m_erase k (knMap c)) k' = None"
    using assms(5) d(3) [of k'] by (auto simp: as(3))
  have sz: "currentSize c = mxsize c" "mxsize c \<noteq> 0"
    using as(2,3) assms(2) by (auto simp: lfu_sizes_def lfu_entries_def)
  show ?thesis
    using a l(1) m p k' sz by (simp add: lfu_del_def lfu_put_def lfu_evict_def flist_def Let_def m_set_def)
qed

lemma lfu_put_after_del_witness:
  "\<exists>c d e. lfu_get ''a'' lfu_two = Ret (''1'', c) \<and> lfu_del ''b'' c = Ret d \<and>
   lfu_put ''c'' ''3'' d = Panic ''removeNode: uninitialised pointer'' \<and>
   lfu_put ''a'' ''1'' (LFUCache 1) = Ret e \<and>
   (\<exists>e'. lfu_del ''a'' e = Ret e' \<and> lfu_put ''b'' ''2'' e' = Panic ''removeNode: uninitialised pointer'')"
proof -
  obtain c where c: "lfu_get ''a'' lfu_two = Ret (''1'', c)" "lfu_rep c [(''a'', ''1'', 2), (''b'', ''2'', 1)]"
    using lfu_get_rep [OF lfu_two_rep(1), of "''a''"] by (auto simp: lfu_spec_get_def m_set_def m_erase_def)
  have "mxsize c = 2"
    using c(1) lfu_two_rep(2) by (auto simp: lfu_get_def updateflMap_def Let_def split: option.splits if_splits)
  then have two: "\<exists>d. lfu_del ''b'' c = Ret d \<and> lfu_put ''c'' ''3'' d = Panic ''removeNode: uninitialised pointer''"
    by (intro lfu_put_after_del [OF c(2)]) auto
  obtain e where e: "lfu_put ''a'' ''1'' (LFUCache 1) = Ret e" "lfu_rep e [(''a'', ''1'', 1)]"
    using lfu_put_rep [OF LFUCache_rep [of 1], of "''a''" "''1''"] by (auto simp: lfu_spec_put_def LFUCache_def)
  then have "mxsize e = 1" by (auto simp: lfu_put_def LFUCache_def Let_def)
  then have "\<exists>d. lfu_del ''a'' e = Ret d \<and> lfu_put ''b'' ''2'' d = Panic ''removeNode: uninitialised pointer''"
    by (intro lfu_put_after_del [OF e(2)]) auto
  then show ?thesis using c(1) two e(1) by blast
qed

end
