(* ===== verification/Digits.thy ===== *)
theory Digits
  imports Prelude
begin

text \<open>
  Numbers in positional notation, shared by the kernel's and the user library's printing
  routines, by \<^verbatim>\<open>atoi\<close> and by the key-value server's text files: the digits of a number, the
  number of a sequence of digits, and that the one inverts the other.
\<close>

fun digits :: "nat \<Rightarrow> nat \<Rightarrow> nat list" where
  "digits b n = (if b < 2 \<or> n < b then [n] else digits b (n div b) @ [n mod b])"

declare digits.simps [simp del]

definition undigits :: "nat \<Rightarrow> nat list \<Rightarrow> nat" where
  "undigits b ds = foldl (\<lambda>a d. a * b + d) 0 ds"

lemma digits_small [simp]: "n < b \<Longrightarrow> digits b n = [n]"
  by (simp add: digits.simps)

lemma digits_step: "2 \<le> b \<Longrightarrow> b \<le> n \<Longrightarrow> digits b n = digits b (n div b) @ [n mod b]"
  by (subst digits.simps) simp

lemma digits_ne [simp]: "digits b n \<noteq> []"
  by (subst digits.simps) simp

lemma undigits_snoc [simp]: "undigits b (ds @ [d]) = undigits b ds * b + d"
  by (simp add: undigits_def)

lemma undigits_digits [simp]: "undigits b (digits b n) = n"
proof (induction b n rule: digits.induct)
  case (1 b n)
  show ?case
  proof (cases "b < 2 \<or> n < b")
    case True
    then have "digits b n = [n]" by (subst digits.simps) simp
    then show ?thesis by (simp add: undigits_def)
  next
    case False
    with 1 show ?thesis by (simp add: digits_step)
  qed
qed

lemma digits_bound: "2 \<le> b \<Longrightarrow> d \<in> set (digits b n) \<Longrightarrow> d < b"
proof (induction b n rule: digits.induct)
  case (1 b n)
  show ?case
  proof (cases "n < b")
    case True
    with 1 show ?thesis by simp
  next
    case False
    with 1 show ?thesis by (auto simp: digits_step)
  qed
qed

lemma digits_inj: "digits b m = digits b n \<Longrightarrow> m = n"
  by (metis undigits_digits)

text \<open>Decimal digits as characters.\<close>

definition digit_char :: "nat \<Rightarrow> char" where
  "digit_char d = char_of (48 + d)"

definition is_digit :: "char \<Rightarrow> bool" where
  "is_digit c \<longleftrightarrow> 48 \<le> (of_char c :: nat) \<and> (of_char c :: nat) \<le> 57"

definition digit_val :: "char \<Rightarrow> nat" where
  "digit_val c = of_char c - 48"

lemma of_char_digit [simp]: "d < 10 \<Longrightarrow> (of_char (digit_char d) :: nat) = 48 + d"
  by (simp add: digit_char_def of_char_of)

lemma is_digit_char [simp]: "d < 10 \<Longrightarrow> is_digit (digit_char d)"
  by (simp add: is_digit_def)

lemma digit_val_char [simp]: "d < 10 \<Longrightarrow> digit_val (digit_char d) = d"
  by (simp add: digit_val_def)

definition show_nat :: "nat \<Rightarrow> string" where
  "show_nat n = map digit_char (digits 10 n)"

definition show_int :: "int \<Rightarrow> string" where
  "show_int i = (if i < 0 then CHR ''-'' # show_nat (nat (- i)) else show_nat (nat i))"

definition read_nat :: "string \<Rightarrow> nat" where
  "read_nat s = undigits 10 (map digit_val s)"

lemma show_nat_digits: "c \<in> set (show_nat n) \<Longrightarrow> is_digit c"
  using digits_bound [of 10 _ n] by (auto simp: show_nat_def)

lemma show_nat_ne [simp]: "show_nat n \<noteq> []"
  by (simp add: show_nat_def)

lemma read_show_nat [simp]: "read_nat (show_nat n) = n"
proof -
  have "map digit_val (map digit_char (digits 10 n)) = map id (digits 10 n)"
    unfolding map_map using digits_bound [of 10 _ n] by (intro map_cong) auto
  then show ?thesis by (simp only: read_nat_def show_nat_def) simp
qed

end
