(* ===== verification/KvsStore.thy ===== *)
theory KvsStore
  imports KvsLfu Digits
begin

text \<open>
  The file store of the key-value server: fifty-three append-only files of records of 512 bytes,
  a map from keys to record numbers, and the two text files that keep the map and the record
  counts across a regular shutdown.
\<close>

subsection \<open>State\<close>

record kvs =
  files :: "nat \<Rightarrow> string"
  filecontext :: string
  offsetfile :: string
  logfile :: string
  fileoffsets :: "nat \<Rightarrow> int"
  filelocationmap :: "(string \<times> int) list"
  cachetype :: int
  lrucache :: lru
  lfucache :: lfu
  clientcount :: int

definition totalfiles :: nat where "totalfiles = 53"

abbreviation SPC :: char where "SPC \<equiv> CHR '' ''"
abbreviation NL :: char where "NL \<equiv> CHR 0x0A"
abbreviation NUL :: char where "NUL \<equiv> CHR 0x00"

definition trim :: "string \<Rightarrow> string" where
  "trim str = takeWhile (\<lambda>c. c \<noteq> SPC) str"

subsection \<open>Saving and restoring the context\<close>

definition context_line :: "string \<times> int \<Rightarrow> string" where
  "context_line e = fst e @ SPC # show_int (snd e) @ [NL]"

definition contexttofile :: "kvs \<Rightarrow> kvs" where
  "contexttofile s =
     s\<lparr>filecontext := concat (map context_line (sort_key fst (filelocationmap s))),
       offsetfile := concat (map (\<lambda>i. show_int (fileoffsets s i) @ [NL]) [0..<totalfiles])\<rparr>"

text \<open>The extraction operators of the C++ input streams, for a word and for an \<^verbatim>\<open>int\<close>.\<close>

definition is_space :: "char \<Rightarrow> bool" where
  "is_space c \<longleftrightarrow> c = SPC \<or> (9 \<le> (of_char c :: nat) \<and> (of_char c :: nat) \<le> 13)"

definition read_word :: "string \<Rightarrow> (string \<times> string) option" where
  "read_word s =
     (let t = dropWhile is_space s
      in if t = [] then None
         else Some (takeWhile (\<lambda>c. \<not> is_space c) t, dropWhile (\<lambda>c. \<not> is_space c) t))"

definition read_int :: "string \<Rightarrow> (int \<times> string) option" where
  "read_int s =
     (let t = dropWhile is_space s;
          neg = (t \<noteq> [] \<and> hd t = CHR ''-'');
          u = (if t \<noteq> [] \<and> (hd t = CHR ''-'' \<or> hd t = CHR ''+'') then tl t else t);
          ds = takeWhile is_digit u;
          v = (if neg then - int (read_nat ds) else int (read_nat ds))
      in if ds = [] \<or> v < - (2 ^ 31) \<or> 2 ^ 31 \<le> v then None else Some (v, dropWhile is_digit u))"

lemma read_word_shorter: "read_word s = Some (w, r) \<Longrightarrow> length r < length s"
proof -
  assume "read_word s = Some (w, r)"
  then obtain x t where t: "dropWhile is_space s = x # t" "r = dropWhile (\<lambda>c. \<not> is_space c) (x # t)"
    by (cases "dropWhile is_space s") (auto simp: read_word_def Let_def)
  have "\<not> is_space x" using t(1) by (metis hd_dropWhile list.distinct(1) list.sel(1))
  then have "length r \<le> length t" using t(2) by (simp add: length_dropWhile_le)
  moreover have "length (x # t) \<le> length s" unfolding t(1) [symmetric] by (rule length_dropWhile_le)
  ultimately show ?thesis by simp
qed

lemma read_int_shorter: "read_int s = Some (v, r) \<Longrightarrow> length r < length s"
proof -
  assume r: "read_int s = Some (v, r)"
  define t where "t = dropWhile is_space s"
  define u where "u = (if t \<noteq> [] \<and> (hd t = CHR ''-'' \<or> hd t = CHR ''+'') then tl t else t)"
  have "takeWhile is_digit u \<noteq> []" "r = dropWhile is_digit u"
    using r by (auto simp: read_int_def Let_def t_def [symmetric] u_def [symmetric] split: if_splits)
  then have "length r < length u"
    by (metis append_eq_conv_conj drop_eq_Nil length_append length_greater_0_conv less_add_same_cancel2 takeWhile_dropWhile_id)
  moreover have "length u \<le> length t" by (auto simp: u_def)
  moreover have "length t \<le> length s" by (simp add: t_def length_dropWhile_le)
  ultimately show ?thesis by linarith
qed

function read_context :: "string \<Rightarrow> (string \<times> int) list \<Rightarrow> (string \<times> int) list" where
  "read_context s m =
     (case read_word s of
        None \<Rightarrow> m
      | Some (key, r) \<Rightarrow>
          (case read_int r of None \<Rightarrow> m | Some (offset, r') \<Rightarrow> read_context r' (m_set key offset m)))"
  by pat_completeness auto
termination
  by (relation "measure (length \<circ> fst)") (auto dest!: read_word_shorter read_int_shorter)

function read_offsets :: "string \<Rightarrow> nat \<Rightarrow> (nat \<Rightarrow> int) \<Rightarrow> (nat \<Rightarrow> int) outcome" where
  "read_offsets s i f =
     (case read_int s of
        None \<Rightarrow> Ret f
      | Some (o', r) \<Rightarrow>
          if totalfiles \<le> i then Panic ''fileoffsets: index out of range''
          else read_offsets r (Suc i) (f(i := o')))"
  by pat_completeness auto
termination
  by (relation "measure (length \<circ> fst)") (auto dest!: read_int_shorter)

declare read_context.simps [simp del] read_offsets.simps [simp del]

definition initializefileinfo :: "kvs \<Rightarrow> kvs outcome" where
  "initializefileinfo s =
     obind (read_offsets (offsetfile s) 0 (fileoffsets s)) (\<lambda>f.
       Ret (s\<lparr>filelocationmap := read_context (filecontext s) (filelocationmap s), fileoffsets := f\<rparr>))"

subsection \<open>Records\<close>

definition kfile :: "string \<Rightarrow> nat" where
  "kfile key =
     (let c = (case key of [] \<Rightarrow> 0 | x # _ \<Rightarrow> of_char x)
      in if 65 \<le> c \<and> c \<le> 90 then c - 65 else if 97 \<le> c \<and> c \<le> 122 then c - 97 + 26 else 52)"

definition pad :: "string \<Rightarrow> string" where
  "pad s = (if length s < 256 then s @ replicate (256 - length s) SPC else [])"

text \<open>
  \<^verbatim>\<open>write\<close> is asked for 512 bytes; a shorter string means that it reads beyond the string's end.
\<close>

definition putkey :: "string \<Rightarrow> string \<Rightarrow> kvs \<Rightarrow> kvs outcome" where
  "putkey key value s =
     (let enc = pad key @ pad value; i = kfile key
      in if length enc < 512 then Panic ''write: beyond the end of the string''
         else Ret (s\<lparr>files := (files s)(i := files s i @ take 512 enc),
                     filelocationmap := m_set key (fileoffsets s i) (filelocationmap s),
                     fileoffsets := (fileoffsets s)(i := int32 (fileoffsets s i + 1))\<rparr>))"

text \<open>
  The buffer is not initialised and not terminated: \<open>stk\<close> is what the stack holds from the
  buffer's first byte on, before the read. The index is an \<^verbatim>\<open>int\<close> and overflows from $2^{22}$ records
  in a file on. \<^verbatim>\<open>lseek\<close> refuses a negative index; then the read takes place at the position
  \<open>pos\<close> that the operations before have left.
\<close>

definition getkey :: "string \<Rightarrow> nat \<Rightarrow> string \<Rightarrow> kvs \<Rightarrow> string" where
  "getkey stk pos key s =
     (case map_of (filelocationmap s) key of
        None \<Rightarrow> ''-1''
      | Some offset \<Rightarrow>
          let valueindex = int32 (offset * 512 + 256);
              rd = take 256 (drop (if valueindex < 0 then pos else nat valueindex) (files s (kfile key)));
              value = takeWhile (\<lambda>c. c \<noteq> NUL) (rd @ drop (length rd) stk)
          in trim value)"

definition deletekey :: "string \<Rightarrow> kvs \<Rightarrow> int \<times> kvs" where
  "deletekey key s =
     (case map_of (filelocationmap s) key of
        Some _ \<Rightarrow> (1, s\<lparr>filelocationmap := m_erase key (filelocationmap s)\<rparr>)
      | None \<Rightarrow> (0, s))"

subsection \<open>What the store keeps\<close>

definition store_ok :: "kvs \<Rightarrow> bool" where
  "store_ok s \<longleftrightarrow> (\<forall>i. int (length (files s i)) = 512 * fileoffsets s i) \<and>
     (\<forall>k n. map_of (filelocationmap s) k = Some n \<longrightarrow> 0 \<le> n \<and> n < fileoffsets s (kfile k))"

definition stored :: "string \<Rightarrow> string" where
  "stored v = takeWhile (\<lambda>c. c \<noteq> SPC \<and> c \<noteq> NUL) v"

lemma length_pad: "length s < 256 \<Longrightarrow> length (pad s) = 256"
  by (simp add: pad_def)

lemma takeWhile_takeWhile: "takeWhile P (takeWhile Q xs) = takeWhile (\<lambda>x. P x \<and> Q x) xs"
  by (induction xs) auto

lemma stored_pad: "length v < 256 \<Longrightarrow> trim (takeWhile (\<lambda>c. c \<noteq> NUL) (pad v @ r)) = stored v"
proof -
  assume "length v < 256"
  then obtain n where "256 - length v = Suc n" by (cases "256 - length v") auto
  then have "pad v @ r = v @ SPC # replicate n SPC @ r" using \<open>length v < 256\<close> by (simp add: pad_def)
  then show ?thesis
    by (simp only: trim_def stored_def takeWhile_takeWhile) (simp add: takeWhile_tail)
qed

lemma getkey_at:
  "map_of (filelocationmap s) k = Some n \<Longrightarrow> 0 \<le> n \<Longrightarrow> n < 2 ^ 22 \<Longrightarrow>
   take 256 (drop (nat (n * 512 + 256)) (files s (kfile k))) = rd \<Longrightarrow>
   getkey stk pos k s = trim (takeWhile (\<lambda>c. c \<noteq> NUL) (rd @ drop (length rd) stk))"
  using int32_id [of "n * 512 + 256"] by (simp add: getkey_def Let_def del: length_take length_drop)

lemma getkey_cong:
  "map_of (filelocationmap t) k = map_of (filelocationmap s) k \<Longrightarrow> files t (kfile k) = files s (kfile k) \<Longrightarrow>
   getkey stk pos k t = getkey stk pos k s"
  by (simp add: getkey_def Let_def split: option.split)

lemma putkey_ok:
  assumes ok: "store_ok s" and len: "length k < 256" "length v < 256" and few: "fileoffsets s (kfile k) < 2 ^ 22"
  obtains s' where "putkey k v s = Ret s'" "store_ok s'" "getkey stk pos k s' = stored v"
    "\<And>k'. k' \<noteq> k \<Longrightarrow> getkey stk pos k' s' = getkey stk pos k' s"
    "map_of (filelocationmap s') = (map_of (filelocationmap s))(k \<mapsto> fileoffsets s (kfile k))"
    "s' = s\<lparr>files := files s', filelocationmap := filelocationmap s', fileoffsets := fileoffsets s'\<rparr>"
proof -
  let ?i = "kfile k"
  define s' where "s' = s\<lparr>files := (files s)(?i := files s ?i @ pad k @ pad v),
    filelocationmap := m_set k (fileoffsets s ?i) (filelocationmap s),
    fileoffsets := (fileoffsets s)(?i := int32 (fileoffsets s ?i + 1))\<rparr>"
  note lp = length_pad [OF len(1)] length_pad [OF len(2)]
  have put: "putkey k v s = Ret s'" using lp by (simp add: putkey_def Let_def s'_def)
  have fl: "int (length (files s i)) = 512 * fileoffsets s i" for i using ok by (simp add: store_ok_def)
  then have nn: "0 \<le> fileoffsets s i" for i
    by (metis of_nat_0_le_iff zero_le_mult_iff zero_less_numeral linorder_not_less)
  have nx: "int32 (fileoffsets s ?i + 1) = fileoffsets s ?i + 1"
    using nn [of ?i] few by (intro int32_id) auto
  have ok': "store_ok s'"
    using ok lp nn nx by (auto simp: store_ok_def s'_def m_set_def) (metis less_imp_le)
  have pos: "nat (fileoffsets s ?i * 512 + 256) = length (files s ?i) + 256"
    using fl [of ?i] by linarith
  have mp: "map_of (filelocationmap s') k = Some (fileoffsets s ?i)" by (simp add: s'_def m_set_def)
  have rd: "take 256 (drop (nat (fileoffsets s ?i * 512 + 256)) (files s' ?i)) = pad v"
    unfolding pos using lp by (simp add: s'_def)
  have get: "getkey stk pos k s' = stored v"
    unfolding getkey_at [OF mp nn few rd] by (rule stored_pad [OF len(2)])
  have other: "getkey stk pos k' s' = getkey stk pos k' s" if "k' \<noteq> k" for k'
  proof (cases "map_of (filelocationmap s) k' = None \<or> kfile k' \<noteq> ?i")
    case True
    then show ?thesis
    proof
      assume "map_of (filelocationmap s) k' = None"
      then show ?thesis using that by (simp add: getkey_def s'_def m_set_def)
    next
      assume "kfile k' \<noteq> ?i"
      then show ?thesis using that by (intro getkey_cong) (simp_all add: s'_def m_set_def)
    qed
  next
    case False
    then obtain n where Some: "map_of (filelocationmap s) k' = Some n" and same: "kfile k' = ?i" by auto
    have n: "0 \<le> n" "n < fileoffsets s (kfile k')" using ok Some by (auto simp: store_ok_def)
    then have n22: "n < 2 ^ 22" using few same by simp
    have "nat (n * 512 + 256) + 256 \<le> length (files s (kfile k'))" using n fl [of "kfile k'"] by linarith
    moreover have "files s' (kfile k') = files s (kfile k') @ (if kfile k' = ?i then pad k @ pad v else [])"
      by (simp add: s'_def)
    ultimately have "take 256 (drop (nat (n * 512 + 256)) (files s' (kfile k'))) =
        take 256 (drop (nat (n * 512 + 256)) (files s (kfile k')))"
      by simp
    moreover have "map_of (filelocationmap s') k' = Some n" using Some that by (simp add: s'_def m_set_def)
    ultimately show ?thesis using getkey_at [OF _ n(1) n22 refl] Some by metis
  qed
  show thesis by (rule that [OF put ok' get other]) (simp_all add: s'_def m_set_def)
qed

lemma deletekey_ok:
  assumes "store_ok s"
  shows "store_ok (snd (deletekey k s)) \<and>
    fst (deletekey k s) = (if map_of (filelocationmap s) k = None then 0 else 1) \<and>
    getkey stk pos k (snd (deletekey k s)) = ''-1'' \<and>
    (\<forall>k'. k' \<noteq> k \<longrightarrow> getkey stk pos k' (snd (deletekey k s)) = getkey stk pos k' s)"
  using assms by (auto simp: deletekey_def store_ok_def getkey_def split: option.split)

text \<open>
  C30: what is put can be read back. For a key and a value shorter than 256 bytes, \<^verbatim>\<open>putkey\<close> on a
  well-formed store returns a well-formed store in which \<^verbatim>\<open>getkey\<close> of the key gives the value up
  to its first space or zero byte, whatever the unterminated buffer is followed by, and the
  value of every other key is as before. The file of the key must hold fewer than $2^{22}$ records
  (2 GB): from there on the index that \<^verbatim>\<open>getkey\<close> computes in an \<^verbatim>\<open>int\<close> overflows.
\<close>

theorem putkey_getkey:
  assumes "store_ok s" and "length k < 256" and "length v < 256" and "fileoffsets s (kfile k) < 2 ^ 22"
  shows "\<exists>s'. putkey k v s = Ret s' \<and> store_ok s' \<and> getkey stk pos k s' = stored v \<and>
    (k' \<noteq> k \<longrightarrow> getkey stk pos k' s' = getkey stk pos k' s)"
  by (rule putkey_ok [OF assms, of stk pos]) blast

definition empty_kvs :: "int \<Rightarrow> int \<Rightarrow> kvs" where
  "empty_kvs ct cap =
     \<lparr>files = (\<lambda>_. []), filecontext = [], offsetfile = [], logfile = [], fileoffsets = (\<lambda>_. 0),
      filelocationmap = [], cachetype = ct, lrucache = LRUCache cap, lfucache = LFUCache cap,
      clientcount = 0\<rparr>"

lemma empty_store_ok: "store_ok (empty_kvs ct cap)"
  by (simp add: store_ok_def empty_kvs_def)

lemma putkey_getkey_witness:
  "\<exists>s'. putkey ''city'' ''Mumbai'' (empty_kvs 1 4) = Ret s' \<and> getkey [] 0 ''city'' s' = ''Mumbai''"
  using putkey_getkey [OF empty_store_ok, of "''city''" "''Mumbai''" 1 4 "[]" 0 "[]"]
  by (auto simp: stored_def empty_kvs_def)

text \<open>
  A key or a value of 256 bytes is not stored. It is not padded, the record falls short of
  512 bytes, and \<^verbatim>\<open>write\<close> reads beyond the end of the string.
\<close>

theorem putkey_256:
  "length k = 256 \<or> length v = 256 \<Longrightarrow> putkey k v s = Panic ''write: beyond the end of the string''"
  by (auto simp: putkey_def Let_def pad_def)

lemma putkey_256_witness:
  "putkey ''k'' (replicate 256 CHR ''v'') (empty_kvs 1 4) = Panic ''write: beyond the end of the string''"
  by (rule putkey_256) simp

subsection \<open>The context survives a shutdown\<close>

definition plain_key :: "string \<Rightarrow> bool" where
  "plain_key k \<longleftrightarrow> k \<noteq> [] \<and> (\<forall>c\<in>set k. \<not> is_space c)"

lemma digit_not_space: "is_digit c \<Longrightarrow> \<not> is_space c"
  by (auto simp: is_digit_def is_space_def)

lemma dropWhile_digits: "dropWhile is_digit (show_nat n @ NL # r) = NL # r"
  "takeWhile is_digit (show_nat n @ NL # r) = show_nat n"
  using show_nat_digits [of _ n] by (auto simp: dropWhile_append takeWhile_append is_digit_def)

lemma show_nat_hd: "is_digit (hd (show_nat n @ r))" "show_nat n @ r \<noteq> []"
  using show_nat_digits [of "hd (show_nat n)" n] by (auto simp: hd_append)

lemma dropWhile_hd_id: "xs \<noteq> [] \<Longrightarrow> \<not> P (hd xs) \<Longrightarrow> dropWhile P xs = xs"
  by (cases xs) auto

lemma read_int_show:
  assumes "- (2 ^ 31) \<le> i" and "i < 2 ^ 31"
  shows "read_int (show_int i @ NL # r) = Some (i, NL # r)"
    "read_int (SPC # show_int i @ NL # r) = Some (i, NL # r)"
    "read_int (NL # show_int i @ NL # r) = Some (i, NL # r)"
proof -
  let ?t = "show_int i @ NL # r"
  have sp: "\<not> is_space CHR ''-''" "is_space SPC" "is_space NL" by (simp_all add: is_space_def)
  have d: "dropWhile is_space ?t = ?t"
    using sp digit_not_space [OF show_nat_hd(1) [of "nat i"]]
    by (cases "i < 0") (auto simp: show_int_def intro!: dropWhile_hd_id show_nat_hd)
  have h: "hd (show_nat (nat i) @ NL # r) \<noteq> CHR ''-''" "hd (show_nat (nat i) @ NL # r) \<noteq> CHR ''+''"
    using show_nat_hd(1) [of "nat i" "NL # r"] by (auto simp: is_digit_def)
  show "read_int ?t = Some (i, NL # r)"
    unfolding read_int_def d Let_def using h assms
    by (cases "i < 0") (auto simp: show_int_def dropWhile_digits)
  then show "read_int (SPC # ?t) = Some (i, NL # r)" "read_int (NL # ?t) = Some (i, NL # r)"
    using sp by (simp_all add: read_int_def)
qed

lemma read_word_plain:
  assumes "plain_key k"
  shows "read_word (k @ SPC # r) = Some (k, SPC # r)" "read_word (NL # k @ SPC # r) = Some (k, SPC # r)"
proof -
  have sp: "is_space SPC" "is_space NL" by (simp_all add: is_space_def)
  have "hd (k @ SPC # r) \<in> set k" using assms by (cases k) (auto simp: plain_key_def)
  then have d: "dropWhile is_space (k @ SPC # r) = k @ SPC # r"
    using assms by (intro dropWhile_hd_id) (auto simp: plain_key_def)
  have "takeWhile (\<lambda>c. \<not> is_space c) (k @ SPC # r) = k" "dropWhile (\<lambda>c. \<not> is_space c) (k @ SPC # r) = SPC # r"
    using assms sp by (auto simp: plain_key_def takeWhile_append dropWhile_append)
  then show "read_word (k @ SPC # r) = Some (k, SPC # r)" "read_word (NL # k @ SPC # r) = Some (k, SPC # r)"
    using sp by (simp_all add: read_word_def d)
qed

lemma read_context_step:
  assumes "plain_key (fst e)" and "- (2 ^ 31) \<le> snd e" and "snd e < 2 ^ 31"
  shows "read_context (context_line e @ r) m = read_context (NL # r) (m_set (fst e) (snd e) m)"
    "read_context (NL # context_line e @ r) m = read_context (NL # r) (m_set (fst e) (snd e) m)"
  using read_word_plain [OF assms(1)] read_int_show(2) [OF assms(2,3)]
  by (simp_all add: context_line_def read_context.simps [of "_ # _"] read_context.simps [of "_ @ _"])

lemma read_context_NL: "read_context [NL] m = m" "read_context [] m = m"
  by (simp_all add: read_context.simps [of "[NL]"] read_context.simps [of "[]"] read_word_def is_space_def)

lemma read_context_lines:
  assumes "\<forall>e\<in>set es. plain_key (fst e) \<and> - (2 ^ 31) \<le> snd e \<and> snd e < 2 ^ 31"
  shows "read_context (NL # concat (map context_line es)) m = foldl (\<lambda>m e. m_set (fst e) (snd e) m) m es"
  using assms
proof (induction es arbitrary: m)
  case Nil
  show ?case by (simp add: read_context_NL)
next
  case (Cons e es)
  then show ?case using read_context_step(2) [of e "concat (map context_line es)" m] by simp
qed

lemma read_context_file:
  assumes "\<forall>e\<in>set es. plain_key (fst e) \<and> - (2 ^ 31) \<le> snd e \<and> snd e < 2 ^ 31"
  shows "read_context (concat (map context_line es)) m = foldl (\<lambda>m e. m_set (fst e) (snd e) m) m es"
proof (cases es)
  case Nil
  then show ?thesis by (simp add: read_context_NL)
next
  case (Cons e es')
  then show ?thesis
    using assms read_context_step(1) [of e "concat (map context_line es')" m] read_context_lines [of es']
    by simp
qed

lemma map_of_fold_m_set:
  "distinct (map fst es) \<Longrightarrow> map_of (foldl (\<lambda>m e. m_set (fst e) (snd e) m) m es) = map_of m ++ map_of es"
proof (induction es arbitrary: m)
  case (Cons e es)
  then have "map_of es (fst e) = None" by (simp add: map_of_eq_None_iff)
  with Cons show ?case by (cases e) (auto simp: m_set_def map_add_def fun_eq_iff split: option.split)
qed simp

lemma map_of_sort_key: "distinct (map fst m) \<Longrightarrow> map_of (sort_key fst m) = map_of m"
  by (rule map_of_eqI) (auto simp: distinct_map)

lemma read_offsets_step:
  assumes "- (2 ^ 31) \<le> i" and "i < 2 ^ 31" and "n < totalfiles"
  shows "read_offsets (show_int i @ NL # r) n f = read_offsets (NL # r) (Suc n) (f(n := i))"
    "read_offsets (NL # show_int i @ NL # r) n f = read_offsets (NL # r) (Suc n) (f(n := i))"
  using read_int_show [OF assms(1,2), of r] assms(3)
  by (simp_all add: read_offsets.simps [of "_ # _"] read_offsets.simps [of "_ @ _"])

lemma read_offsets_lines:
  assumes "\<forall>i<totalfiles. - (2 ^ 31) \<le> g i \<and> g i < (2 :: int) ^ 31" and "n \<le> totalfiles"
  shows "read_offsets (NL # concat (map (\<lambda>i. show_int (g i) @ [NL]) [n..<totalfiles])) n f =
    Ret (\<lambda>i. if n \<le> i \<and> i < totalfiles then g i else f i)"
  using assms(2)
proof (induction n arbitrary: f rule: inc_induct)
  case base
  show ?case by (simp add: read_offsets.simps [of "[NL]"] read_int_def is_space_def fun_eq_iff)
next
  case (step n)
  have "[n..<totalfiles] = n # [Suc n..<totalfiles]" using step.hyps by (simp add: upt_conv_Cons)
  then show ?case
    using step assms(1) read_offsets_step(2) [of "g n" n] by (auto simp: fun_eq_iff)
qed

lemma read_offsets_file:
  assumes "\<forall>i<totalfiles. - (2 ^ 31) \<le> g i \<and> g i < (2 :: int) ^ 31"
  shows "read_offsets (concat (map (\<lambda>i. show_int (g i) @ [NL]) [0..<totalfiles])) 0 f =
    Ret (\<lambda>i. if i < totalfiles then g i else f i)"
proof -
  have t: "0 < totalfiles" by (simp add: totalfiles_def)
  then have "[0..<totalfiles] = 0 # [Suc 0..<totalfiles]" by (simp add: upt_conv_Cons)
  then show ?thesis
    using assms t read_offsets_step(1) [of "g 0" 0] read_offsets_lines [OF assms, of "Suc 0"]
    by (auto simp: fun_eq_iff Suc_le_eq)
qed

text \<open>
  C32: the context survives a regular shutdown. If no key holds white space and the numbers are
  \<^verbatim>\<open>int\<close>s, reading the files that \<^verbatim>\<open>contexttofile\<close> wrote restores where every key is stored and the
  number of records of every file.
\<close>

theorem context_roundtrip:
  assumes "distinct (map fst (filelocationmap s))"
    and "\<forall>e\<in>set (filelocationmap s). plain_key (fst e) \<and> - (2 ^ 31) \<le> snd e \<and> snd e < 2 ^ 31"
    and "\<forall>i<totalfiles. - (2 ^ 31) \<le> fileoffsets s i \<and> fileoffsets s i < 2 ^ 31"
    and "filecontext t = filecontext (contexttofile s)" and "offsetfile t = offsetfile (contexttofile s)"
    and "filelocationmap t = []"
  shows "\<exists>t'. initializefileinfo t = Ret t' \<and> files t' = files t \<and>
    map_of (filelocationmap t') = map_of (filelocationmap s) \<and>
    (\<forall>i<totalfiles. fileoffsets t' i = fileoffsets s i)"
proof -
  have "distinct (map fst (sort_key fst (filelocationmap s)))" using assms(1) by (simp add: distinct_map)
  then show ?thesis
    using assms read_context_file [of "sort_key fst (filelocationmap s)" "[]"]
      read_offsets_file [of "fileoffsets s"]
    by (simp add: initializefileinfo_def contexttofile_def map_of_fold_m_set map_of_sort_key)
qed

lemma context_roundtrip_witness:
  "\<exists>t'. initializefileinfo (contexttofile (empty_kvs 1 4\<lparr>filelocationmap := [(''b'', 3), (''a'', 7)]\<rparr>)
       \<lparr>filelocationmap := []\<rparr>) = Ret t' \<and>
    map_of (filelocationmap t') = [''b'' \<mapsto> 3, ''a'' \<mapsto> 7]"
  using context_roundtrip [of "empty_kvs 1 4\<lparr>filelocationmap := [(''b'', 3), (''a'', 7)]\<rparr>"
      "contexttofile (empty_kvs 1 4\<lparr>filelocationmap := [(''b'', 3), (''a'', 7)]\<rparr>)\<lparr>filelocationmap := []\<rparr>"]
  by (auto simp: empty_kvs_def contexttofile_def plain_key_def is_space_def fun_upd_twist)

end
