(* ===== verification/KvsServer.thy ===== *)
theory KvsServer
  imports KvsStore "HOL-Library.Multiset"
begin

text \<open>
  The key-value server: reading through the cache, the three operations, and the call objects
  that the completion queue drives from request to reply. \<open>iter\<close> is the order in which the
  library's hash map is traversed and \<open>stk\<close> the contents of the stack behind \<^verbatim>\<open>getkey\<close>'s buffer;
  \<open>pos\<close> is the file position at which it reads when \<^verbatim>\<open>lseek\<close> refuses its index.
\<close>

subsection \<open>Operations\<close>

text \<open>\<^verbatim>\<open>get\<close> is written out once for either cache; both copies are this function.\<close>

definition get_through ::
  "(string \<Rightarrow> 'c \<Rightarrow> (string \<times> 'c) outcome) \<Rightarrow> (string \<Rightarrow> string \<Rightarrow> 'c \<Rightarrow> 'c outcome) \<Rightarrow> string \<Rightarrow>
   string \<Rightarrow> 'c \<Rightarrow> (string \<times> 'c) outcome" where
  "get_through getc putc filevalue key c =
     obind (getc key c) (\<lambda>(value, c1).
       if value \<noteq> ''-1'' then Ret (value, c1)
       else if filevalue \<noteq> ''-1'' then obind (putc key filevalue c1) (\<lambda>c2. Ret (filevalue, c2))
       else Ret ('''', c1))"

definition kvs_get :: "string \<Rightarrow> nat \<Rightarrow> string \<Rightarrow> kvs \<Rightarrow> (string \<times> kvs) outcome" where
  "kvs_get stk pos key s =
     (if cachetype s = 1 then
        obind (get_through (\<lambda>k c. Ret (lru_get k c)) lru_put (getkey stk pos key s) key (lrucache s))
          (\<lambda>(r, c). Ret (r, s\<lparr>lrucache := c\<rparr>))
      else if cachetype s = 2 then
        obind (get_through lfu_get lfu_put (getkey stk pos key s) key (lfucache s))
          (\<lambda>(r, c). Ret (r, s\<lparr>lfucache := c\<rparr>))
      else Ret ('''', s))"

definition kvs_put :: "string \<Rightarrow> string \<Rightarrow> kvs \<Rightarrow> kvs outcome" where
  "kvs_put key value s = putkey key value s"

definition kvs_del :: "string \<Rightarrow> kvs \<Rightarrow> (int \<times> kvs) outcome" where
  "kvs_del key s =
     (if cachetype s = 1 then Ret (deletekey key (s\<lparr>lrucache := lru_del key (lrucache s)\<rparr>))
      else if cachetype s = 2 then
        obind (lfu_del key (lfucache s)) (\<lambda>c. Ret (deletekey key (s\<lparr>lfucache := c\<rparr>)))
      else Ret (0, s))"

definition getcachestate :: "((string \<times> nat) list \<Rightarrow> string list) \<Rightarrow> kvs \<Rightarrow> string" where
  "getcachestate iter s =
     (if cachetype s = 1 then ''CACHE KEYS : '' @ lru_cachestate iter (lrucache s) @ [NL]
      else if cachetype s = 2 then ''CACHE KEYS : '' @ lfu_cachestate (lfucache s) @ [NL]
      else ''INVALID CACHE NUMBER'')"

definition createlog :: "string \<Rightarrow> kvs \<Rightarrow> kvs" where
  "createlog message s = s\<lparr>logfile := logfile s @ message\<rparr>"

text \<open>
  The four numbers of the configuration file. An extraction at the end of the file leaves the
  variable as it was, any other failing one stores zero or the nearest \<^verbatim>\<open>int\<close>; after a failure
  the variables keep their values.
\<close>

definition int_on_failure :: "string \<Rightarrow> int \<Rightarrow> int" where
  "int_on_failure s d =
     (let t = dropWhile is_space s;
          neg = (t \<noteq> [] \<and> hd t = CHR ''-'');
          u = (if t \<noteq> [] \<and> (hd t = CHR ''-'' \<or> hd t = CHR ''+'') then tl t else t)
      in if t = [] then d
         else if takeWhile is_digit u = [] then 0
         else if neg then - (2 ^ 31) else 2 ^ 31 - 1)"

fun read_ints :: "nat \<Rightarrow> string \<Rightarrow> int list \<Rightarrow> int list" where
  "read_ints 0 s ds = []"
| "read_ints (Suc n) s ds =
     (case read_int s of
        Some (v, r) \<Rightarrow> v # read_ints n r (tl ds)
      | None \<Rightarrow> int_on_failure s (hd ds) # take n (tl ds))"

definition readconfigfile :: "string \<Rightarrow> kvs \<Rightarrow> kvs" where
  "readconfigfile config s =
     (case read_ints 4 config [- 1, - 1, 0, 0] of
        [_, ct, cap, _] \<Rightarrow>
          let s1 = s\<lparr>cachetype := ct\<rparr>;
              s2 = (if ct = 1 then s1\<lparr>lrucache := LRUCache cap\<rparr> else s1)
          in if ct = 2 then s2\<lparr>lfucache := LFUCache cap\<rparr> else s2
      | _ \<Rightarrow> s)"

definition setupeverything :: "string \<Rightarrow> kvs \<Rightarrow> kvs outcome" where
  "setupeverything config s = initializefileinfo (readconfigfile config s)"

definition setdowneverything :: "kvs \<Rightarrow> kvs" where
  "setdowneverything s = contexttofile s"

subsection \<open>Call objects\<close>

definition SUCCESS :: int where "SUCCESS = 200"
definition FAILURE :: int where "FAILURE = 400"

datatype call_status = CREATE | PROCESS | FINISH

datatype request =
    PutRequest string string int
  | GetRequest string int
  | DelRequest string int
  | ConRequest

datatype reply =
    PutReply int string
  | GetReply string int string
  | DelReply int string
  | ConReply int

definition handle_put ::
  "((string \<times> nat) list \<Rightarrow> string list) \<Rightarrow> string \<Rightarrow> string \<Rightarrow> int \<Rightarrow> kvs \<Rightarrow> (reply \<times> kvs) outcome" where
  "handle_put iter key value tok s =
     (let len1 = length key; len2 = length value;
          pre = show_int tok @ '' PUT: PARAMETERS : '' @ key @ '' : '' @ value
      in if len1 = 0 \<or> len2 = 0 then
           Ret (PutReply FAILURE ''Either key or Value is null'',
                createlog (pre @ '' , RESULT: KEY OR VALUE IS NULL , STATUS: FAILURE'' @ [NL]) s)
         else if len1 > 256 \<or> len2 > 256 then
           Ret (PutReply FAILURE ''Either key or Value is greater than 256 Bytes.'',
                createlog (pre @ '' , RESULT: KEY OR VALUE GREATER THAN 256 BYTES , STATUS: FAILURE'' @ [NL]) s)
         else obind (kvs_put key value s) (\<lambda>s1.
           let s2 = createlog (pre @ '' , RESULT: KEY-VALUE PUT , STATUS: SUCCESS'' @ [NL]) s1
           in Ret (PutReply SUCCESS '''', createlog (getcachestate iter s2) s2)))"

definition handle_get ::
  "((string \<times> nat) list \<Rightarrow> string list) \<Rightarrow> string \<Rightarrow> nat \<Rightarrow> string \<Rightarrow> int \<Rightarrow> kvs \<Rightarrow> (reply \<times> kvs) outcome" where
  "handle_get iter stk pos key tok s =
     obind (kvs_get stk pos key s) (\<lambda>(value, s1).
       let pre = show_int tok @ '' GET: PARAMETERS : '' @ key
       in if value = '''' then
            Ret (GetReply '''' FAILURE ''The key-value pair does not exist.'',
                 createlog (pre @ '' , RESULT: KEY NOT EXIST , STATUS: FAILURE'' @ [NL]) s1)
          else
            let s2 = createlog (pre @ '' , RESULT: '' @ value @ '' , STATUS: SUCCESS'' @ [NL]) s1
            in Ret (GetReply value SUCCESS '''', createlog (getcachestate iter s2) s2))"

definition handle_del ::
  "((string \<times> nat) list \<Rightarrow> string list) \<Rightarrow> string \<Rightarrow> int \<Rightarrow> kvs \<Rightarrow> (reply \<times> kvs) outcome" where
  "handle_del iter key tok s =
     obind (kvs_del key s) (\<lambda>(delstatus, s1).
       let pre = show_int tok @ '' DEL: PARAMETERS : '' @ key
       in if delstatus \<noteq> 0 then
            let s2 = createlog (pre @ '' , RESULT: KEY-VALUE DELETED , STATUS: SUCCESS'' @ [NL]) s1
            in Ret (DelReply SUCCESS '''', createlog (getcachestate iter s2) s2)
          else
            Ret (DelReply FAILURE ''The key does not exist'',
                 createlog (pre @ '' , RESULT: KEY NOT EXIST , STATUS: FAILURE'' @ [NL]) s1))"

definition handle_con :: "kvs \<Rightarrow> reply \<times> kvs" where
  "handle_con s =
     (let s1 = createlog (''Connection Established with : '' @ show_int (clientcount s) @ [NL]) s
      in (ConReply (clientcount s), s1\<lparr>clientcount := int32 (clientcount s1 + 1)\<rparr>))"

definition handle ::
  "((string \<times> nat) list \<Rightarrow> string list) \<Rightarrow> string \<Rightarrow> nat \<Rightarrow> request \<Rightarrow> kvs \<Rightarrow> (reply \<times> kvs) outcome" where
  "handle iter stk pos r s =
     (case r of
        PutRequest key value tok \<Rightarrow> handle_put iter key value tok s
      | GetRequest key tok \<Rightarrow> handle_get iter stk pos key tok s
      | DelRequest key tok \<Rightarrow> handle_del iter key tok s
      | ConRequest \<Rightarrow> Ret (handle_con s))"

subsection \<open>Reading through a cache\<close>

context kv_cache
begin

definition coherent :: "(string \<Rightarrow> string) \<Rightarrow> 'c \<Rightarrow> bool" where
  "coherent store c \<longleftrightarrow> (\<forall>k v. lookup c k = Some v \<longrightarrow> v = store k \<and> v \<noteq> ''-1'')"

lemma get_through_ok:
  assumes inv: "invar c" and coh: "coherent store c"
  shows "\<exists>c'. get_through getc putc (store key) key c =
      Ret (if store key = ''-1'' then '''' else store key, c') \<and> invar c' \<and> coherent store c' \<and>
    (store key \<noteq> ''-1'' \<longrightarrow> lookup c' key = Some (store key))"
proof -
  obtain c1 where c1: "getc key c = Ret (case lookup c key of None \<Rightarrow> ''-1'' | Some v \<Rightarrow> v, c1)"
    "invar c1" "lookup c1 = lookup c" using getc_ok [OF inv] by blast
  obtain c2 where c2: "putc key (store key) c1 = Ret c2" "invar c2" "lookup c2 key = Some (store key)"
    "\<And>x. x \<noteq> key \<Longrightarrow> lookup c2 x = lookup c1 x \<or> lookup c2 x = None"
    using putc_ok [OF c1(2)] by blast
  have coh2: "coherent store c2" if "store key \<noteq> ''-1''"
    unfolding coherent_def
  proof (intro allI impI)
    fix k v
    assume "lookup c2 k = Some v"
    then show "v = store k \<and> v \<noteq> ''-1''"
      using that c2(3) c2(4) [of k] coh c1(3) by (cases "k = key") (auto simp: coherent_def)
  qed
  have coh1: "coherent store c1" using coh c1(3) by (simp add: coherent_def)
  show ?thesis
  proof (cases "lookup c key")
    case None
    then show ?thesis using c1(1,2) c2(1-3) coh1 coh2 by (simp add: get_through_def)
  next
    case (Some v)
    then have "v = store key" "v \<noteq> ''-1''" using coh by (auto simp: coherent_def)
    then show ?thesis using Some c1 coh1 by (simp add: get_through_def)
  qed
qed

lemma coherent_store:
  "coherent store c \<Longrightarrow> lookup c key = None \<Longrightarrow> (\<And>k. k \<noteq> key \<Longrightarrow> store' k = store k) \<Longrightarrow> coherent store' c"
  unfolding coherent_def by (metis option.distinct(1))

lemma get_through_hit:
  assumes "invar c" and "lookup c key = Some v" and "v \<noteq> ''-1''"
  shows "\<exists>c'. get_through getc putc filevalue key c = Ret (v, c')"
  using getc_ok [OF assms(1), of key] assms(2,3) by (auto simp: get_through_def)

end

subsection \<open>What a client observes\<close>

definition kvs_coherent :: "string \<Rightarrow> nat \<Rightarrow> kvs \<Rightarrow> bool" where
  "kvs_coherent stk pos s \<longleftrightarrow> store_ok s \<and>
     (cachetype s = 1 \<longrightarrow> lru_ok (lrucache s) \<and> lru.coherent (\<lambda>k. getkey stk pos k s) (lrucache s)) \<and>
     (cachetype s = 2 \<longrightarrow> lfu_ok (lfucache s) \<and> lfu.coherent (\<lambda>k. getkey stk pos k s) (lfucache s))"

definition kvs_cached :: "kvs \<Rightarrow> string \<Rightarrow> bool" where
  "kvs_cached s k \<longleftrightarrow> (if cachetype s = 1 then lru_lookup (lrucache s) k \<noteq> None
     else cachetype s = 2 \<and> lfu_lookup (lfucache s) k \<noteq> None)"

lemma getkey_cache [simp]:
  "getkey stk pos k (s\<lparr>lrucache := c\<rparr>) = getkey stk pos k s" "getkey stk pos k (s\<lparr>lfucache := d\<rparr>) = getkey stk pos k s"
  "getkey stk pos k (createlog m s) = getkey stk pos k s"
  by (auto simp: getkey_def createlog_def Let_def split: option.split)

lemma store_ok_cache [simp]:
  "store_ok (s\<lparr>lrucache := c\<rparr>) = store_ok s" "store_ok (s\<lparr>lfucache := d\<rparr>) = store_ok s"
  "store_ok (createlog m s) = store_ok s"
  by (simp_all add: store_ok_def createlog_def)

lemma createlog_simps [simp]:
  "cachetype (createlog m s) = cachetype s" "lrucache (createlog m s) = lrucache s"
  "lfucache (createlog m s) = lfucache s"
  by (simp_all add: createlog_def)

lemma kvs_coherent_createlog [simp]: "kvs_coherent stk pos (createlog m s) = kvs_coherent stk pos s"
  by (simp add: kvs_coherent_def)

lemma kvs_get_ok:
  assumes "kvs_coherent stk pos s" and "cachetype s \<in> {1, 2}"
  shows "\<exists>s'. kvs_get stk pos key s = Ret (if getkey stk pos key s = ''-1'' then '''' else getkey stk pos key s, s') \<and>
    kvs_coherent stk pos s' \<and> (\<forall>k. getkey stk pos k s' = getkey stk pos k s) \<and> cachetype s' = cachetype s \<and>
    fileoffsets s' = fileoffsets s \<and> (getkey stk pos key s \<noteq> ''-1'' \<longrightarrow> kvs_cached s' key)"
proof (cases "cachetype s = 1")
  case True
  then have "lru_ok (lrucache s)" "lru.coherent (\<lambda>k. getkey stk pos k s) (lrucache s)"
    using assms(1) by (auto simp: kvs_coherent_def)
  from lru.get_through_ok [OF this, of key] True assms(1) show ?thesis
    by (auto simp: kvs_get_def kvs_coherent_def kvs_cached_def)
next
  case False
  then have ct: "cachetype s = 2" using assms(2) by simp
  then have "lfu_ok (lfucache s)" "lfu.coherent (\<lambda>k. getkey stk pos k s) (lfucache s)"
    using assms(1) by (auto simp: kvs_coherent_def)
  from lfu.get_through_ok [OF this, of key] obtain c' where
    "get_through lfu_get lfu_put (getkey stk pos key s) key (lfucache s) =
       Ret (if getkey stk pos key s = ''-1'' then '''' else getkey stk pos key s, c')"
    "lfu_ok c'" "lfu.coherent (\<lambda>k. getkey stk pos k s) c'"
    "getkey stk pos key s \<noteq> ''-1'' \<longrightarrow> lfu_lookup c' key = Some (getkey stk pos key s)" by blast
  then show ?thesis using ct assms(1)
    by (intro exI [of _ "s\<lparr>lfucache := c'\<rparr>"]) (simp add: kvs_get_def kvs_coherent_def kvs_cached_def)
qed

lemma kvs_putkey:
  assumes "kvs_coherent stk pos s" and "length key < 256" and "length value < 256"
    and "fileoffsets s (kfile key) < 2 ^ 22"
  obtains s' where "putkey key value s = Ret s'" "store_ok s'" "getkey stk pos key s' = stored value"
    "\<And>k'. k' \<noteq> key \<Longrightarrow> getkey stk pos k' s' = getkey stk pos k' s"
    "cachetype s' = cachetype s" "lrucache s' = lrucache s" "lfucache s' = lfucache s"
proof -
  have ok: "store_ok s" using assms(1) by (simp add: kvs_coherent_def)
  obtain s' where s': "putkey key value s = Ret s'" "store_ok s'" "getkey stk pos key s' = stored value"
    "\<And>k'. k' \<noteq> key \<Longrightarrow> getkey stk pos k' s' = getkey stk pos k' s"
    "s' = s\<lparr>files := files s', filelocationmap := filelocationmap s', fileoffsets := fileoffsets s'\<rparr>"
    using putkey_ok [OF ok assms(2-4), of stk pos] by blast
  have "cachetype s' = cachetype s" "lrucache s' = lrucache s" "lfucache s' = lfucache s"
    by (subst s'(5); simp)+
  with s'(1-4) show thesis by (rule that)
qed

text \<open>
  C31: with a coherent cache of either kind the server answers a GET with what the store holds:
  a stored key gives its value and the code for success, a key that is not stored (or whose
  value reads as \<^verbatim>\<open>-1\<close> or as empty) the code for failure, and the cache stays coherent.
\<close>

theorem handle_get_ok:
  assumes "kvs_coherent stk pos s" and "cachetype s \<in> {1, 2}"
  shows "\<exists>s'. handle iter stk pos (GetRequest key tok) s =
      Ret (if getkey stk pos key s \<in> {''-1'', ''''}
           then GetReply '''' FAILURE ''The key-value pair does not exist.''
           else GetReply (getkey stk pos key s) SUCCESS '''', s') \<and>
    kvs_coherent stk pos s' \<and> (\<forall>k. getkey stk pos k s' = getkey stk pos k s)"
  using kvs_get_ok [OF assms, of key] by (auto simp: handle_def handle_get_def Let_def)

lemma empty_kvs_coherent: "0 < cap \<Longrightarrow> kvs_coherent stk pos (empty_kvs ct cap)"
  using empty_store_ok [of ct cap] LRUCache_rep [of cap] LFUCache_rep [of cap]
  by (auto simp: kvs_coherent_def lru_ok_def lfu_ok_def lfu_rep_def empty_kvs_def lru_lookup_def lfu_lookup_def
      LRUCache_def LFUCache_def lru.coherent_def lfu.coherent_def)

lemma handle_get_ok_witness:
  "\<exists>s'. handle (map fst) [] 0 (GetRequest ''a'' 0) (empty_kvs 2 4) =
     Ret (GetReply '''' FAILURE ''The key-value pair does not exist.'', s')"
  using handle_get_ok [OF empty_kvs_coherent [of 4 "[]" 0 2], of "map fst" "''a''" 0]
  by (auto simp: empty_kvs_def getkey_def)

text \<open>
  C34: a PUT of a key that is not in the cache, with a key and a value shorter than 256 bytes, keeps
  the cache coherent, and the store then returns the value; requests with an empty key or value
  are refused and change nothing but the log. The file of the key must hold fewer than $2^{22}$
  records, the bound of \<^verbatim>\<open>getkey\<close>. The handler also accepts 256 bytes, which \<^verbatim>\<open>putkey\<close> cannot store.
\<close>

theorem handle_put_ok:
  assumes "kvs_coherent stk pos s" and "\<not> kvs_cached s key" and "length key < 256" and "length value < 256"
    and "fileoffsets s (kfile key) < 2 ^ 22"
  shows "if key = [] \<or> value = []
    then handle iter stk pos (PutRequest key value tok) s = Ret (PutReply FAILURE ''Either key or Value is null'',
      createlog (show_int tok @ '' PUT: PARAMETERS : '' @ key @ '' : '' @ value @
        '' , RESULT: KEY OR VALUE IS NULL , STATUS: FAILURE'' @ [NL]) s)
    else \<exists>s'. handle iter stk pos (PutRequest key value tok) s = Ret (PutReply SUCCESS '''', s') \<and>
      kvs_coherent stk pos s' \<and> getkey stk pos key s' = stored value"
proof -
  obtain s' where s': "putkey key value s = Ret s'" "store_ok s'" "getkey stk pos key s' = stored value"
    "\<And>k'. k' \<noteq> key \<Longrightarrow> getkey stk pos k' s' = getkey stk pos k' s"
    and same: "cachetype s' = cachetype s" "lrucache s' = lrucache s" "lfucache s' = lfucache s"
    using kvs_putkey [OF assms(1,3-5)] by metis
  have "lru.coherent (\<lambda>k. getkey stk pos k s') (lrucache s)" if "cachetype s = 1"
    by (rule lru.coherent_store [where store = "\<lambda>k. getkey stk pos k s" and key = key])
       (use assms(1,2) that s'(4) in \<open>simp_all add: kvs_coherent_def kvs_cached_def\<close>)
  moreover have "lfu.coherent (\<lambda>k. getkey stk pos k s') (lfucache s)" if "cachetype s = 2"
    by (rule lfu.coherent_store [where store = "\<lambda>k. getkey stk pos k s" and key = key])
       (use assms(1,2) that s'(4) in \<open>simp_all add: kvs_coherent_def kvs_cached_def\<close>)
  ultimately have "kvs_coherent stk pos s'"
    using assms(1) s'(2) same by (simp add: kvs_coherent_def)
  then show ?thesis
    using s'(1,3) assms(3,4) by (auto simp: handle_def handle_put_def kvs_put_def Let_def)
qed

lemma handle_put_ok_witness:
  "\<exists>s'. handle (map fst) [] 0 (PutRequest ''a'' ''1'' 0) (empty_kvs 1 4) = Ret (PutReply SUCCESS '''', s') \<and>
     getkey [] 0 ''a'' s' = ''1''"
  using handle_put_ok [OF empty_kvs_coherent [of 4 "[]" 0 1], of "''a''" "''1''" "map fst" 0]
  by (auto simp: empty_kvs_def kvs_cached_def lru_lookup_def LRUCache_def stored_def)

text \<open>
  C38: a cached key is not updated. After a PUT of a new value for a key that is in the cache, GET
  still answers with the old value, while the store (of fewer than $2^{22}$ records) holds the new one.
\<close>

theorem stale_get:
  assumes "kvs_coherent stk pos s" and "cachetype s \<in> {1, 2}" and "kvs_cached s key"
    and "key \<noteq> []" and "length key < 256" and "value \<noteq> []" and "length value < 256" and "getkey stk pos key s \<noteq> []"
  shows "\<exists>s' s''. handle iter stk pos (PutRequest key value tok) s = Ret (PutReply SUCCESS '''', s') \<and>
    (fileoffsets s (kfile key) < 2 ^ 22 \<longrightarrow> getkey stk pos key s' = stored value) \<and>
    handle iter stk pos (GetRequest key tok) s' = Ret (GetReply (getkey stk pos key s) SUCCESS '''', s'')"
proof -
  obtain s' where s': "putkey key value s = Ret s'"
    "cachetype s' = cachetype s" "lrucache s' = lrucache s" "lfucache s' = lfucache s"
    using length_pad [OF assms(5)] length_pad [OF assms(7)] by (simp add: putkey_def Let_def)
  have new: "getkey stk pos key s' = stored value" if "fileoffsets s (kfile key) < 2 ^ 22"
    using kvs_putkey [OF assms(1,5,7) that] s'(1) by auto
  have hit: "\<exists>s''. kvs_get stk pos key u = Ret (getkey stk pos key s, s'')"
    if u: "cachetype u = cachetype s" "lrucache u = lrucache s" "lfucache u = lfucache s" for u
  proof (cases "cachetype s = 1")
    case True
    then obtain v where v: "lru_lookup (lrucache s) key = Some v" using assms(3) by (auto simp: kvs_cached_def)
    then have "v = getkey stk pos key s" "v \<noteq> ''-1''" "lru_ok (lrucache s)"
      using assms(1) True by (auto simp: kvs_coherent_def lru.coherent_def)
    with lru.get_through_hit [OF _ v, of "getkey stk pos key u"] show ?thesis
      using True u by (auto simp: kvs_get_def)
  next
    case False
    then have ct: "cachetype s = 2" using assms(2) by simp
    then obtain v where v: "lfu_lookup (lfucache s) key = Some v" using assms(3) by (auto simp: kvs_cached_def)
    then have "v = getkey stk pos key s" "v \<noteq> ''-1''" "lfu_ok (lfucache s)"
      using assms(1) ct by (auto simp: kvs_coherent_def lfu.coherent_def)
    with lfu.get_through_hit [OF _ v, of "getkey stk pos key u"] show ?thesis
      using ct u by (auto simp: kvs_get_def)
  qed
  have "\<exists>u. handle iter stk pos (PutRequest key value tok) s = Ret (PutReply SUCCESS '''', u) \<and>
      (fileoffsets s (kfile key) < 2 ^ 22 \<longrightarrow> getkey stk pos key u = stored value) \<and>
      cachetype u = cachetype s \<and> lrucache u = lrucache s \<and> lfucache u = lfucache s"
    using s' new assms(4-7) by (auto simp: handle_def handle_put_def kvs_put_def Let_def)
  then obtain u where u: "handle iter stk pos (PutRequest key value tok) s = Ret (PutReply SUCCESS '''', u)"
    "fileoffsets s (kfile key) < 2 ^ 22 \<longrightarrow> getkey stk pos key u = stored value" and cu: "cachetype u = cachetype s" "lrucache u = lrucache s"
    "lfucache u = lfucache s" by blast
  obtain s'' where "kvs_get stk pos key u = Ret (getkey stk pos key s, s'')" using hit [OF cu] by blast
  then show ?thesis using u assms(8) by (auto simp: handle_def handle_get_def Let_def)
qed

lemma cached_example:
  "\<exists>s. kvs_coherent [] 0 s \<and> cachetype s = 1 \<and> kvs_cached s ''a'' \<and> getkey [] 0 ''a'' s = ''1'' \<and>
     fileoffsets s (kfile ''a'') = 1"
proof -
  have e: "kvs_coherent [] 0 (empty_kvs 1 4)" by (rule empty_kvs_coherent) simp
  obtain s where s: "store_ok s" "getkey [] 0 ''a'' s = stored ''1''"
    "cachetype s = 1" "lrucache s = LRUCache 4" and put: "putkey ''a'' ''1'' (empty_kvs 1 4) = Ret s"
    using kvs_putkey [OF e, of "''a''" "''1''"] by (auto simp: empty_kvs_def)
  have one: "fileoffsets s (kfile ''a'') = 1"
    using put int32_id [of 1] by (auto simp: putkey_def Let_def pad_def empty_kvs_def)
  have coh: "kvs_coherent [] 0 s"
    using e s by (auto simp: kvs_coherent_def empty_kvs_def lru.coherent_def lru_lookup_def LRUCache_def)
  show ?thesis using kvs_get_ok [OF coh, of "''a''"] s one by (force simp: stored_def)
qed

lemma stale_get_witness:
  "\<exists>s s' s''. handle (map fst) [] 0 (PutRequest ''a'' ''2'' 0) s = Ret (PutReply SUCCESS '''', s') \<and>
    getkey [] 0 ''a'' s' = ''2'' \<and>
    handle (map fst) [] 0 (GetRequest ''a'' 0) s' = Ret (GetReply ''1'' SUCCESS '''', s'')"
proof -
  obtain s where s: "kvs_coherent [] 0 s" "cachetype s = 1" "kvs_cached s ''a''" "getkey [] 0 ''a'' s = ''1''"
    "fileoffsets s (kfile ''a'') = 1"
    using cached_example by blast
  show ?thesis using stale_get [OF s(1) _ s(3), of "''2''" "map fst" 0] s(2,4,5) by (auto simp: stored_def)
qed

text \<open>
  C35: with the LRU cache a DEL removes the key from cache and store: it succeeds if and only if
  the key was stored, the cache stays coherent and a GET of the key then fails.
\<close>

theorem handle_del_ok:
  assumes "kvs_coherent stk pos s" and "cachetype s = 1"
  shows "\<exists>s'. handle iter stk pos (DelRequest key tok) s =
      Ret (if map_of (filelocationmap s) key = None then DelReply FAILURE ''The key does not exist''
           else DelReply SUCCESS '''', s') \<and>
    kvs_coherent stk pos s' \<and> getkey stk pos key s' = ''-1'' \<and>
    (\<forall>k. k \<noteq> key \<longrightarrow> getkey stk pos k s' = getkey stk pos k s)"
proof -
  let ?s = "s\<lparr>lrucache := lru_del key (lrucache s)\<rparr>"
  have ok: "store_ok ?s" "lru_ok (lrucache s)" and coh: "lru.coherent (\<lambda>k. getkey stk pos k s) (lrucache s)"
    using assms by (auto simp: kvs_coherent_def)
  note d = lru.delc_ok [OF ok(2), of key]
  note dk = deletekey_ok [OF ok(1), of key stk pos]
  let ?t = "snd (deletekey key ?s)"
  have same: "cachetype ?t = 1" "lrucache ?t = lru_del key (lrucache s)"
    using assms(2) by (auto simp: deletekey_def split: option.split)
  have "lru.coherent (\<lambda>k. getkey stk pos k ?t) (lru_del key (lrucache s))"
  proof (rule lru.coherent_store [where store = "\<lambda>k. getkey stk pos k s" and key = key])
    show "lru.coherent (\<lambda>k. getkey stk pos k s) (lru_del key (lrucache s))"
      using coh d by (auto simp: lru.coherent_def)
    show "lru_lookup (lru_del key (lrucache s)) key = None" using d by simp
    show "getkey stk pos k ?t = getkey stk pos k s" if "k \<noteq> key" for k
      using dk that by (metis getkey_cache(1))
  qed
  then have "kvs_coherent stk pos ?t" using dk d same by (simp add: kvs_coherent_def)
  then show ?thesis using dk assms(2)
    by (auto simp: handle_def handle_del_def kvs_del_def Let_def case_prod_unfold)
qed

lemma handle_del_ok_witness:
  "\<exists>s s'. getkey [] 0 ''a'' s = ''1'' \<and>
     handle (map fst) [] 0 (DelRequest ''a'' 0) s = Ret (DelReply SUCCESS '''', s') \<and> getkey [] 0 ''a'' s' = ''-1''"
proof -
  obtain s where s: "kvs_coherent [] 0 s" "cachetype s = 1" "getkey [] 0 ''a'' s = ''1''"
    using cached_example by blast
  then have "map_of (filelocationmap s) ''a'' \<noteq> None" by (auto simp: getkey_def split: option.splits)
  then show ?thesis using handle_del_ok [OF s(1,2), of "map fst" "''a''" 0] s(3) by auto
qed

subsection \<open>Restarting without a shutdown\<close>

text \<open>A new process: what is on disk stays, everything else is as at the start of \<^verbatim>\<open>main\<close>.\<close>

definition restart :: "string \<Rightarrow> kvs \<Rightarrow> kvs outcome" where
  "restart config s =
     setupeverything config (empty_kvs (- 1) 0
       \<lparr>files := files s, filecontext := filecontext s, offsetfile := offsetfile s, logfile := logfile s\<rparr>)"

lemma readconfigfile_frame:
  "files (readconfigfile config s) = files s" "filecontext (readconfigfile config s) = filecontext s"
  "offsetfile (readconfigfile config s) = offsetfile s" "fileoffsets (readconfigfile config s) = fileoffsets s"
  "filelocationmap (readconfigfile config s) = filelocationmap s"
  by (auto simp: readconfigfile_def Let_def split: list.split)

text \<open>
  C39: a crash loses more than the unsaved map. The record counts are saved only at a regular
  shutdown while the files are appended to, so after a crash of a server that had stored one
  pair, putting another key of the same file and reading it back gives the value of the first.
\<close>

theorem restart_misreads:
  assumes "kfile k = kfile k0" and "length k0 < 256" and "length v0 < 256" and "length k < 256" and "length v < 256"
  shows "\<exists>s1 t0 t1. putkey k0 v0 (empty_kvs ct cap) = Ret s1 \<and> restart config s1 = Ret t0 \<and>
    putkey k v t0 = Ret t1 \<and> getkey stk pos k t1 = stored v0"
proof -
  note lp = length_pad [OF assms(2)] length_pad [OF assms(3)] length_pad [OF assms(4)] length_pad [OF assms(5)]
  define s1 where "s1 = (empty_kvs ct cap)\<lparr>files := (\<lambda>_. [])(kfile k := pad k0 @ pad v0),
    filelocationmap := [(k0, 0)], fileoffsets := (\<lambda>_. 0)(kfile k := 1)\<rparr>"
  have s1: "putkey k0 v0 (empty_kvs ct cap) = Ret s1"
    using lp assms(1) by (simp add: putkey_def Let_def s1_def empty_kvs_def m_set_def m_erase_def int32_id)
  define u where "u = readconfigfile config (empty_kvs (- 1) 0\<lparr>files := files s1, filecontext := filecontext s1,
    offsetfile := offsetfile s1, logfile := logfile s1\<rparr>)"
  have u: "files u = (\<lambda>_. [])(kfile k := pad k0 @ pad v0)" "filecontext u = []" "offsetfile u = []"
    "fileoffsets u = (\<lambda>_. 0)" "filelocationmap u = []"
    by (simp_all add: u_def readconfigfile_frame s1_def empty_kvs_def)
  have t0: "restart config s1 = Ret u"
    using u by (simp add: restart_def setupeverything_def u_def [symmetric] initializefileinfo_def
        read_context_NL read_offsets.simps [of "[]"] read_int_def)
  define t1 where "t1 = u\<lparr>files := (files u)(kfile k := files u (kfile k) @ pad k @ pad v),
    filelocationmap := [(k, 0)], fileoffsets := (\<lambda>_. 0)(kfile k := 1)\<rparr>"
  have t1: "putkey k v u = Ret t1"
    using lp u by (simp add: putkey_def Let_def t1_def m_set_def m_erase_def int32_id)
  have mp: "map_of (filelocationmap t1) k = Some 0" by (simp add: t1_def)
  have rd: "take 256 (drop (nat (0 * 512 + 256)) (files t1 (kfile k))) = pad v0"
    using lp u by (simp add: t1_def)
  have "getkey stk pos k t1 = stored v0"
    unfolding getkey_at [OF mp _ _ rd, simplified] by (rule stored_pad [OF assms(3)])
  with s1 t0 t1 show ?thesis by blast
qed

lemma restart_misreads_witness:
  "\<exists>s1 t0 t1. putkey ''apple'' ''red'' (empty_kvs 1 4) = Ret s1 \<and> restart ''50051 1 4 10'' s1 = Ret t0 \<and>
    putkey ''avocado'' ''green'' t0 = Ret t1 \<and> getkey [] 0 ''avocado'' t1 = ''red''"
  using restart_misreads [of "''avocado''" "''apple''" "''red''" "''green''" 1 4 "''50051 1 4 10''" "[]"]
  by (simp add: kfile_def stored_def)

subsection \<open>The completion queue\<close>

datatype call_kind = PutCall | GetCall | DelCall | ConCall

fun kind_of :: "request \<Rightarrow> call_kind" where
  "kind_of (PutRequest _ _ _) = PutCall"
| "kind_of (GetRequest _ _) = GetCall"
| "kind_of (DelRequest _ _) = DelCall"
| "kind_of ConRequest = ConCall"

text \<open>The constructors run \<^verbatim>\<open>Proceed\<close>, which registers the call with the service.\<close>

definition new_call :: "call_kind \<Rightarrow> call_kind \<times> call_status" where
  "new_call k = (k, PROCESS)"

text \<open>
  \<open>Proceed\<close> gives the call objects that exist afterwards in place of the one it ran on (the
  object itself unless it is deleted, and a new one), the reply sent, and the new state.
\<close>

definition Proceed ::
  "((string \<times> nat) list \<Rightarrow> string list) \<Rightarrow> string \<Rightarrow> nat \<Rightarrow> request \<Rightarrow> call_kind \<times> call_status \<Rightarrow> kvs \<Rightarrow>
   ((call_kind \<times> call_status) list \<times> reply option \<times> kvs) outcome" where
  "Proceed iter stk pos r c s =
     (case snd c of
        CREATE \<Rightarrow> Ret ([(fst c, PROCESS)], None, s)
      | PROCESS \<Rightarrow> obind (handle iter stk pos r s) (\<lambda>(rep, s'). Ret ([new_call (fst c), (fst c, FINISH)], Some rep, s'))
      | FINISH \<Rightarrow> Ret ([], None, s))"

record server =
  sv_calls :: "(call_kind \<times> call_status) multiset"
  sv_kvs :: kvs
  sv_replies :: "(request \<times> reply) list"

definition HandleRpcs_init :: "kvs \<Rightarrow> server \<Rightarrow> bool" where
  "HandleRpcs_init s0 sv \<longleftrightarrow> sv =
     \<lparr>sv_calls = {#new_call PutCall, new_call GetCall, new_call DelCall, new_call ConCall#},
      sv_kvs = s0, sv_replies = []\<rparr>"

text \<open>One turn of the loop: the queue hands out a call that has an event.\<close>

inductive HandleRpcs_step ::
  "((string \<times> nat) list \<Rightarrow> string list) \<Rightarrow> string \<Rightarrow> nat \<Rightarrow> server \<Rightarrow> server \<Rightarrow> bool" for iter stk pos where
  "c \<in># sv_calls sv \<Longrightarrow> kind_of r = fst c \<Longrightarrow>
   Proceed iter stk pos r c (sv_kvs sv) = Ret (cs, rep, s') \<Longrightarrow>
   HandleRpcs_step iter stk pos sv
     \<lparr>sv_calls = sv_calls sv - {#c#} + mset cs, sv_kvs = s',
      sv_replies = sv_replies sv @ (case rep of None \<Rightarrow> [] | Some p \<Rightarrow> [(r, p)])\<rparr>"

inductive_cases HandleRpcs_stepE: "HandleRpcs_step iter stk pos sv sv'"

definition listening :: "server \<Rightarrow> bool" where
  "listening sv \<longleftrightarrow> (\<forall>k. count (sv_calls sv) (k, PROCESS) = 1 \<and> count (sv_calls sv) (k, CREATE) = 0)"

interpretation rpcs: invariant_system "HandleRpcs_init s0" "HandleRpcs_step iter stk pos" listening
  for s0 :: kvs and iter and stk :: string and pos :: nat
proof
  fix sv
  assume "HandleRpcs_init s0 sv"
  then show "listening sv"
    unfolding listening_def HandleRpcs_init_def new_call_def by (auto split: call_kind.split) (case_tac k; simp)+
next
  fix sv sv'
  assume l: "listening sv" and "HandleRpcs_step iter stk pos sv sv'"
  then obtain c r cs rep s' where c: "c \<in># sv_calls sv"
    and p: "Proceed iter stk pos r c (sv_kvs sv) = Ret (cs, rep, s')"
    and sv': "sv_calls sv' = sv_calls sv - {#c#} + mset cs" by (elim HandleRpcs_stepE) auto
  obtain k st where [simp]: "c = (k, st)" by (cases c)
  have "st \<noteq> CREATE" using l c by (auto simp: listening_def count_eq_zero_iff)
  then consider "st = PROCESS" "cs = [(k, PROCESS), (k, FINISH)]" | "st = FINISH" "cs = []"
    using p by (cases st) (auto simp: Proceed_def new_call_def)
  then show "listening sv'"
    using l by cases (auto simp: listening_def sv')
qed

text \<open>
  C33: the server never stops listening. After any sequence of events on a completion queue exactly
  one call object of every kind waits for its next request.
\<close>

theorem server_listens:
  assumes "reachable (HandleRpcs_init s0) (HandleRpcs_step iter stk pos) sv"
  shows "count (sv_calls sv) (k, PROCESS) = 1 \<and> count (sv_calls sv) (k, CREATE) = 0"
  using rpcs.reachable_invar [OF assms] by (simp add: listening_def)

lemma server_listens_witness:
  "\<exists>sv. reachable (HandleRpcs_init (empty_kvs 1 4)) (HandleRpcs_step (map fst) [] 0) sv \<and>
     length (sv_replies sv) = 1 \<and> count (sv_calls sv) (PutCall, PROCESS) = 1"
proof -
  define s0 where "s0 = \<lparr>sv_calls = {#new_call PutCall, new_call GetCall, new_call DelCall, new_call ConCall#},
      sv_kvs = empty_kvs 1 4, sv_replies = []\<rparr>"
  have "reachable (HandleRpcs_init (empty_kvs 1 4)) (HandleRpcs_step (map fst) [] 0) s0"
    by (rule reachable_init) (simp add: HandleRpcs_init_def s0_def)
  moreover have "HandleRpcs_step (map fst) [] 0 s0
    \<lparr>sv_calls = sv_calls s0 - {#new_call ConCall#} + mset [new_call ConCall, (ConCall, FINISH)],
     sv_kvs = snd (handle_con (empty_kvs 1 4)),
     sv_replies = sv_replies s0 @ (case Some (fst (handle_con (empty_kvs 1 4))) of None \<Rightarrow> [] | Some p \<Rightarrow> [(ConRequest, p)])\<rparr>"
    by (rule HandleRpcs_step.intros) (simp_all add: s0_def new_call_def Proceed_def handle_def case_prod_unfold)
  ultimately have "reachable (HandleRpcs_init (empty_kvs 1 4)) (HandleRpcs_step (map fst) [] 0)
    \<lparr>sv_calls = sv_calls s0 - {#new_call ConCall#} + mset [new_call ConCall, (ConCall, FINISH)],
     sv_kvs = snd (handle_con (empty_kvs 1 4)),
     sv_replies = sv_replies s0 @ (case Some (fst (handle_con (empty_kvs 1 4))) of None \<Rightarrow> [] | Some p \<Rightarrow> [(ConRequest, p)])\<rparr>"
    by (rule reachable_step)
  from this server_listens [OF this, of PutCall] show ?thesis by (intro exI conjI) (auto simp: s0_def)
qed

end
