(* ===== verification/Memory.thy ===== *)
theory Memory
  imports Spinlock Bytes
begin

text \<open>
  The kernel's byte-addressed memory: loads and stores of words, filling and copying, and the
  address arithmetic of \<^verbatim>\<open>xv6-public/mmu.h\<close> and \<^verbatim>\<open>memlayout.h\<close>. Addresses are 32-bit words; a range
  of \<open>n\<close> bytes at \<open>a\<close> is the set of the \<open>x\<close> with \<open>x - a < n\<close>, where the difference wraps.
\<close>

abbreviation PGSIZE :: uint where "PGSIZE \<equiv> 4096"
abbreviation KERNBASE :: uint where "KERNBASE \<equiv> 0x80000000"
abbreviation EXTMEM :: uint where "EXTMEM \<equiv> 0x100000"
abbreviation PHYSTOP :: uint where "PHYSTOP \<equiv> 0xE000000"
abbreviation DEVSPACE :: uint where "DEVSPACE \<equiv> 0xFE000000"
abbreviation KERNLINK :: uint where "KERNLINK \<equiv> 0x80100000"

definition V2P :: "uint \<Rightarrow> uint" where "V2P a = a - KERNBASE"
definition P2V :: "uint \<Rightarrow> uint" where "P2V a = a + KERNBASE"
definition PGROUNDUP :: "uint \<Rightarrow> uint" where "PGROUNDUP sz = (sz + PGSIZE - 1) AND NOT (PGSIZE - 1)"
definition PGROUNDDOWN :: "uint \<Rightarrow> uint" where "PGROUNDDOWN a = a AND NOT (PGSIZE - 1)"
definition PDX :: "uint \<Rightarrow> uint" where "PDX va = drop_bit 22 va AND 0x3FF"
definition PTX :: "uint \<Rightarrow> uint" where "PTX va = drop_bit 12 va AND 0x3FF"
definition PGADDR :: "uint \<Rightarrow> uint \<Rightarrow> uint \<Rightarrow> uint" where
  "PGADDR d t off = push_bit 22 d OR push_bit 12 t OR off"

abbreviation PTE_P :: uint where "PTE_P \<equiv> 1"
abbreviation PTE_W :: uint where "PTE_W \<equiv> 2"
abbreviation PTE_U :: uint where "PTE_U \<equiv> 4"
definition PTE_ADDR :: "uint \<Rightarrow> uint" where "PTE_ADDR pte = pte AND NOT 0xFFF"
definition PTE_FLAGS :: "uint \<Rightarrow> uint" where "PTE_FLAGS pte = pte AND 0xFFF"

lemma V2P_P2V [simp]: "V2P (P2V a) = a" "P2V (V2P a) = a"
  by (simp_all add: V2P_def P2V_def)

subsection \<open>Loads and stores\<close>

definition ld32 :: "(uint \<Rightarrow> uchar) \<Rightarrow> uint \<Rightarrow> uint" where
  "ld32 m a = le_word (map (\<lambda>i. m (a + of_nat i)) [0..<4])"

definition st32 :: "uint \<Rightarrow> uint \<Rightarrow> (uint \<Rightarrow> uchar) \<Rightarrow> uint \<Rightarrow> uchar" where
  "st32 a w m = (\<lambda>x. if x - a < 4 then le32 w ! unat (x - a) else m x)"

definition fill :: "uint \<Rightarrow> uchar \<Rightarrow> uint \<Rightarrow> (uint \<Rightarrow> uchar) \<Rightarrow> uint \<Rightarrow> uchar" where
  "fill a b n m = (\<lambda>x. if x - a < n then b else m x)"

definition copy_bytes :: "uint \<Rightarrow> uchar list \<Rightarrow> (uint \<Rightarrow> uchar) \<Rightarrow> uint \<Rightarrow> uchar" where
  "copy_bytes a bs m = (\<lambda>x. if unat (x - a) < length bs then bs ! unat (x - a) else m x)"

definition bytes_at :: "uint \<Rightarrow> nat \<Rightarrow> (uint \<Rightarrow> uchar) \<Rightarrow> uchar list" where
  "bytes_at a n m = map (\<lambda>i. m (a + of_nat i)) [0..<n]"

text \<open>Two ranges that do not meet.\<close>

definition apart :: "uint \<Rightarrow> uint \<Rightarrow> uint \<Rightarrow> uint \<Rightarrow> bool" where
  "apart a n b k \<longleftrightarrow> (\<forall>x. x - a < n \<longrightarrow> \<not> x - b < k)"

lemma apart_sym: "apart a n b k = apart b k a n"
  by (auto simp: apart_def)

lemma upt4: "[0..<4] = [0, 1, 2, Suc 2]"
  by (simp add: upt_rec)

lemma ld32_bytes: "ld32 m a = le_word [m a, m (a + 1), m (a + 2), m (a + 3)]"
  by (simp add: ld32_def upt4 add.commute del: le_word.simps)

lemma ld32_cong: "(\<And>x. x - a < 4 \<Longrightarrow> m x = m' x) \<Longrightarrow> ld32 m a = ld32 m' a"
proof -
  assume e: "\<And>x. x - a < 4 \<Longrightarrow> m x = m' x"
  have "m a = m' a" "m (a + 1) = m' (a + 1)" "m (a + 2) = m' (a + 2)" "m (a + 3) = m' (a + 3)"
    by (rule e, simp)+
  then show ?thesis by (simp add: ld32_bytes del: le_word.simps)
qed

lemma ld32_st32 [simp]: "ld32 (st32 a w m) a = w"
proof -
  have "[st32 a w m a, st32 a w m (a + 1), st32 a w m (a + 2), st32 a w m (a + 3)] = le32 w"
    by (simp add: st32_def le32_def)
  then show ?thesis by (simp only: ld32_bytes) (rule le_word_le32)
qed

lemma ld32_st32_other: "apart a 4 b 4 \<Longrightarrow> ld32 (st32 b w m) a = ld32 m a"
  by (rule ld32_cong) (auto simp: st32_def apart_def)

lemma ld32_fill_other: "apart a 4 b n \<Longrightarrow> ld32 (fill b c n m) a = ld32 m a"
  by (rule ld32_cong) (auto simp: fill_def apart_def)

lemma ld32_fill_zero:
  assumes "\<And>x. x - a < 4 \<Longrightarrow> x - b < n"
  shows "ld32 (fill b 0 n m) a = 0"
proof -
  have "ld32 (fill b 0 n m) a = ld32 (\<lambda>_. 0) a" by (rule ld32_cong) (simp add: fill_def assms)
  then show ?thesis by (simp add: ld32_bytes)
qed

subsection \<open>Pages\<close>

definition aligned :: "uint \<Rightarrow> bool" where
  "aligned a \<longleftrightarrow> a mod PGSIZE = 0"

lemma aligned_unat: "aligned a \<longleftrightarrow> unat a mod 4096 = 0"
proof -
  have "unat (a mod PGSIZE) = unat a mod 4096" by (simp add: unat_mod_distrib)
  then show ?thesis unfolding aligned_def by (metis unat_eq_zero)
qed

lemma aligned_apart:
  assumes "aligned a" and "aligned b" and "a \<noteq> b"
  shows "apart a PGSIZE b PGSIZE"
proof (unfold apart_def, intro allI impI notI)
  fix x
  assume x: "x - a < PGSIZE" "x - b < PGSIZE"
  have "unat x div 4096 = unat c div 4096" if c: "aligned c" "x - c < PGSIZE" for c
  proof -
    obtain q where q: "unat c = 4096 * q" using c(1) by (auto simp: aligned_unat)
    have "unat c < 2 ^ 32" using unsigned_less [of c] by simp
    then have lt: "unat c + 4095 < 2 ^ 32" using q by simp
    have k: "unat (x - c) < 4096" using c(2) by (simp add: word_less_nat_alt)
    then have "unat (c + (x - c)) = unat c + unat (x - c)"
      using lt by (intro unat_add_lem [THEN iffD1]) simp
    then have "unat x = 4096 * q + unat (x - c)" using q by simp
    then show ?thesis using k q by simp
  qed
  from this [OF assms(1) x(1)] this [OF assms(2) x(2)] have "unat a div 4096 = unat b div 4096" by simp
  then have "unat a = unat b"
    using assms(1,2) unfolding aligned_unat by (metis div_mult_mod_eq)
  with assms(3) show False by (simp add: unat_arith_simps)
qed

lemma apart_sub: "apart a n b k \<Longrightarrow> (\<And>x. x - a' < n' \<Longrightarrow> x - a < n) \<Longrightarrow> (\<And>x. x - b' < k' \<Longrightarrow> x - b < k) \<Longrightarrow> apart a' n' b' k'"
  by (auto simp: apart_def)

lemma word_in_page:
  assumes "off \<le> 4092" and "x - (a + off) < 4"
  shows "x - a < PGSIZE"
proof -
  define y where "y = x - (a + off)"
  have e: "x - a = off + y" by (simp add: y_def)
  have "unat off \<le> 4092" "unat y < 4"
    using assms by (simp_all add: word_le_nat_alt word_less_nat_alt y_def)
  then have "unat (off + y) < 4096" by (simp add: unat_word_ariths)
  then show ?thesis unfolding e by (simp add: word_less_nat_alt)
qed

lemma page_words_apart:
  assumes "aligned a" and "aligned b" and "a \<noteq> b" and "i \<le> 4092" and "j \<le> 4092"
  shows "apart (a + i) 4 (b + j) 4" "apart (a + i) 4 b PGSIZE"
  by (rule apart_sub [OF aligned_apart [OF assms(1-3)] word_in_page [OF assms(4)] word_in_page [OF assms(5)]];
      assumption)
     (rule apart_sub [OF aligned_apart [OF assms(1-3)] word_in_page [OF assms(4)]]; assumption)

subsection \<open>Bits of addresses\<close>

lemma masks: "(0xFFF :: uint) = mask 12" "(0x3FF :: uint) = mask 10" "(4095 :: uint) = mask 12"
  by (simp_all add: mask_eq_exp_minus_1)

lemma aligned_take_bit: "aligned a \<longleftrightarrow> take_bit 12 a = 0"
  by (simp add: aligned_def take_bit_eq_mod)

lemma aligned_bit: "aligned a \<Longrightarrow> n < 12 \<Longrightarrow> \<not> bit a n"
  unfolding aligned_take_bit using bit_take_bit_iff [of 12 a n] by simp

lemma bit_small: "(f :: uint) < 4096 \<Longrightarrow> 12 \<le> n \<Longrightarrow> \<not> bit f n"
proof -
  assume f: "f < 4096" and n: "12 \<le> n"
  have "take_bit 12 f = f mod 4096" by (simp add: take_bit_eq_mod)
  also have "\<dots> = f" using f by (simp add: mod_word_less)
  finally have "bit f n = bit (take_bit 12 f) n" by simp
  then show ?thesis using n by (simp add: bit_take_bit_iff)
qed

lemma PTE_ADDR_flags:
  assumes "aligned a" and "f < 4096"
  shows "PTE_ADDR (a OR f) = a"
  unfolding PTE_ADDR_def masks
proof (rule bit_word_eqI)
  fix n
  show "bit ((a OR f) AND NOT (mask 12)) n = bit a n" if "n < LENGTH(32)"
    using that aligned_bit [OF assms(1), of n] bit_small [OF assms(2), of n]
    by (cases "n < 12") (auto simp: bit_and_iff bit_or_iff bit_not_iff bit_mask_iff)
qed

lemma aligned_PTE_ADDR: "aligned (PTE_ADDR e)"
  unfolding aligned_take_bit PTE_ADDR_def masks
  by (rule bit_word_eqI) (auto simp: bit_take_bit_iff bit_and_iff bit_not_iff bit_mask_iff)

lemma aligned_shift [simp]: "aligned (a + KERNBASE) = aligned a" "aligned (V2P a) = aligned a"
  "aligned (P2V a) = aligned a"
proof -
  show *: "aligned (a + KERNBASE) = aligned a" for a
    using mod_mult_self1 [of "unat a" 524288 4096]
    unfolding aligned_unat by (simp add: unat_word_ariths mod_mod_cancel)
  have "V2P a = a + KERNBASE" by (simp add: V2P_def)
  with * show "aligned (V2P a) = aligned a" by simp
  show "aligned (P2V a) = aligned a" using * by (simp add: P2V_def)
qed

lemma index_bound: "PDX va < 1024" "PTX va < 1024" "4 * PDX va \<le> 4092" "4 * PTX va \<le> 4092"
proof -
  have small: "(x :: uint) AND 0x3FF < 1024" for x
  proof -
    have "x AND 0x3FF = take_bit 10 x" unfolding masks by (simp add: take_bit_eq_mask and.commute)
    also have "\<dots> = x mod 1024" by (simp add: take_bit_eq_mod)
    also have "\<dots> < 1024" by (rule word_mod_less_divisor) simp
    finally show ?thesis .
  qed
  show p: "PDX va < 1024" "PTX va < 1024" unfolding PDX_def PTX_def by (rule small)+
  have four: "4 * (i :: uint) \<le> 4092" if "i < 1024" for i
    using that by (simp add: word_less_nat_alt word_le_nat_alt unat_word_ariths)
  show "4 * PDX va \<le> 4092" "4 * PTX va \<le> 4092" using four p by blast+
qed

lemma entry_apart:
  assumes "(i :: uint) < 1024" and "j < 1024" and "i \<noteq> j"
  shows "apart (a + 4 * i) 4 (a + 4 * j) 4"
proof (unfold apart_def, intro allI impI notI)
  fix x
  assume x: "x - (a + 4 * i) < 4" "x - (a + 4 * j) < 4"
  define y z where "y = x - (a + 4 * i)" and "z = x - (a + 4 * j)"
  have "4 * i + y = x - a" "4 * j + z = x - a" by (simp_all add: y_def z_def)
  then have "unat (4 * i + y) = unat (4 * j + z)" by simp
  moreover have "unat y < 4" "unat z < 4" "unat i < 1024" "unat j < 1024"
    using x assms(1,2) by (simp_all add: word_less_nat_alt y_def z_def)
  ultimately have "4 * unat i + unat y = 4 * unat j + unat z" by (simp add: unat_word_ariths)
  with \<open>unat y < 4\<close> \<open>unat z < 4\<close> have "unat i = unat j" by presburger
  with assms(3) show False by (simp add: unat_arith_simps)
qed

lemma aligned_nonzero:
  assumes "aligned t" and "t \<noteq> 0" and "off \<le> 4092"
  shows "t + off \<noteq> 0"
proof
  assume "t + off = 0"
  have "apart t PGSIZE 0 PGSIZE" by (rule aligned_apart [OF assms(1) _ assms(2)]) (simp add: aligned_def)
  moreover have "t + off - t < PGSIZE" using assms(3) by (simp add: word_le_nat_alt word_less_nat_alt)
  ultimately have "\<not> t + off - 0 < PGSIZE" unfolding apart_def by blast
  with \<open>t + off = 0\<close> show False by simp
qed

end
