(* ===== verification/Kalloc.thy ===== *)
theory Kalloc
  imports Memory
begin

text \<open>
  The physical page allocator, \<^verbatim>\<open>xv6-public/kalloc.c\<close>: a list of free pages linked through their
  first words. The lemmas relate the list in memory to a HOL list; the property at the end is
  that the allocator never hands out a page that is in use. \<open>kend\<close> is the linker's symbol
  \<^verbatim>\<open>end\<close>, the first address after the kernel.
\<close>

subsection \<open>Operations\<close>

definition kmem_lock :: "'a mach_scheme \<Rightarrow> 'a mach_scheme outcome" where
  "kmem_lock s = (if use_lock s then acquire LKmem s else Ret s)"

definition kmem_unlock :: "'a mach_scheme \<Rightarrow> 'a mach_scheme outcome" where
  "kmem_unlock s = (if use_lock s then release LKmem s else Ret s)"

definition kfree :: "uint \<Rightarrow> uint \<Rightarrow> 'a mach_scheme \<Rightarrow> 'a mach_scheme outcome" where
  "kfree kend v s =
     (if v mod PGSIZE \<noteq> 0 \<or> v < kend \<or> PHYSTOP \<le> V2P v then Panic ''kfree''
      else let s1 = s\<lparr>kmemory := fill v 1 PGSIZE (kmemory s)\<rparr>
           in obind (kmem_lock s1) (\<lambda>s2.
                kmem_unlock (s2\<lparr>kmemory := st32 v (freelist s2) (kmemory s2), freelist := v\<rparr>)))"

definition kalloc :: "'a mach_scheme \<Rightarrow> (uint \<times> 'a mach_scheme) outcome" where
  "kalloc s =
     obind (kmem_lock s) (\<lambda>s1.
       let r = freelist s1;
           s2 = (if r \<noteq> 0 then s1\<lparr>freelist := ld32 (kmemory s1) r\<rparr> else s1)
       in obind (kmem_unlock s2) (\<lambda>s3. Ret (r, s3)))"

text \<open>
  The number of pages of the address space, and one unit for the last test, is enough fuel for the
  loop of \<^verbatim>\<open>freerange\<close>.
\<close>

fun freerange_loop :: "uint \<Rightarrow> nat \<Rightarrow> uint \<Rightarrow> uint \<Rightarrow> 'a mach_scheme \<Rightarrow> 'a mach_scheme outcome" where
  "freerange_loop kend 0 p vend s = Panic ''out of fuel''"
| "freerange_loop kend (Suc n) p vend s =
     (if p + PGSIZE \<le> vend then obind (kfree kend p s) (freerange_loop kend n (p + PGSIZE) vend)
      else Ret s)"

definition freerange :: "uint \<Rightarrow> uint \<Rightarrow> uint \<Rightarrow> 'a mach_scheme \<Rightarrow> 'a mach_scheme outcome" where
  "freerange kend vstart vend s = freerange_loop kend (2 ^ 20 + 1) (PGROUNDUP vstart) vend s"

definition kinit1 :: "uint \<Rightarrow> uint \<Rightarrow> uint \<Rightarrow> 'a mach_scheme \<Rightarrow> 'a mach_scheme outcome" where
  "kinit1 kend vstart vend s = freerange kend vstart vend (initlock LKmem s\<lparr>use_lock := False\<rparr>)"

definition kinit2 :: "uint \<Rightarrow> uint \<Rightarrow> uint \<Rightarrow> 'a mach_scheme \<Rightarrow> 'a mach_scheme outcome" where
  "kinit2 kend vstart vend s = obind (freerange kend vstart vend s) (\<lambda>s1. Ret (s1\<lparr>use_lock := True\<rparr>))"

subsection \<open>The free list\<close>

fun chain :: "(uint \<Rightarrow> uchar) \<Rightarrow> uint \<Rightarrow> uint list \<Rightarrow> bool" where
  "chain m p [] = (p = 0)"
| "chain m p (x # xs) = (p = x \<and> x \<noteq> 0 \<and> chain m (ld32 m x) xs)"

definition page_ok :: "uint \<Rightarrow> uint \<Rightarrow> bool" where
  "page_ok kend v \<longleftrightarrow> aligned v \<and> kend \<le> v \<and> V2P v < PHYSTOP \<and> v \<noteq> 0"

definition kmem_ok :: "uint \<Rightarrow> 'a mach_scheme \<Rightarrow> uint list \<Rightarrow> bool" where
  "kmem_ok kend s fl \<longleftrightarrow> chain (kmemory s) (freelist s) fl \<and> distinct fl \<and> (\<forall>v\<in>set fl. page_ok kend v) \<and>
     (use_lock s \<longrightarrow> cli_ok s \<and> locks s LKmem = unlocked)"

text \<open>The memory outside the page \<open>v\<close> is as before.\<close>

definition same_outside :: "uint \<Rightarrow> (uint \<Rightarrow> uchar) \<Rightarrow> (uint \<Rightarrow> uchar) \<Rightarrow> bool" where
  "same_outside v m m' \<longleftrightarrow> (\<forall>x. \<not> x - v < PGSIZE \<longrightarrow> m' x = m x)"

lemma chain_cong:
  "chain m p xs \<Longrightarrow> (\<And>x. x \<in> set xs \<Longrightarrow> ld32 m' x = ld32 m x) \<Longrightarrow> chain m' p xs"
  by (induction m p xs rule: chain.induct) auto

lemma ld32_outside:
  assumes "same_outside v m m'" and "aligned v" and "aligned x" and "x \<noteq> v" and "i \<le> 4092"
  shows "ld32 m' (x + i) = ld32 m (x + i)"
  using assms(1) page_words_apart(2) [OF assms(3,2,4,5), of 0]
  by (intro ld32_cong) (auto simp: same_outside_def apart_def)

lemma chain_outside:
  assumes "chain m p xs" and "same_outside v m m'" and "aligned v" and "\<forall>x\<in>set xs. aligned x" and "v \<notin> set xs"
  shows "chain m' p xs"
  by (rule chain_cong [OF assms(1)])
     (use ld32_outside [OF assms(2,3), of _ 0] assms(4,5) in \<open>auto simp: word_le_nat_alt\<close>)

lemma kmem_lock_unlock:
  assumes "use_lock s \<longrightarrow> cli_ok s \<and> locks s LKmem = unlocked"
  obtains s1 where "kmem_lock s = Ret s1" "kmemory s1 = kmemory s" "freelist s1 = freelist s"
    "\<forall>m f. kmem_unlock (s1\<lparr>kmemory := m, freelist := f\<rparr>) = Ret (s\<lparr>kmemory := m, freelist := f\<rparr>)"
proof (cases "use_lock s")
  case False
  then show thesis using that [of s] by (simp add: kmem_lock_def kmem_unlock_def)
next
  case True
  then have l: "cli_ok s" "locks s LKmem = unlocked" using assms by auto
  show thesis
    by (rule that [of "s\<lparr>iflag := False, ncli := ncli s + 1,
          locks := (locks s)(LKmem := \<lparr>locked = True, lk_cpu = Some (cpu_id s)\<rparr>)\<rparr>"])
       (use True l in \<open>auto simp: kmem_lock_def kmem_unlock_def crit_simps fun_upd_idem\<close>)
qed

lemma kalloc_ok:
  assumes "kmem_ok kend s fl"
  shows "fl = [] \<Longrightarrow> kalloc s = Ret (0, s)"
    and "fl = x # xs \<Longrightarrow> kalloc s = Ret (x, s\<lparr>freelist := ld32 (kmemory s) x\<rparr>) \<and>
      kmem_ok kend (s\<lparr>freelist := ld32 (kmemory s) x\<rparr>) xs \<and> page_ok kend x \<and> x \<notin> set xs"
proof -
  obtain s1 where s1: "kmem_lock s = Ret s1" "kmemory s1 = kmemory s" "freelist s1 = freelist s"
    "\<forall>m f. kmem_unlock (s1\<lparr>kmemory := m, freelist := f\<rparr>) = Ret (s\<lparr>kmemory := m, freelist := f\<rparr>)"
    using kmem_lock_unlock [of s] assms unfolding kmem_ok_def by metis
  have unl: "kmem_unlock (s1\<lparr>freelist := f\<rparr>) = Ret (s\<lparr>freelist := f\<rparr>)" for f
  proof -
    have eq: "s1\<lparr>freelist := f\<rparr> = s1\<lparr>kmemory := kmemory s1, freelist := f\<rparr>" by simp
    show ?thesis unfolding eq using s1(2,4) by simp
  qed
  have "kmem_unlock s1 = Ret s"
  proof -
    have eq: "s1 = s1\<lparr>freelist := freelist s1\<rparr>" by simp
    show ?thesis by (subst eq) (simp add: unl s1(3))
  qed
  then show "fl = [] \<Longrightarrow> kalloc s = Ret (0, s)"
    using assms s1(1,3) by (simp add: kalloc_def kmem_ok_def)
  assume fl: "fl = x # xs"
  then have fr: "freelist s = x" "x \<noteq> 0" using assms by (auto simp: kmem_ok_def)
  have "kalloc s = Ret (x, s\<lparr>freelist := ld32 (kmemory s) x\<rparr>)"
    using s1(1-3) fr unl by (simp add: kalloc_def)
  moreover have "cli_ok (s\<lparr>freelist := f\<rparr>) = cli_ok s" for f by (simp add: cli_ok_def)
  ultimately show "kalloc s = Ret (x, s\<lparr>freelist := ld32 (kmemory s) x\<rparr>) \<and>
      kmem_ok kend (s\<lparr>freelist := ld32 (kmemory s) x\<rparr>) xs \<and> page_ok kend x \<and> x \<notin> set xs"
    using assms fl by (simp add: kmem_ok_def)
qed

lemma kfree_ok:
  assumes ok: "kmem_ok kend s fl" and v: "page_ok kend v" "v \<notin> set fl"
  obtains m where "kfree kend v s = Ret (s\<lparr>kmemory := m, freelist := v\<rparr>)"
    "kmem_ok kend (s\<lparr>kmemory := m, freelist := v\<rparr>) (v # fl)" "same_outside v (kmemory s) m"
proof -
  let ?s = "s\<lparr>kmemory := fill v 1 PGSIZE (kmemory s)\<rparr>"
  define m where "m = st32 v (freelist s) (fill v 1 PGSIZE (kmemory s))"
  have cli: "cli_ok (s\<lparr>kmemory := a\<rparr>) = cli_ok s" "cli_ok (s\<lparr>kmemory := a, freelist := b\<rparr>) = cli_ok s" for a b
    by (simp_all add: cli_ok_def)
  have pre: "use_lock ?s \<longrightarrow> cli_ok ?s \<and> locks ?s LKmem = unlocked" using ok cli by (simp add: kmem_ok_def)
  obtain s1 where s1: "kmem_lock ?s = Ret s1" "kmemory s1 = kmemory ?s" "freelist s1 = freelist ?s"
    "\<forall>m f. kmem_unlock (s1\<lparr>kmemory := m, freelist := f\<rparr>) = Ret (?s\<lparr>kmemory := m, freelist := f\<rparr>)"
    by (rule kmem_lock_unlock [OF pre]) blast
  have free: "kfree kend v s = Ret (s\<lparr>kmemory := m, freelist := v\<rparr>)"
    using v(1) s1 by (simp add: kfree_def page_ok_def aligned_def m_def linorder_not_le linorder_not_less)
  have "x - v < PGSIZE" if "x - v < 4" for x using that by (simp add: word_less_nat_alt)
  then have out: "same_outside v (kmemory s) m"
    by (auto simp: same_outside_def m_def st32_def fill_def)
  have "chain m (freelist s) fl"
    by (rule chain_outside [OF _ out]) (use ok v in \<open>auto simp: kmem_ok_def page_ok_def\<close>)
  then have "kmem_ok kend (s\<lparr>kmemory := m, freelist := v\<rparr>) (v # fl)"
    using ok v cli by (auto simp: kmem_ok_def page_ok_def) (simp add: m_def)+
  then show thesis by (rule that [OF free _ out])
qed

lemma kfree_bad:
  "\<not> aligned v \<or> v < kend \<or> PHYSTOP \<le> V2P v \<Longrightarrow> kfree kend v s = Panic ''kfree''"
  by (auto simp: kfree_def aligned_def)

subsection \<open>Ownership of pages\<close>

text \<open>
  Users of the allocator take pages, write to the pages they hold and give them back, in any
  order. \<open>snd\<close> of a state is the set of pages held.
\<close>

definition kp_init :: "uint \<Rightarrow> uint set \<Rightarrow> 'a mach_scheme \<times> uint set \<Rightarrow> bool" where
  "kp_init kend P st \<longleftrightarrow> snd st = {} \<and> (\<exists>fl. kmem_ok kend (fst st) fl \<and> set fl = P)"

inductive kp_step :: "uint \<Rightarrow> 'a mach_scheme \<times> uint set \<Rightarrow> 'a mach_scheme \<times> uint set \<Rightarrow> bool" for kend where
  kp_alloc: "kalloc s = Ret (p, s') \<Longrightarrow> kp_step kend (s, U) (s', if p = 0 then U else insert p U)"
| kp_free: "p \<in> U \<Longrightarrow> kfree kend p s = Ret s' \<Longrightarrow> kp_step kend (s, U) (s', U - {p})"
| kp_write: "p \<in> U \<Longrightarrow> same_outside p (kmemory s) m \<Longrightarrow> kp_step kend (s, U) (s\<lparr>kmemory := m\<rparr>, U)"

definition kp_inv :: "uint \<Rightarrow> uint set \<Rightarrow> 'a mach_scheme \<times> uint set \<Rightarrow> bool" where
  "kp_inv kend P st \<longleftrightarrow> (\<exists>fl. kmem_ok kend (fst st) fl \<and> set fl \<inter> snd st = {} \<and> set fl \<union> snd st = P \<and>
     (\<forall>p\<in>snd st. page_ok kend p))"



lemma kp_inv_alloc:
  assumes "kp_inv kend P (s, U)"
  obtains p s' where "kalloc s = Ret (p, s')" "kp_inv kend P (s', if p = 0 then U else insert p U)"
    "p = 0 \<longleftrightarrow> U = P" "p \<noteq> 0 \<Longrightarrow> p \<in> P - U \<and> page_ok kend p"
proof -
  obtain fl where fl: "kmem_ok kend s fl" "set fl \<inter> U = {}" "set fl \<union> U = P" "\<forall>p\<in>U. page_ok kend p"
    using assms by (auto simp: kp_inv_def)
  show thesis
  proof (cases fl)
    case Nil
    then show thesis using that [OF kalloc_ok(1) [OF fl(1)]] assms fl(3) by auto
  next
    case (Cons x xs)
    note k = kalloc_ok(2) [OF fl(1) Cons]
    then have "x \<noteq> 0" by (simp add: page_ok_def)
    moreover have "kp_inv kend P (s\<lparr>freelist := ld32 (kmemory s) x\<rparr>, insert x U)"
      unfolding kp_inv_def using k fl Cons by (intro exI [of _ xs]) auto
    ultimately show thesis using that [OF conjunct1 [OF k]] k fl(2,3) Cons by auto
  qed
qed

lemma kp_inv_free:
  assumes "kp_inv kend P (s, U)" and "p \<in> U"
  obtains s' where "kfree kend p s = Ret s'" "kp_inv kend P (s', U - {p})"
proof -
  obtain fl where fl: "kmem_ok kend s fl" "set fl \<inter> U = {}" "set fl \<union> U = P" "\<forall>p\<in>U. page_ok kend p"
    using assms(1) by (auto simp: kp_inv_def)
  obtain m where m: "kfree kend p s = Ret (s\<lparr>kmemory := m, freelist := p\<rparr>)"
    "kmem_ok kend (s\<lparr>kmemory := m, freelist := p\<rparr>) (p # fl)"
    using kfree_ok [OF fl(1), of p] fl(2,4) assms(2) by blast
  show thesis
    by (rule that [OF m(1)]) (use m(2) fl assms(2) in \<open>auto simp: kp_inv_def intro!: exI [of _ "p # fl"]\<close>)
qed

lemma kp_inv_write:
  assumes "kp_inv kend P (s, U)" and "p \<in> U" and "same_outside p (kmemory s) m"
  shows "kp_inv kend P (s\<lparr>kmemory := m\<rparr>, U)"
proof -
  obtain fl where fl: "kmem_ok kend s fl" "set fl \<inter> U = {}" "set fl \<union> U = P" "\<forall>p\<in>U. page_ok kend p"
    using assms(1) by (auto simp: kp_inv_def)
  have "chain m (freelist s) fl"
    by (rule chain_outside [OF _ assms(3)]) (use fl assms(2) in \<open>auto simp: kmem_ok_def page_ok_def\<close>)
  moreover have "cli_ok (s\<lparr>kmemory := m\<rparr>) = cli_ok s" by (simp add: cli_ok_def)
  ultimately have "kmem_ok kend (s\<lparr>kmemory := m\<rparr>) fl" using fl(1) by (simp add: kmem_ok_def)
  with fl show ?thesis by (auto simp: kp_inv_def)
qed

interpretation pages: invariant_system "kp_init kend P" "kp_step kend" "kp_inv kend P"
  for kend :: uint and P :: "uint set"
proof
  fix st :: "'a mach_scheme \<times> uint set"
  assume "kp_init kend P st"
  then show "kp_inv kend P st" by (auto simp: kp_init_def kp_inv_def)
next
  fix st t :: "'a mach_scheme \<times> uint set"
  assume inv: "kp_inv kend P st" and step: "kp_step kend st t"
  from step show "kp_inv kend P t"
  proof cases
    case (kp_alloc s p s' U)
    with inv have "kp_inv kend P (s, U)" by simp
    from kp_inv_alloc [OF this] kp_alloc show ?thesis by (metis outcome.inject(1) prod.inject)
  next
    case (kp_free p U s s')
    with inv have "kp_inv kend P (s, U)" by simp
    from kp_inv_free [OF this] kp_free show ?thesis by (metis outcome.inject(1))
  next
    case (kp_write p U s m)
    then show ?thesis using kp_inv_write inv by metis
  qed
qed

text \<open>
  C13: the page allocator never gives a page away twice. In every state reached by taking pages,
  writing to pages held and giving them back, \<^verbatim>\<open>kalloc\<close> returns: a page of the pool, aligned and
  inside the memory the kernel may use, that nobody holds, or null exactly when all pages are
  held; and \<^verbatim>\<open>kfree\<close> of a page held does not panic.
\<close>

theorem kalloc_exclusive:
  assumes "reachable (kp_init kend P) (kp_step kend) (s, U)"
  shows "(\<exists>p s'. kalloc s = Ret (p, s') \<and> (p = 0 \<longleftrightarrow> U = P) \<and> (p \<noteq> 0 \<longrightarrow> p \<in> P - U \<and> page_ok kend p)) \<and>
    (\<forall>p\<in>U. \<exists>s'. kfree kend p s = Ret s')"
proof (intro conjI ballI)
  note inv = pages.reachable_invar [OF assms]
  show "\<exists>p s'. kalloc s = Ret (p, s') \<and> (p = 0 \<longleftrightarrow> U = P) \<and> (p \<noteq> 0 \<longrightarrow> p \<in> P - U \<and> page_ok kend p)"
    by (rule kp_inv_alloc [OF inv]) blast
  show "\<exists>s'. kfree kend p s = Ret s'" if "p \<in> U" for p
    by (rule kp_inv_free [OF inv that]) blast
qed

definition kboot :: mach where
  "kboot = \<lparr>cpu_id = 0, iflag = False, ncli = 0, intena = False, cur = None, locks = (\<lambda>_. unlocked),
     procs = [], nextpid = 1, initproc = None, kmemory = (\<lambda>_. 0), freelist = 0, use_lock = False\<rparr>"

lemma kboot_ok: "kmem_ok kend kboot []"
  by (simp add: kmem_ok_def kboot_def)

lemma kalloc_exclusive_witness:
  "\<exists>(s :: mach) s' p. reachable (kp_init 0x80110000 {0x80400000}) (kp_step 0x80110000) (s, {}) \<and>
     kalloc s = Ret (p, s') \<and> p = 0x80400000"
proof -
  have pg: "page_ok 0x80110000 0x80400000" by (simp add: page_ok_def aligned_def V2P_def)
  obtain m where "kmem_ok 0x80110000 (kboot\<lparr>kmemory := m, freelist := 0x80400000\<rparr>) [0x80400000]"
    using kfree_ok [OF kboot_ok pg] by auto
  then have r: "reachable (kp_init 0x80110000 {0x80400000}) (kp_step 0x80110000)
      (kboot\<lparr>kmemory := m, freelist := 0x80400000\<rparr>, {})"
    by (intro reachable_init) (auto simp: kp_init_def)
  from kalloc_exclusive [OF r] r show ?thesis by blast
qed

subsection \<open>Filling the list\<close>

lemma freerange_loop_ok:
  assumes "kmem_ok kend s fl" and "k < n"
    and "\<And>i. i < k \<Longrightarrow> page_ok kend (p + PGSIZE * of_nat i) \<and> p + PGSIZE * of_nat i \<notin> set fl \<and>
           p + PGSIZE * of_nat i + PGSIZE \<le> vend"
    and "\<And>i j. i < j \<Longrightarrow> j < k \<Longrightarrow> p + PGSIZE * of_nat i \<noteq> p + PGSIZE * of_nat j"
    and "\<not> p + PGSIZE * of_nat k + PGSIZE \<le> vend"
  shows "\<exists>s'. freerange_loop kend n p vend s = Ret s' \<and>
    kmem_ok kend s' (rev (map (\<lambda>i. p + PGSIZE * of_nat i) [0..<k]) @ fl)"
  using assms
proof (induction k arbitrary: n p s fl)
  case 0
  then show ?case by (cases n) auto
next
  case (Suc k)
  obtain n' where n': "n = Suc n'" using Suc.prems(2) by (cases n) auto
  have p0: "page_ok kend p" "p \<notin> set fl" "p + PGSIZE \<le> vend" using Suc.prems(3) [of 0] by auto
  obtain m where m: "kfree kend p s = Ret (s\<lparr>kmemory := m, freelist := p\<rparr>)"
    "kmem_ok kend (s\<lparr>kmemory := m, freelist := p\<rparr>) (p # fl)"
    using kfree_ok [OF Suc.prems(1) p0(1,2)] by blast
  have shift: "p + PGSIZE + PGSIZE * of_nat i = p + PGSIZE * of_nat (Suc i)" for i
    by (simp add: algebra_simps)
  have "\<exists>s'. freerange_loop kend n' (p + PGSIZE) vend (s\<lparr>kmemory := m, freelist := p\<rparr>) = Ret s' \<and>
      kmem_ok kend s' (rev (map (\<lambda>i. p + PGSIZE + PGSIZE * of_nat i) [0..<k]) @ p # fl)"
  proof (rule Suc.IH [OF m(2)])
    show "k < n'" using Suc.prems(2) n' by simp
    show "page_ok kend (p + PGSIZE + PGSIZE * of_nat i) \<and> p + PGSIZE + PGSIZE * of_nat i \<notin> set (p # fl) \<and>
        p + PGSIZE + PGSIZE * of_nat i + PGSIZE \<le> vend" if "i < k" for i
      using Suc.prems(3) [of "Suc i"] Suc.prems(4) [of 0 "Suc i"] that unfolding shift by auto
    show "p + PGSIZE + PGSIZE * of_nat i \<noteq> p + PGSIZE + PGSIZE * of_nat j" if "i < j" "j < k" for i j
      using Suc.prems(4) [of "Suc i" "Suc j"] that unfolding shift by auto
    show "\<not> p + PGSIZE + PGSIZE * of_nat k + PGSIZE \<le> vend" using Suc.prems(5) unfolding shift .
  qed
  moreover have "map (\<lambda>i. p + PGSIZE * of_nat i) [0..<Suc k] =
      p # map (\<lambda>i. p + PGSIZE + PGSIZE * of_nat i) [0..<k]"
    unfolding shift by (simp add: upt_conv_Cons map_Suc_upt [symmetric] del: upt_Suc of_nat_Suc)
  ultimately show ?case using m(1) p0(3) n' by simp
qed

end
