(* ===== verification/Vm.thy ===== *)
theory Vm
  imports Kalloc
begin

text \<open>
  Page tables, \<^verbatim>\<open>xv6-public/vm.c\<close>, over the kernel's memory: walking and extending the two-level
  table, mapping, growing, shrinking, copying and freeing an address space, and copying to user
  memory. The table in memory is related to the partial function from addresses to page table
  entries that it stands for. \<open>kend\<close> and \<open>kdata\<close> are the linker's symbols \<^verbatim>\<open>end\<close> and \<^verbatim>\<open>data\<close>. Loops
  carry fuel, one unit for each page they can visit and one for the last test; running out is a
  panic of its own. Loading the page table register and the segment registers has no effect
  on the modelled state.
\<close>

subsection \<open>Walking and mapping\<close>

definition walkpgdir :: "uint \<Rightarrow> uint \<Rightarrow> bool \<Rightarrow> 'a mach_scheme \<Rightarrow> (uint \<times> 'a mach_scheme) outcome" where
  "walkpgdir pgdir va alloc s =
     (let pde = pgdir + 4 * PDX va; e = ld32 (kmemory s) pde
      in if e AND PTE_P \<noteq> 0 then Ret (P2V (PTE_ADDR e) + 4 * PTX va, s)
         else if \<not> alloc then Ret (0, s)
         else obind (kalloc s) (\<lambda>(pgtab, s1).
           if pgtab = 0 then Ret (0, s1)
           else Ret (pgtab + 4 * PTX va,
             s1\<lparr>kmemory := st32 pde (V2P pgtab OR PTE_P OR PTE_W OR PTE_U) (fill pgtab 0 PGSIZE (kmemory s1))\<rparr>)))"

fun mappages_loop ::
  "nat \<Rightarrow> uint \<Rightarrow> uint \<Rightarrow> uint \<Rightarrow> uint \<Rightarrow> uint \<Rightarrow> 'a mach_scheme \<Rightarrow> (int \<times> 'a mach_scheme) outcome" where
  "mappages_loop 0 pgdir a lastp pa perm s = Panic ''out of fuel''"
| "mappages_loop (Suc n) pgdir a lastp pa perm s =
     obind (walkpgdir pgdir a True s) (\<lambda>(pte, s1).
       if pte = 0 then Ret (- 1, s1)
       else if ld32 (kmemory s1) pte AND PTE_P \<noteq> 0 then Panic ''remap''
       else let s2 = s1\<lparr>kmemory := st32 pte (pa OR perm OR PTE_P) (kmemory s1)\<rparr>
            in if a = lastp then Ret (0, s2)
               else mappages_loop n pgdir (a + PGSIZE) lastp (pa + PGSIZE) perm s2)"

definition mappages ::
  "uint \<Rightarrow> uint \<Rightarrow> uint \<Rightarrow> uint \<Rightarrow> uint \<Rightarrow> 'a mach_scheme \<Rightarrow> (int \<times> 'a mach_scheme) outcome" where
  "mappages pgdir va sz pa perm s =
     (let a = PGROUNDDOWN va; lastp = PGROUNDDOWN (va + sz - 1)
      in mappages_loop (Suc (unat (lastp - a) div 4096)) pgdir a lastp pa perm s)"

subsection \<open>Shrinking and freeing\<close>

fun deallocuvm_loop ::
  "nat \<Rightarrow> uint \<Rightarrow> uint \<Rightarrow> uint \<Rightarrow> uint \<Rightarrow> 'a mach_scheme \<Rightarrow> 'a mach_scheme outcome" where
  "deallocuvm_loop 0 kend pgdir a oldsz s = Panic ''out of fuel''"
| "deallocuvm_loop (Suc n) kend pgdir a oldsz s =
     (if \<not> a < oldsz then Ret s
      else obind (walkpgdir pgdir a False s) (\<lambda>(pte, s1).
        if pte = 0 then deallocuvm_loop n kend pgdir (PGADDR (PDX a + 1) 0 0 - PGSIZE + PGSIZE) oldsz s1
        else if ld32 (kmemory s1) pte AND PTE_P \<noteq> 0 then
          let pa = PTE_ADDR (ld32 (kmemory s1) pte)
          in if pa = 0 then Panic ''kfree''
             else obind (kfree kend (P2V pa) s1) (\<lambda>s2.
               deallocuvm_loop n kend pgdir (a + PGSIZE) oldsz (s2\<lparr>kmemory := st32 pte 0 (kmemory s2)\<rparr>))
        else deallocuvm_loop n kend pgdir (a + PGSIZE) oldsz s1))"

definition deallocuvm ::
  "uint \<Rightarrow> uint \<Rightarrow> uint \<Rightarrow> uint \<Rightarrow> 'a mach_scheme \<Rightarrow> (uint \<times> 'a mach_scheme) outcome" where
  "deallocuvm kend pgdir oldsz newsz s =
     (if oldsz \<le> newsz then Ret (oldsz, s)
      else obind (deallocuvm_loop (Suc (unat oldsz div 4096 + 1)) kend pgdir (PGROUNDUP newsz) oldsz s)
             (\<lambda>s1. Ret (newsz, s1)))"

fun free_tables :: "uint \<Rightarrow> uint \<Rightarrow> nat \<Rightarrow> nat \<Rightarrow> 'a mach_scheme \<Rightarrow> 'a mach_scheme outcome" where
  "free_tables kend pgdir i 0 s = Ret s"
| "free_tables kend pgdir i (Suc n) s =
     (let e = ld32 (kmemory s) (pgdir + 4 * of_nat i)
      in if e AND PTE_P \<noteq> 0 then obind (kfree kend (P2V (PTE_ADDR e)) s) (free_tables kend pgdir (Suc i) n)
         else free_tables kend pgdir (Suc i) n s)"

definition freevm :: "uint \<Rightarrow> uint \<Rightarrow> 'a mach_scheme \<Rightarrow> 'a mach_scheme outcome" where
  "freevm kend pgdir s =
     (if pgdir = 0 then Panic ''freevm: no pgdir''
      else obind (deallocuvm kend pgdir KERNBASE 0 s) (\<lambda>(_, s1).
             obind (free_tables kend pgdir 0 1024 s1) (kfree kend pgdir)))"

subsection \<open>Building\<close>

definition kmap :: "uint \<Rightarrow> (uint \<times> uint \<times> uint \<times> uint) list" where
  "kmap kdata =
     [(KERNBASE, 0, EXTMEM, PTE_W), (KERNLINK, V2P KERNLINK, V2P kdata, 0),
      (kdata, V2P kdata, PHYSTOP, PTE_W), (DEVSPACE, DEVSPACE, 0, PTE_W)]"

fun map_kernel ::
  "uint \<Rightarrow> uint \<Rightarrow> (uint \<times> uint \<times> uint \<times> uint) list \<Rightarrow> 'a mach_scheme \<Rightarrow> (uint \<times> 'a mach_scheme) outcome" where
  "map_kernel kend pgdir [] s = Ret (pgdir, s)"
| "map_kernel kend pgdir ((virt, ps, pe, perm) # ks) s =
     obind (mappages pgdir virt (pe - ps) ps perm s) (\<lambda>(r, s1).
       if r < 0 then obind (freevm kend pgdir s1) (\<lambda>s2. Ret (0, s2)) else map_kernel kend pgdir ks s1)"

definition setupkvm :: "uint \<Rightarrow> uint \<Rightarrow> 'a mach_scheme \<Rightarrow> (uint \<times> 'a mach_scheme) outcome" where
  "setupkvm kend kdata s =
     obind (kalloc s) (\<lambda>(pgdir, s1).
       if pgdir = 0 then Ret (0, s1)
       else let s2 = s1\<lparr>kmemory := fill pgdir 0 PGSIZE (kmemory s1)\<rparr>
            in if DEVSPACE < P2V PHYSTOP then Panic ''PHYSTOP too high''
               else map_kernel kend pgdir (kmap kdata) s2)"

definition inituvm :: "uint \<Rightarrow> uchar list \<Rightarrow> 'a mach_scheme \<Rightarrow> 'a mach_scheme outcome" where
  "inituvm pgdir init s =
     (if 4096 \<le> length init then Panic ''inituvm: more than a page''
      else obind (kalloc s) (\<lambda>(mem, s1).
        let s2 = s1\<lparr>kmemory := fill mem 0 PGSIZE (kmemory s1)\<rparr>
        in obind (mappages pgdir 0 PGSIZE (V2P mem) (PTE_W OR PTE_U) s2) (\<lambda>(_, s3).
             Ret (s3\<lparr>kmemory := copy_bytes mem init (kmemory s3)\<rparr>))))"

fun allocuvm_loop ::
  "nat \<Rightarrow> uint \<Rightarrow> uint \<Rightarrow> uint \<Rightarrow> uint \<Rightarrow> uint \<Rightarrow> 'a mach_scheme \<Rightarrow> (uint \<times> 'a mach_scheme) outcome" where
  "allocuvm_loop 0 kend pgdir oldsz newsz a s = Panic ''out of fuel''"
| "allocuvm_loop (Suc n) kend pgdir oldsz newsz a s =
     (if \<not> a < newsz then Ret (newsz, s)
      else obind (kalloc s) (\<lambda>(mem, s1).
        if mem = 0 then obind (deallocuvm kend pgdir newsz oldsz s1) (\<lambda>(_, s2). Ret (0, s2))
        else let s2 = s1\<lparr>kmemory := fill mem 0 PGSIZE (kmemory s1)\<rparr>
             in obind (mappages pgdir a PGSIZE (V2P mem) (PTE_W OR PTE_U) s2) (\<lambda>(r, s3).
                  if r < 0 then
                    obind (deallocuvm kend pgdir newsz oldsz s3) (\<lambda>(_, s4).
                      obind (kfree kend mem s4) (\<lambda>s5. Ret (0, s5)))
                  else allocuvm_loop n kend pgdir oldsz newsz (a + PGSIZE) s3)))"

definition allocuvm ::
  "uint \<Rightarrow> uint \<Rightarrow> uint \<Rightarrow> uint \<Rightarrow> 'a mach_scheme \<Rightarrow> (uint \<times> 'a mach_scheme) outcome" where
  "allocuvm kend pgdir oldsz newsz s =
     (if KERNBASE \<le> newsz then Ret (0, s)
      else if newsz < oldsz then Ret (oldsz, s)
      else allocuvm_loop (Suc (unat newsz div 4096 + 1)) kend pgdir oldsz newsz (PGROUNDUP oldsz) s)"

fun copyuvm_loop ::
  "nat \<Rightarrow> uint \<Rightarrow> uint \<Rightarrow> uint \<Rightarrow> uint \<Rightarrow> uint \<Rightarrow> 'a mach_scheme \<Rightarrow> (uint \<times> 'a mach_scheme) outcome" where
  "copyuvm_loop 0 kend pgdir d i sz s = Panic ''out of fuel''"
| "copyuvm_loop (Suc n) kend pgdir d i sz s =
     (if \<not> i < sz then Ret (d, s)
      else obind (walkpgdir pgdir i False s) (\<lambda>(pte, s1).
        if pte = 0 then Panic ''copyuvm: pte should exist''
        else let e = ld32 (kmemory s1) pte
        in if e AND PTE_P = 0 then Panic ''copyuvm: page not present''
        else obind (kalloc s1) (\<lambda>(mem, s2).
          if mem = 0 then obind (freevm kend d s2) (\<lambda>s3. Ret (0, s3))
          else let s3 = s2\<lparr>kmemory := copy_bytes mem (bytes_at (P2V (PTE_ADDR e)) 4096 (kmemory s2)) (kmemory s2)\<rparr>
               in obind (mappages d i PGSIZE (V2P mem) (PTE_FLAGS e) s3) (\<lambda>(r, s4).
                    if r < 0 then obind (kfree kend mem s4) (\<lambda>s5. obind (freevm kend d s5) (\<lambda>s6. Ret (0, s6)))
                    else copyuvm_loop n kend pgdir d (i + PGSIZE) sz s4))))"

definition copyuvm :: "uint \<Rightarrow> uint \<Rightarrow> uint \<Rightarrow> uint \<Rightarrow> 'a mach_scheme \<Rightarrow> (uint \<times> 'a mach_scheme) outcome" where
  "copyuvm kend kdata pgdir sz s =
     obind (setupkvm kend kdata s) (\<lambda>(d, s1).
       if d = 0 then Ret (0, s1)
       else copyuvm_loop (Suc (unat sz div 4096 + 1)) kend pgdir d 0 sz s1)"

subsection \<open>User memory\<close>

definition clearpteu :: "uint \<Rightarrow> uint \<Rightarrow> 'a mach_scheme \<Rightarrow> 'a mach_scheme outcome" where
  "clearpteu pgdir uva s =
     obind (walkpgdir pgdir uva False s) (\<lambda>(pte, s1).
       if pte = 0 then Panic ''clearpteu''
       else Ret (s1\<lparr>kmemory := st32 pte (ld32 (kmemory s1) pte AND NOT PTE_U) (kmemory s1)\<rparr>))"

text \<open>\<^verbatim>\<open>uva2ka\<close> reads through the pointer \<^verbatim>\<open>walkpgdir\<close> returns without testing it.\<close>

definition uva2ka :: "uint \<Rightarrow> uint \<Rightarrow> 'a mach_scheme \<Rightarrow> uint outcome" where
  "uva2ka pgdir uva s =
     obind (walkpgdir pgdir uva False s) (\<lambda>(pte, s1).
       if pte = 0 then Panic ''uva2ka: null pte''
       else let e = ld32 (kmemory s1) pte
            in if e AND PTE_P = 0 then Ret 0
               else if e AND PTE_U = 0 then Ret 0
               else Ret (P2V (PTE_ADDR e)))"

fun copyout_loop :: "nat \<Rightarrow> uint \<Rightarrow> uint \<Rightarrow> uchar list \<Rightarrow> 'a mach_scheme \<Rightarrow> (int \<times> 'a mach_scheme) outcome" where
  "copyout_loop 0 pgdir va buf s = Panic ''out of fuel''"
| "copyout_loop (Suc k) pgdir va buf s =
     (if buf = [] then Ret (0, s)
      else let va0 = PGROUNDDOWN va
           in obind (uva2ka pgdir va0 s) (\<lambda>pa0.
                if pa0 = 0 then Ret (- 1, s)
                else let n = min (unat (PGSIZE - (va - va0))) (length buf)
                     in copyout_loop k pgdir (va0 + PGSIZE) (drop n buf)
                          (s\<lparr>kmemory := copy_bytes (pa0 + (va - va0)) (take n buf) (kmemory s)\<rparr>)))"

definition copyout :: "uint \<Rightarrow> uint \<Rightarrow> uchar list \<Rightarrow> 'a mach_scheme \<Rightarrow> (int \<times> 'a mach_scheme) outcome" where
  "copyout pgdir va p s = copyout_loop (Suc (length p)) pgdir va p s"

definition switchuvm :: "nat option \<Rightarrow> 'a mach_scheme \<Rightarrow> 'a mach_scheme outcome" where
  "switchuvm p s =
     (case p of
        None \<Rightarrow> Panic ''switchuvm: no process''
      | Some i \<Rightarrow>
          if p_kstack (procs s ! i) = 0 then Panic ''switchuvm: no kstack''
          else if p_pgdir (procs s ! i) = 0 then Panic ''switchuvm: no pgdir''
          else popcli (pushcli s))"

subsection \<open>The address space a page table stands for\<close>

definition pde_at :: "(uint \<Rightarrow> uchar) \<Rightarrow> uint \<Rightarrow> uint \<Rightarrow> uint" where
  "pde_at m pgdir i = ld32 m (pgdir + 4 * i)"

definition pt_lookup :: "(uint \<Rightarrow> uchar) \<Rightarrow> uint \<Rightarrow> uint \<Rightarrow> uint option" where
  "pt_lookup m pgdir va =
     (let e = pde_at m pgdir (PDX va)
      in if e AND PTE_P = 0 then None
         else let pte = ld32 m (P2V (PTE_ADDR e) + 4 * PTX va)
              in if pte AND PTE_P = 0 then None else Some pte)"

text \<open>The pages of the tables are pages of their own, one for every entry of the directory.\<close>

definition tables_ok :: "(uint \<Rightarrow> uchar) \<Rightarrow> uint \<Rightarrow> uint set \<Rightarrow> bool" where
  "tables_ok m pgdir T \<longleftrightarrow> aligned pgdir \<and> pgdir \<notin> T \<and> 0 \<notin> T \<and>
     (\<forall>i<1024. pde_at m pgdir i AND PTE_P \<noteq> 0 \<longrightarrow> P2V (PTE_ADDR (pde_at m pgdir i)) \<in> T) \<and>
     (\<forall>i<1024. \<forall>j<1024. i \<noteq> j \<longrightarrow> pde_at m pgdir i AND PTE_P \<noteq> 0 \<longrightarrow> pde_at m pgdir j AND PTE_P \<noteq> 0 \<longrightarrow>
        PTE_ADDR (pde_at m pgdir i) \<noteq> PTE_ADDR (pde_at m pgdir j))"

lemma P2V_inj [simp]: "P2V a = P2V b \<longleftrightarrow> a = b"
  by (simp add: P2V_def)

lemma V2P_inj [simp]: "V2P a = V2P b \<longleftrightarrow> a = b"
  by (simp add: V2P_def)

lemma flag_bits: "(x OR PTE_P OR PTE_W OR PTE_U) AND PTE_P \<noteq> 0" "(x OR y OR PTE_P) AND PTE_P \<noteq> 0"
  by (simp_all add: bit_eq_iff) (auto simp: bit_simps)

text \<open>
  Writing a present entry of the directory that points to a fresh page of zeros does not change
  the address space.
\<close>

lemma new_table:
  fixes m :: "uint \<Rightarrow> uchar" and g :: uint
  assumes ok: "tables_ok m pgdir T" and i: "i < 1024" and none: "pde_at m pgdir i AND PTE_P = 0"
    and g: "aligned g" "g \<notin> T" "g \<noteq> pgdir" "g \<noteq> 0"
  defines "m' \<equiv> st32 (pgdir + 4 * i) (V2P g OR PTE_P OR PTE_W OR PTE_U) (fill g 0 PGSIZE m)"
  shows "pde_at m' pgdir i = V2P g OR PTE_P OR PTE_W OR PTE_U" "P2V (PTE_ADDR (pde_at m' pgdir i)) = g"
    and "\<And>j. j < 1024 \<Longrightarrow> j \<noteq> i \<Longrightarrow> pde_at m' pgdir j = pde_at m pgdir j"
    and "\<And>j. j < 1024 \<Longrightarrow> ld32 m' (g + 4 * j) = 0"
    and "\<And>t j. t \<in> T \<Longrightarrow> aligned t \<Longrightarrow> j < 1024 \<Longrightarrow> ld32 m' (t + 4 * j) = ld32 m (t + 4 * j)"
    and "tables_ok m' pgdir (insert g T)"
    and "pt_lookup m' pgdir = pt_lookup m pgdir"
proof -
  have four: "4 * (j :: uint) \<le> 4092" if "j < 1024" for j
    using that by (simp add: word_less_nat_alt word_le_nat_alt unat_word_ariths)
  have pg: "aligned pgdir" using ok by (simp add: tables_ok_def)
  show pi: "pde_at m' pgdir i = V2P g OR PTE_P OR PTE_W OR PTE_U" by (simp add: pde_at_def m'_def)
  have "V2P g OR PTE_P OR PTE_W OR PTE_U = V2P g OR 7" by (simp add: or.assoc)
  then have "PTE_ADDR (V2P g OR PTE_P OR PTE_W OR PTE_U) = V2P g"
    using PTE_ADDR_flags [of "V2P g" 7] g(1) by (simp add: word_less_nat_alt)
  then show ai: "P2V (PTE_ADDR (pde_at m' pgdir i)) = g" unfolding pi by simp
  show pj: "pde_at m' pgdir j = pde_at m pgdir j" if j: "j < 1024" "j \<noteq> i" for j
    unfolding pde_at_def m'_def
    using ld32_st32_other [OF entry_apart [OF j(1) i j(2)]]
      ld32_fill_other [OF page_words_apart(2) [OF pg g(1) g(3) [symmetric] four [OF j(1)], of 0]] by simp
  show z: "ld32 m' (g + 4 * j) = 0" if "j < 1024" for j
    unfolding m'_def
    by (subst ld32_st32_other [OF page_words_apart(1) [OF g(1) pg g(3) four [OF that] four [OF i]]],
        rule ld32_fill_zero, rule word_in_page [OF four [OF that]])
  show tt: "ld32 m' (t + 4 * j) = ld32 m (t + 4 * j)" if t: "t \<in> T" "aligned t" "j < 1024" for t j
  proof -
    have "t \<noteq> pgdir" "t \<noteq> g" using t(1) ok g(2) by (auto simp: tables_ok_def)
    then show ?thesis
      unfolding m'_def
      using ld32_st32_other [OF page_words_apart(1) [OF t(2) pg _ four [OF t(3)] four [OF i]]]
        ld32_fill_other [OF page_words_apart(2) [OF t(2) g(1) _ four [OF t(3)], of 0]] by simp
  qed
  have mem: "P2V (PTE_ADDR (pde_at m pgdir j)) \<in> T" if "j < 1024" "pde_at m pgdir j AND PTE_P \<noteq> 0" for j
    using ok that by (auto simp: tables_ok_def)
  have ne: "PTE_ADDR (pde_at m' pgdir i) \<noteq> PTE_ADDR (pde_at m pgdir j)"
    if "j < 1024" "pde_at m pgdir j AND PTE_P \<noteq> 0" for j
    using mem [OF that] ai g(2) by auto
  show "tables_ok m' pgdir (insert g T)"
    unfolding tables_ok_def
  proof (intro conjI allI impI)
    show "aligned pgdir" "pgdir \<notin> insert g T" "0 \<notin> insert g T" using ok g(3,4) by (auto simp: tables_ok_def)
    show "P2V (PTE_ADDR (pde_at m' pgdir j)) \<in> insert g T" if "j < 1024" "pde_at m' pgdir j AND PTE_P \<noteq> 0" for j
      using that ai pj [of j] mem [of j] by (cases "j = i") auto
    show "PTE_ADDR (pde_at m' pgdir j) \<noteq> PTE_ADDR (pde_at m' pgdir k)"
      if "j < 1024" "k < 1024" "j \<noteq> k" "pde_at m' pgdir j AND PTE_P \<noteq> 0" "pde_at m' pgdir k AND PTE_P \<noteq> 0" for j k
    proof (cases "j = i \<or> k = i")
      case True
      then show ?thesis using that ne [of k] ne [of j] pj [of j] pj [of k] by auto
    next
      case False
      then show ?thesis using that ok pj [of j] pj [of k] by (auto simp: tables_ok_def)
    qed
  qed
  show "pt_lookup m' pgdir = pt_lookup m pgdir"
  proof
    fix va
    show "pt_lookup m' pgdir va = pt_lookup m pgdir va"
    proof (cases "PDX va = i")
      case True
      then show ?thesis
        using none ai z [OF index_bound(2), of va] by (simp add: pt_lookup_def Let_def)
    next
      case False
      have al: "aligned (P2V (PTE_ADDR e))" for e by (simp add: aligned_PTE_ADDR)
      show ?thesis
        using pj [OF index_bound(1) False] mem [OF index_bound(1), of va]
          tt [OF _ al index_bound(2), of "pde_at m pgdir (PDX va)" va]
        by (auto simp: pt_lookup_def Let_def)
    qed
  qed
qed

lemma set_pte:
  fixes m :: "uint \<Rightarrow> uchar"
  assumes ok: "tables_ok m pgdir T" and here: "pde_at m pgdir (PDX va) AND PTE_P \<noteq> 0" and w: "w AND PTE_P \<noteq> 0"
  defines "t \<equiv> P2V (PTE_ADDR (pde_at m pgdir (PDX va)))"
  defines "m' \<equiv> st32 (t + 4 * PTX va) w m"
  shows "pt_lookup m' pgdir va' =
      (if PDX va' = PDX va \<and> PTX va' = PTX va then Some w else pt_lookup m pgdir va')"
    and "tables_ok m' pgdir T" and "aligned t" and "t \<in> T"
proof -
  have four: "4 * (j :: uint) \<le> 4092" if "j < 1024" for j
    using that by (simp add: word_less_nat_alt word_le_nat_alt unat_word_ariths)
  show t: "t \<in> T" using ok here index_bound(1) by (auto simp: tables_ok_def t_def)
  show al: "aligned t" by (simp add: t_def aligned_PTE_ADDR)
  have pg: "aligned pgdir" "pgdir \<noteq> t" using ok t by (auto simp: tables_ok_def)
  have p: "pde_at m' pgdir j = pde_at m pgdir j" if "j < 1024" for j
    unfolding pde_at_def m'_def
    by (rule ld32_st32_other [OF page_words_apart(1) [OF pg(1) al pg(2) four [OF that] index_bound(4)]])
  show "tables_ok m' pgdir T" using ok p by (auto simp: tables_ok_def)
  show "pt_lookup m' pgdir va' =
      (if PDX va' = PDX va \<and> PTX va' = PTX va then Some w else pt_lookup m pgdir va')"
  proof (cases "PDX va' = PDX va \<and> PTX va' = PTX va")
    case True
    then have "ld32 m' (P2V (PTE_ADDR (pde_at m pgdir (PDX va))) + 4 * PTX va) = w"
      by (simp add: m'_def t_def)
    with True show ?thesis using p [OF index_bound(1)] here w by (simp add: pt_lookup_def Let_def)
  next
    case False
    let ?t' = "P2V (PTE_ADDR (pde_at m pgdir (PDX va')))"
    have "ld32 m' (?t' + 4 * PTX va') = ld32 m (?t' + 4 * PTX va')"
      if pr: "pde_at m pgdir (PDX va') AND PTE_P \<noteq> 0"
    proof (cases "PDX va' = PDX va")
      case True
      with False have "PTX va' \<noteq> PTX va" by simp
      from ld32_st32_other [OF entry_apart [OF index_bound(2) index_bound(2) this]] True
      show ?thesis by (simp add: m'_def t_def)
    next
      case False
      then have "PTE_ADDR (pde_at m pgdir (PDX va')) \<noteq> PTE_ADDR (pde_at m pgdir (PDX va))"
        using ok pr here index_bound(1) by (auto simp: tables_ok_def)
      then have "?t' \<noteq> t" by (simp add: t_def)
      then show ?thesis unfolding m'_def
        by (intro ld32_st32_other page_words_apart(1) index_bound al) (simp add: aligned_PTE_ADDR)
    qed
    with False show ?thesis using p [OF index_bound(1), of va'] by (auto simp: pt_lookup_def Let_def)
  qed
qed

definition space_ok :: "uint \<Rightarrow> 'a mach_scheme \<Rightarrow> uint \<Rightarrow> uint list \<Rightarrow> uint set \<Rightarrow> bool" where
  "space_ok kend s pgdir fl T \<longleftrightarrow> kmem_ok kend s fl \<and> tables_ok (kmemory s) pgdir T \<and>
     set fl \<inter> insert pgdir T = {}"

lemma kmem_ok_st32:
  assumes ok: "kmem_ok kend s fl" and b: "aligned b" "b \<notin> set fl" "off \<le> 4092"
  shows "kmem_ok kend (s\<lparr>kmemory := st32 (b + off) w (kmemory s)\<rparr>) fl"
proof -
  have "chain (st32 (b + off) w (kmemory s)) (freelist s) fl"
  proof (rule chain_cong)
    show "chain (kmemory s) (freelist s) fl" using ok by (simp add: kmem_ok_def)
    show "ld32 (st32 (b + off) w (kmemory s)) x = ld32 (kmemory s) x" if "x \<in> set fl" for x
      using ok that b ld32_st32_other [OF page_words_apart(1) [of x b 0 off]]
      by (auto simp: kmem_ok_def page_ok_def)
  qed
  moreover have "cli_ok (s\<lparr>kmemory := a\<rparr>) = cli_ok s" for a by (simp add: cli_ok_def)
  ultimately show ?thesis using ok by (simp add: kmem_ok_def)
qed

lemma kmem_ok_fill:
  assumes ok: "kmem_ok kend s fl" and b: "aligned b" "b \<notin> set fl"
  shows "kmem_ok kend (s\<lparr>kmemory := fill b c PGSIZE (kmemory s)\<rparr>) fl"
proof -
  have "chain (fill b c PGSIZE (kmemory s)) (freelist s) fl"
    by (rule chain_outside [of "kmemory s" _ _ b]) (use ok b in \<open>auto simp: kmem_ok_def page_ok_def same_outside_def fill_def\<close>)
  moreover have "cli_ok (s\<lparr>kmemory := a\<rparr>) = cli_ok s" for a by (simp add: cli_ok_def)
  ultimately show ?thesis using ok by (simp add: kmem_ok_def)
qed

lemma walk_alloc:
  assumes ok: "space_ok kend s pgdir fl T"
  obtains (full) "walkpgdir pgdir va True s = Ret (0, s)" "fl = []"
  | (entry) s' fl' T' where "walkpgdir pgdir va True s =
        Ret (P2V (PTE_ADDR (pde_at (kmemory s') pgdir (PDX va))) + 4 * PTX va, s')"
      "space_ok kend s' pgdir fl' T'" "pde_at (kmemory s') pgdir (PDX va) AND PTE_P \<noteq> 0"
      "pt_lookup (kmemory s') pgdir = pt_lookup (kmemory s) pgdir"
proof (cases "pde_at (kmemory s) pgdir (PDX va) AND PTE_P = 0")
  case False
  then show thesis using entry [of s fl T] ok by (simp add: walkpgdir_def pde_at_def Let_def)
next
  case True
  have o: "kmem_ok kend s fl" "tables_ok (kmemory s) pgdir T" "set fl \<inter> insert pgdir T = {}"
    using ok by (auto simp: space_ok_def)
  show thesis
  proof (cases fl)
    case Nil
    then show thesis using full kalloc_ok(1) [OF o(1)] True by (simp add: walkpgdir_def pde_at_def Let_def)
  next
    case (Cons g xs)
    note k = kalloc_ok(2) [OF o(1) Cons]
    then have g: "aligned g" "g \<notin> T" "g \<noteq> pgdir" "g \<noteq> 0" using o(3) Cons by (auto simp: page_ok_def)
    let ?s1 = "s\<lparr>freelist := ld32 (kmemory s) g\<rparr>"
    let ?w = "V2P g OR PTE_P OR PTE_W OR PTE_U"
    let ?s' = "?s1\<lparr>kmemory := st32 (pgdir + 4 * PDX va) ?w (fill g 0 PGSIZE (kmemory s))\<rparr>"
    note nt = new_table [OF o(2) index_bound(1) True g]
    have "kmem_ok kend (?s1\<lparr>kmemory := fill g 0 PGSIZE (kmemory ?s1)\<rparr>) xs"
      by (rule kmem_ok_fill) (use k g in auto)
    then have "kmem_ok kend (?s1\<lparr>kmemory := fill g 0 PGSIZE (kmemory ?s1)\<rparr>
        \<lparr>kmemory := st32 (pgdir + 4 * PDX va) ?w (kmemory (?s1\<lparr>kmemory := fill g 0 PGSIZE (kmemory ?s1)\<rparr>))\<rparr>) xs"
      by (rule kmem_ok_st32) (use o Cons index_bound(3) in \<open>auto simp: tables_ok_def\<close>)
    then have km: "kmem_ok kend ?s' xs" by simp
    have "walkpgdir pgdir va True s = Ret (g + 4 * PTX va, ?s')"
      using True k g(4) by (simp add: walkpgdir_def pde_at_def Let_def)
    then show thesis
      using entry [of ?s' xs "insert g T"] nt(1,2,6,7) km o(3) Cons k flag_bits(1) [of "V2P g"]
      by (auto simp: space_ok_def)
  qed
qed

lemma PGROUNDDOWN_page:
  assumes "aligned va"
  shows "PGROUNDDOWN va = va" "PGROUNDDOWN (va + PGSIZE - 1) = va"
proof -
  have eq: "PGROUNDDOWN x = PTE_ADDR x" for x by (simp add: PGROUNDDOWN_def PTE_ADDR_def)
  show "PGROUNDDOWN va = va" using PTE_ADDR_flags [OF assms, of 0] by (simp add: eq)
  have small: "(4095 :: uint) < 4096" by simp
  have "va + 4095 = va OR 4095"
    by (rule disjunctive_add) (use aligned_bit [OF assms] in \<open>auto simp: masks bit_mask_iff\<close>)
  then show "PGROUNDDOWN (va + PGSIZE - 1) = va"
    using PTE_ADDR_flags [OF assms small] by (simp add: eq add.commute)
qed

text \<open>
  C15: \<^verbatim>\<open>mappages\<close> maps one page and nothing else. On a page table whose tables are pages of their own
  and a virtual page that is not mapped, it returns; if a free page is at hand it succeeds, and
  then the page translates to the given physical page with the given permissions while every
  other virtual page translates as before; if it fails, no translation has changed.
\<close>

theorem map_page:
  assumes "space_ok kend s pgdir fl T" and "aligned va" and "pt_lookup (kmemory s) pgdir va = None"
  shows "\<exists>r s' fl' T'. mappages pgdir va PGSIZE pa perm s = Ret (r, s') \<and> space_ok kend s' pgdir fl' T' \<and>
    (fl \<noteq> [] \<longrightarrow> r = 0) \<and>
    (\<forall>va'. pt_lookup (kmemory s') pgdir va' =
       (if r = 0 \<and> PDX va' = PDX va \<and> PTX va' = PTX va then Some (pa OR perm OR PTE_P)
        else pt_lookup (kmemory s) pgdir va'))"
proof -
  have m: "mappages pgdir va PGSIZE pa perm s = mappages_loop (Suc 0) pgdir va va pa perm s"
    unfolding mappages_def PGROUNDDOWN_page [OF assms(2)] by (simp del: mappages_loop.simps)
  from assms(1) show ?thesis
  proof (cases rule: walk_alloc [where va = va])
    case full
    then show ?thesis unfolding m using assms(1) by auto
  next
    case (entry s' fl' T')
    let ?t = "P2V (PTE_ADDR (pde_at (kmemory s') pgdir (PDX va)))"
    have ok: "tables_ok (kmemory s') pgdir T'" "kmem_ok kend s' fl'" "set fl' \<inter> insert pgdir T' = {}"
      using entry(2) by (auto simp: space_ok_def)
    have w: "(pa OR perm OR PTE_P) AND PTE_P \<noteq> 0" by (rule flag_bits(2))
    note sp = set_pte [OF ok(1) entry(3) w]
    have t: "?t \<in> T'" "aligned ?t" "?t \<notin> set fl'" "?t \<noteq> 0" using sp(3,4) ok(1,3) by (auto simp: tables_ok_def)
    have nz: "?t + 4 * PTX va \<noteq> 0" by (rule aligned_nonzero [OF t(2,4) index_bound(4)])
    have none: "ld32 (kmemory s') (?t + 4 * PTX va) AND PTE_P = 0"
      using assms(3) entry(3,4) by (auto simp: pt_lookup_def Let_def fun_eq_iff split: if_splits)
    let ?s2 = "s'\<lparr>kmemory := st32 (?t + 4 * PTX va) (pa OR perm OR PTE_P) (kmemory s')\<rparr>"
    have "mappages pgdir va PGSIZE pa perm s = Ret (0, ?s2)"
      unfolding m using entry(1) nz none by (simp add: Let_def)
    moreover have "space_ok kend ?s2 pgdir fl' T'"
      using sp(2) ok kmem_ok_st32 [OF ok(2) t(2,3) index_bound(4)] by (simp add: space_ok_def)
    ultimately show ?thesis using sp(1) entry(4) by auto
  qed
qed

lemma space_example:
  "\<exists>(s :: mach) fl. space_ok 0x80110000 s 0x80500000 fl {} \<and> fl \<noteq> [] \<and> pt_lookup (kmemory s) 0x80500000 0x1000 = None"
proof -
  have pg: "page_ok 0x80110000 0x80400000" by (simp add: page_ok_def aligned_def V2P_def)
  obtain m where m: "kmem_ok 0x80110000 (kboot\<lparr>kmemory := m, freelist := 0x80400000\<rparr>) [0x80400000]"
    "same_outside 0x80400000 (kmemory kboot) m"
    using kfree_ok [OF kboot_ok pg] by auto
  have "pde_at m 0x80500000 i = 0" if "i < 1024" for i
  proof -
    have "4 * i \<le> 4092" using that by (simp add: word_less_nat_alt word_le_nat_alt unat_word_ariths)
    then have "ld32 m (0x80500000 + 4 * i) = ld32 (kmemory kboot) (0x80500000 + 4 * i)"
      by (intro ld32_outside [OF m(2)]) (simp_all add: aligned_def)
    then show ?thesis by (simp add: pde_at_def kboot_def ld32_bytes)
  qed
  then have "tables_ok m 0x80500000 {}" "pt_lookup m 0x80500000 0x1000 = None"
    using index_bound(1) by (auto simp: tables_ok_def aligned_def pt_lookup_def Let_def)
  then show ?thesis using m(1)
    by (intro exI [of _ "kboot\<lparr>kmemory := m, freelist := 0x80400000\<rparr>"] exI [of _ "[0x80400000]"])
       (simp add: space_ok_def)
qed

lemma map_page_witness:
  "\<exists>(s :: mach) s'. mappages 0x80500000 0x1000 PGSIZE 0x600000 PTE_W s = Ret (0, s') \<and>
     pt_lookup (kmemory s') 0x80500000 0x1000 = Some (0x600000 OR PTE_W OR PTE_P)"
proof -
  obtain s :: mach and fl where s: "space_ok 0x80110000 s 0x80500000 fl {}" "fl \<noteq> []"
    "pt_lookup (kmemory s) 0x80500000 0x1000 = None" using space_example by blast
  have "aligned 0x1000" by (simp add: aligned_def)
  from map_page [OF s(1) this s(3), of "0x600000" PTE_W] s(2) show ?thesis by fastforce
qed

subsection \<open>Reading and writing user memory\<close>

lemma uva2ka_lookup:
  assumes "tables_ok (kmemory s) pgdir T" and "pde_at (kmemory s) pgdir (PDX va) AND PTE_P \<noteq> 0"
  shows "uva2ka pgdir va s =
    Ret (case pt_lookup (kmemory s) pgdir va of
           None \<Rightarrow> 0
         | Some e \<Rightarrow> if e AND PTE_U = 0 then 0 else P2V (PTE_ADDR e))"
proof -
  let ?t = "P2V (PTE_ADDR (pde_at (kmemory s) pgdir (PDX va)))"
  have "?t \<in> T" "aligned ?t" using assms index_bound(1) by (auto simp: tables_ok_def aligned_PTE_ADDR)
  then have "?t + 4 * PTX va \<noteq> 0"
    using assms(1) by (intro aligned_nonzero index_bound) (auto simp: tables_ok_def)
  then show ?thesis
    using assms(2) by (auto simp: uva2ka_def walkpgdir_def pt_lookup_def pde_at_def Let_def)
qed

text \<open>
  C16: pages without the user bit are protected from \<^verbatim>\<open>copyout\<close>. \<^verbatim>\<open>uva2ka\<close>, and with it \<^verbatim>\<open>copyout\<close>, finds a
  kernel address exactly for the pages whose entry is present and has the user bit; for every
  other page of a table that exists \<^verbatim>\<open>copyout\<close> fails with minus one and changes nothing.
\<close>

theorem copyout_protected:
  assumes "tables_ok (kmemory s) pgdir T" and "pde_at (kmemory s) pgdir (PDX (PGROUNDDOWN va)) AND PTE_P \<noteq> 0"
    and "case pt_lookup (kmemory s) pgdir (PGROUNDDOWN va) of None \<Rightarrow> True | Some e \<Rightarrow> e AND PTE_U = 0"
    and "buf \<noteq> []"
  shows "copyout pgdir va buf s = Ret (- 1, s)"
  using uva2ka_lookup [OF assms(1,2)] assms(3,4)
  by (auto simp: copyout_def Let_def split: option.splits)

lemma copyout_protected_witness:
  "\<exists>s :: mach. copyout 0x80500000 0x1000 [1, 2, 3] s = Ret (- 1, s)"
proof -
  obtain s :: mach and fl where s: "space_ok 0x80110000 s 0x80500000 fl {}" "fl \<noteq> []"
    "pt_lookup (kmemory s) 0x80500000 0x1000 = None" using space_example by blast
  have r: "PGROUNDDOWN 0x1000 = 0x1000" by (rule PGROUNDDOWN_page) (simp add: aligned_def)
  from s(1) show ?thesis
  proof (cases rule: walk_alloc [where va = "0x1000"])
    case full
    with s(2) show ?thesis by simp
  next
    case (entry s' fl' T')
    then have "tables_ok (kmemory s') 0x80500000 T'" by (simp add: space_ok_def)
    from copyout_protected [OF this, of "0x1000" "[1, 2, 3]"] entry s(3) r show ?thesis by (auto simp: exI [of _ s'])
  qed
qed

end
