(* ===== verification/Proc.thy ===== *)
theory Proc
  imports Sched Vm Digits
begin

text \<open>
  The process table, \<^verbatim>\<open>xv6-public/proc.c\<close>: allocation, growing, waiting, killing and scheduling of
  processes, and the calls that report on them. What the real-time clock shows is an argument
  (\<open>now\<close>), so are the addresses of \<^verbatim>\<open>forkret\<close> and \<^verbatim>\<open>trapret\<close>, and \<open>kend\<close>, the end of the kernel. What
  \<^verbatim>\<open>cprintf\<close> prints is returned as text; the console lock it takes and releases is left out.
\<close>

subsection \<open>Allocation\<close>

definition pinit :: "'a mach_scheme \<Rightarrow> 'a mach_scheme" where
  "pinit s = initlock LPtable s"

text \<open>The first slot of the table with a property, where the loops over the table stop.\<close>

fun find_proc :: "(proc \<Rightarrow> bool) \<Rightarrow> nat \<Rightarrow> proc list \<Rightarrow> nat option" where
  "find_proc P i [] = None"
| "find_proc P i (p # ps) = (if P p then Some i else find_proc P (Suc i) ps)"

text \<open>
  The kernel stack holds the trap frame of 76 bytes at its top, below it the return address of
  \<^verbatim>\<open>forkret\<close> and the context of 20 bytes, whose last word is the program counter. \<^verbatim>\<open>nextpid\<close> is an \<^verbatim>\<open>int\<close>
  that overflows after the largest one.
\<close>

definition allocproc :: "uint \<Rightarrow> uint \<Rightarrow> rtcdate \<Rightarrow> rtcdate \<Rightarrow> 'a mach_scheme \<Rightarrow> (nat option \<times> 'a mach_scheme) outcome" where
  "allocproc forkret trapret now now' s =
     obind (acquire LPtable s) (\<lambda>s1.
       case find_proc (\<lambda>p. p_state p = UNUSED) 0 (procs s1) of
         None \<Rightarrow> obind (release LPtable s1) (\<lambda>s2. Ret (None, s2))
       | Some i \<Rightarrow>
           obind (release LPtable
             ((set_proc i (\<lambda>p. p\<lparr>p_created := now, p_switchedOut := now', p_state := EMBRYO,
                p_pid := nextpid s1\<rparr>) s1)\<lparr>nextpid := int32 (nextpid s1 + 1)\<rparr>)) (\<lambda>s2.
           obind (kalloc s2) (\<lambda>(ks, s3).
             let s4 = set_proc i (\<lambda>p. p\<lparr>p_kstack := ks\<rparr>) s3
             in if ks = 0 then Ret (None, set_proc i (\<lambda>p. p\<lparr>p_state := UNUSED\<rparr>) s4)
                else let sp = ks + of_nat KSTACKSIZE - 76 - 4; ctx = sp - 20
                     in Ret (Some i, set_proc i (\<lambda>p. p\<lparr>p_context_eip := forkret\<rparr>)
                          (s4\<lparr>kmemory := st32 (ctx + 16) forkret (fill ctx 0 20 (st32 sp trapret (kmemory s4)))\<rparr>)))))"

text \<open>\<^verbatim>\<open>heapSize\<close> is an \<^verbatim>\<open>int\<close>; a sum that overflows wraps around.\<close>

definition growproc :: "uint \<Rightarrow> int \<Rightarrow> 'a mach_scheme \<Rightarrow> (int \<times> 'a mach_scheme) outcome" where
  "growproc kend n s =
     obind (myproc s) (\<lambda>i.
       let p = procs s ! i; sz = p_sz p;
           finish = (\<lambda>(sz', s1).
             if n \<noteq> 0 \<and> sz' = 0 then Ret (- 1, s1)
             else let h = int32 (p_heapSize p + n);
                      s2 = set_proc i (\<lambda>q. q\<lparr>p_sz := sz', p_heapSize := (if h \<ge> 0 then h else p_heapSize q)\<rparr>) s1
                  in obind (switchuvm (Some i) s2) (\<lambda>s3. Ret (0, s3)))
       in if n > 0 then obind (allocuvm kend (p_pgdir p) sz (sz + of_int n) s) finish
          else if n < 0 then obind (deallocuvm kend (p_pgdir p) sz (sz + of_int n) s) finish
          else finish (sz, s))"

subsection \<open>Waiting for children\<close>

text \<open>
  \<^verbatim>\<open>wait\<close> until it returns or has to sleep. Its results are the process id, the exit status it stores
  through its argument, or that it sleeps on the process itself.
\<close>

datatype 's wresult = Reaped int int 's | NoChild 's | WaitSleep 's

definition reap :: "uint \<Rightarrow> nat \<Rightarrow> 'a mach_scheme \<Rightarrow> 'a mach_scheme wresult outcome" where
  "reap kend i s =
     (let p = procs s ! i
      in obind (kfree kend (p_kstack p) s) (\<lambda>s1.
         obind (freevm kend (p_pgdir p) (set_proc i (\<lambda>q. q\<lparr>p_kstack := 0\<rparr>) s1)) (\<lambda>s2.
         obind (release LPtable (set_proc i (\<lambda>q. q\<lparr>p_pid := 0, p_parent := None, p_name := [],
                  p_killed := False, p_state := UNUSED\<rparr>) s2)) (\<lambda>s3.
         Ret (Reaped (p_pid p) (p_exitstatus p) s3)))))"

definition wait_scan :: "uint \<Rightarrow> nat \<Rightarrow> 'a mach_scheme \<Rightarrow> 'a mach_scheme wresult outcome" where
  "wait_scan kend me s =
     (case find_proc (\<lambda>p. p_parent p = Some me \<and> p_state p = ZOMBIE) 0 (procs s) of
        Some i \<Rightarrow> reap kend i s
      | None \<Rightarrow>
          if (\<forall>p\<in>set (procs s). p_parent p \<noteq> Some me) \<or> p_killed (procs s ! me)
          then obind (release LPtable s) (\<lambda>s1. Ret (NoChild s1))
          else obind (sleep_enter (ChProc me) LPtable s) (\<lambda>s1. Ret (WaitSleep s1)))"

definition wait :: "uint \<Rightarrow> 'a mach_scheme \<Rightarrow> 'a mach_scheme wresult outcome" where
  "wait kend s =
     obind (myproc s) (\<lambda>me. obind (acquire LPtable s) (\<lambda>s1. wait_scan kend me s1))"

text \<open>The process runs again after its \<^verbatim>\<open>sleep\<close>, with \<^verbatim>\<open>ptable.lock\<close> held.\<close>

definition wait_resume :: "uint \<Rightarrow> 'a mach_scheme \<Rightarrow> 'a mach_scheme wresult outcome" where
  "wait_resume kend s =
     obind (myproc s) (\<lambda>me. obind (sleep_leave LPtable s) (\<lambda>s1. wait_scan kend me s1))"

subsection \<open>Killing and scheduling\<close>

definition kill :: "int \<Rightarrow> 'a mach_scheme \<Rightarrow> (int \<times> 'a mach_scheme) outcome" where
  "kill pid s =
     obind (acquire LPtable s) (\<lambda>s1.
       case find_proc (\<lambda>p. p_pid p = pid) 0 (procs s1) of
         Some i \<Rightarrow>
           obind (release LPtable (set_proc i (\<lambda>p. p\<lparr>p_killed := True,
               p_state := (if p_state p = SLEEPING then RUNNABLE else p_state p)\<rparr>) s1)) (\<lambda>s2. Ret (0, s2))
       | None \<Rightarrow> obind (release LPtable s1) (\<lambda>s2. Ret (- 1, s2)))"

text \<open>
  The scheduler's loop over the table up to the switch to a process: from slot \<open>i\<close> on, the next
  process that can run is chosen. \<open>None\<close> is the end of the pass. When the process switches back,
  the loop goes on behind it.
\<close>

definition scheduler_pick :: "rtcdate \<Rightarrow> nat \<Rightarrow> 'a mach_scheme \<Rightarrow> (nat option \<times> 'a mach_scheme) outcome" where
  "scheduler_pick now i s =
     (case find_proc (\<lambda>p. p_state p = RUNNABLE) i (drop i (procs s)) of
        None \<Rightarrow> obind (release LPtable s) (\<lambda>s1. Ret (None, s1))
      | Some j \<Rightarrow>
          obind (switchuvm (Some j) (s\<lparr>cur := Some j\<rparr>)) (\<lambda>s1.
          Ret (Some j, set_proc j (\<lambda>p. p\<lparr>p_switchedIn := now, p_state := RUNNING\<rparr>) s1)))"

definition scheduler_pass :: "rtcdate \<Rightarrow> 'a mach_scheme \<Rightarrow> (nat option \<times> 'a mach_scheme) outcome" where
  "scheduler_pass now s = obind (acquire LPtable (s\<lparr>iflag := True\<rparr>)) (scheduler_pick now 0)"

definition scheduler_back :: "rtcdate \<Rightarrow> nat \<Rightarrow> 'a mach_scheme \<Rightarrow> (nat option \<times> 'a mach_scheme) outcome" where
  "scheduler_back now j s = scheduler_pick now (Suc j) (s\<lparr>cur := None\<rparr>)"

subsection \<open>Reports\<close>

definition state_name :: "procstate \<Rightarrow> string" where
  "state_name st = (case st of UNUSED \<Rightarrow> ''UNUSED'' | EMBRYO \<Rightarrow> ''EMBRYO'' | SLEEPING \<Rightarrow> ''SLEEPING''
     | RUNNABLE \<Rightarrow> ''RUNNABLE'' | RUNNING \<Rightarrow> ''RUNNING'' | ZOMBIE \<Rightarrow> ''ZOMBIE'')"

text \<open>The column is 20 wide; \<^verbatim>\<open>while(width--)\<close> counts a negative width down through all integers.\<close>

definition psinfo_line :: "proc \<Rightarrow> string" where
  "psinfo_line p =
     (if p_pid p = 0 then []
      else p_name p @ replicate (nat ((20 - int (length (p_name p))) mod 2 ^ 32)) CHR '' '' @
           show_int (p_pid p) @ ''  '' @ state_name (p_state p) @ [CHR 0x0A])"

definition psinfo :: "'a mach_scheme \<Rightarrow> (int \<times> string \<times> 'a mach_scheme) outcome" where
  "psinfo s =
     obind (acquire LPtable s) (\<lambda>s1.
     obind (release LPtable s1) (\<lambda>s2. Ret (0, concat (map psinfo_line (procs s1)), s2)))"

definition memAlloc :: "int \<Rightarrow> 'a mach_scheme \<Rightarrow> (int \<times> string \<times> 'a mach_scheme) outcome" where
  "memAlloc pid s =
     obind (acquire LPtable s) (\<lambda>s1.
     let out = concat (map (\<lambda>p. ''Memory allocated: '' @ show_int (p_heapSize p) @ '' '' @ [CHR 0x0A])
                 (filter (\<lambda>p. p_pid p = pid) (procs s1)))
     in obind (release LPtable s1) (\<lambda>s2. Ret (0, out, s2)))"

definition numOpenFiles :: "int \<Rightarrow> 'a mach_scheme \<Rightarrow> (int \<times> string \<times> 'a mach_scheme) outcome" where
  "numOpenFiles pid s =
     obind (acquire LPtable s) (\<lambda>s1.
     let nof = sum_list (map (\<lambda>p. length (filter (\<lambda>f. f \<noteq> None) (p_ofile p)))
                 (filter (\<lambda>p. p_pid p = pid) (procs s1)))
     in obind (release LPtable s1) (\<lambda>s2.
        Ret (0, ''Number of files opened: '' @ show_int (int nof) @ [CHR 0x0A], s2)))"

definition date_line :: "string \<Rightarrow> rtcdate \<Rightarrow> string" where
  "date_line what d = what @ '': '' @ show_int (sint (second d)) @ '':'' @ show_int (sint (minute d)) @
     '':'' @ show_int (sint (hour d)) @ '' '' @ show_int (sint (day d)) @ '':'' @
     show_int (sint (month d)) @ '':'' @ show_int (sint (year d)) @ '' '' @ [CHR 0x0A]"

text \<open>
  The loop of \<^verbatim>\<open>getprocesstimedetails\<close> returns what it prints, and whether it ran to its end: the
  early return leaves the function with the lock held.
\<close>

fun time_details :: "int \<Rightarrow> proc list \<Rightarrow> string \<times> bool" where
  "time_details pid [] = ([], True)"
| "time_details pid (p # ps) =
     (if p_pid p = pid
      then if year (p_created p) = 0 \<or> year (p_switchedOut p) = 0 \<or> year (p_switchedIn p) = 0 then ([], False)
           else apfst (\<lambda>out. date_line ''processCreationDateTime'' (p_created p) @
                  date_line ''processLastContextSwitchedOutDateTime'' (p_switchedOut p) @
                  date_line ''processLastContextSwitchedInDateTime'' (p_switchedIn p) @ out) (time_details pid ps)
      else time_details pid ps)"

definition getprocesstimedetails :: "int \<Rightarrow> 'a mach_scheme \<Rightarrow> (int \<times> string \<times> 'a mach_scheme) outcome" where
  "getprocesstimedetails pid s =
     obind (acquire LPtable s) (\<lambda>s1.
       let (out, complete) = time_details pid (procs s1)
       in if complete then obind (release LPtable s1) (\<lambda>s2. Ret (0, out, s2)) else Ret (- 1, out, s1))"

subsection \<open>The table under its operations\<close>

lemma find_proc_Some:
  "find_proc P i ps = Some j \<Longrightarrow>
   i \<le> j \<and> j < i + length ps \<and> P (ps ! (j - i)) \<and> (\<forall>k<j - i. \<not> P (ps ! k))"
proof (induction ps arbitrary: i)
  case (Cons p ps)
  show ?case
  proof (cases "P p")
    case False
    then have f: "find_proc P (Suc i) ps = Some j" using Cons.prems by simp
    note ih = Cons.IH [OF f]
    then obtain d where d: "j - i = Suc d" "j - Suc i = d" by (metis Suc_diff_le Suc_le_eq diff_Suc_Suc)
    show ?thesis using ih False by (auto simp: d nth_Cons split: nat.splits)
  qed (use Cons.prems in auto)
qed simp

lemma find_proc_first:
  "P (ps ! j) \<Longrightarrow> j < length ps \<Longrightarrow> \<forall>k<j. \<not> P (ps ! k) \<Longrightarrow> find_proc P i ps = Some (i + j)"
proof (induction ps arbitrary: i j)
  case (Cons p ps)
  show ?case
  proof (cases j)
    case (Suc d)
    have "\<not> P p" using Cons.prems(3) Suc by force
    moreover have "find_proc P (Suc i) ps = Some (Suc i + d)"
      using Cons.prems Suc by (intro Cons.IH) auto
    ultimately show ?thesis using Suc by simp
  qed (use Cons.prems in simp)
qed simp

lemma set_proc_fields [simp]:
  "nextpid (set_proc i f s) = nextpid s" "locks (set_proc i f s) = locks s" "ncli (set_proc i f s) = ncli s"
  "iflag (set_proc i f s) = iflag s" "intena (set_proc i f s) = intena s" "cpu_id (set_proc i f s) = cpu_id s"
  "kmemory (set_proc i f s) = kmemory s" "freelist (set_proc i f s) = freelist s"
  "use_lock (set_proc i f s) = use_lock s" "cur (set_proc i f s) = cur s"
  "procs (set_proc i f s) = (procs s)[i := f (procs s ! i)]"
  by (simp_all add: set_proc_def)

text \<open>What the operations below the table leave alone.\<close>

definition keeps :: "'a mach_scheme \<Rightarrow> 'a mach_scheme \<Rightarrow> bool" where
  "keeps s t \<longleftrightarrow> procs t = procs s \<and> nextpid t = nextpid s"

lemma keeps_refl [simp]: "keeps s s"
  by (simp add: keeps_def)

lemma keeps_trans: "keeps s t \<Longrightarrow> keeps t u \<Longrightarrow> keeps s u"
  by (simp add: keeps_def)

lemma pushcli_keeps: "procs (pushcli s) = procs s" "nextpid (pushcli s) = nextpid s"
  by (simp_all add: pushcli_def Let_def)

lemma popcli_keeps: "popcli s = Ret t \<Longrightarrow> keeps s t"
  by (auto simp: popcli_def keeps_def Let_def split: if_splits)

lemma holding_keeps: "holding l s = Ret (r, t) \<Longrightarrow> keeps s t"
  by (auto simp: holding_def Let_def keeps_def pushcli_keeps dest!: popcli_keeps)

lemma acquire_keeps: "acquire l s = Ret t \<Longrightarrow> keeps s t"
  by (auto simp: acquire_def Let_def keeps_def pushcli_keeps split: if_splits dest!: holding_keeps)

lemma release_keeps: "release l s = Ret t \<Longrightarrow> keeps s t"
  by (auto simp: release_def Let_def keeps_def split: if_splits dest!: holding_keeps popcli_keeps)

lemma kmem_keeps: "kmem_lock s = Ret t \<Longrightarrow> keeps s t" "kmem_unlock s = Ret t \<Longrightarrow> keeps s t"
  by (auto simp: kmem_lock_def kmem_unlock_def split: if_splits dest: acquire_keeps release_keeps)

lemma kalloc_keeps: "kalloc s = Ret (r, t) \<Longrightarrow> keeps s t"
  by (auto simp: kalloc_def Let_def keeps_def split: if_splits dest!: kmem_keeps)

lemma kfree_keeps: "kfree kend v s = Ret t \<Longrightarrow> keeps s t"
  by (auto simp: kfree_def Let_def keeps_def split: if_splits dest!: kmem_keeps)

lemma walkpgdir_keeps: "walkpgdir pgdir va alloc s = Ret (r, t) \<Longrightarrow> keeps s t"
  by (auto simp: walkpgdir_def Let_def keeps_def split: if_splits dest!: kalloc_keeps)

lemma deallocuvm_loop_keeps: "deallocuvm_loop n kend pgdir a oldsz s = Ret t \<Longrightarrow> keeps s t"
proof (induction n kend pgdir a oldsz s rule: deallocuvm_loop.induct)
  case (2 n kend pgdir a oldsz s)
  show ?case
  proof (cases "a < oldsz")
    case True
    then obtain pte s1 where w: "walkpgdir pgdir a False s = Ret (pte, s1)" using "2.prems" by auto
    have k: "keeps s s1" by (rule walkpgdir_keeps [OF w])
    consider "pte = 0" | "pte \<noteq> 0" "ld32 (kmemory s1) pte AND PTE_P = 0"
      | s2 where "pte \<noteq> 0" "ld32 (kmemory s1) pte AND PTE_P \<noteq> 0"
          "kfree kend (P2V (PTE_ADDR (ld32 (kmemory s1) pte))) s1 = Ret s2"
          "PTE_ADDR (ld32 (kmemory s1) pte) \<noteq> 0"
      using "2.prems" True w by (auto simp: Let_def split: if_splits)
    then show ?thesis
    proof cases
      case 1
      then have "keeps s1 t" using "2.prems" True w "2.IH"(1) by simp
      then show ?thesis using k keeps_trans by blast
    next
      case 2
      then have "keeps s1 t" using "2.prems" True w "2.IH"(3) by simp
      then show ?thesis using k keeps_trans by blast
    next
      case 3
      have "keeps (s2\<lparr>kmemory := st32 pte 0 (kmemory s2)\<rparr>) t"
        using "2.prems" True w 3 "2.IH"(2) by (simp add: Let_def)
      then show ?thesis using k kfree_keeps [OF 3(3)] by (simp add: keeps_def)
    qed
  qed (use "2.prems" in simp)
qed simp

lemma free_tables_keeps: "free_tables kend pgdir i n s = Ret t \<Longrightarrow> keeps s t"
proof (induction n arbitrary: i s)
  case (Suc n)
  then show ?case by (auto simp: Let_def split: if_splits dest!: kfree_keeps intro: keeps_trans)
qed simp

lemma freevm_keeps: "freevm kend pgdir s = Ret t \<Longrightarrow> keeps s t"
  by (auto simp: freevm_def deallocuvm_def split: if_splits
      dest!: kfree_keeps free_tables_keeps deallocuvm_loop_keeps intro: keeps_trans)

subsection \<open>Process identifiers\<close>

definition pids :: "'a mach_scheme \<Rightarrow> int list" where
  "pids s = map p_pid (procs s)"

text \<open>Identifiers in use are below the next one, and no two slots share one, except for zero.\<close>

definition pid_ok :: "int \<Rightarrow> int list \<Rightarrow> bool" where
  "pid_ok n xs \<longleftrightarrow> 1 \<le> n \<and> (\<forall>i<length xs. 0 \<le> xs ! i \<and> xs ! i < n) \<and>
     (\<forall>i<length xs. \<forall>j<length xs. i \<noteq> j \<longrightarrow> xs ! i = xs ! j \<longrightarrow> xs ! i = 0)"

lemma pid_ok_update:
  assumes ok: "pid_ok n xs" and v: "n \<le> m" "0 \<le> v" "v < m" "v = 0 \<or> n \<le> v"
  shows "pid_ok m (xs[i := v])"
proof -
  have nth: "xs[i := v] ! k = (if k = i then v else xs ! k)" if "k < length xs" for k
    using that by (cases "k = i") simp_all
  have range: "0 \<le> xs ! k" "xs ! k < n" if "k < length xs" for k using ok that by (auto simp: pid_ok_def)
  have uniq: "xs ! k = 0" if "k < length xs" "l < length xs" "k \<noteq> l" "xs ! k = xs ! l" for k l
    using ok that unfolding pid_ok_def by blast
  have "xs[i := v] ! k = 0" if kl: "k < length xs" "l < length xs" "k \<noteq> l" "xs[i := v] ! k = xs[i := v] ! l" for k l
    using kl(4) uniq [OF kl(1-3)] range [OF kl(1)] range [OF kl(2)] v(4) kl(3)
    unfolding nth [OF kl(1)] nth [OF kl(2)] by (auto split: if_splits)
  moreover have "0 \<le> xs[i := v] ! k \<and> xs[i := v] ! k < m" if "k < length xs" for k
    using range [OF that] v by (simp add: nth [OF that])
  moreover have "1 \<le> m" using ok v(1) by (simp add: pid_ok_def)
  ultimately show ?thesis unfolding pid_ok_def length_list_update by blast
qed

lemma pid_ok_new: "pid_ok n xs \<Longrightarrow> pid_ok (n + 1) (xs[i := n])"
  by (rule pid_ok_update) (auto simp: pid_ok_def)

lemma pid_ok_zero: "pid_ok n xs \<Longrightarrow> pid_ok n (xs[i := 0])"
  by (rule pid_ok_update) (auto simp: pid_ok_def)

lemma pids_memory [simp]: "pids (s\<lparr>kmemory := m\<rparr>) = pids s"
  by (simp add: pids_def)

lemma pids_set_proc: "pids (set_proc i f s) = (pids s)[i := p_pid (f (procs s ! i))]"
  by (simp add: pids_def map_update)

lemma pids_set_proc_same: "(\<And>p. p_pid (f p) = p_pid p) \<Longrightarrow> pids (set_proc i f s) = pids s"
  unfolding pids_set_proc by (cases "i < length (procs s)") (simp_all add: pids_def list_update_same_conv list_update_beyond not_less)

lemma keeps_pids: "keeps s t \<Longrightarrow> pids t = pids s \<and> nextpid t = nextpid s"
  by (simp add: keeps_def pids_def)

lemma allocproc_pids:
  assumes "allocproc fr tr now now' s = Ret (r, t)" and "pid_ok (nextpid s) (pids s)"
    and "nextpid s < 2 ^ 31 - 1"
  shows "pid_ok (nextpid t) (pids t) \<and> nextpid t \<le> nextpid s + 1"
proof -
  obtain s1 where a: "acquire LPtable s = Ret s1" using assms(1) by (auto simp: allocproc_def)
  note k1 = keeps_pids [OF acquire_keeps [OF a]]
  show ?thesis
  proof (cases "find_proc (\<lambda>p. p_state p = UNUSED) 0 (procs s1)")
    case None
    then have "release LPtable s1 = Ret t" using assms(1) a by (auto simp: allocproc_def)
    from keeps_pids [OF release_keeps [OF this]] k1 assms(2) show ?thesis by simp
  next
    case (Some i)
    define u where "u = (set_proc i (\<lambda>p. p\<lparr>p_created := now, p_switchedOut := now', p_state := EMBRYO,
                p_pid := nextpid s1\<rparr>) s1)\<lparr>nextpid := int32 (nextpid s1 + 1)\<rparr>"
    obtain s2 ks s3 where st: "release LPtable u = Ret s2" "kalloc s2 = Ret (ks, s3)"
      and t: "pids t = pids s3" "nextpid t = nextpid s3"
      using assms(1) a Some
      by (auto simp: allocproc_def u_def [symmetric] Let_def pids_set_proc_same split: if_splits)
    have "int32 (nextpid s1 + 1) = nextpid s1 + 1"
      using assms(2,3) k1 by (intro int32_id) (simp_all add: pid_ok_def)
    then have u: "pids u = (pids s1)[i := nextpid s1]" "nextpid u = nextpid s1 + 1"
      by (simp_all add: u_def pids_def map_update)
    then have "pid_ok (nextpid u) (pids u)" using pid_ok_new k1 assms(2) by simp
    then show ?thesis
      using u(2) k1 keeps_pids [OF release_keeps [OF st(1)]] keeps_pids [OF kalloc_keeps [OF st(2)]] t by simp
  qed
qed

lemma reap_pids:
  assumes "reap kend i s = Ret (Reaped pid x t)" and "pid_ok (nextpid s) (pids s)"
  shows "pid_ok (nextpid t) (pids t) \<and> nextpid t = nextpid s"
proof -
  obtain s1 s2 where st: "kfree kend (p_kstack (procs s ! i)) s = Ret s1"
    "freevm kend (p_pgdir (procs s ! i)) (set_proc i (\<lambda>q. q\<lparr>p_kstack := 0\<rparr>) s1) = Ret s2"
    "release LPtable (set_proc i (\<lambda>q. q\<lparr>p_pid := 0, p_parent := None, p_name := [],
       p_killed := False, p_state := UNUSED\<rparr>) s2) = Ret t"
    using assms(1) by (auto simp: reap_def Let_def)
  have s2: "pids s2 = pids s" "nextpid s2 = nextpid s"
    using keeps_pids [OF kfree_keeps [OF st(1)]] keeps_pids [OF freevm_keeps [OF st(2)]]
    by (simp_all add: pids_set_proc_same)
  then have "pid_ok (nextpid s2) ((pids s2)[i := 0])" using pid_ok_zero assms(2) by simp
  then show ?thesis using s2(2) keeps_pids [OF release_keeps [OF st(3)]] by (simp add: pids_set_proc)
qed

fun after_wait :: "'s wresult \<Rightarrow> 's" where
  "after_wait (Reaped pid x s) = s"
| "after_wait (NoChild s) = s"
| "after_wait (WaitSleep s) = s"

lemma wait_scan_pids:
  assumes "wait_scan kend me s = Ret r" and "pid_ok (nextpid s) (pids s)"
  shows "pid_ok (nextpid (after_wait r)) (pids (after_wait r)) \<and> nextpid (after_wait r) = nextpid s"
proof (cases "find_proc (\<lambda>p. p_parent p = Some me \<and> p_state p = ZOMBIE) 0 (procs s)")
  case None
  have sl: "pids t = pids s \<and> nextpid t = nextpid s" if "sleep_enter (ChProc me) LPtable s = Ret t" for t
    using that by (auto simp: sleep_enter_def pids_set_proc_same split: option.splits)
  consider t where "release LPtable s = Ret t" "r = NoChild t"
    | t where "sleep_enter (ChProc me) LPtable s = Ret t" "r = WaitSleep t"
    using assms(1) None by (auto simp: wait_scan_def split: if_splits)
  then show ?thesis
  proof cases
    case 1
    then show ?thesis using keeps_pids [OF release_keeps [OF 1(1)]] assms(2) by simp
  next
    case 2
    then show ?thesis using sl [OF 2(1)] assms(2) by simp
  qed
next
  case (Some i)
  then have "reap kend i s = Ret r" using assms(1) by (simp add: wait_scan_def)
  moreover from this obtain pid x t where "r = Reaped pid x t" by (auto simp: reap_def Let_def)
  ultimately show ?thesis using reap_pids assms(2) by fastforce
qed

fun proc_init :: "nat \<times> 'a mach_scheme \<Rightarrow> bool" where
  "proc_init (n, s) \<longleftrightarrow> n = 0 \<and> procs s = replicate NPROC zero_proc \<and> nextpid s = 1"

text \<open>
  The steps of the table, with the number of the calls of \<^verbatim>\<open>allocproc\<close> so far. Code that is not
  one of the operations never assigns an identifier; it may change everything else.
\<close>

inductive proc_step :: "uint \<Rightarrow> nat \<times> 'a mach_scheme \<Rightarrow> nat \<times> 'a mach_scheme \<Rightarrow> bool" for kend where
  ps_alloc: "allocproc fr tr now now' s = Ret (r, t) \<Longrightarrow> proc_step kend (n, s) (Suc n, t)"
| ps_wait: "wait kend s = Ret r \<Longrightarrow> proc_step kend (n, s) (n, after_wait r)"
| ps_resume: "wait_resume kend s = Ret r \<Longrightarrow> proc_step kend (n, s) (n, after_wait r)"
| ps_kill: "kill pid s = Ret (k, t) \<Longrightarrow> proc_step kend (n, s) (n, t)"
| ps_wakeup: "wakeup c s = Ret t \<Longrightarrow> proc_step kend (n, s) (n, t)"
| ps_other: "pids t = pids s \<Longrightarrow> nextpid t = nextpid s \<Longrightarrow> proc_step kend (n, s) (n, t)"

text \<open>Until \<^verbatim>\<open>nextpid\<close> overflows the identifiers handed out are new.\<close>

fun pids_inv :: "nat \<times> 'a mach_scheme \<Rightarrow> bool" where
  "pids_inv (n, s) \<longleftrightarrow> (n < 2 ^ 31 - 1 \<longrightarrow> pid_ok (nextpid s) (pids s) \<and> nextpid s \<le> int n + 1)"

lemma kill_pids: "kill pid s = Ret (k, t) \<Longrightarrow> pids t = pids s \<and> nextpid t = nextpid s"
  by (auto simp: kill_def pids_set_proc_same split: option.splits
      dest!: keeps_pids [OF acquire_keeps] keeps_pids [OF release_keeps])

lemma wakeup_pids: "wakeup c s = Ret t \<Longrightarrow> pids t = pids s \<and> nextpid t = nextpid s"
proof -
  assume "wakeup c s = Ret t"
  then obtain s1 where "acquire LPtable s = Ret s1" "release LPtable (wakeup1 c s1) = Ret t"
    by (auto simp: wakeup_def)
  moreover have "pids (wakeup1 c s1) = pids s1" "nextpid (wakeup1 c s1) = nextpid s1"
    by (simp_all add: wakeup1_def pids_def)
  ultimately show ?thesis using keeps_pids [OF acquire_keeps] keeps_pids [OF release_keeps] by metis
qed

lemma wait_pids:
  assumes "pid_ok (nextpid s) (pids s)"
  shows "wait kend s = Ret r \<Longrightarrow> pid_ok (nextpid (after_wait r)) (pids (after_wait r)) \<and> nextpid (after_wait r) = nextpid s"
    and "wait_resume kend s = Ret r \<Longrightarrow> pid_ok (nextpid (after_wait r)) (pids (after_wait r)) \<and> nextpid (after_wait r) = nextpid s"
proof -
  assume "wait kend s = Ret r"
  then obtain me s1 where "acquire LPtable s = Ret s1" "wait_scan kend me s1 = Ret r"
    by (auto simp: wait_def)
  then show "pid_ok (nextpid (after_wait r)) (pids (after_wait r)) \<and> nextpid (after_wait r) = nextpid s"
    using keeps_pids [OF acquire_keeps] wait_scan_pids assms by metis
next
  assume "wait_resume kend s = Ret r"
  then obtain me s1 where "sleep_leave LPtable s = Ret s1" and w: "wait_scan kend me s1 = Ret r"
    by (auto simp: wait_resume_def)
  then have s1: "pids s1 = pids s" "nextpid s1 = nextpid s"
    by (auto simp: sleep_leave_def Let_def pids_set_proc_same split: option.splits)
  then show "pid_ok (nextpid (after_wait r)) (pids (after_wait r)) \<and> nextpid (after_wait r) = nextpid s"
    using wait_scan_pids [OF w] assms by metis
qed

interpretation ptab: invariant_system proc_init "proc_step kend" pids_inv
  for kend :: uint
proof
  fix x :: "nat \<times> 'a mach_scheme"
  assume "proc_init x"
  then show "pids_inv x" by (cases x) (simp add: pid_ok_def pids_def zero_proc_def)
next
  fix x y :: "nat \<times> 'a mach_scheme"
  assume ok: "pids_inv x" and "proc_step kend x y"
  from this(2) show "pids_inv y"
  proof cases
    case ps_alloc
    then show ?thesis using allocproc_pids ok by fastforce
  next
    case (ps_wait s r n)
    then show ?thesis using wait_pids(1) ok by fastforce
  next
    case (ps_resume s r n)
    then show ?thesis using wait_pids(2) ok by fastforce
  next
    case ps_kill
    then show ?thesis using kill_pids ok by fastforce
  next
    case ps_wakeup
    then show ?thesis using wakeup_pids ok by fastforce
  next
    case ps_other
    then show ?thesis using ok by simp
  qed
qed

subsection \<open>Killing\<close>

definition killed_proc :: "proc \<Rightarrow> proc" where
  "killed_proc p = p\<lparr>p_killed := True, p_state := (if p_state p = SLEEPING then RUNNABLE else p_state p)\<rparr>"

lemma kill_found:
  assumes "cli_ok s" and "locks s LPtable = unlocked" and "find_proc (\<lambda>p. p_pid p = pid) 0 (procs s) = Some i"
  shows "kill pid s = Ret (0, set_proc i killed_proc s)"
  using assms by (simp add: kill_def killed_proc_def set_proc_def crit_simps fun_upd_idem)

text \<open>
  C18: \<^verbatim>\<open>kill\<close> reaches exactly the process it names. In every state the table can reach by allocating,
  reaping, killing and waking processes, with all other code running in between, the identifier
  of a process that is not zero belongs to no other slot: \<^verbatim>\<open>kill\<close> returns zero, marks this
  process, makes it runnable if it sleeps, and changes nothing else. This is so as long as
  \<^verbatim>\<open>allocproc\<close> has been called fewer than $2^{31} - 1$ times; after that many processes the
  \<^verbatim>\<open>int\<close> \<^verbatim>\<open>nextpid\<close> overflows and identifiers are used again.
\<close>

theorem kill_exactly:
  assumes "reachable proc_init (proc_step kend) (n, s)" and "n < 2 ^ 31 - 1"
    and "cli_ok s" and "locks s LPtable = unlocked"
    and "i < length (procs s)" and "p_pid (procs s ! i) = pid" and "pid \<noteq> 0"
  shows "kill pid s = Ret (0, set_proc i (\<lambda>p. p\<lparr>p_killed := True,
    p_state := (if p_state p = SLEEPING then RUNNABLE else p_state p)\<rparr>) s)"
proof -
  have ok: "pid_ok (nextpid s) (pids s)" using ptab.reachable_invar [OF assms(1)] assms(2) by simp
  have "p_pid (procs s ! k) \<noteq> pid" if "k < i" for k
  proof
    assume eq: "p_pid (procs s ! k) = pid"
    have "k < length (pids s)" "i < length (pids s)" "k \<noteq> i" "pids s ! k = pids s ! i"
      using that assms(5,6) eq by (simp_all add: pids_def)
    then have "pids s ! k = 0" using ok unfolding pid_ok_def by blast
    then show False using eq that assms(5,7) by (simp add: pids_def)
  qed
  then have "find_proc (\<lambda>p. p_pid p = pid) 0 (procs s) = Some i"
    using find_proc_first [of "\<lambda>p. p_pid p = pid" "procs s" i 0] assms(5,6) by simp
  from kill_found [OF assms(3,4) this] show ?thesis by (simp add: killed_proc_def [abs_def])
qed

definition ptable_boot :: mach where
  "ptable_boot = kboot\<lparr>use_lock := False, freelist := 0x80400000, procs := replicate NPROC zero_proc, nextpid := 1\<rparr>"

lemma ptable_boot_alloc:
  "\<exists>t. allocproc 0 0 zero_date zero_date ptable_boot = Ret (Some 0, t) \<and> cli_ok t \<and>
     locks t LPtable = unlocked \<and> 0 < length (procs t) \<and> p_pid (procs t ! 0) = 1"
proof -
  have f: "find_proc (\<lambda>p. p_state p = UNUSED) 0 (replicate NPROC zero_proc) = Some 0"
    using find_proc_first [of "\<lambda>p. p_state p = UNUSED" "replicate NPROC zero_proc" 0 0]
    by (simp add: zero_proc_def)
  show ?thesis
    by (simp add: allocproc_def ptable_boot_def kboot_def f cli_ok_def kalloc_def kmem_lock_def
        kmem_unlock_def Let_def set_proc_def)
qed

lemma kill_exactly_witness:
  "\<exists>t :: mach. reachable proc_init (proc_step 0) (1, t) \<and> kill 1 t = Ret (0, set_proc 0 killed_proc t)"
proof -
  obtain t where t: "allocproc 0 0 zero_date zero_date ptable_boot = Ret (Some 0, t)" "cli_ok t"
    "locks t LPtable = unlocked" "0 < length (procs t)" "p_pid (procs t ! 0) = 1"
    using ptable_boot_alloc by blast
  have "reachable proc_init (proc_step 0) (0, ptable_boot)"
    by (rule reachable.intros) (simp add: ptable_boot_def)
  from reachable_step [OF this ps_alloc [OF t(1)]]
  have r: "reachable proc_init (proc_step 0) (1, t)" by simp
  have "kill 1 t = Ret (0, set_proc 0 killed_proc t)"
    using kill_exactly [OF r _ t(2-5)] by (simp add: killed_proc_def [abs_def])
  with r show ?thesis by blast
qed

text \<open>
  C36: \<^verbatim>\<open>kill\<close> of the identifier zero succeeds and kills a process that does not exist yet. It marks
  the first free slot of the table; \<^verbatim>\<open>allocproc\<close> does not clear the mark, so the next process gets the
  slot and starts its life killed.
\<close>

theorem kill_zero:
  assumes "cli_ok s" and "locks s LPtable = unlocked" and "use_lock s \<longrightarrow> locks s LKmem = unlocked" and "freelist s \<noteq> 0"
    and "i < length (procs s)" and "p_state (procs s ! i) = UNUSED" and "p_pid (procs s ! i) = 0"
    and "\<forall>k<i. p_state (procs s ! k) \<noteq> UNUSED \<and> p_pid (procs s ! k) \<noteq> 0"
  shows "\<exists>s1 s2. kill 0 s = Ret (0, s1) \<and> allocproc fr tr now now' s1 = Ret (Some i, s2) \<and>
    p_killed (procs s2 ! i) \<and> p_state (procs s2 ! i) = EMBRYO"
proof -
  define s1 where "s1 = set_proc i killed_proc s"
  have "find_proc (\<lambda>p. p_pid p = 0) 0 (procs s) = Some i"
    using find_proc_first [of "\<lambda>p. p_pid p = 0" "procs s" i 0] assms(5,7,8) by simp
  then have k: "kill 0 s = Ret (0, s1)" using kill_found [OF assms(1,2)] s1_def by simp
  have "find_proc (\<lambda>p. p_state p = UNUSED) 0 ((procs s)[i := killed_proc (procs s ! i)]) = Some i"
    using find_proc_first [of "\<lambda>p. p_state p = UNUSED" "(procs s)[i := killed_proc (procs s ! i)]" i 0] assms(5,6,8)
    by (simp add: killed_proc_def)
  then have "\<exists>s2. allocproc fr tr now now' s1 = Ret (Some i, s2) \<and>
      p_killed (procs s2 ! i) \<and> p_state (procs s2 ! i) = EMBRYO"
    using assms(1-5) by (cases "use_lock s") (simp_all add: allocproc_def s1_def set_proc_def kalloc_def
        kmem_lock_def kmem_unlock_def Let_def crit_simps cli_ok_def killed_proc_def)
  then show ?thesis using k by blast
qed

lemma kill_zero_witness:
  "\<exists>s1 s2. kill 0 ptable_boot = Ret (0, s1) \<and> allocproc 0 0 zero_date zero_date s1 = Ret (Some 0, s2) \<and>
    p_killed (procs s2 ! 0) \<and> p_state (procs s2 ! 0) = EMBRYO"
  by (rule kill_zero) (simp_all add: ptable_boot_def kboot_def cli_ok_def zero_proc_def)

subsection \<open>The time details\<close>

text \<open>
  C37: \<^verbatim>\<open>getprocesstimedetails\<close> of a process that has not been switched in yet, or for which another of
  the three dates is missing, returns with \<^verbatim>\<open>ptable.lock\<close> held and interrupts off: the next
  attempt of this processor to take the lock panics.
\<close>

theorem time_details_keeps_lock:
  assumes "cli_ok s" and "locks s LPtable = unlocked"
    and "find_proc (\<lambda>p. p_pid p = pid) 0 (procs s) = Some i"
    and "year (p_created (procs s ! i)) = 0 \<or> year (p_switchedOut (procs s ! i)) = 0 \<or> year (p_switchedIn (procs s ! i)) = 0"
  shows "\<exists>t. getprocesstimedetails pid s = Ret (- 1, [], t) \<and> locks t LPtable = held_lock t \<and> \<not> iflag t \<and>
    acquire LPtable t = Panic ''acquire''"
proof -
  have "find_proc (\<lambda>p. p_pid p = pid) j ps = Some i \<Longrightarrow> P (ps ! (i - j)) \<Longrightarrow>
      (\<And>p. P p \<Longrightarrow> year (p_created p) = 0 \<or> year (p_switchedOut p) = 0 \<or> year (p_switchedIn p) = 0) \<Longrightarrow>
      time_details pid ps = ([], False)" for j ps P
  proof (induction ps arbitrary: j)
    case (Cons p ps)
    show ?case
    proof (cases "p_pid p = pid")
      case False
      then have f: "find_proc (\<lambda>p. p_pid p = pid) (Suc j) ps = Some i" using Cons.prems(1) by simp
      have "Suc j \<le> i" using find_proc_Some [OF f] by blast
      then have "i - j = Suc (i - Suc j)" by arith
      then have "P (ps ! (i - Suc j))" using Cons.prems(2) by simp
      from Cons.IH [OF f this Cons.prems(3)] False show ?thesis by simp
    next
      case True
      then have "P p" using Cons.prems(1,2) by simp
      from Cons.prems(3) [OF this] True show ?thesis by simp
    qed
  qed simp
  from this [OF assms(3), of "\<lambda>p. year (p_created p) = 0 \<or> year (p_switchedOut p) = 0 \<or> year (p_switchedIn p) = 0"]
  have td: "time_details pid (procs s) = ([], False)" using assms(4) by simp
  show ?thesis
    using assms(1,2) td
    by (auto simp: getprocesstimedetails_def held_lock_def acquire_def pushcli_def holding_nested cli_ok_def
        unlocked_def Let_def)
qed

lemma time_details_keeps_lock_witness:
  "\<exists>t. getprocesstimedetails 0 ptable_boot = Ret (- 1, [], t) \<and> locks t LPtable = held_lock t \<and> \<not> iflag t \<and>
    acquire LPtable t = Panic ''acquire''"
proof (rule time_details_keeps_lock)
  show "find_proc (\<lambda>p. p_pid p = 0) 0 (procs ptable_boot) = Some 0"
    using find_proc_first [of "\<lambda>p. p_pid p = 0" "procs ptable_boot" 0 0] by (simp add: ptable_boot_def zero_proc_def)
qed (simp_all add: ptable_boot_def kboot_def cli_ok_def zero_proc_def zero_date_def)

end
