(* ===== verification/Syscall.thy ===== *)
theory Syscall
  imports Memory Sched
begin

text \<open>
  Fetching the arguments of a system call, \<^verbatim>\<open>xv6-public/syscall.c\<close>. The memory of the process that
  runs, as its page table shows it, is the argument \<open>um\<close>. A function of the source that returns
  minus one, or zero and a result through a pointer, returns \<open>None\<close> or \<open>Some\<close> of the result.
\<close>

subsection \<open>Operations\<close>

definition fetchint :: "(uint \<Rightarrow> uchar) \<Rightarrow> uint \<Rightarrow> 'a mach_scheme \<Rightarrow> uint option outcome" where
  "fetchint um addr s =
     obind (myproc s) (\<lambda>p.
       let sz = p_sz (procs s ! p)
       in if sz \<le> addr \<or> sz < addr + 4 then Ret None else Ret (Some (ld32 um addr)))"

text \<open>The loop looks at the bytes from \<open>addr\<close> up to the end of the process; \<open>k\<close> of them are left.\<close>

fun fetchstr_loop :: "(uint \<Rightarrow> uchar) \<Rightarrow> uint \<Rightarrow> nat \<Rightarrow> nat \<Rightarrow> nat option" where
  "fetchstr_loop um addr i 0 = None"
| "fetchstr_loop um addr i (Suc k) =
     (if um (addr + of_nat i) = 0 then Some i else fetchstr_loop um addr (Suc i) k)"

definition fetchstr :: "(uint \<Rightarrow> uchar) \<Rightarrow> uint \<Rightarrow> 'a mach_scheme \<Rightarrow> (uint \<times> nat) option outcome" where
  "fetchstr um addr s =
     obind (myproc s) (\<lambda>p.
       let sz = p_sz (procs s ! p)
       in if sz \<le> addr then Ret None
          else Ret (map_option (Pair addr) (fetchstr_loop um addr 0 (unat sz - unat addr))))"

definition argint :: "(uint \<Rightarrow> uchar) \<Rightarrow> uint \<Rightarrow> 'a mach_scheme \<Rightarrow> uint option outcome" where
  "argint um n s =
     obind (myproc s) (\<lambda>p. fetchint um (esp (p_tf (procs s ! p)) + 4 + 4 * n) s)"

definition argptr :: "(uint \<Rightarrow> uchar) \<Rightarrow> uint \<Rightarrow> int \<Rightarrow> 'a mach_scheme \<Rightarrow> uint option outcome" where
  "argptr um n sz s =
     obind (myproc s) (\<lambda>p.
     obind (argint um n s) (\<lambda>r.
       case r of
         None \<Rightarrow> Ret None
       | Some i \<Rightarrow>
           let psz = p_sz (procs s ! p)
           in if sz < 0 \<or> psz \<le> i \<or> psz < i + of_int sz then Ret None else Ret (Some i)))"

definition argstr :: "(uint \<Rightarrow> uchar) \<Rightarrow> uint \<Rightarrow> 'a mach_scheme \<Rightarrow> (uint \<times> nat) option outcome" where
  "argstr um n s =
     obind (argint um n s) (\<lambda>r. case r of None \<Rightarrow> Ret None | Some addr \<Rightarrow> fetchstr um addr s)"

subsection \<open>Every pointer the kernel accepts stays inside the process\<close>

lemma unat_add_below:
  assumes "i < KERNBASE" and "0 \<le> n" and "n < 2 ^ 31"
  shows "unat (i + of_int n) = unat i + nat n"
proof -
  have i: "unat i < 2 ^ 31" using assms(1) by (simp add: word_less_nat_alt)
  have small: "unat (of_nat x :: uint) = x" if "x < 2 ^ 31" for x using that by (simp add: unat_of_nat)
  have "of_int n = (of_nat (nat n) :: uint)" using assms(2) by simp
  then have "unat (of_int n :: uint) = nat n" using small [of "nat n"] assms(2,3) by simp
  moreover have "unat i + nat n < 2 ^ 32" using i assms(2,3) by simp
  ultimately show ?thesis by (simp add: unat_word_ariths)
qed

text \<open>
  C21: the kernel never follows a bad pointer of a user. For a process within the user half of the
  address space, a pointer \<^verbatim>\<open>argptr\<close> accepts for a block of any size an \<^verbatim>\<open>int\<close> can have is the
  argument on the stack of the process, and the whole block lies inside the process, without
  wrapping around the address space.
\<close>

theorem argptr_inside:
  assumes "cur s = Some p" and "p_sz (procs s ! p) \<le> KERNBASE" and "sz < 2 ^ 31"
    and "argptr um n sz s = Ret (Some i)"
  shows "i = ld32 um (esp (p_tf (procs s ! p)) + 4 + 4 * n) \<and> 0 \<le> sz \<and>
    unat i + nat sz \<le> unat (p_sz (procs s ! p))"
proof -
  have a: "argint um n s = Ret (Some i)" "0 \<le> sz" "i < p_sz (procs s ! p)" "i + of_int sz \<le> p_sz (procs s ! p)"
    using assms(1,4)
    by (auto simp: argptr_def myproc_def argint_def fetchint_def Let_def split: if_splits option.splits)
  have "i < KERNBASE" using a(3) assms(2) by simp
  from unat_add_below [OF this a(2) assms(3)] a(4) have "unat i + nat sz \<le> unat (p_sz (procs s ! p))"
    by (simp add: word_le_nat_alt)
  then show ?thesis using a(1,2) assms(1)
    by (auto simp: argint_def fetchint_def myproc_def Let_def split: if_splits)
qed

lemma fetchstr_loop_Some:
  "fetchstr_loop um addr i k = Some n \<longleftrightarrow>
   i \<le> n \<and> n < i + k \<and> um (addr + of_nat n) = 0 \<and> (\<forall>j. i \<le> j \<and> j < n \<longrightarrow> um (addr + of_nat j) \<noteq> 0)"
proof (induction k arbitrary: i)
  case (Suc k)
  show ?case
  proof (cases "um (addr + of_nat i) = 0")
    case True
    then show ?thesis by (auto simp: not_less_eq_eq le_less)
  next
    case False
    have "(\<forall>j. i \<le> j \<and> j < n \<longrightarrow> um (addr + of_nat j) \<noteq> 0) \<longleftrightarrow>
        (\<forall>j. Suc i \<le> j \<and> j < n \<longrightarrow> um (addr + of_nat j) \<noteq> 0)"
      using False by (metis Suc_leI le_neq_implies_less Suc_leD)
    moreover have "i \<le> n \<and> um (addr + of_nat n) = 0 \<longleftrightarrow> Suc i \<le> n \<and> um (addr + of_nat n) = 0"
      using False by (metis Suc_leI le_neq_implies_less Suc_leD)
    ultimately show ?thesis using False Suc by auto
  qed
qed auto

text \<open>
  \<^verbatim>\<open>fetchstr\<close> accepts an address exactly if the bytes of the process from there hold a zero, and
  returns the distance to the first one.
\<close>

theorem fetchstr_ok:
  assumes "cur s = Some p"
  shows "fetchstr um addr s = Ret (Some (a, n)) \<longleftrightarrow>
    a = addr \<and> unat addr + n < unat (p_sz (procs s ! p)) \<and> um (addr + of_nat n) = 0 \<and>
    (\<forall>j. j < n \<longrightarrow> um (addr + of_nat j) \<noteq> 0)"
  using assms
  by (auto simp: fetchstr_def myproc_def Let_def fetchstr_loop_Some word_le_nat_alt not_le)

subsection \<open>A process with two arguments on its stack\<close>

definition caller :: mach where
  "caller = \<lparr>cpu_id = 0, iflag = True, ncli = 0, intena = True, cur = Some 0,
     locks = (\<lambda>_. unlocked), procs = [zero_proc\<lparr>p_sz := 64, p_tf := zero_tf\<lparr>esp := 8\<rparr>\<rparr>],
     nextpid = 2, initproc = None, kmemory = (\<lambda>_. 0), freelist = 0, use_lock = True\<rparr>"

definition caller_mem :: "uint \<Rightarrow> uchar" where
  "caller_mem = (\<lambda>_. 1)(12 := 32, 13 := 0, 14 := 0, 15 := 0, 34 := 0)"

lemma argptr_inside_witness:
  "argptr caller_mem 0 20 caller = Ret (Some 32) \<and> unat (32 :: uint) + nat 20 \<le> unat (64 :: uint)"
proof -
  have l: "ld32 caller_mem 12 = 32" by (simp add: ld32_def caller_mem_def upt_rec)
  have a: "argptr caller_mem 0 20 caller = Ret (Some 32)"
    by (simp add: argptr_def argint_def fetchint_def myproc_def caller_def Let_def l)
  have "cur caller = Some 0" "p_sz (procs caller ! 0) \<le> KERNBASE" "(20 :: int) < 2 ^ 31"
    by (simp_all add: caller_def)
  from argptr_inside [OF this a] a show ?thesis by (simp add: caller_def)
qed

lemma fetchstr_ok_witness: "fetchstr caller_mem 32 caller = Ret (Some (32, 2))"
proof -
  have c: "cur caller = Some 0" by (simp add: caller_def)
  have "caller_mem (32 + of_nat j) \<noteq> 0" if "j < 2" for j
    using that by (auto simp: caller_mem_def less_2_cases_iff)
  then show ?thesis
    using fetchstr_ok [OF c, of caller_mem 32 32 2] by (simp add: caller_def caller_mem_def)
qed

end
