(* ===== verification/Sysproc.thy ===== *)
theory Sysproc
  imports Proc Syscall
begin

text \<open>
  The system calls on processes, \<^verbatim>\<open>xv6-public/sysproc.c\<close>, over the operations of the process table.
  \<open>um\<close> is the memory of the process that calls, \<open>ticks\<close> the counter of clock interrupts.
\<close>

definition with_arg ::
  "(uint \<Rightarrow> uchar) \<Rightarrow> 'a mach_scheme \<Rightarrow> 'r outcome \<Rightarrow> (int \<Rightarrow> 'r outcome) \<Rightarrow> 'r outcome" where
  "with_arg um s fail f =
     obind (argint um 0 s) (\<lambda>r. case r of None \<Rightarrow> fail | Some a \<Rightarrow> f (sint a))"

definition sys_wait :: "uint \<Rightarrow> (uint \<Rightarrow> uchar) \<Rightarrow> 'a mach_scheme \<Rightarrow> (uint \<times> 'a mach_scheme wresult) option outcome" where
  "sys_wait kend um s =
     obind (argptr um 0 4 s) (\<lambda>r.
       case r of None \<Rightarrow> Ret None | Some p \<Rightarrow> obind (wait kend s) (\<lambda>w. Ret (Some (p, w))))"

definition sys_kill :: "(uint \<Rightarrow> uchar) \<Rightarrow> 'a mach_scheme \<Rightarrow> (int \<times> 'a mach_scheme) outcome" where
  "sys_kill um s = with_arg um s (Ret (- 1, s)) (\<lambda>pid. kill pid s)"

definition sys_getpid :: "'a mach_scheme \<Rightarrow> int outcome" where
  "sys_getpid s = mypid s"

definition sys_sbrk :: "uint \<Rightarrow> (uint \<Rightarrow> uchar) \<Rightarrow> 'a mach_scheme \<Rightarrow> (int \<times> 'a mach_scheme) outcome" where
  "sys_sbrk kend um s =
     with_arg um s (Ret (- 1, s)) (\<lambda>n.
       obind (myproc s) (\<lambda>i.
       obind (growproc kend n s) (\<lambda>(r, s1).
         Ret (if r < 0 then - 1 else sint (p_sz (procs s ! i)), s1))))"

text \<open>
  \<^verbatim>\<open>sys_sleep\<close>: one test of its loop, with \<^verbatim>\<open>tickslock\<close> held. The number of ticks is an \<^verbatim>\<open>int\<close>, which the
  comparison with the unsigned difference converts. A call that sleeps keeps it and the tick at
  which it started.
\<close>

datatype 's sresult = SDone int 's | SSleep int uint 's

definition sys_sleep_test :: "int \<Rightarrow> uint \<Rightarrow> uint \<Rightarrow> 'a mach_scheme \<Rightarrow> 'a mach_scheme sresult outcome" where
  "sys_sleep_test n ticks0 ticks s =
     (if ticks - ticks0 < of_int n
      then obind (killed s) (\<lambda>k.
             if k then obind (release LTicks s) (\<lambda>s1. Ret (SDone (- 1) s1))
             else obind (sleep_enter ChTicks LTicks s) (\<lambda>s1. Ret (SSleep n ticks0 s1)))
      else obind (release LTicks s) (\<lambda>s1. Ret (SDone 0 s1)))"

definition sys_sleep :: "(uint \<Rightarrow> uchar) \<Rightarrow> uint \<Rightarrow> 'a mach_scheme \<Rightarrow> 'a mach_scheme sresult outcome" where
  "sys_sleep um ticks s =
     with_arg um s (Ret (SDone (- 1) s)) (\<lambda>n.
       obind (acquire LTicks s) (\<lambda>s1. sys_sleep_test n ticks ticks s1))"

definition sys_sleep_resume :: "int \<Rightarrow> uint \<Rightarrow> uint \<Rightarrow> 'a mach_scheme \<Rightarrow> 'a mach_scheme sresult outcome" where
  "sys_sleep_resume n ticks0 ticks s =
     obind (sleep_leave LTicks s) (\<lambda>s1. sys_sleep_test n ticks0 ticks s1)"

definition sys_uptime :: "uint \<Rightarrow> 'a mach_scheme \<Rightarrow> (int \<times> 'a mach_scheme) outcome" where
  "sys_uptime ticks s =
     obind (acquire LTicks s) (\<lambda>s1. obind (release LTicks s1) (\<lambda>s2. Ret (sint ticks, s2)))"

definition sys_helloWorld :: "int \<times> string" where
  "sys_helloWorld = (0, ''Hello World'' @ [CHR 0x0A])"

text \<open>The reports print; what the functions they call return is thrown away.\<close>

definition report :: "(int \<Rightarrow> 'a mach_scheme \<Rightarrow> (int \<times> string \<times> 'a mach_scheme) outcome) \<Rightarrow>
    (uint \<Rightarrow> uchar) \<Rightarrow> 'a mach_scheme \<Rightarrow> (int \<times> string \<times> 'a mach_scheme) outcome" where
  "report f um s =
     with_arg um s (Ret (- 1, [], s)) (\<lambda>pid. obind (f pid s) (\<lambda>(_, out, s1). Ret (0, out, s1)))"

definition sys_numOpenFiles :: "(uint \<Rightarrow> uchar) \<Rightarrow> 'a mach_scheme \<Rightarrow> (int \<times> string \<times> 'a mach_scheme) outcome" where
  "sys_numOpenFiles = report numOpenFiles"

definition sys_memAlloc :: "(uint \<Rightarrow> uchar) \<Rightarrow> 'a mach_scheme \<Rightarrow> (int \<times> string \<times> 'a mach_scheme) outcome" where
  "sys_memAlloc = report memAlloc"

definition sys_getprocesstimedetails :: "(uint \<Rightarrow> uchar) \<Rightarrow> 'a mach_scheme \<Rightarrow> (int \<times> string \<times> 'a mach_scheme) outcome" where
  "sys_getprocesstimedetails = report getprocesstimedetails"

definition sys_psinfo :: "'a mach_scheme \<Rightarrow> (int \<times> string \<times> 'a mach_scheme) outcome" where
  "sys_psinfo = psinfo"

subsection \<open>Sleeping for a number of ticks\<close>

text \<open>
  \<^verbatim>\<open>sys_sleep\<close> waits for the ticks it was asked for, also across a wrap-around of the counter.
  When \<open>d\<close> ticks have passed since it started, fewer than the counter can tell apart, a process
  that is not killed returns zero if \<open>d\<close> has reached the argument and sleeps on otherwise.
\<close>

lemma sleep_elapsed:
  assumes "0 \<le> n" and "n < 2 ^ 31" and "d < 2 ^ 32"
    and "cur s = Some p" and "\<not> p_killed (procs s ! p)" and "\<not> iflag s" and "ncli s = 1"
    and "locks s LTicks = held_lock s" and "locks s LPtable = unlocked"
  shows "\<exists>t. sys_sleep_test n ticks0 (ticks0 + of_nat d) s = Ret (if n \<le> int d then SDone 0 t else SSleep n ticks0 t) \<and>
    locks t LTicks = unlocked"
proof -
  have "unat (of_nat d :: uint) = d" using assms(3) by (simp add: unat_of_nat)
  moreover have "unat (of_int n :: uint) = nat n"
    using unat_add_below [of 0 n] assms(1,2) by simp
  ultimately have lt: "(of_nat d :: uint) < of_int n \<longleftrightarrow> \<not> n \<le> int d"
    using assms(1) by (auto simp: word_less_nat_alt)
  show ?thesis
  proof (cases "n \<le> int d")
    case True
    then have "sys_sleep_test n ticks0 (ticks0 + of_nat d) s = obind (release LTicks s) (\<lambda>t. Ret (SDone 0 t))"
      using lt by (simp add: sys_sleep_test_def)
    then show ?thesis using True assms(6-8) by (simp add: held_lock_def)
  next
    case False
    then have "sys_sleep_test n ticks0 (ticks0 + of_nat d) s =
        obind (sleep_enter ChTicks LTicks s) (\<lambda>t. Ret (SSleep n ticks0 t))"
      using lt assms(4,5) by (simp add: sys_sleep_test_def killed_def myproc_def)
    then show ?thesis using False assms(4-9) by (simp add: sleep_enter_def held_lock_def cli_ok_def)
  qed
qed

definition in_ticks_lock :: mach where
  "in_ticks_lock = caller\<lparr>iflag := False, ncli := 1,
     locks := (\<lambda>_. unlocked)(LTicks := \<lparr>locked = True, lk_cpu = Some 0\<rparr>)\<rparr>"

lemma sleep_elapsed_witness:
  "(\<exists>t. sys_sleep_test 5 0xFFFFFFFF (0xFFFFFFFF + of_nat 6) in_ticks_lock = Ret (SDone 0 t)) \<and>
   (\<exists>t. sys_sleep_test 5 0xFFFFFFFF (0xFFFFFFFF + of_nat 4) in_ticks_lock = Ret (SSleep 5 0xFFFFFFFF t))"
proof -
  have s: "cur in_ticks_lock = Some 0" "\<not> p_killed (procs in_ticks_lock ! 0)" "\<not> iflag in_ticks_lock"
    "ncli in_ticks_lock = 1" "locks in_ticks_lock LTicks = held_lock in_ticks_lock"
    "locks in_ticks_lock LPtable = unlocked"
    by (simp_all add: in_ticks_lock_def caller_def held_lock_def zero_proc_def)
  show ?thesis
    using sleep_elapsed [OF _ _ _ s, of 5 6 "0xFFFFFFFF"] sleep_elapsed [OF _ _ _ s, of 5 4 "0xFFFFFFFF"] by auto
qed

end
