(* ===== verification/CString.thy ===== *)
theory CString
  imports Bytes Digits
begin

text \<open>
  The C library of the kernel (\<^verbatim>\<open>xv6-public/string.c\<close>) and of user programs (\<^verbatim>\<open>ulib.c\<close>), over a byte
  memory addressed by numbers. Loops that count down are recursive on the count; loops that run
  to the end of a string are partial functions, and the lemmas show that they return on every
  string that ends. The copying routines are shown equal to what the standard says of them,
  overlapping blocks included.
\<close>

subsection \<open>Blocks of memory\<close>

type_synonym bmem = "nat \<Rightarrow> uchar"

fun stosb :: "nat \<Rightarrow> uchar \<Rightarrow> nat \<Rightarrow> bmem \<Rightarrow> bmem" where
  "stosb a c 0 m = m"
| "stosb a c (Suc n) m = stosb (Suc a) c n (m(a := c))"

definition store32 :: "nat \<Rightarrow> uint \<Rightarrow> bmem \<Rightarrow> bmem" where
  "store32 a w m = (\<lambda>x. if a \<le> x \<and> x < a + 4 then le32 w ! (x - a) else m x)"

fun stosl :: "nat \<Rightarrow> uint \<Rightarrow> nat \<Rightarrow> bmem \<Rightarrow> bmem" where
  "stosl a w 0 m = m"
| "stosl a w (Suc n) m = stosl (a + 4) w n (store32 a w m)"

definition memset :: "nat \<Rightarrow> uint \<Rightarrow> nat \<Rightarrow> bmem \<Rightarrow> bmem" where
  "memset dst c n m =
     (if dst mod 4 = 0 \<and> n mod 4 = 0 then
        let c' = c AND 0xFF
        in stosl dst (push_bit 24 c' OR push_bit 16 c' OR push_bit 8 c' OR c') (n div 4) m
      else stosb dst (ucast c) n m)"

definition umemset :: "nat \<Rightarrow> uint \<Rightarrow> nat \<Rightarrow> bmem \<Rightarrow> bmem" where
  "umemset dst c n m = stosb dst (ucast c) n m"

fun memcmp :: "nat \<Rightarrow> nat \<Rightarrow> nat \<Rightarrow> bmem \<Rightarrow> int" where
  "memcmp s1 s2 0 m = 0"
| "memcmp s1 s2 (Suc n) m =
     (if m s1 \<noteq> m s2 then uint (m s1) - uint (m s2) else memcmp (Suc s1) (Suc s2) n m)"

fun move_down :: "nat \<Rightarrow> nat \<Rightarrow> nat \<Rightarrow> bmem \<Rightarrow> bmem" where
  "move_down d s 0 m = m"
| "move_down d s (Suc n) m = move_down (d - 1) (s - 1) n (m(d - 1 := m (s - 1)))"

fun move_up :: "nat \<Rightarrow> nat \<Rightarrow> nat \<Rightarrow> bmem \<Rightarrow> bmem" where
  "move_up d s 0 m = m"
| "move_up d s (Suc n) m = move_up (Suc d) (Suc s) n (m(d := m s))"

definition memmove :: "nat \<Rightarrow> nat \<Rightarrow> nat \<Rightarrow> bmem \<Rightarrow> bmem" where
  "memmove d s n m = (if s < d \<and> d < s + n then move_down (d + n) (s + n) n m else move_up d s n m)"

definition memcpy :: "nat \<Rightarrow> nat \<Rightarrow> nat \<Rightarrow> bmem \<Rightarrow> bmem" where
  "memcpy d s n m = memmove d s n m"

text \<open>The \<^verbatim>\<open>memmove\<close> of \<^verbatim>\<open>ulib.c\<close> only copies upwards.\<close>

definition umemmove :: "nat \<Rightarrow> nat \<Rightarrow> nat \<Rightarrow> bmem \<Rightarrow> bmem" where
  "umemmove d s n m = move_up d s n m"

definition block :: "nat \<Rightarrow> uchar \<Rightarrow> nat \<Rightarrow> bmem \<Rightarrow> bmem" where
  "block a c n m = (\<lambda>x. if a \<le> x \<and> x < a + n then c else m x)"

definition moved :: "nat \<Rightarrow> nat \<Rightarrow> nat \<Rightarrow> bmem \<Rightarrow> bmem" where
  "moved d s n m = (\<lambda>x. if d \<le> x \<and> x < d + n then m (s + (x - d)) else m x)"

lemma stosb_block: "stosb a c n m = block a c n m"
  by (induction n arbitrary: a m) (auto simp: block_def fun_eq_iff)

lemma le32_replicate:
  "le32 (push_bit 24 (ucast b) OR push_bit 16 (ucast b) OR push_bit 8 (ucast b) OR ucast b) = [b, b, b, b]"
proof -
  have hi: "\<not> bit b n" if "8 \<le> n" for n using that by (auto dest: bit_imp_le_length)
  have "(ucast (drop_bit k (push_bit 24 (ucast b) OR push_bit 16 (ucast b) OR push_bit 8 (ucast b) OR (ucast b :: uint))) :: uchar) = b"
    if "k \<in> {0, 8, 16, 24}" for k
    by (rule bit_word_eqI) (use that hi in \<open>auto simp: bit_simps\<close>)
  from this [of 0] this [of 8] this [of 16] this [of 24] show ?thesis by (simp add: le32_def)
qed

lemma store32_block: "le32 w = [b, b, b, b] \<Longrightarrow> store32 a w m = block a b 4 m"
proof
  fix x
  assume w: "le32 w = [b, b, b, b]"
  show "store32 a w m x = block a b 4 m x"
  proof (cases "a \<le> x \<and> x < a + 4")
    case True
    then have "x - a \<in> {0, 1, 2, 3}" by auto
    with True show ?thesis by (auto simp: store32_def block_def w)
  next
    case False
    then show ?thesis by (auto simp: store32_def block_def)
  qed
qed

lemma ucast_ucast_mask8: "ucast (ucast (c :: uint) :: uchar) = take_bit 8 c"
  by (rule bit_word_eqI) (auto simp: bit_simps)

lemma stosl_block: "le32 w = [b, b, b, b] \<Longrightarrow> stosl a w n m = block a b (4 * n) m"
  by (induction n arbitrary: a m) (auto simp: block_def fun_eq_iff store32_block)

lemma move_up_moved: "d \<le> s \<or> s + n \<le> d \<Longrightarrow> move_up d s n m = moved d s n m"
proof (induction n arbitrary: d s m)
  case (Suc n)
  show ?case
  proof
    fix x
    show "move_up d s (Suc n) m x = moved d s (Suc n) m x"
      using Suc by (cases "x = d") (auto simp: moved_def Suc_diff_Suc)
  qed
qed (auto simp: moved_def fun_eq_iff)

lemma move_down_moved: "s \<le> d \<Longrightarrow> move_down (d + n) (s + n) n m = moved d s n m"
proof (induction n arbitrary: m)
  case (Suc n)
  show ?case
  proof
    fix x
    show "move_down (d + Suc n) (s + Suc n) (Suc n) m x = moved d s (Suc n) m x"
      using Suc by (cases "x = d + n") (auto simp: moved_def)
  qed
qed (auto simp: moved_def fun_eq_iff)

text \<open>
  \<^verbatim>\<open>memmove\<close> copies correctly whether or not the blocks overlap and in either direction, and
  touches nothing outside the destination.
\<close>

lemma memmove_ok: "memmove d s n m = moved d s n m"
  unfolding memmove_def using move_up_moved [of d s n m] move_down_moved [of s d n m] by auto

text \<open>
  The kernel's \<^verbatim>\<open>memset\<close>, which stores words when address and length allow, does what the user
  library's does byte by byte: every byte of the block is the low byte of the argument.
\<close>

lemma memset_ok: "memset dst c n m = block dst (ucast c) n m \<and> umemset dst c n m = block dst (ucast c) n m"
proof -
  have c: "c AND 0xFF = ucast (ucast c :: uchar)"
  proof -
    have "(0xFF :: uint) = mask 8" by (simp add: mask_eq_exp_minus_1)
    then show ?thesis by (metis and.commute take_bit_eq_mask ucast_ucast_mask8)
  qed
  have "n mod 4 = 0 \<Longrightarrow> 4 * (n div 4) = n" by presburger
  then show ?thesis
    by (simp add: memset_def umemset_def stosb_block Let_def c stosl_block [OF le32_replicate])
qed

lemma memcmp_zero: "memcmp a b n m = 0 \<longleftrightarrow> (\<forall>i<n. m (a + i) = m (b + i))"
proof (induction n arbitrary: a b)
  case (Suc n)
  show ?case
  proof (cases "m a = m b")
    case True
    have "(\<forall>i<Suc n. m (a + i) = m (b + i)) \<longleftrightarrow> m a = m b \<and> (\<forall>i<n. m (Suc a + i) = m (Suc b + i))"
      by (simp add: All_less_Suc2)
    then show ?thesis using True Suc [of "Suc a" "Suc b"] by simp
  next
    case False
    then show ?thesis by (auto simp: word_uint_eq_iff intro!: exI [of _ 0])
  qed
qed simp

subsection \<open>Strings\<close>

partial_function (option) strlen_loop :: "bmem \<Rightarrow> nat \<Rightarrow> nat \<Rightarrow> nat option" where
  "strlen_loop m s n = (if m (s + n) = 0 then Some n else strlen_loop m s (Suc n))"

definition strlen :: "bmem \<Rightarrow> nat \<Rightarrow> nat option" where
  "strlen m s = strlen_loop m s 0"

partial_function (option) strcmp :: "bmem \<Rightarrow> nat \<Rightarrow> nat \<Rightarrow> int option" where
  "strcmp m p q = (if m p \<noteq> 0 \<and> m p = m q then strcmp m (Suc p) (Suc q)
                   else Some (uint (m p) - uint (m q)))"

partial_function (option) strcpy :: "nat \<Rightarrow> nat \<Rightarrow> bmem \<Rightarrow> bmem option" where
  "strcpy s t m = (if m t = 0 then Some (m(s := m t)) else strcpy (Suc s) (Suc t) (m(s := m t)))"

partial_function (option) strchr :: "bmem \<Rightarrow> nat \<Rightarrow> uchar \<Rightarrow> nat option option" where
  "strchr m s c = (if m s = 0 then Some None else if m s = c then Some (Some s) else strchr m (Suc s) c)"

fun strncmp :: "nat \<Rightarrow> nat \<Rightarrow> nat \<Rightarrow> bmem \<Rightarrow> int" where
  "strncmp p q 0 m = 0"
| "strncmp p q (Suc n) m =
     (if m p \<noteq> 0 \<and> m p = m q then strncmp (Suc p) (Suc q) n m else uint (m p) - uint (m q))"

fun strncpy :: "nat \<Rightarrow> nat \<Rightarrow> nat \<Rightarrow> bmem \<Rightarrow> bmem" where
  "strncpy s t 0 m = m"
| "strncpy s t (Suc n) m =
     (let m' = m(s := m t)
      in if m t \<noteq> 0 then strncpy (Suc s) (Suc t) n m' else stosb (Suc s) 0 n m')"

text \<open>\<^verbatim>\<open>safestrcpy\<close> with the count already decremented.\<close>

fun safestrcpy_loop :: "nat \<Rightarrow> nat \<Rightarrow> nat \<Rightarrow> bmem \<Rightarrow> bmem" where
  "safestrcpy_loop s t 0 m = m(s := 0)"
| "safestrcpy_loop s t (Suc n) m =
     (let m' = m(s := m t)
      in if m t \<noteq> 0 then safestrcpy_loop (Suc s) (Suc t) n m' else m'(Suc s := 0))"

definition safestrcpy :: "nat \<Rightarrow> nat \<Rightarrow> int \<Rightarrow> bmem \<Rightarrow> bmem" where
  "safestrcpy s t n m = (if n \<le> 0 then m else safestrcpy_loop s t (nat n - 1) m)"

partial_function (option) atoi_loop :: "bmem \<Rightarrow> nat \<Rightarrow> uint \<Rightarrow> uint option" where
  "atoi_loop m s n =
     (if 48 \<le> m s \<and> m s \<le> 57 then atoi_loop m (Suc s) (n * 10 + ucast (m s) - 48) else Some n)"

definition atoi :: "bmem \<Rightarrow> nat \<Rightarrow> uint option" where
  "atoi m s = atoi_loop m s 0"

text \<open>The string \<open>bs\<close>, without zero bytes, is stored at \<open>a\<close> and terminated.\<close>

fun cstr :: "bmem \<Rightarrow> nat \<Rightarrow> uchar list \<Rightarrow> bool" where
  "cstr m a [] = (m a = 0)"
| "cstr m a (b # bs) = (m a = b \<and> b \<noteq> 0 \<and> cstr m (Suc a) bs)"

lemma cstr_frame: "cstr m a bs \<Longrightarrow> (\<And>x. a \<le> x \<Longrightarrow> x \<le> a + length bs \<Longrightarrow> m' x = m x) \<Longrightarrow> cstr m' a bs"
proof (induction bs arbitrary: a)
  case (Cons b bs)
  then show ?case using Cons.prems(2) [of a] by (auto intro!: Cons.IH)
qed simp

lemma strlen_cstr: "cstr m a bs \<Longrightarrow> strlen m a = Some (length bs)"
proof -
  have "cstr m (a + n) bs \<Longrightarrow> strlen_loop m a n = Some (n + length bs)" for n
  proof (induction bs arbitrary: n)
    case Nil
    then show ?case by (subst strlen_loop.simps) simp
  next
    case (Cons b bs)
    then show ?case using Cons.IH [of "Suc n"] by (subst strlen_loop.simps) auto
  qed
  from this [of 0] show "cstr m a bs \<Longrightarrow> strlen m a = Some (length bs)" by (simp add: strlen_def)
qed

lemma strcpy_cstr:
  "cstr m t bs \<Longrightarrow> s + length bs < t \<or> t + length bs < s \<Longrightarrow>
   \<exists>m'. strcpy s t m = Some m' \<and> cstr m' s bs \<and> (\<forall>x. x < s \<or> s + length bs < x \<longrightarrow> m' x = m x)"
proof (induction bs arbitrary: s t m)
  case Nil
  then show ?case by (subst strcpy.simps) auto
next
  case (Cons b bs)
  let ?m = "m(s := m t)"
  have "cstr ?m (Suc t) bs" by (rule cstr_frame [of m "Suc t" bs]) (use Cons.prems in auto)
  moreover have "Suc s + length bs < Suc t \<or> Suc t + length bs < Suc s" using Cons.prems(2) by auto
  ultimately obtain m' where m': "strcpy (Suc s) (Suc t) ?m = Some m'" "cstr m' (Suc s) bs"
    "\<forall>x. x < Suc s \<or> Suc s + length bs < x \<longrightarrow> m' x = ?m x" using Cons.IH by blast
  have "strcpy s t m = Some m'" using Cons.prems(1) m'(1) by (subst strcpy.simps) auto
  moreover have "cstr m' s (b # bs)" using Cons.prems(1) m'(2,3) by auto
  ultimately show ?case using m'(3) by auto
qed

lemma strchr_cstr:
  "cstr m a bs \<Longrightarrow> c \<noteq> 0 \<Longrightarrow>
   strchr m a c = Some (if c \<in> set bs then Some (a + length (takeWhile (\<lambda>b. b \<noteq> c) bs)) else None)"
proof (induction bs arbitrary: a)
  case Nil
  then show ?case by (subst strchr.simps) simp
next
  case (Cons b bs)
  then show ?case by (subst strchr.simps) auto
qed

lemma uint_pos: "(a :: uchar) \<noteq> 0 \<Longrightarrow> 0 < uint a"
proof -
  assume "a \<noteq> 0"
  then have "uint a \<noteq> 0" by (simp add: uint_0_iff)
  moreover have "0 \<le> uint a" by simp
  ultimately show ?thesis by linarith
qed

text \<open>
  \<^verbatim>\<open>strcmp\<close> returns on two strings that end, with zero exactly for equal strings, and otherwise
  with the sign of their lexicographic order as unsigned bytes.
\<close>

theorem strcmp_ok:
  assumes "cstr m p xs" and "cstr m q ys"
  shows "\<exists>r. strcmp m p q = Some r \<and> (r = 0 \<longleftrightarrow> xs = ys) \<and>
    (r < 0 \<longleftrightarrow> ord_class.lexordp (map uint xs) (map uint ys))"
  using assms
proof (induction xs arbitrary: p q ys)
  case Nil
  then show ?case by (cases ys; subst strcmp.simps) (auto simp: uint_pos uint_0_iff)
next
  case (Cons x xs)
  show ?case
  proof (cases "ys \<noteq> [] \<and> hd ys = x")
    case True
    then obtain ys' where "ys = x # ys'" by (cases ys) auto
    with Cons show ?thesis by (subst strcmp.simps) auto
  next
    case False
    with Cons.prems show ?thesis
      using word_uint_eq_iff [of "m p" "m q"]
      by (cases ys; subst strcmp.simps) (auto simp: uint_pos uint_0_iff)
  qed
qed

lemma strcmp_ok_witness:
  "\<exists>r. strcmp ((\<lambda>_. 0)(0 := 1, Suc 0 := 2, Suc (Suc (Suc 0)) := 1)) 0 (Suc (Suc (Suc 0))) = Some r \<and> r \<noteq> 0"
  using strcmp_ok [of "(\<lambda>_. 0)(0 := 1, Suc 0 := 2, Suc (Suc (Suc 0)) := 1)" 0 "[1, 2]" "Suc (Suc (Suc 0))" "[1]"]
  by auto

text \<open>
  \<^verbatim>\<open>safestrcpy\<close> always leaves a terminated string, of less than \<open>n\<close> bytes, that is a prefix of
  the source, and writes only inside the \<open>n\<close> bytes of the destination.
\<close>

lemma safestrcpy_ok:
  assumes "cstr m t bs" and "s + n \<le> t \<or> t + length bs < s" and "0 < n"
  shows "cstr (safestrcpy s t (int n) m) s (take (n - 1) bs) \<and>
    (\<forall>x. x < s \<or> s + n \<le> x \<longrightarrow> safestrcpy s t (int n) m x = m x)"
proof -
  have "cstr m t bs \<Longrightarrow> s + Suc k \<le> t \<or> t + length bs < s \<Longrightarrow>
      cstr (safestrcpy_loop s t k m) s (take k bs) \<and>
      (\<forall>x. x < s \<or> s + Suc k \<le> x \<longrightarrow> safestrcpy_loop s t k m x = m x)" for k
  proof (induction k arbitrary: s t m bs)
    case (Suc k)
    show ?case
    proof (cases bs)
      case Nil
      then show ?thesis using Suc.prems by auto
    next
      case (Cons b bs')
      define m1 where "m1 = m(s := m t)"
      have m1: "m1 s = b" "\<And>x. x \<noteq> s \<Longrightarrow> m1 x = m x" "b \<noteq> 0" using Suc.prems(1) Cons by (auto simp: m1_def)
      have c: "cstr m1 (Suc t) bs'"
        by (rule cstr_frame [of m "Suc t" bs']) (use Suc.prems Cons in \<open>auto simp: m1_def\<close>)
      have "Suc s + Suc k \<le> Suc t \<or> Suc t + length bs' < Suc s" using Suc.prems(2) Cons by auto
      note ih = Suc.IH [OF c this]
      have "safestrcpy_loop s t (Suc k) m = safestrcpy_loop (Suc s) (Suc t) k m1"
        using Suc.prems(1) Cons by (simp add: m1_def)
      then show ?thesis using ih m1 Cons by auto
    qed
  qed simp
  moreover obtain k where k: "n = Suc k" using assms(3) by (cases n) auto
  moreover have "safestrcpy s t (int (Suc k)) m = safestrcpy_loop s t k m"
    by (simp only: safestrcpy_def nat_int) simp
  ultimately show ?thesis using assms(1,2) unfolding k by simp
qed

lemma safestrcpy_ok_witness:
  "cstr (safestrcpy 10 0 2 ((\<lambda>_. 0)(0 := 9, Suc 0 := 9))) 10 [9]"
  using safestrcpy_ok [of "(\<lambda>_. 0)(0 := 9, Suc 0 := 9)" 0 "[9, 9]" 10 2] by simp

text \<open>The digits of a number, and \<^verbatim>\<open>atoi\<close>.\<close>

lemma atoi_loop_digits:
  assumes "\<forall>d\<in>set ds. d < 10" and "\<forall>i<length ds. m (s + i) = of_nat (48 + ds ! i)"
    and "\<not> (48 \<le> m (s + length ds) \<and> m (s + length ds) \<le> 57)"
  shows "atoi_loop m s n = Some (foldl (\<lambda>a d. a * 10 + of_nat d) n ds)"
  using assms
proof (induction ds arbitrary: s n)
  case Nil
  then show ?case by (subst atoi_loop.simps) auto
next
  case (Cons d ds)
  have d: "d < 10" "m s = of_nat (48 + d)" using Cons.prems(1,2) by auto
  have u: "unat (m s) = 48 + d" using d by (simp add: unat_of_nat del: of_nat_add)
  then have dig: "48 \<le> m s \<and> m s \<le> 57" using d(1) by (simp add: word_le_nat_alt)
  have "(ucast (m s) :: uint) = of_nat (48 + d)" by (metis of_nat_unat u)
  then have e: "n * 10 + ucast (m s) - 48 = n * 10 + of_nat d" by simp
  have "atoi_loop m s n = atoi_loop m (Suc s) (n * 10 + of_nat d)"
    by (subst atoi_loop.simps) (simp only: dig e if_True simp_thms)
  moreover have "atoi_loop m (Suc s) k = Some (foldl (\<lambda>a d. a * 10 + of_nat d) k ds)" for k
    by (rule Cons.IH) (use Cons.prems in auto)
  ultimately show ?case by simp
qed

lemma of_nat_undigits:
  "foldl (\<lambda>a d. a * 10 + of_nat d) (of_nat n :: uint) ds = of_nat (foldl (\<lambda>a d. a * 10 + d) n ds)"
proof (induction ds arbitrary: n)
  case (Cons d ds)
  from Cons [of "n * 10 + d"] show ?case by simp
qed simp

text \<open>
  \<^verbatim>\<open>atoi\<close> reads back the decimal digits of every number below two to the thirty-first, whatever
  follows them.
\<close>

lemma atoi_digits:
  assumes "n < 2 ^ 31" and "\<forall>i<length (digits 10 n). m (s + i) = of_nat (48 + digits 10 n ! i)"
    and "\<not> (48 \<le> m (s + length (digits 10 n)) \<and> m (s + length (digits 10 n)) \<le> 57)"
  shows "atoi m s = Some (of_nat n) \<and> sint (of_nat n :: uint) = int n"
proof -
  have "\<forall>d\<in>set (digits 10 n). d < 10" using digits_bound [of 10] by auto
  from atoi_loop_digits [OF this assms(2,3), of 0] of_nat_undigits [of 0 "digits 10 n"] undigits_digits [of 10 n]
  have "atoi m s = Some (of_nat n)" by (simp add: atoi_def undigits_def)
  moreover have "sint (of_int (int n) :: uint) = int n" using assms(1) by (intro sint_of_int_uint) auto
  ultimately show ?thesis by simp
qed

lemma atoi_digits_witness: "atoi ((\<lambda>_. 0)(0 := 52, Suc 0 := 50)) 0 = Some 42"
proof -
  have d: "digits 10 42 = [4, 2]" by (simp add: digits.simps)
  show ?thesis using atoi_digits [of 42 "(\<lambda>_. 0)(0 := 52, Suc 0 := 50)" 0] unfolding d by (simp add: All_less_Suc2)
qed

end
