(* ===== verification/Grep.thy ===== *)
theory Grep
  imports Prelude
begin

text \<open>
  The regular expression matcher of \<^verbatim>\<open>xv6-public/grep.c\<close> against a declarative reading of the
  expressions, the line loop of \<^verbatim>\<open>grep\<close>, and the counting loop of \<^verbatim>\<open>wc.c\<close>. Strings are lists of
  characters without the terminating zero; what \<^verbatim>\<open>read\<close> delivers is a list of chunks.
\<close>

subsection \<open>The matcher\<close>

text \<open>
  The pattern and the text shrink: \<^verbatim>\<open>matchstar\<close> calls \<^verbatim>\<open>matchhere\<close> on the rest of the pattern.
\<close>

function matchhere :: "string \<Rightarrow> string \<Rightarrow> bool"
  and matchstar :: "char \<Rightarrow> string \<Rightarrow> string \<Rightarrow> bool" where
  "matchhere [] u = True"
| "matchhere (c # re) u =
     (if re \<noteq> [] \<and> hd re = CHR ''*'' then matchstar c (tl re) u
      else if c = CHR ''$'' \<and> re = [] then u = []
      else if u \<noteq> [] \<and> (c = CHR ''.'' \<or> c = hd u) then matchhere re (tl u)
      else False)"
| "matchstar c re u =
     (if matchhere re u then True
      else if u \<noteq> [] \<and> (hd u = c \<or> c = CHR ''.'') then matchstar c re (tl u)
      else False)"
  by pat_completeness auto
termination
  by (relation "measure (\<lambda>x. case x of Inl (re, u) \<Rightarrow> 2 * length re + length u
        | Inr (c, re, u) \<Rightarrow> 2 * length re + length u + 1)") auto

fun match_from :: "string \<Rightarrow> string \<Rightarrow> bool" where
  "match_from re [] = matchhere re []"
| "match_from re (c # u) = (matchhere re (c # u) \<or> match_from re u)"

definition match :: "string \<Rightarrow> string \<Rightarrow> bool" where
  "match re u =
     (if re \<noteq> [] \<and> hd re = CHR ''^'' then matchhere (tl re) u else match_from re u)"

declare matchstar.simps [simp del]

subsection \<open>What an expression means\<close>

datatype item = One char | Star char | Eot

fun items :: "string \<Rightarrow> item list" where
  "items [] = []"
| "items (c # re) =
     (if re \<noteq> [] \<and> hd re = CHR ''*'' then Star c # items (tl re)
      else if c = CHR ''$'' \<and> re = [] then [Eot]
      else One c # items re)"

definition fits :: "char \<Rightarrow> char \<Rightarrow> bool" where
  "fits c x \<longleftrightarrow> c = CHR ''.'' \<or> x = c"

fun accepts :: "item list \<Rightarrow> string \<Rightarrow> bool" where
  "accepts [] u = True"
| "accepts (One c # is) u = (\<exists>x v. u = x # v \<and> fits c x \<and> accepts is v)"
| "accepts (Star c # is) u = (\<exists>v w. u = v @ w \<and> (\<forall>x\<in>set v. fits c x) \<and> accepts is w)"
| "accepts (Eot # is) u = (u = [])"

lemma accepts_star_step:
  "accepts (Star c # is) u \<longleftrightarrow>
   accepts is u \<or> (u \<noteq> [] \<and> fits c (hd u) \<and> accepts (Star c # is) (tl u))" (is "?l \<longleftrightarrow> ?r")
proof
  assume ?l
  then obtain v w where v: "u = v @ w" "\<forall>x\<in>set v. fits c x" "accepts is w" by auto
  show ?r
  proof (cases v)
    case Nil
    then show ?thesis using v by simp
  next
    case (Cons x v')
    then have "accepts (Star c # is) (v' @ w)" using v by auto
    then show ?thesis using Cons v by (simp del: accepts.simps)
  qed
next
  assume ?r
  then show ?l
  proof
    assume "accepts is u"
    then show ?l unfolding accepts.simps by (intro exI [of _ "[]"] exI [of _ u]) auto
  next
    assume "u \<noteq> [] \<and> fits c (hd u) \<and> accepts (Star c # is) (tl u)"
    then obtain x v w where "u = x # v @ w" "fits c x" "\<forall>y\<in>set v. fits c y" "accepts is w"
      by (cases u) auto
    then show ?l unfolding accepts.simps by (intro exI [of _ "x # v"] exI [of _ w]) auto
  qed
qed

lemma matcher_accepts:
  "matchhere re u = accepts (items re) u"
  "matchstar c re u = accepts (Star c # items re) u"
proof (induction re u and c re u rule: matchhere_matchstar.induct)
  case (1 u)
  show ?case by simp
next
  case (2 c re u)
  then show ?case by (cases u) (auto simp: fits_def)
next
  case (3 c re u)
  show ?case
    unfolding matchstar.simps [of c re u] accepts_star_step [of c "items re" u]
    using 3 by (auto simp: fits_def simp del: accepts.simps)
qed

lemma match_from_accepts: "match_from re u \<longleftrightarrow> (\<exists>v w. u = v @ w \<and> accepts (items re) w)"
proof (induction u)
  case Nil
  show ?case by (simp add: matcher_accepts)
next
  case (Cons x u)
  have "(\<exists>v w. x # u = v @ w \<and> accepts (items re) w) \<longleftrightarrow>
    accepts (items re) (x # u) \<or> (\<exists>v w. u = v @ w \<and> accepts (items re) w)"
    by (auto simp: Cons_eq_append_conv)
  then show ?case by (simp add: Cons matcher_accepts)
qed

text \<open>
  C22: the matcher decides the declarative meaning of an expression: with a leading caret the rest
  of the expression accepts the text from its start, otherwise it accepts some suffix, where
  a character matches itself, a dot any character, a starred character any run of characters it
  matches, and a final dollar the end of the text.
\<close>

theorem match_ok:
  "match re u \<longleftrightarrow>
   (if re \<noteq> [] \<and> hd re = CHR ''^'' then accepts (items (tl re)) u
    else \<exists>v w. u = v @ w \<and> accepts (items re) w)"
  by (simp add: match_def matcher_accepts match_from_accepts)

subsection \<open>Lines\<close>

text \<open>
  The inner loop: the lines of the buffer that match are written, the rest is kept. \<^verbatim>\<open>strchr\<close> looks
  for the end of a line up to a null character and no further.
\<close>

definition ends :: "char \<Rightarrow> bool" where
  "ends c \<longleftrightarrow> c = CHR 0x0A \<or> c = CHR 0x00"

definition plain :: "string \<Rightarrow> bool" where
  "plain l \<longleftrightarrow> list_all (\<lambda>c. \<not> ends c) l"

lemma dropWhile_shorter: "dropWhile P xs = y # ys \<Longrightarrow> length ys < length xs"
  using length_dropWhile_le [of P xs] by simp

function grep_buffer :: "string \<Rightarrow> string \<Rightarrow> string \<times> string" where
  "grep_buffer pattern buf =
     (let line = takeWhile (\<lambda>c. \<not> ends c) buf; rest = dropWhile (\<lambda>c. \<not> ends c) buf
      in case rest of
           [] \<Rightarrow> ([], buf)
         | c # rest' \<Rightarrow>
             if c = CHR 0x00 then ([], buf)
             else let (out, keep) = grep_buffer pattern rest'
                  in ((if match pattern line then line @ [CHR 0x0A] else []) @ out, keep))"
  by pat_completeness auto
termination
  by (relation "measure (length \<circ> snd)") (auto dest: dropWhile_shorter [OF sym])

declare grep_buffer.simps [simp del]

text \<open>
  The list of chunks is what the calls of \<^verbatim>\<open>read\<close> return, each at most as long as the room in the
  buffer of 1024 bytes; an empty one is the end of the file or an error. If no line ended in the
  buffer, what is in it is forgotten, so the room never shrinks to nothing.
\<close>

fun grep_loop :: "string \<Rightarrow> string \<Rightarrow> string list \<Rightarrow> string" where
  "grep_loop pattern kept [] = []"
| "grep_loop pattern kept (chunk # chunks) =
     (if chunk = [] then []
      else let buf = kept @ chunk;
               (out, keep) = grep_buffer pattern buf
           in out @ grep_loop pattern (if keep = buf then [] else keep) chunks)"

definition grep :: "string \<Rightarrow> string list \<Rightarrow> string" where
  "grep pattern chunks = grep_loop pattern [] chunks"

definition text_of :: "string list \<Rightarrow> string" where
  "text_of ls = concat (map (\<lambda>l. l @ [CHR 0x0A]) ls)"

lemma text_of_simps [simp]: "text_of [] = []" "text_of (l # ls) = l @ CHR 0x0A # text_of ls"
  "text_of (ls @ ls') = text_of ls @ text_of ls'"
  by (simp_all add: text_of_def)

lemma grep_buffer_last:
  assumes "plain r"
  shows "grep_buffer pattern r = ([], r)"
proof -
  have "dropWhile (\<lambda>c. \<not> ends c) r = []" using assms by (simp add: plain_def list_all_iff)
  then show ?thesis unfolding grep_buffer.simps [of pattern r] by (simp only: Let_def list.case)
qed

lemma grep_buffer_line:
  assumes "plain l"
  shows "grep_buffer pattern (l @ CHR 0x0A # r) =
    ((if match pattern l then l @ [CHR 0x0A] else []) @ fst (grep_buffer pattern r), snd (grep_buffer pattern r))"
proof -
  have "\<forall>x\<in>set l. \<not> ends x" using assms by (auto simp: plain_def list_all_iff)
  then have tw: "takeWhile (\<lambda>c. \<not> ends c) (l @ CHR 0x0A # r) = l"
    "dropWhile (\<lambda>c. \<not> ends c) (l @ CHR 0x0A # r) = CHR 0x0A # r"
    by (simp_all add: takeWhile_append2 dropWhile_append2 ends_def)
  have "CHR 0x0A \<noteq> CHR 0x00" by simp
  with tw show ?thesis
    unfolding grep_buffer.simps [of pattern "l @ CHR 0x0A # r"]
    by (simp only: Let_def list.case case_prod_unfold if_False)
qed

lemma grep_buffer_lines:
  "\<forall>l\<in>set ls. plain l \<Longrightarrow> plain r \<Longrightarrow>
   grep_buffer pattern (text_of ls @ r) = (text_of (filter (match pattern) ls), r)"
  by (induction ls) (simp_all add: grep_buffer_last grep_buffer_line)

text \<open>
  \<^verbatim>\<open>grep\<close> writes exactly the lines that match, in their order, whenever every \<^verbatim>\<open>read\<close> delivers whole
  lines without null characters.
\<close>

lemma grep_whole_lines:
  assumes "\<forall>ls\<in>set lss. ls \<noteq> [] \<and> (\<forall>l\<in>set ls. plain l)"
  shows "grep pattern (map text_of lss) = text_of (filter (match pattern) (concat lss))"
  using assms
proof (induction lss)
  case Nil
  show ?case by (simp add: grep_def)
next
  case (Cons ls lss)
  have ne: "text_of ls \<noteq> []" using Cons.prems by (cases ls) auto
  have "grep_buffer pattern (text_of ls) = (text_of (filter (match pattern) ls), [])"
    using grep_buffer_lines [of ls "[]" pattern] Cons.prems by (simp add: plain_def)
  then show ?case using Cons ne by (simp add: grep_def)
qed

lemma grep_whole_lines_witness:
  "grep ''b'' [text_of [''abc'', ''xyz''], text_of [''b'']] = text_of [''abc'', ''b'']"
  using grep_whole_lines [of "[[''abc'', ''xyz''], [''b'']]" "''b''"] by (simp add: match_def plain_def ends_def)

text \<open>
  C27: \<^verbatim>\<open>grep\<close> loses the beginning of a line. When a \<^verbatim>\<open>read\<close> returns a piece of a line without its end,
  the piece is forgotten and only what follows is matched against the pattern.
\<close>

theorem grep_forgets:
  assumes "plain p" and "plain q" and "p \<noteq> []"
  shows "grep pattern [p, q @ [CHR 0x0A]] = (if match pattern q then q @ [CHR 0x0A] else [])"
proof -
  have "grep_buffer pattern p = ([], p)"
    using grep_buffer_last [OF assms(1)] by simp
  moreover have "grep_buffer pattern (q @ [CHR 0x0A]) = (text_of (filter (match pattern) [q]), [])"
    using grep_buffer_lines [of "[q]" "[]" pattern] assms(2) by (simp add: plain_def)
  ultimately show ?thesis using assms(3) by (simp add: grep_def)
qed

lemma grep_forgets_witness: "grep ''ab'' [''a'', ''b'' @ [CHR 0x0A]] = []"
  using grep_forgets [of "''a''" "''b''" "''ab''"] by (simp add: match_def plain_def ends_def)

subsection \<open>Counting words\<close>

definition wc_space :: "char \<Rightarrow> bool" where
  "wc_space c \<longleftrightarrow> c \<in> {CHR '' '', CHR 0x0D, CHR 0x09, CHR 0x0A, CHR 0x0B}"

record wc_state =
  wc_l :: int
  wc_w :: int
  wc_c :: int
  inword :: bool

definition wc_char :: "char \<Rightarrow> wc_state \<Rightarrow> wc_state" where
  "wc_char x s =
     (let s1 = s\<lparr>wc_c := int32 (wc_c s + 1)\<rparr>;
          s2 = (if x = CHR 0x0A then s1\<lparr>wc_l := int32 (wc_l s1 + 1)\<rparr> else s1)
      in if wc_space x then s2\<lparr>inword := False\<rparr>
         else if \<not> inword s2 then s2\<lparr>wc_w := int32 (wc_w s2 + 1), inword := True\<rparr> else s2)"

definition wc :: "string list \<Rightarrow> wc_state" where
  "wc chunks = fold (\<lambda>chunk s. fold wc_char chunk s) (takeWhile (\<lambda>c. c \<noteq> []) chunks)
     \<lparr>wc_l = 0, wc_w = 0, wc_c = 0, inword = False\<rparr>"

text \<open>A word starts at a character that is not white space, at the start or after white space.\<close>

definition word_starts :: "string \<Rightarrow> nat" where
  "word_starts t = card {i. i < length t \<and> \<not> wc_space (t ! i) \<and> (i = 0 \<or> wc_space (t ! (i - 1)))}"

lemma word_starts_snoc:
  "word_starts (t @ [x]) = word_starts t + (if \<not> wc_space x \<and> (t = [] \<or> wc_space (last t)) then 1 else 0)"
proof -
  let ?S = "\<lambda>t. {i. i < length t \<and> \<not> wc_space (t ! i) \<and> (i = 0 \<or> wc_space (t ! (i - 1)))}"
  have "i \<in> ?S (t @ [x]) \<longleftrightarrow>
      i \<in> ?S t \<union> (if \<not> wc_space x \<and> (t = [] \<or> wc_space (last t)) then {length t} else {})" for i
  proof (cases i "length t" rule: linorder_cases)
    case less
    then have "i - 1 < length t" by simp
    with less show ?thesis by (simp add: nth_append)
  next
    case equal
    then show ?thesis by (cases t rule: rev_cases) (auto simp: nth_append)
  qed simp
  then have "?S (t @ [x]) = ?S t \<union> (if \<not> wc_space x \<and> (t = [] \<or> wc_space (last t)) then {length t} else {})"
    by (rule set_eqI)
  moreover have "finite (?S t)" "length t \<notin> ?S t" by auto
  ultimately show ?thesis by (simp add: word_starts_def)
qed

lemma wc_fold:
  "fold wc_char t \<lparr>wc_l = 0, wc_w = 0, wc_c = 0, inword = False\<rparr> =
   \<lparr>wc_l = int32 (int (count_list t CHR 0x0A)), wc_w = int32 (int (word_starts t)), wc_c = int32 (int (length t)),
    inword = (t \<noteq> [] \<and> \<not> wc_space (last t))\<rparr>"
proof (induction t rule: rev_induct)
  case Nil
  show ?case by (simp add: word_starts_def int32_id)
next
  case (snoc x t)
  have more: "int32 (1 + int32 (int n)) = int32 (1 + int n)" for n
    using int32_add [of "int n" 1] by (simp add: add.commute)
  show ?case
    using snoc by (simp add: word_starts_snoc wc_char_def Let_def wc_space_def more add.commute)
qed

lemma word_starts_le: "word_starts t \<le> length t"
proof -
  have "word_starts t \<le> card {..<length t}" unfolding word_starts_def by (rule card_mono) auto
  then show ?thesis by simp
qed

text \<open>
  \<^verbatim>\<open>wc\<close> counts the newlines, the beginnings of words and the characters of the whole input,
  however it is cut into reads, as long as the input is shorter than $2^{31}$ characters.
\<close>

theorem wc_ok:
  assumes "[] \<notin> set chunks" and "length (concat chunks) < 2 ^ 31"
  shows "wc_l (wc chunks) = int (count_list (concat chunks) CHR 0x0A) \<and>
    wc_w (wc chunks) = int (word_starts (concat chunks)) \<and> wc_c (wc chunks) = int (length (concat chunks))"
proof -
  have "takeWhile (\<lambda>c. c \<noteq> []) chunks = chunks" using assms(1) by (auto simp: takeWhile_eq_all_conv)
  moreover have "fold (\<lambda>chunk s. fold wc_char chunk s) chunks s = fold wc_char (concat chunks) s" for s
    by (induction chunks arbitrary: s) simp_all
  ultimately have "wc chunks = fold wc_char (concat chunks) \<lparr>wc_l = 0, wc_w = 0, wc_c = 0, inword = False\<rparr>"
    by (simp only: wc_def)
  moreover have "int32 (int n) = int n" if "n \<le> length (concat chunks)" for n
    using that assms(2) by (intro int32_id) auto
  ultimately show ?thesis using word_starts_le [of "concat chunks"] count_le_length [of "concat chunks" "CHR 0x0A"]
    by (simp add: wc_fold)
qed

lemma wc_ok_witness: "wc_c (wc [''ab'', ''c d'']) = 5"
  using wc_ok [of "[''ab'', ''c d'']"] by simp

end
