(* ===== verification/Print.thy ===== *)
theory Print
  imports Digits
begin

text \<open>
  Formatted output: \<^verbatim>\<open>printint\<close> and \<^verbatim>\<open>printf\<close> of user programs (\<^verbatim>\<open>xv6-public/printf.c\<close>) and \<^verbatim>\<open>printint\<close> and
  \<^verbatim>\<open>cprintf\<close> of the kernel (\<^verbatim>\<open>console.c\<close>), as functions from the arguments to the characters
  written. \<open>str\<close> is the string an argument points to.
\<close>

subsection \<open>Numbers\<close>

text \<open>The characters in the order in which they are put into the buffer.\<close>

fun printint_loop :: "nat \<Rightarrow> string \<Rightarrow> uint \<Rightarrow> uint \<Rightarrow> string" where
  "printint_loop 0 ds x base = []"
| "printint_loop (Suc n) ds x base =
     ds ! unat (x mod base) # (if x div base = 0 then [] else printint_loop n ds (x div base) base)"

definition printint :: "uint \<Rightarrow> uint \<Rightarrow> bool \<Rightarrow> string" where
  "printint xx base sign =
     (let neg = (sign \<and> sint xx < 0);
          x = (if neg then - xx else xx);
          buf = printint_loop 32 ''0123456789ABCDEF'' x base @ (if neg then ''-'' else [])
      in rev buf)"

definition cprintint :: "uint \<Rightarrow> uint \<Rightarrow> bool \<Rightarrow> string" where
  "cprintint xx base sign =
     (let sign' = (sign \<and> sint xx < 0);
          x = (if sign' then - xx else xx);
          buf = printint_loop 32 ''0123456789abcdef'' x base @ (if sign' then ''-'' else [])
      in rev buf)"

lemma printint_loop_digits:
  assumes "2 \<le> unat base" and "unat x < unat base ^ n" and "0 < n"
  shows "printint_loop n ds x base = rev (map ((!) ds) (digits (unat base) (unat x)))"
  using assms(2,3)
proof (induction n arbitrary: x)
  case 0
  then show ?case by simp
next
  case (Suc n)
  have dm: "unat (x div base) = unat x div unat base" "unat (x mod base) = unat x mod unat base"
    by (simp_all add: unat_div_distrib unat_mod_distrib)
  have z: "x div base = 0 \<longleftrightarrow> unat x < unat base"
  proof -
    have "x div base = 0 \<longleftrightarrow> unat x div unat base = 0" using dm(1) by (metis unat_eq_zero)
    then show ?thesis using assms(1) by (simp add: div_eq_0_iff)
  qed
  show ?case
  proof (cases "unat x < unat base")
    case True
    then show ?thesis using z dm(2) by simp
  next
    case False
    then have "unat (x div base) < unat base ^ n"
      using Suc.prems(1) dm(1) by (simp add: less_mult_imp_div_less mult.commute)
    moreover have "0 < n" using Suc.prems(1) False by (cases n) auto
    ultimately show ?thesis
      using Suc.IH [of "x div base"] False z dm assms(1) by (simp add: digits_step)
  qed
qed

lemma printint_loop_32:
  assumes "2 \<le> unat base"
  shows "printint_loop 32 ds x base = rev (map ((!) ds) (digits (unat base) (unat x)))"
proof (rule printint_loop_digits [OF assms])
  show "0 < (32 :: nat)" by simp
  have "unat x < 2 ^ 32" using unsigned_less [of x] by simp
  also have "(2 :: nat) ^ 32 \<le> unat base ^ 32" using assms by (rule power_mono) simp
  finally show "unat x < unat base ^ 32" .
qed

lemma digit_chars:
  assumes "\<forall>d\<in>set ds. d < 10"
  shows "map ((!) ''0123456789ABCDEF'') ds = map digit_char ds"
    "map ((!) ''0123456789abcdef'') ds = map digit_char ds"
proof -
  have "''0123456789ABCDEF'' ! d = digit_char d \<and> ''0123456789abcdef'' ! d = digit_char d" if "d < 10" for d
  proof -
    have "d \<in> {0, 1, 2, 3, 4, 5, 6, 7, 8, 9}" using that by auto
    then show ?thesis by (elim insertE emptyE) (simp_all add: digit_char_def char_of_def bit_0)
  qed
  then show "map ((!) ''0123456789ABCDEF'') ds = map digit_char ds"
    "map ((!) ''0123456789abcdef'') ds = map digit_char ds"
    using assms by auto
qed

lemma sint_cases: "sint (x :: uint) = uint x \<or> sint x = uint x - 2 ^ 32"
proof -
  have "sint x = take_bit 32 (uint x) - 2 ^ 32 * of_bool (bit (uint x) 31)"
    using signed_take_bit_eq_take_bit_minus [of 31 "uint x"] by (simp add: sint_uint)
  moreover have "take_bit 32 (uint x) = uint x" using uint_lt2p [of x] by (simp add: take_bit_int_eq_self)
  ultimately show ?thesis by (cases "bit (uint x) 31") simp_all
qed

lemma unat_neg_sint:
  fixes x :: uint
  assumes "sint x < 0"
  shows "unat (- x) = nat (- sint x)"
proof -
  have lt: "uint x < 2 ^ 32" "0 \<le> uint x" using uint_lt2p [of x] by auto
  then have s: "sint x = uint x - 2 ^ 32" using sint_cases [of x] assms by linarith
  have "sint x \<noteq> - (2 ^ 32)" using sint_ge [of x] by simp
  then have "0 < uint x" using s lt by linarith
  have "uint (- x) = (- uint x) mod 2 ^ 32" by (simp add: uint_word_ariths)
  also have "\<dots> = (2 ^ 32 - uint x) mod 2 ^ 32" by (simp add: mod_diff_left_eq [symmetric])
  also have "\<dots> = 2 ^ 32 - uint x" using lt \<open>0 < uint x\<close> by (intro mod_pos_pos_trivial) auto
  finally show ?thesis using s by (simp add: unat_eq_nat_uint)
qed

lemma unat_sint:
  fixes x :: uint
  assumes "\<not> sint x < 0"
  shows "unat x = nat (sint x)"
proof -
  have "uint x < 2 ^ 32" using uint_lt2p [of x] by auto
  then have "sint x = uint x" using sint_cases [of x] assms by linarith
  then show ?thesis by (metis nat_uint_eq)
qed

lemma length_digits: "2 \<le> b \<Longrightarrow> n < b ^ k \<Longrightarrow> 0 < k \<Longrightarrow> length (digits b n) \<le> k"
proof (induction k arbitrary: n)
  case (Suc k)
  show ?case
  proof (cases "n < b")
    case False
    then have "k \<noteq> 0" using Suc.prems(2) by (cases k) auto
    moreover have "n div b < b ^ k" using Suc.prems(2) by (simp add: less_mult_imp_div_less mult.commute)
    ultimately show ?thesis using Suc.IH [of "n div b"] Suc.prems(1) False by (simp add: digits_step)
  qed simp
qed simp

lemma printint_decimal_show: "printint xx 10 True = show_int (sint xx)" "cprintint xx 10 True = show_int (sint xx)"
proof -
  have ten: "2 \<le> unat (10 :: uint)" "unat (10 :: uint) = 10" by simp_all
  have dig: "\<forall>d\<in>set (digits 10 n). d < 10" for n using digits_bound [of 10] by auto
  have loop: "printint_loop 32 ''0123456789ABCDEF'' x 10 = rev (show_nat (unat x))"
    "printint_loop 32 ''0123456789abcdef'' x 10 = rev (show_nat (unat x))" for x
    using printint_loop_32 [OF ten(1)] digit_chars [OF dig] by (simp_all add: show_nat_def ten(2))
  show "printint xx 10 True = show_int (sint xx)" "cprintint xx 10 True = show_int (sint xx)"
    using unat_neg_sint [of xx] unat_sint [of xx]
    by (cases "sint xx < 0"; simp add: printint_def cprintint_def loop show_int_def)+
qed

text \<open>
  A number prints as its decimal representation, with both \<^verbatim>\<open>printint\<close>s: \<^verbatim>\<open>%d\<close> of any 32-bit
  argument, the most negative one included, is the text of its signed value, and the text is
  at most eleven characters long, so the buffer of sixteen never overflows.
\<close>

lemma printint_decimal:
  "printint xx 10 True = show_int (sint xx) \<and> cprintint xx 10 True = show_int (sint xx) \<and>
   length (show_int (sint xx)) \<le> 11"
proof -
  note printint_decimal_show [of xx]
  moreover have "length (show_int (sint xx)) \<le> 11"
  proof -
    have "- (2 ^ 31) \<le> sint xx" "sint xx < 2 ^ 31" using sint_ge [of xx] sint_lt [of xx] by simp_all
    then have "nat (- sint xx) < 10 ^ 10" "nat (sint xx) < 10 ^ 10" by auto
    then have "length (digits 10 (nat (- sint xx))) \<le> 10" "length (digits 10 (nat (sint xx))) \<le> 10"
      by (auto intro!: length_digits)
    then show ?thesis by (simp add: show_int_def show_nat_def)
  qed
  ultimately show ?thesis by blast
qed

subsection \<open>Formats\<close>

text \<open>The argument is a word; a missing one reads whatever the stack holds, here nothing.\<close>

definition arg :: "uint list \<Rightarrow> uint" where
  "arg ap = (case ap of [] \<Rightarrow> 0 | a # _ \<Rightarrow> a)"

definition pstring :: "(uint \<Rightarrow> string) \<Rightarrow> uint \<Rightarrow> string" where
  "pstring str a = (if a = 0 then ''(null)'' else str a)"

fun printf_loop :: "(uint \<Rightarrow> string) \<Rightarrow> bool \<Rightarrow> string \<Rightarrow> uint list \<Rightarrow> string" where
  "printf_loop str pct [] ap = []"
| "printf_loop str pct (c # fmt) ap =
     (if \<not> pct then
        if c = CHR ''%'' then printf_loop str True fmt ap else c # printf_loop str False fmt ap
      else if c = CHR ''d'' then printint (arg ap) 10 True @ printf_loop str False fmt (tl ap)
      else if c = CHR ''x'' \<or> c = CHR ''p'' then printint (arg ap) 16 False @ printf_loop str False fmt (tl ap)
      else if c = CHR ''s'' then pstring str (arg ap) @ printf_loop str False fmt (tl ap)
      else if c = CHR ''c'' then char_of (unat (arg ap)) # printf_loop str False fmt (tl ap)
      else if c = CHR ''%'' then c # printf_loop str False fmt ap
      else CHR ''%'' # c # printf_loop str False fmt ap)"

definition printf :: "(uint \<Rightarrow> string) \<Rightarrow> string \<Rightarrow> uint list \<Rightarrow> string" where
  "printf str fmt ap = printf_loop str False fmt ap"

fun cprintf :: "(uint \<Rightarrow> string) \<Rightarrow> string \<Rightarrow> uint list \<Rightarrow> string" where
  "cprintf str [] ap = []"
| "cprintf str [c] ap = (if c \<noteq> CHR ''%'' then [c] else [])"
| "cprintf str (c # d # fmt) ap =
     (if c \<noteq> CHR ''%'' then c # cprintf str (d # fmt) ap
      else if d = CHR ''d'' then cprintint (arg ap) 10 True @ cprintf str fmt (tl ap)
      else if d = CHR ''x'' \<or> d = CHR ''p'' then cprintint (arg ap) 16 False @ cprintf str fmt (tl ap)
      else if d = CHR ''s'' then pstring str (arg ap) @ cprintf str fmt (tl ap)
      else if d = CHR ''%'' then CHR ''%'' # cprintf str fmt ap
      else CHR ''%'' # d # cprintf str fmt ap)"

text \<open>The characters that follow a percent sign in a format.\<close>

fun directives :: "string \<Rightarrow> char set" where
  "directives [] = {}"
| "directives [c] = {}"
| "directives (c # d # fmt) = (if c = CHR ''%'' then insert d (directives fmt) else directives (d # fmt))"

text \<open>
  The kernel's and the user library's formatted printing agree on every format that uses
  neither hexadecimal numbers, which they print with different letters, nor \<^verbatim>\<open>%c\<close>, which only the
  library knows.
\<close>

lemma printf_cprintf:
  assumes "directives fmt \<inter> {CHR ''c'', CHR ''x'', CHR ''p''} = {}"
  shows "printf str fmt ap = cprintf str fmt ap"
proof -
  have eq: "printint a 10 True = cprintint a 10 True" for a by (simp add: printint_decimal_show)
  show ?thesis
    using assms unfolding printf_def
  proof (induction str fmt ap rule: cprintf.induct)
    case (3 str c d fmt ap)
    show ?case
    proof (cases "c = CHR ''%''")
      case True
      then show ?thesis using 3 by (simp add: eq) auto
    next
      case False
      then have "printf_loop str False (c # d # fmt) ap = c # printf_loop str False (d # fmt) ap"
        by (simp only: printf_loop.simps(2) [of str False c] if_False if_True not_False_eq_True False)
      with False 3 show ?thesis by (simp del: printf_loop.simps)
    qed
  qed simp_all
qed

lemma printf_cprintf_witness:
  "printf (\<lambda>_. ''init'') ''%d %s'' [1, 2] = cprintf (\<lambda>_. ''init'') ''%d %s'' [1, 2]"
  by (rule printf_cprintf) simp

end
