(* ===== verification/Console.thy ===== *)
theory Console
  imports Ring Sched Print
begin

text \<open>
  The console's input side, \<^verbatim>\<open>xv6-public/console.c\<close>: the interrupt handler that edits the line being
  typed in a ring buffer and the read of committed lines. The ring with its three counters is
  shown to implement a line editor on two lists, the committed and the pending characters.
  What is echoed is collected; the backspace code is 256. Locking and unlocking the console's
  inode around a read belongs to the file system and is left out here.
\<close>

subsection \<open>State and editing\<close>

abbreviation INPUT_BUF :: nat where "INPUT_BUF \<equiv> 128"
abbreviation BACKSPACE :: nat where "BACKSPACE \<equiv> 0x100"

definition Ctl :: "char \<Rightarrow> uchar" where
  "Ctl x = of_char x - of_char CHR ''@''"

record cinput =
  in_buf :: "uchar list"
  in_r :: uint
  in_w :: uint
  in_e :: uint
  echoed :: "nat list"

definition consputc :: "nat \<Rightarrow> cinput \<Rightarrow> cinput" where
  "consputc c i = i\<lparr>echoed := echoed i @ [c]\<rparr>"

definition erase :: "cinput \<Rightarrow> cinput" where
  "erase i = consputc BACKSPACE (i\<lparr>in_e := in_e i - 1\<rparr>)"

fun kill_line :: "nat \<Rightarrow> cinput \<Rightarrow> cinput" where
  "kill_line 0 i = i"
| "kill_line (Suc n) i =
     (if in_e i \<noteq> in_w i \<and> in_buf i ! (unat (in_e i - 1) mod INPUT_BUF) \<noteq> 10
      then kill_line n (erase i) else i)"

definition con_key :: "uchar \<Rightarrow> cinput \<Rightarrow> 'a mach_scheme \<Rightarrow> (bool \<times> cinput \<times> 'a mach_scheme) outcome" where
  "con_key c i s =
     (if c = Ctl CHR ''P'' then Ret (True, i, s)
      else if c = Ctl CHR ''U'' then Ret (False, kill_line (unat (in_e i - in_w i)) i, s)
      else if c = Ctl CHR ''H'' \<or> c = 0x7f then
        Ret (False, if in_e i \<noteq> in_w i then erase i else i, s)
      else if c \<noteq> 0 \<and> unat (in_e i - in_r i) < INPUT_BUF then
        let c' = (if c = 13 then 10 else c);
            i1 = i\<lparr>in_buf := (in_buf i)[unat (in_e i) mod INPUT_BUF := c'], in_e := in_e i + 1\<rparr>;
            i2 = consputc (unat c') i1
        in if c' = 10 \<or> c' = Ctl CHR ''D'' \<or> in_e i2 = in_r i2 + of_nat INPUT_BUF
           then obind (wakeup ChInput s) (\<lambda>s1. Ret (False, i2\<lparr>in_w := in_e i2\<rparr>, s1))
           else Ret (False, i2, s)
      else Ret (False, i, s))"

fun con_keys :: "uchar list \<Rightarrow> bool \<Rightarrow> cinput \<Rightarrow> 'a mach_scheme \<Rightarrow> (bool \<times> cinput \<times> 'a mach_scheme) outcome" where
  "con_keys [] d i s = Ret (d, i, s)"
| "con_keys (c # cs) d i s = obind (con_key c i s) (\<lambda>(d', i1, s1). con_keys cs (d \<or> d') i1 s1)"

text \<open>\<open>keys\<close> are the characters \<^verbatim>\<open>getc\<close> returns before it returns minus one.\<close>

definition consoleintr :: "uchar list \<Rightarrow> cinput \<Rightarrow> 'a mach_scheme \<Rightarrow> (bool \<times> cinput \<times> 'a mach_scheme) outcome" where
  "consoleintr keys i s =
     obind (acquire LCons s) (\<lambda>s1.
     obind (con_keys keys False i s1) (\<lambda>(d, i1, s2).
     obind (release LCons s2) (\<lambda>s3. Ret (d, i1, s3))))"

datatype 's cresult = CDone int "uchar list" cinput 's | CBlocked "uchar list" cinput 's

fun consoleread_loop :: "nat \<Rightarrow> nat \<Rightarrow> uchar list \<Rightarrow> cinput \<Rightarrow> 'a mach_scheme \<Rightarrow> 'a mach_scheme cresult outcome" where
  "consoleread_loop 0 target out i s =
     obind (release LCons s) (\<lambda>s1. Ret (CDone (int target) out i s1))"
| "consoleread_loop (Suc n) target out i s =
     (if in_r i = in_w i then
        obind (killed s) (\<lambda>k.
          if k then obind (release LCons s) (\<lambda>s1. Ret (CDone (- 1) out i s1))
          else obind (sleep_enter ChInput LCons s) (\<lambda>s1. Ret (CBlocked out i s1)))
      else let c = in_buf i ! (unat (in_r i) mod INPUT_BUF);
               i1 = i\<lparr>in_r := in_r i + 1\<rparr>
           in if c = Ctl CHR ''D'' then
                let i2 = (if Suc n < target then i1\<lparr>in_r := in_r i1 - 1\<rparr> else i1)
                in obind (release LCons s) (\<lambda>s1. Ret (CDone (int target - int (Suc n)) out i2 s1))
              else if c = 10 then
                obind (release LCons s) (\<lambda>s1. Ret (CDone (int target - int n) (out @ [c]) i1 s1))
              else consoleread_loop n target (out @ [c]) i1 s)"

definition consoleread :: "nat \<Rightarrow> cinput \<Rightarrow> 'a mach_scheme \<Rightarrow> 'a mach_scheme cresult outcome" where
  "consoleread n i s = obind (acquire LCons s) (\<lambda>s1. consoleread_loop n n [] i s1)"

definition consoleread_resume ::
  "nat \<Rightarrow> nat \<Rightarrow> uchar list \<Rightarrow> cinput \<Rightarrow> 'a mach_scheme \<Rightarrow> 'a mach_scheme cresult outcome" where
  "consoleread_resume n target out i s = obind (sleep_leave LCons s) (\<lambda>s1. consoleread_loop n target out i s1)"

definition consolewrite :: "uchar list \<Rightarrow> cinput \<Rightarrow> 'a mach_scheme \<Rightarrow> (int \<times> cinput \<times> 'a mach_scheme) outcome" where
  "consolewrite buf i s =
     obind (acquire LCons s) (\<lambda>s1.
     let i1 = fold (\<lambda>b. consputc (unat b)) buf i
     in obind (release LCons s1) (\<lambda>s2. Ret (int (length buf), i1, s2)))"

subsection \<open>The line editor it implements\<close>

definition typed :: "cinput \<Rightarrow> uchar list" where
  "typed i = ring_contents INPUT_BUF (in_buf i) (in_r i) (in_e i)"

definition committed :: "cinput \<Rightarrow> uchar list" where
  "committed i = take (unat (in_w i - in_r i)) (typed i)"

definition pending :: "cinput \<Rightarrow> uchar list" where
  "pending i = drop (unat (in_w i - in_r i)) (typed i)"

definition input_ok :: "cinput \<Rightarrow> bool" where
  "input_ok i \<longleftrightarrow> length (in_buf i) = INPUT_BUF \<and> unat (in_e i - in_r i) \<le> INPUT_BUF \<and>
     unat (in_w i - in_r i) \<le> unat (in_e i - in_r i)"

definition edit :: "uchar \<Rightarrow> uchar list \<times> uchar list \<Rightarrow> uchar list \<times> uchar list" where
  "edit c st =
     (let (com, pend) = st
      in if c = Ctl CHR ''P'' then (com, pend)
         else if c = Ctl CHR ''U'' then (com, rev (dropWhile (\<lambda>x. x \<noteq> 10) (rev pend)))
         else if c = Ctl CHR ''H'' \<or> c = 0x7f then (com, butlast pend)
         else if c \<noteq> 0 \<and> length com + length pend < INPUT_BUF then
           let c' = (if c = 13 then 10 else c); pend' = pend @ [c']
           in if c' = 10 \<or> c' = Ctl CHR ''D'' \<or> length com + length pend' = INPUT_BUF
              then (com @ pend', []) else (com, pend')
         else (com, pend))"

lemma length_typed [simp]: "length (typed i) = unat (in_e i - in_r i)"
  by (simp add: typed_def)

lemma typed_split: "typed i = committed i @ pending i"
  by (simp add: committed_def pending_def)

lemma pending_length: "input_ok i \<Longrightarrow> length (committed i) = unat (in_w i - in_r i)"
  "length (pending i) = unat (in_e i - in_r i) - unat (in_w i - in_r i)"
  by (simp_all add: input_ok_def committed_def pending_def)

lemma pending_empty: "input_ok i \<Longrightarrow> pending i = [] \<longleftrightarrow> in_e i = in_w i"
proof -
  assume ok: "input_ok i"
  have "pending i = [] \<longleftrightarrow> unat (in_e i - in_r i) \<le> unat (in_w i - in_r i)"
    by (simp add: pending_def)
  also have "\<dots> \<longleftrightarrow> in_e i - in_r i = in_w i - in_r i"
    using ok by (auto simp: input_ok_def word_unat_eq_iff)
  finally show ?thesis by simp
qed

lemma ring_drop_last:
  assumes "e \<noteq> r"
  shows "ring_contents N d r (e - 1) = butlast (ring_contents N d r e)"
    and "last (ring_contents N d r e) = d ! ((unat r + unat (e - 1 - r)) mod N)"
    and "unat (e - r) = Suc (unat (e - 1 - r))"
proof -
  have "unat (e - r) = Suc (unat (e - (r + 1)))" using unat_diff_Suc [of r e] assms by auto
  moreover have "e - (r + 1) = e - 1 - r" by simp
  ultimately show s: "unat (e - r) = Suc (unat (e - 1 - r))" by metis
  show "ring_contents N d r (e - 1) = butlast (ring_contents N d r e)"
    "last (ring_contents N d r e) = d ! ((unat r + unat (e - 1 - r)) mod N)"
    unfolding ring_contents_def s by simp_all
qed

lemma erase_ok:
  assumes ok: "input_ok i" and ne: "in_e i \<noteq> in_w i"
  shows "input_ok (erase i)" "committed (erase i) = committed i" "pending (erase i) = butlast (pending i)"
    "last (pending i) = in_buf i ! (unat (in_e i - 1) mod INPUT_BUF)"
    "unat (in_e (erase i) - in_w (erase i)) = unat (in_e i - in_w i) - 1"
proof -
  have p: "pending i \<noteq> []" using pending_empty [OF ok] ne by simp
  then have n: "unat (in_w i - in_r i) < unat (in_e i - in_r i)" using pending_length(2) [of i] by (cases "pending i") auto
  then have er: "in_e i \<noteq> in_r i" by auto
  note d = ring_drop_last(1,2) [OF er, of INPUT_BUF "in_buf i"] ring_drop_last(3) [OF er]
  have t: "typed (erase i) = butlast (typed i)" using d(1) by (simp add: typed_def erase_def consputc_def)
  have w: "in_w (erase i) = in_w i" "in_r (erase i) = in_r i" "in_buf (erase i) = in_buf i" "in_e (erase i) = in_e i - 1"
    by (simp_all add: erase_def consputc_def)
  show "input_ok (erase i)" using ok n d(3) by (simp add: input_ok_def w)
  show "committed (erase i) = committed i"
    using n by (simp add: committed_def w t take_butlast)
  show "pending (erase i) = butlast (pending i)"
    by (simp add: pending_def w t drop_butlast)
  have m: "(unat (in_r i) + unat (in_e i - 1 - in_r i)) mod INPUT_BUF = unat (in_e i - 1) mod INPUT_BUF"
    using unat_mod_add [of INPUT_BUF "in_r i" "in_e i - 1 - in_r i"] by simp
  have "last (pending i) = last (typed i)" using p by (simp add: typed_split)
  then show "last (pending i) = in_buf i ! (unat (in_e i - 1) mod INPUT_BUF)"
    using d(2) unfolding typed_def m by simp
  have "unat (in_e i - in_w i) = Suc (unat (in_e i - (in_w i + 1)))"
    using unat_diff_Suc [of "in_w i" "in_e i"] ne by auto
  moreover have "in_e i - (in_w i + 1) = in_e i - 1 - in_w i" by simp
  ultimately show "unat (in_e (erase i) - in_w (erase i)) = unat (in_e i - in_w i) - 1"
    unfolding w by simp
qed

lemma pending_fuel: "input_ok i \<Longrightarrow> unat (in_e i - in_w i) = length (pending i)"
proof -
  assume ok: "input_ok i"
  have "in_e i - in_w i = (in_e i - in_r i) - (in_w i - in_r i)" by simp
  moreover have "in_w i - in_r i \<le> in_e i - in_r i" using ok by (simp add: input_ok_def word_le_nat_alt)
  ultimately show ?thesis using unat_sub [of "in_w i - in_r i" "in_e i - in_r i"] by (simp add: pending_length(2))
qed

lemma kill_line_ok:
  "input_ok i \<Longrightarrow> length (pending i) \<le> n \<Longrightarrow>
   input_ok (kill_line n i) \<and> committed (kill_line n i) = committed i \<and>
   pending (kill_line n i) = rev (dropWhile (\<lambda>x. x \<noteq> 10) (rev (pending i)))"
proof (induction n arbitrary: i)
  case 0
  then show ?case by simp
next
  case (Suc n)
  show ?case
  proof (cases "in_e i = in_w i")
    case True
    then have "pending i = []" using pending_empty [OF Suc.prems(1)] by simp
    then show ?thesis using True Suc.prems by simp
  next
    case False
    note e = erase_ok [OF Suc.prems(1) False]
    have "pending i \<noteq> []" using pending_empty [OF Suc.prems(1)] False by simp
    then obtain ys y where y: "pending i = ys @ [y]" by (cases "pending i" rule: rev_cases) auto
    show ?thesis
    proof (cases "y = 10")
      case True
      then show ?thesis using e(4) y Suc.prems(1) by simp
    next
      case False
      then have "kill_line (Suc n) i = kill_line n (erase i)"
        using e(4) y \<open>in_e i \<noteq> in_w i\<close> by simp
      moreover have "length (pending (erase i)) \<le> n" using e(3) y Suc.prems(2) by simp
      ultimately show ?thesis using Suc.IH [OF e(1)] e(2,3) y False by simp
    qed
  qed
qed

lemma type_ok:
  fixes c :: uchar
  assumes ok: "input_ok i" and room: "unat (in_e i - in_r i) < INPUT_BUF"
  defines "i' \<equiv> consputc (unat c) (i\<lparr>in_buf := (in_buf i)[unat (in_e i) mod INPUT_BUF := c], in_e := in_e i + 1\<rparr>)"
  shows "input_ok i'" "committed i' = committed i" "pending i' = pending i @ [c]"
    "in_e i' = in_r i' + of_nat INPUT_BUF \<longleftrightarrow> length (committed i) + length (pending i @ [c]) = INPUT_BUF"
    "input_ok (i'\<lparr>in_w := in_e i'\<rparr>)" "committed (i'\<lparr>in_w := in_e i'\<rparr>) = committed i @ pending i @ [c]"
    "pending (i'\<lparr>in_w := in_e i'\<rparr>) = []"
proof -
  have len: "length (in_buf i) = INPUT_BUF" "unat (in_w i - in_r i) \<le> unat (in_e i - in_r i)"
    using ok by (simp_all add: input_ok_def)
  have t: "typed i' = typed i @ [c]"
    using ring_put(1) [of INPUT_BUF "in_buf i" "in_e i" "in_r i" c] len(1) room
    by (simp add: typed_def i'_def consputc_def)
  have u: "unat (in_e i + 1 - in_r i) = Suc (unat (in_e i - in_r i))"
    using ring_put(2) [of INPUT_BUF "in_buf i" "in_e i" "in_r i"] len(1) room by simp
  have f: "in_w i' = in_w i" "in_r i' = in_r i" "in_e i' = in_e i + 1" "length (in_buf i') = INPUT_BUF"
    using len(1) by (simp_all add: i'_def consputc_def)
  show "input_ok i'" "input_ok (i'\<lparr>in_w := in_e i'\<rparr>)" using room len(2) f u by (simp_all add: input_ok_def)
  show c: "committed i' = committed i" "pending i' = pending i @ [c]"
    using len(2) by (simp_all add: committed_def pending_def t f)
  have all: "take (unat (in_e i' - in_r i')) (typed i @ [c]) = typed i @ [c]"
    "drop (unat (in_e i' - in_r i')) (typed i @ [c]) = []" using u by (simp_all add: f)
  have tw: "typed (i'\<lparr>in_w := in_e i'\<rparr>) = typed i'" by (simp add: typed_def)
  show "committed (i'\<lparr>in_w := in_e i'\<rparr>) = committed i @ pending i @ [c]" "pending (i'\<lparr>in_w := in_e i'\<rparr>) = []"
    unfolding committed_def [of "i'\<lparr>in_w := in_e i'\<rparr>"] pending_def [of "i'\<lparr>in_w := in_e i'\<rparr>"] tw t
    using all by (simp_all add: typed_split [of i])
  have "in_e i' = in_r i' + 128 \<longleftrightarrow> in_e i + 1 - in_r i = 128" unfolding f by (auto simp: algebra_simps)
  also have "\<dots> \<longleftrightarrow> unat (in_e i + 1 - in_r i) = 128" by (simp add: word_unat_eq_iff)
  also have "\<dots> \<longleftrightarrow> length (committed i) + length (pending i @ [c]) = INPUT_BUF"
    using u pending_length [of i] ok len(2) by auto
  finally show "in_e i' = in_r i' + of_nat INPUT_BUF \<longleftrightarrow> length (committed i) + length (pending i @ [c]) = INPUT_BUF"
    by simp
qed

text \<open>
  C26: the console's ring buffer implements a line editor. From every well-formed state and inside
  the console's critical section, a key handled by the interrupt handler changes the committed and
  the pending characters as the editor does: it appends, erases one character, kills the line,
  or commits the line at a newline, an end-of-file mark or a full buffer, and the state stays
  well formed, also when the 32-bit counters wrap around.
\<close>

theorem con_key_edits:
  assumes "input_ok i" and "\<not> iflag s" and "1 \<le> ncli s" and "locks s LPtable = unlocked"
  shows "\<exists>i' s'. con_key c i s = Ret (c = Ctl CHR ''P'', i', s') \<and> input_ok i' \<and>
    (committed i', pending i') = edit c (committed i, pending i)"
proof -
  have n: "unat (in_e i - in_r i) = length (committed i) + length (pending i)"
    using pending_length [of i] assms(1) by (simp add: input_ok_def)
  have wk: "wakeup ChInput s = Ret (wakeup1 ChInput s)" using assms(2-4) by simp
  consider (P) "c = Ctl CHR ''P''" | (U) "c \<noteq> Ctl CHR ''P''" "c = Ctl CHR ''U''"
    | (H) "c \<noteq> Ctl CHR ''P''" "c \<noteq> Ctl CHR ''U''" "c = Ctl CHR ''H'' \<or> c = 0x7f"
    | (K) "c \<noteq> Ctl CHR ''P''" "c \<noteq> Ctl CHR ''U''" "\<not> (c = Ctl CHR ''H'' \<or> c = 0x7f)" by blast
  then show ?thesis
  proof cases
    case P
    then have "con_key c i s = Ret (True, i, s)" by (simp add: con_key_def)
    then show ?thesis using P assms(1) by (auto simp: edit_def)
  next
    case U
    have k: "con_key c i s = Ret (False, kill_line (unat (in_e i - in_w i)) i, s)"
      unfolding con_key_def using U by (simp only: if_False if_True simp_thms)
    have "edit c (committed i, pending i) = (committed i, rev (dropWhile (\<lambda>x. x \<noteq> 10) (rev (pending i))))"
      unfolding edit_def Let_def using U by (simp only: if_False if_True simp_thms prod.case)
    then show ?thesis
      unfolding k using kill_line_ok [OF assms(1), of "unat (in_e i - in_w i)"] pending_fuel [OF assms(1)] U(1) by simp
  next
    case H
    then have h: "(c = Ctl CHR ''P'') = False" "(c = Ctl CHR ''U'') = False"
      "(c = Ctl CHR ''H'' \<or> c = 0x7f) = True" by blast+
    have k: "con_key c i s = Ret (False, if in_e i \<noteq> in_w i then erase i else i, s)"
      unfolding con_key_def h by (simp only: if_False if_True)
    have "edit c (committed i, pending i) = (committed i, butlast (pending i))"
      unfolding edit_def Let_def h by (simp only: if_False if_True prod.case)
    then show ?thesis
      unfolding k using erase_ok(1-3) [OF assms(1)] pending_empty [OF assms(1)] assms(1) H(1)
      by (cases "in_e i = in_w i") simp_all
  next
    case K
    show ?thesis
    proof (cases "c \<noteq> 0 \<and> unat (in_e i - in_r i) < INPUT_BUF")
      case False
      then show ?thesis using K n assms(1) by (auto simp: con_key_def edit_def)
    next
      case True
      define c' where "c' = (if c = 13 then 10 else c)"
      define i2 where "i2 = consputc (unat c')
        (i\<lparr>in_buf := (in_buf i)[unat (in_e i) mod INPUT_BUF := c'], in_e := in_e i + 1\<rparr>)"
      note t = type_ok [OF assms(1) conjunct2 [OF True], of c', folded i2_def]
      have con: "con_key c i s = (if c' = 10 \<or> c' = Ctl CHR ''D'' \<or> in_e i2 = in_r i2 + of_nat INPUT_BUF
          then Ret (False, i2\<lparr>in_w := in_e i2\<rparr>, wakeup1 ChInput s) else Ret (False, i2, s))"
        using K True wk by (simp add: con_key_def Let_def c'_def [symmetric] i2_def [symmetric])
      have ed: "edit c (committed i, pending i) =
          (if c' = 10 \<or> c' = Ctl CHR ''D'' \<or> length (committed i) + length (pending i @ [c']) = INPUT_BUF
           then (committed i @ pending i @ [c'], []) else (committed i, pending i @ [c']))"
        using K True n by (simp add: edit_def Let_def c'_def)
      show ?thesis
      proof (cases "c' = 10 \<or> c' = Ctl CHR ''D'' \<or> in_e i2 = in_r i2 + of_nat INPUT_BUF")
        case True
        then show ?thesis using t(4-7) K(1) by (simp add: con ed)
      next
        case False
        then show ?thesis using t(1-4) K(1) by (simp add: con ed)
      qed
    qed
  qed
qed

definition blank_input :: cinput where
  "blank_input = \<lparr>in_buf = replicate 128 0, in_r = 0, in_w = 0, in_e = 0, echoed = []\<rparr>"

definition in_cons_lock :: mach where
  "in_cons_lock = \<lparr>cpu_id = 0, iflag = False, ncli = 1, intena = True, cur = Some 0,
     locks = (\<lambda>_. unlocked)(LCons := \<lparr>locked = True, lk_cpu = Some 0\<rparr>), procs = [zero_proc],
     nextpid = 2, initproc = None, kmemory = (\<lambda>_. 0), freelist = 0, use_lock = True\<rparr>"

lemma con_key_edits_witness:
  "\<exists>i' s'. con_key 97 blank_input in_cons_lock = Ret (97 = Ctl CHR ''P'', i', s') \<and>
     (committed i', pending i') = edit 97 ([], [])"
proof -
  have ok: "input_ok blank_input" "committed blank_input = []" "pending blank_input = []"
    by (simp_all add: blank_input_def input_ok_def committed_def pending_def typed_def ring_contents_def)
  have s: "\<not> iflag in_cons_lock" "1 \<le> ncli in_cons_lock" "locks in_cons_lock LPtable = unlocked"
    by (simp_all add: in_cons_lock_def)
  from con_key_edits [OF ok(1) s, of 97] ok show ?thesis by auto
qed

end
