(* ===== verification/Cga.thy ===== *)
theory Cga
  imports Console
begin

text \<open>
  The text screen, \<^verbatim>\<open>cgaputc\<close> of \<^verbatim>\<open>xv6-public/console.c\<close>: the cursor position, as the controller of the
  screen holds it, and the cells of the screen memory. The lemmas show that the cursor stays
  above the last row, so that the panic is never reached, for all characters the console ever
  sends, and where a character appears.
\<close>

record screen =
  pos :: nat
  crt :: "ushort list"

definition cell :: "nat \<Rightarrow> ushort" where
  "cell c = (of_nat c AND 0xFF) OR 0x0700"

text \<open>\<^verbatim>\<open>memmove\<close> of the rows 1 to 23 up by one, \<^verbatim>\<open>memset\<close> from the cursor to the end of row 23.\<close>

definition scroll :: "screen \<Rightarrow> screen" where
  "scroll s =
     (let p = pos s - 80; moved = take (23 * 80) (drop 80 (crt s)) @ drop (23 * 80) (crt s)
      in s\<lparr>pos := p, crt := take p moved @ replicate (24 * 80 - p) 0 @ drop (24 * 80) moved\<rparr>)"

definition cgaputc :: "nat \<Rightarrow> screen \<Rightarrow> screen outcome" where
  "cgaputc c s =
     (let s1 = (if c = 10 then s\<lparr>pos := pos s + (80 - pos s mod 80)\<rparr>
                else if c = BACKSPACE then (if pos s > 0 then s\<lparr>pos := pos s - 1\<rparr> else s)
                else s\<lparr>crt := (crt s)[pos s := cell c], pos := pos s + 1\<rparr>)
      in if pos s1 > 25 * 80 then Panic ''pos under/overflow''
         else let s2 = (if pos s1 div 80 \<ge> 24 then scroll s1 else s1)
              in Ret (s2\<lparr>crt := (crt s2)[pos s2 := cell 32]\<rparr>))"

fun cga_all :: "nat list \<Rightarrow> screen \<Rightarrow> screen outcome" where
  "cga_all [] s = Ret s"
| "cga_all (c # cs) s = obind (cgaputc c s) (cga_all cs)"

definition screen_ok :: "screen \<Rightarrow> bool" where
  "screen_ok s \<longleftrightarrow> pos s < 24 * 80 \<and> length (crt s) = 25 * 80"

lemma newline_bound:
  assumes "p < 24 * 80"
  shows "p + (80 - p mod 80) \<le> 24 * (80 :: nat)"
proof -
  have "p + (80 - p mod 80) = 80 * (p div 80 + 1)"
    by presburger
  moreover have "p div 80 < 24" using assms by (simp add: less_mult_imp_div_less)
  ultimately show ?thesis by simp
qed

lemma scroll_ok:
  assumes "pos s = 24 * 80" and "length (crt s) = 25 * 80"
  shows "pos (scroll s) = 23 * 80" and "length (crt (scroll s)) = 25 * 80"
  using assms by (simp_all add: scroll_def Let_def)

lemma cgaputc_ok:
  assumes "screen_ok s"
  obtains t where "cgaputc c s = Ret t" and "screen_ok t"
proof -
  define s1 where "s1 = (if c = 10 then s\<lparr>pos := pos s + (80 - pos s mod 80)\<rparr>
    else if c = BACKSPACE then (if pos s > 0 then s\<lparr>pos := pos s - 1\<rparr> else s)
    else s\<lparr>crt := (crt s)[pos s := cell c], pos := pos s + 1\<rparr>)"
  have b: "pos s1 \<le> 24 * 80" "length (crt s1) = 25 * 80"
    using assms newline_bound [of "pos s"] by (auto simp: s1_def screen_ok_def)
  define s2 where "s2 = (if pos s1 div 80 \<ge> 24 then scroll s1 else s1)"
  have "pos s1 div 80 \<ge> 24 \<longleftrightarrow> pos s1 = 24 * 80"
    using b(1) by (auto simp: less_eq_div_iff_mult_less_eq)
  then have "pos s2 < 24 * 80" "length (crt s2) = 25 * 80"
    using b scroll_ok [of s1] by (auto simp: s2_def)
  moreover have "cgaputc c s = Ret (s2\<lparr>crt := (crt s2)[pos s2 := cell 32]\<rparr>)"
    using b(1) unfolding cgaputc_def s1_def [symmetric] s2_def by (simp add: Let_def)
  ultimately show ?thesis using that by (simp add: screen_ok_def)
qed

lemma cga_never_panics:
  assumes "screen_ok s"
  shows "\<exists>t. cga_all cs s = Ret t \<and> screen_ok t"
  using assms
proof (induction cs arbitrary: s)
  case (Cons c cs)
  then obtain t where "cgaputc c s = Ret t" "screen_ok t" using cgaputc_ok by blast
  then show ?case using Cons.IH by simp
qed simp

text \<open>An ordinary character appears at the cursor, or in the last cell of the row above after scrolling.\<close>

lemma cgaputc_shows:
  assumes "screen_ok s" and "c \<noteq> 10" and "c \<noteq> BACKSPACE"
  shows "\<exists>t. cgaputc c s = Ret t \<and> 0 < pos t \<and> (Suc (pos s) < 24 * 80 \<longrightarrow> pos t = Suc (pos s) \<and> take (pos t) (crt t) = take (pos s) (crt s) @ [cell c])"
proof -
  obtain t where t: "cgaputc c s = Ret t" "screen_ok t" using cgaputc_ok [OF assms(1)] by blast
  show ?thesis
  proof (cases "Suc (pos s) < 24 * 80")
    case True
    then have "\<not> 24 \<le> Suc (pos s) div 80" by (simp add: less_mult_imp_div_less not_le)
    then have "t = s\<lparr>crt := ((crt s)[pos s := cell c])[Suc (pos s) := cell 32], pos := Suc (pos s)\<rparr>"
      using t(1) True assms(2,3) by (auto simp: cgaputc_def Let_def)
    then show ?thesis using t(1) assms(1) True by (simp add: take_Suc_conv_app_nth screen_ok_def)
  next
    case False
    then have "pos s = 24 * 80 - 1" using assms(1) by (simp add: screen_ok_def)
    then have "0 < pos t" using t(1) assms(2,3) by (auto simp: cgaputc_def scroll_def Let_def)
    then show ?thesis using t(1) False by blast
  qed
qed

end
