(* ===== verification/Kbd.thy ===== *)
theory Kbd
  imports Machine
begin

text \<open>
  The keyboard decoder, \<^verbatim>\<open>xv6-public/kbd.c\<close> with the tables of \<^verbatim>\<open>kbd.h\<close>, and reading the real-time clock,
  \<^verbatim>\<open>cmostime\<close> of \<^verbatim>\<open>lapic.c\<close>. What the ports deliver is an argument.
\<close>

subsection \<open>Tables\<close>

abbreviation SHIFT :: uint where "SHIFT \<equiv> 1"
abbreviation CTL :: uint where "CTL \<equiv> 2"
abbreviation ALT :: uint where "ALT \<equiv> 4"
abbreviation CAPSLOCK :: uint where "CAPSLOCK \<equiv> 8"
abbreviation NUMLOCK :: uint where "NUMLOCK \<equiv> 16"
abbreviation SCROLLLOCK :: uint where "SCROLLLOCK \<equiv> 32"
abbreviation E0ESC :: uint where "E0ESC \<equiv> 64"

definition shiftcode :: "uint \<Rightarrow> uint" where
  "shiftcode d = (if d = 0x1D then CTL else if d = 0x2A then SHIFT else if d = 0x36 then SHIFT
     else if d = 0x38 then ALT else if d = 0x9D then CTL else if d = 0xB8 then ALT else 0)"

definition togglecode :: "uint \<Rightarrow> uint" where
  "togglecode d = (if d = 0x3A then CAPSLOCK else if d = 0x45 then NUMLOCK
     else if d = 0x46 then SCROLLLOCK else 0)"

text \<open>The keys of the cursor block have the same codes in all three maps; the rest of a map is zero.\<close>

definition keymap :: "(nat \<times> uint) list \<Rightarrow> uint list \<Rightarrow> nat \<Rightarrow> uint" where
  "keymap keypad xs k =
     (if k < length xs then xs ! k
      else case map_of (keypad @ [(0xC8, 0xE2), (0xD0, 0xE3), (0xC9, 0xE6), (0xD1, 0xE7), (0xCB, 0xE4),
             (0xCD, 0xE5), (0x97, 0xE0), (0xCF, 0xE1), (0xD2, 0xE8), (0xD3, 0xE9)]) k of
             None \<Rightarrow> 0 | Some c \<Rightarrow> c)"

definition normalmap :: "nat \<Rightarrow> uint" where
  "normalmap k = keymap [(0x9C, 10), (0xB5, 47)]
     [0, 27, 49, 50, 51, 52, 53, 54, 55, 56, 57, 48, 45, 61, 8, 9,
      113, 119, 101, 114, 116, 121, 117, 105, 111, 112, 91, 93, 10, 0, 97, 115,
      100, 102, 103, 104, 106, 107, 108, 59, 39, 96, 0, 92, 122, 120, 99, 118,
      98, 110, 109, 44, 46, 47, 0, 42, 0, 32, 0, 0, 0, 0, 0, 0,
      0, 0, 0, 0, 0, 0, 0, 55, 56, 57, 45, 52, 53, 54, 43, 49,
      50, 51, 48, 46, 0, 0, 0, 0] k"

definition shiftmap :: "nat \<Rightarrow> uint" where
  "shiftmap k = keymap [(0x9C, 10), (0xB5, 47)]
     [0, 27, 33, 64, 35, 36, 37, 94, 38, 42, 40, 41, 95, 43, 8, 9,
      81, 87, 69, 82, 84, 89, 85, 73, 79, 80, 123, 125, 10, 0, 65, 83,
      68, 70, 71, 72, 74, 75, 76, 58, 34, 126, 0, 124, 90, 88, 67, 86,
      66, 78, 77, 60, 62, 63, 0, 42, 0, 32, 0, 0, 0, 0, 0, 0,
      0, 0, 0, 0, 0, 0, 0, 55, 56, 57, 45, 52, 53, 54, 43, 49,
      50, 51, 48, 46, 0, 0, 0, 0] k"

definition ctlmap :: "nat \<Rightarrow> uint" where
  "ctlmap k = keymap [(0x9C, 13), (0xB5, 239)]
     [0, 0, 0, 0, 0, 0, 0, 0, 0, 0, 0, 0, 0, 0, 0, 0,
      17, 23, 5, 18, 20, 25, 21, 9, 15, 16, 0, 0, 13, 0, 1, 19,
      4, 6, 7, 8, 10, 11, 12, 0, 0, 0, 0, 28, 26, 24, 3, 22,
      2, 14, 13, 0, 0, 239, 0, 0] k"

definition charcode :: "uint \<Rightarrow> nat \<Rightarrow> uint" where
  "charcode i = (if i = 0 then normalmap else if i = 1 then shiftmap else ctlmap)"

subsection \<open>Decoding\<close>

definition caps :: "uint \<Rightarrow> uint \<Rightarrow> uint" where
  "caps sh c =
     (if sh AND CAPSLOCK \<noteq> 0
      then if 97 \<le> c \<and> c \<le> 122 then c + (65 - 97) else if 65 \<le> c \<and> c \<le> 90 then c + (97 - 65) else c
      else c)"

definition kbdgetc :: "uint \<Rightarrow> uint \<Rightarrow> uint \<Rightarrow> int \<times> uint" where
  "kbdgetc st data shift =
     (if st AND 1 = 0 then (- 1, shift)
      else if data = 0xE0 then (0, shift OR E0ESC)
      else if data AND 0x80 \<noteq> 0 then
        let d = (if shift AND E0ESC \<noteq> 0 then data else data AND 0x7F)
        in (0, shift AND NOT (shiftcode d OR E0ESC))
      else
        let esc = (shift AND E0ESC \<noteq> 0);
            d = (if esc then data OR 0x80 else data);
            sh1 = (if esc then shift AND NOT E0ESC else shift);
            sh = (sh1 OR shiftcode d) XOR togglecode d
        in (sint (caps sh (charcode (sh AND (CTL OR SHIFT)) (unat d))), sh))"

text \<open>The shift state after a sequence of bytes.\<close>

definition kbd_keys :: "uint list \<Rightarrow> uint \<Rightarrow> uint" where
  "kbd_keys ds shift = fold (\<lambda>d sh. snd (kbdgetc 1 d sh)) ds shift"

lemma codes_no_escape: "shiftcode d AND E0ESC = 0" "togglecode d AND E0ESC = 0"
  by (simp_all add: shiftcode_def togglecode_def)

lemma escape_bit: "(w :: uint) AND 64 = 0 \<longleftrightarrow> \<not> bit w 6"
proof -
  have "(64 :: uint) = push_bit 6 1" by simp
  then show ?thesis by (simp only: and_exp_eq_0_iff_not_bit push_bit_of_1)
qed

lemma bit64: "bit (64 :: uint) n \<longleftrightarrow> n = 6"
proof -
  have "(64 :: uint) = 2 ^ 6" by simp
  then show ?thesis by (simp only: bit_exp_iff) auto
qed

lemma escape_masks:
  assumes "\<not> bit sh 6"
  shows "\<not> bit tc 6 \<Longrightarrow> ((sh OR sc) XOR tc) AND NOT (sc OR 64) = (sh XOR tc) AND NOT (sc :: uint)"
    and "(sh OR 64) AND NOT 64 = sh"
    and "(w OR 64) AND NOT (k OR 64) = w AND NOT (k OR (64 :: uint))"
proof -
  have "((sh OR sc) XOR tc) AND NOT (sc OR e) = (sh XOR tc) AND NOT sc"
    if "\<not> bit tc 6" "\<And>n. bit e n \<longleftrightarrow> n = 6" for e
    using that assms by (intro bit_eqI) (auto simp: bit_and_iff bit_or_iff bit_not_iff bit_xor_iff)
  from this [OF _ bit64]
  show "\<not> bit tc 6 \<Longrightarrow> ((sh OR sc) XOR tc) AND NOT (sc OR 64) = (sh XOR tc) AND NOT sc" .
  have "(sh OR e) AND NOT e = sh" if "\<And>n. bit e n \<longleftrightarrow> n = 6" for e
    using that assms by (intro bit_eqI) (auto simp: bit_and_iff bit_or_iff bit_not_iff)
  from this [OF bit64] show "(sh OR 64) AND NOT 64 = sh" .
  have "(w OR e) AND NOT (k OR e) = w AND NOT (k OR e)" for e
    by (intro bit_eqI) (auto simp: bit_and_iff bit_or_iff bit_not_iff)
  then show "(w OR 64) AND NOT (k OR 64) = w AND NOT (k OR (64 :: uint))" .
qed

lemma plain_code:
  assumes "d < 0x80"
  shows "d AND 0x80 = (0 :: uint)" "(d OR 0x80) AND 0x80 \<noteq> 0" "(d OR 0x80) AND 0x7F = d"
proof -
  have "unat (take_bit 7 d) = unat d"
    using assms by (simp add: unsigned_take_bit_eq take_bit_nat_eq_self word_less_nat_alt)
  then have tb: "take_bit 7 d = d" by (rule unsigned_word_eqI)
  have b128: "bit (0x80 :: uint) n \<longleftrightarrow> n = 7" for n
  proof -
    have "(0x80 :: uint) = 2 ^ 7" by simp
    then show ?thesis by (simp only: bit_exp_iff) auto
  qed
  have b127: "bit (0x7F :: uint) n \<longleftrightarrow> n < 7" for n
  proof -
    have "(0x7F :: uint) = mask 7" by (simp add: mask_eq_exp_minus_1)
    then show ?thesis by (simp only: bit_mask_iff) auto
  qed
  have d: "bit d n \<Longrightarrow> n < 7" for n using arg_cong [OF tb, of "\<lambda>w. bit w n"] by (auto simp: bit_take_bit_iff)
  have masks: "d AND e = 0 \<and> (d OR e) AND e \<noteq> 0 \<and> (d OR e) AND m = d"
    if e: "\<And>n. bit e n \<longleftrightarrow> n = 7" and m: "\<And>n. bit m n \<longleftrightarrow> n < 7" for e m :: uint
  proof (intro conjI)
    show "d AND e = 0" using d e by (intro bit_eqI) (auto simp: bit_and_iff)
    have "bit ((d OR e) AND e) 7" using e [of 7] by (simp add: bit_and_iff bit_or_iff)
    then show "(d OR e) AND e \<noteq> 0" by auto
    show "(d OR e) AND m = d" using d e m by (intro bit_eqI) (auto simp: bit_and_iff bit_or_iff)
  qed
  from masks [OF b128 b127]
  show "d AND 0x80 = 0" "(d OR 0x80) AND 0x80 \<noteq> 0" "(d OR 0x80) AND 0x7F = d" by blast+
qed

lemma press_shift:
  assumes "d < 0x80" and "\<not> bit sh 6"
  shows "snd (kbdgetc 1 d sh) = (sh OR shiftcode d) XOR togglecode d"
    and "snd (kbdgetc 1 d (sh OR 64)) = (sh OR shiftcode (d OR 0x80)) XOR togglecode (d OR 0x80)"
proof -
  have ne: "d \<noteq> 0xE0" using assms(1) by auto
  show "snd (kbdgetc 1 d sh) = (sh OR shiftcode d) XOR togglecode d"
    using assms plain_code [OF assms(1)] ne by (simp add: kbdgetc_def escape_bit Let_def)
  note escape_masks(2) [OF assms(2)]
  moreover have "(sh OR 64) AND 64 \<noteq> 0"
    using escape_bit [of "sh OR 64"] escape_bit [of 64] by (simp add: bit_or_iff)
  ultimately show "snd (kbdgetc 1 d (sh OR 64)) = (sh OR shiftcode (d OR 0x80)) XOR togglecode (d OR 0x80)"
    using plain_code [OF assms(1)] ne by (simp add: kbdgetc_def Let_def)
qed

lemma no_escape_after_press:
  "\<not> bit sh 6 \<Longrightarrow> \<not> bit ((sh OR shiftcode d) XOR togglecode d) 6"
  using codes_no_escape [of d] by (simp add: escape_bit bit_simps)

lemma release_shift:
  assumes "d < 0x80" and "d \<noteq> 0x60" and "\<not> bit sh 6"
  shows "snd (kbdgetc 1 (d OR 0x80) sh) = sh AND NOT (shiftcode d OR 64)"
    and "snd (kbdgetc 1 (d OR 0x80) (sh OR 64)) = (sh OR 64) AND NOT (shiftcode (d OR 0x80) OR 64)"
proof -
  have ne: "d OR 0x80 \<noteq> 0xE0"
  proof
    assume "d OR 0x80 = 0xE0"
    then have "(d OR 0x80) AND 0x7F = 0xE0 AND 0x7F" by simp
    then show False using plain_code(3) [OF assms(1)] assms(2) by simp
  qed
  have "(sh OR 64) AND 64 \<noteq> 0"
    using escape_bit [of "sh OR 64"] escape_bit [of 64] by (simp add: bit_or_iff)
  then show "snd (kbdgetc 1 (d OR 0x80) sh) = sh AND NOT (shiftcode d OR 64)"
    "snd (kbdgetc 1 (d OR 0x80) (sh OR 64)) = (sh OR 64) AND NOT (shiftcode (d OR 0x80) OR 64)"
    using assms(3) plain_code [OF assms(1)] ne by (simp_all add: kbdgetc_def escape_bit Let_def)
qed

lemma escape_shift: "snd (kbdgetc 1 0xE0 sh) = sh OR 64"
  by (simp add: kbdgetc_def)

text \<open>
  A modifier is in force exactly while its key is held, and a lock key flips its lock. When a
  key has been pressed and released, with or without the prefix of the extended keys both times,
  the shift state is the one before, with the lock of the key flipped and its modifier off.
\<close>

theorem modifiers_released:
  assumes "d < 0x80" and "d \<noteq> 0x60" and "\<not> bit sh 6"
  shows "kbd_keys [d, d OR 0x80] sh = (sh XOR togglecode d) AND NOT (shiftcode d) \<and>
    kbd_keys [0xE0, d, 0xE0, d OR 0x80] sh =
      (sh XOR togglecode (d OR 0x80)) AND NOT (shiftcode (d OR 0x80))"
proof
  have tc: "\<not> bit (togglecode k) 6" for k using codes_no_escape(2) by (simp add: escape_bit)
  note nk = no_escape_after_press [OF assms(3)]
  show "kbd_keys [d, d OR 0x80] sh = (sh XOR togglecode d) AND NOT (shiftcode d)"
    using press_shift(1) [OF assms(1,3)] release_shift(1) [OF assms(1,2) nk]
      escape_masks(1) [OF assms(3) tc] by (simp add: kbd_keys_def)
  let ?k = "d OR 0x80"
  have "kbd_keys [0xE0, d, 0xE0, ?k] sh = snd (kbdgetc 1 ?k (snd (kbdgetc 1 d (sh OR 64)) OR 64))"
    by (simp add: kbd_keys_def escape_shift)
  also have "\<dots> = (((sh OR shiftcode ?k) XOR togglecode ?k) OR 64) AND NOT (shiftcode ?k OR 64)"
    by (simp only: press_shift(2) [OF assms(1,3)] release_shift(2) [OF assms(1,2) nk])
  also have "\<dots> = ((sh OR shiftcode ?k) XOR togglecode ?k) AND NOT (shiftcode ?k OR 64)"
    by (rule escape_masks(3) [OF assms(3)])
  also have "\<dots> = (sh XOR togglecode ?k) AND NOT (shiftcode ?k)"
    by (rule escape_masks(1) [OF assms(3) tc])
  finally show "kbd_keys [0xE0, d, 0xE0, ?k] sh = (sh XOR togglecode ?k) AND NOT (shiftcode ?k)" .
qed

lemma modifiers_released_witness:
  "kbd_keys [0x3A, 0xBA] SHIFT = (SHIFT OR CAPSLOCK) \<and> kbd_keys [0x2A, 0xAA] CAPSLOCK = CAPSLOCK"
proof -
  have b: "\<not> bit (SHIFT :: uint) 6" "\<not> bit (CAPSLOCK :: uint) 6" by (simp_all add: escape_bit [symmetric])
  show ?thesis
    using modifiers_released [of "0x3A", OF _ _ b(1)] modifiers_released [of "0x2A", OF _ _ b(2)]
    by (simp add: togglecode_def shiftcode_def)
qed

subsection \<open>The clock\<close>

text \<open>A snapshot of the registers of the clock is a function from their numbers.\<close>

definition fill_rtcdate :: "(uint \<Rightarrow> uint) \<Rightarrow> rtcdate" where
  "fill_rtcdate cmos = \<lparr>second = cmos 0x00, minute = cmos 0x02, hour = cmos 0x04,
     day = cmos 0x07, month = cmos 0x08, year = cmos 0x09\<rparr>"

text \<open>
  One round of the loop reads the date, the update flag and the date again; it ends when no update
  was in progress and both dates agree. \<open>None\<close>: no round so far was good.
\<close>

fun cmos_loop :: "((uint \<Rightarrow> uint) \<times> uint \<times> (uint \<Rightarrow> uint)) list \<Rightarrow> rtcdate option" where
  "cmos_loop [] = None"
| "cmos_loop ((r1, stata, r2) # rounds) =
     (if stata AND 0x80 \<noteq> 0 then cmos_loop rounds
      else if fill_rtcdate r1 = fill_rtcdate r2 then Some (fill_rtcdate r1)
      else cmos_loop rounds)"

definition conv :: "uint \<Rightarrow> uint" where
  "conv x = drop_bit 4 x * 10 + (x AND 0xF)"

definition map_date :: "(uint \<Rightarrow> uint) \<Rightarrow> rtcdate \<Rightarrow> rtcdate" where
  "map_date f t = \<lparr>second = f (second t), minute = f (minute t), hour = f (hour t),
     day = f (day t), month = f (month t), year = f (year t)\<rparr>"

definition cmostime :: "uint \<Rightarrow> ((uint \<Rightarrow> uint) \<times> uint \<times> (uint \<Rightarrow> uint)) list \<Rightarrow> rtcdate option" where
  "cmostime statb rounds =
     map_option (\<lambda>t1. let t = (if statb AND 4 = 0 then map_date conv t1 else t1) in t\<lparr>year := year t + 2000\<rparr>)
       (cmos_loop rounds)"

text \<open>How the clock holds a number of two decimal digits, and a date of such numbers.\<close>

definition bcd :: "uint \<Rightarrow> uint" where
  "bcd x = 16 * (x div 10) + x mod 10"

definition two_digits :: "rtcdate \<Rightarrow> bool" where
  "two_digits t \<longleftrightarrow> second t < 100 \<and> minute t < 100 \<and> hour t < 100 \<and> day t < 100 \<and> month t < 100 \<and> year t < 100"

lemma conv_bcd:
  assumes "x < 100"
  shows "conv (bcd x) = x"
proof -
  have n: "unat x < 100" using assms by (simp add: word_less_nat_alt)
  have "unat (bcd x) = 16 * (unat x div 10) + unat x mod 10"
  proof -
    have "unat x div 10 < 10" "unat x mod 10 < 10" using n by simp_all
    then show ?thesis by (simp add: bcd_def unat_word_ariths unat_div unat_mod)
  qed
  moreover have "conv w = w div 16 * 10 + w mod 16" for w
  proof -
    have "w AND 0xF = take_bit 4 w" by (simp add: take_bit_eq_mask mask_eq_exp_minus_1)
    then show ?thesis by (simp add: conv_def drop_bit_eq_div take_bit_eq_mod)
  qed
  moreover have "16 * a + b < 256 \<Longrightarrow> b < 10 \<Longrightarrow> (16 * a + b) div 16 * 10 + (16 * a + b) mod 16 = 10 * a + b" for a b :: nat
    by simp
  ultimately have "unat (conv (bcd x)) = unat x"
    using n by (simp add: unat_word_ariths unat_div unat_mod)
  then show ?thesis by (rule unsigned_word_eqI)
qed

text \<open>
  \<^verbatim>\<open>cmostime\<close> reads the time the clock shows. If the clock holds a date of two-digit numbers in
  decimal code, then after any number of rounds spoilt by an update, the first good round gives
  the date, in the years from 2000 on.
\<close>

lemma cmostime_ok:
  assumes "two_digits t" and "fill_rtcdate r1 = map_date bcd t" and "fill_rtcdate r2 = map_date bcd t"
    and "cmos_loop spoilt = None" and "stata AND 0x80 = 0" and "statb AND 4 = 0"
  shows "cmostime statb (spoilt @ (r1, stata, r2) # rounds) = Some (t\<lparr>year := year t + 2000\<rparr>)"
proof -
  have "cmos_loop (xs @ (r1, stata, r2) # rounds) = Some (map_date bcd t)" if "cmos_loop xs = None" for xs
    using that
  proof (induction xs rule: cmos_loop.induct)
    case 1
    then show ?case using assms(2,3,5) by simp
  qed (auto split: if_splits)
  moreover have "map_date conv (map_date bcd t) = t"
    using assms(1) by (simp add: map_date_def two_digits_def conv_bcd)
  ultimately show ?thesis using assms(4,6) by (simp add: cmostime_def)
qed

definition clock :: "uint \<Rightarrow> uint" where
  "clock r = (if r = 9 then 0x26 else 0x11)"

lemma cmostime_ok_witness:
  "cmostime 2 [(clock, 0x80, clock), (clock, 0, clock)] =
     Some \<lparr>second = 11, minute = 11, hour = 11, day = 11, month = 11, year = 2026\<rparr>"
proof -
  let ?t = "\<lparr>second = 11, minute = 11, hour = 11, day = 11, month = 11, year = 26\<rparr> :: rtcdate"
  have "two_digits ?t" "fill_rtcdate clock = map_date bcd ?t"
    by (simp_all add: two_digits_def fill_rtcdate_def clock_def map_date_def bcd_def)
  from cmostime_ok [OF this(1) this(2) this(2), of "[(clock, 0x80, clock)]" 0 2 "[]"] show ?thesis by simp
qed

end
