(* ===== verification/Sh.thy ===== *)
theory Sh
  imports Prelude
begin

text \<open>
  The command parser of the shell, \<^verbatim>\<open>xv6-public/sh.c\<close>. The rest of the line from the parser's
  position on is a string without null characters; a word is represented by its characters
  instead of the pointers to its ends, where \<^verbatim>\<open>nulterminate\<close> puts the null characters later.
\<close>

subsection \<open>Commands\<close>

abbreviation MAXARGS :: nat where "MAXARGS \<equiv> 10"
abbreviation O_RDONLY :: int where "O_RDONLY \<equiv> 0"
abbreviation O_WRONLY_CREATE :: int where "O_WRONLY_CREATE \<equiv> 0x201"

datatype cmd = EXEC "string list" | REDIR cmd string int int | PIPE cmd cmd | LIST cmd cmd | BACK cmd

definition execcmd :: cmd where "execcmd = EXEC []"
definition redircmd :: "cmd \<Rightarrow> string \<Rightarrow> int \<Rightarrow> int \<Rightarrow> cmd" where "redircmd subcmd f mode fd = REDIR subcmd f mode fd"
definition pipecmd :: "cmd \<Rightarrow> cmd \<Rightarrow> cmd" where "pipecmd left right = PIPE left right"
definition listcmd :: "cmd \<Rightarrow> cmd \<Rightarrow> cmd" where "listcmd left right = LIST left right"
definition backcmd :: "cmd \<Rightarrow> cmd" where "backcmd subcmd = BACK subcmd"

lemmas constructors = execcmd_def redircmd_def pipecmd_def listcmd_def backcmd_def

text \<open>\<^verbatim>\<open>parseexec\<close> stores an argument through its pointer to the command inside the redirections.\<close>

fun add_arg :: "string \<Rightarrow> cmd \<Rightarrow> cmd" where
  "add_arg q (EXEC args) = EXEC (args @ [q])"
| "add_arg q (REDIR c f mode fd) = REDIR (add_arg q c) f mode fd"
| "add_arg q c = c"

subsection \<open>Tokens\<close>

definition whitespace :: "char \<Rightarrow> bool" where
  "whitespace c \<longleftrightarrow> c \<in> {CHR '' '', CHR 0x09, CHR 0x0D, CHR 0x0A, CHR 0x0B}"

definition symbols :: "char \<Rightarrow> bool" where
  "symbols c \<longleftrightarrow> c \<in> set ''<|>&;()''"

definition skip :: "string \<Rightarrow> string" where
  "skip s = dropWhile whitespace s"

definition wordchar :: "char \<Rightarrow> bool" where
  "wordchar c \<longleftrightarrow> \<not> whitespace c \<and> \<not> symbols c"

definition gettoken :: "string \<Rightarrow> char \<times> string \<times> string" where
  "gettoken ps =
     (case skip ps of
        [] \<Rightarrow> (CHR 0x00, [], [])
      | c # s \<Rightarrow>
          if c \<in> set ''|();&<'' then (c, [c], skip s)
          else if c = CHR ''>'' then
            (if s \<noteq> [] \<and> hd s = CHR ''>'' then (CHR ''+'', ''>>'', skip (tl s)) else (CHR ''>'', ''>'', skip s))
          else (CHR ''a'', takeWhile wordchar (c # s), skip (dropWhile wordchar (c # s))))"

definition peek :: "string \<Rightarrow> string \<Rightarrow> bool \<times> string" where
  "peek toks ps = (let s = skip ps in (s \<noteq> [] \<and> hd s \<in> set toks, s))"

lemma skip_length: "length (skip s) \<le> length s"
  by (simp add: skip_def length_dropWhile_le)

lemma skip_skip [simp]: "skip (skip s) = skip s"
  by (simp add: skip_def)

lemma gettoken_shorter: "gettoken s = (t, q, r) \<Longrightarrow> t \<noteq> CHR 0x00 \<Longrightarrow> length r < length s"
proof -
  assume g: "gettoken s = (t, q, r)" "t \<noteq> CHR 0x00"
  then obtain c u where s: "skip s = c # u" by (auto simp: gettoken_def split: list.splits)
  have l: "length u < length s" using skip_length [of s] s by simp
  have nw: "\<not> whitespace c" using s unfolding skip_def by (metis hd_dropWhile list.distinct(1) list.sel(1))
  consider "r = skip u" | "r = skip (tl u)" | "r = skip (dropWhile wordchar u)" "wordchar c"
    using g s nw by (auto simp: gettoken_def wordchar_def symbols_def split: if_splits)
  then show ?thesis
  proof cases
    case 1
    then show ?thesis using skip_length [of u] l by simp
  next
    case 2
    then show ?thesis using skip_length [of "tl u"] l by simp
  next
    case 3
    then show ?thesis using skip_length [of "dropWhile wordchar u"] length_dropWhile_le [of wordchar u] l by simp
  qed
qed

subsection \<open>Parsing\<close>

function parseredirs :: "cmd \<Rightarrow> string \<Rightarrow> (cmd \<times> string) outcome" where
  "parseredirs cmd ps =
     (let (redir, s1) = peek ''<>'' ps
      in if \<not> redir then Ret (cmd, s1)
         else let (tok, _, s2) = gettoken s1; (tok', q, s3) = gettoken s2
              in if tok' \<noteq> CHR ''a'' then Panic ''missing file for redirection''
                 else parseredirs
                   (if tok = CHR ''<'' then redircmd cmd q O_RDONLY 0
                    else if tok = CHR ''>'' then redircmd cmd q O_WRONLY_CREATE 1
                    else if tok = CHR ''+'' then redircmd cmd q O_WRONLY_CREATE 1
                    else cmd) s3)"
  by pat_completeness auto
termination
proof (relation "measure (length \<circ> snd)", goal_cases)
  case (2 cmd ps p redir s1 p2 tok p3 u s2 p4 tok' p5 q s3)
  have s1: "length s1 \<le> length ps" using 2 by (auto simp: peek_def Let_def skip_length)
  have "tok \<noteq> CHR 0x00 \<or> s2 = []" using 2 by (auto simp: gettoken_def split: list.splits if_splits)
  then have s2: "length s2 \<le> length s1" using gettoken_shorter [of s1 tok u s2] 2 by auto
  have "length s3 < length s2" using gettoken_shorter [of s2 tok' q s3] 2 by auto
  then show ?case using s1 s2 by simp
qed simp

function parseargs :: "nat \<Rightarrow> cmd \<Rightarrow> string \<Rightarrow> (cmd \<times> string) outcome" where
  "parseargs argc cmd ps =
     (let (stop, s1) = peek ''|)&;'' ps
      in if stop then Ret (cmd, s1)
         else let (tok, q, s2) = gettoken s1
              in if tok = CHR 0x00 then Ret (cmd, s2)
                 else if tok \<noteq> CHR ''a'' then Panic ''syntax''
                 else if MAXARGS \<le> argc + 1 then Panic ''too many args''
                 else obind (parseredirs (add_arg q cmd) s2) (\<lambda>(cmd', s3). parseargs (argc + 1) cmd' s3))"
  by pat_completeness auto
termination
  by (relation "measure (\<lambda>(argc, _). MAXARGS - argc)") auto

function backs :: "cmd \<Rightarrow> string \<Rightarrow> cmd \<times> string" where
  "backs cmd ps =
     (let (amp, s1) = peek ''&'' ps
      in if amp then backs (backcmd cmd) (snd (snd (gettoken s1))) else (cmd, s1))"
  by pat_completeness auto
termination
proof (relation "measure (length \<circ> snd)", goal_cases)
  case (2 cmd ps p amp s1)
  obtain t q r where g: "gettoken s1 = (t, q, r)" by (cases "gettoken s1") auto
  have s1: "s1 = skip ps" "s1 \<noteq> []" "hd s1 = CHR ''&''" using 2 by (auto simp: peek_def Let_def)
  then have "t \<noteq> CHR 0x00" using g by (cases s1) (auto simp: gettoken_def split: list.splits if_splits)
  then show ?case using gettoken_shorter [OF g] g s1(1) skip_length [of ps] by simp
qed simp

text \<open>The functions that call each other carry fuel; each call takes one unit.\<close>

fun parseline :: "nat \<Rightarrow> string \<Rightarrow> (cmd \<times> string) outcome"
  and parsepipe :: "nat \<Rightarrow> string \<Rightarrow> (cmd \<times> string) outcome"
  and parseblock :: "nat \<Rightarrow> string \<Rightarrow> (cmd \<times> string) outcome"
  and parseexec :: "nat \<Rightarrow> string \<Rightarrow> (cmd \<times> string) outcome" where
  "parseline 0 ps = Panic ''out of fuel''"
| "parseline (Suc n) ps =
     obind (parsepipe n ps) (\<lambda>(cmd, s1).
       let (cmd', s2) = backs cmd s1; (semi, s3) = peek '';'' s2
       in if semi
          then obind (parseline n (snd (snd (gettoken s3)))) (\<lambda>(r, s4). Ret (listcmd cmd' r, s4))
          else Ret (cmd', s3))"
| "parsepipe 0 ps = Panic ''out of fuel''"
| "parsepipe (Suc n) ps =
     obind (parseexec n ps) (\<lambda>(cmd, s1).
       let (bar, s2) = peek ''|'' s1
       in if bar
          then obind (parsepipe n (snd (snd (gettoken s2)))) (\<lambda>(r, s3). Ret (pipecmd cmd r, s3))
          else Ret (cmd, s2))"
| "parseblock 0 ps = Panic ''out of fuel''"
| "parseblock (Suc n) ps =
     (let (open_par, s1) = peek ''('' ps
      in if \<not> open_par then Panic ''parseblock''
         else obind (parseline n (snd (snd (gettoken s1)))) (\<lambda>(cmd, s2).
           let (close_par, s3) = peek '')'' s2
           in if \<not> close_par then Panic ''syntax - missing )''
              else parseredirs cmd (snd (snd (gettoken s3)))))"
| "parseexec 0 ps = Panic ''out of fuel''"
| "parseexec (Suc n) ps =
     (let (block, s1) = peek ''('' ps
      in if block then parseblock n s1
         else obind (parseredirs execcmd s1) (\<lambda>(cmd, s2). parseargs 0 cmd s2))"

definition parsecmd :: "string \<Rightarrow> cmd outcome" where
  "parsecmd s =
     obind (parseline (4 * length s + 4) s) (\<lambda>(cmd, s1).
       let (_, s2) = peek [] s1
       in if s2 \<noteq> [] then Panic ''syntax'' else Ret cmd)"

declare parseredirs.simps [simp del] parseargs.simps [simp del] backs.simps [simp del]

subsection \<open>The language of commands\<close>

text \<open>
  What follows the name of a simple command: arguments and redirections, each followed by white
  space.
\<close>

datatype item = Arg string | Inp string | Outp string | App string

fun item_word :: "item \<Rightarrow> string" where
  "item_word (Arg w) = w" | "item_word (Inp w) = w" | "item_word (Outp w) = w" | "item_word (App w) = w"

fun item_text :: "item \<Rightarrow> string" where
  "item_text (Arg w) = w"
| "item_text (Inp w) = ''<'' @ w"
| "item_text (Outp w) = ''>'' @ w"
| "item_text (App w) = ''>>'' @ w"

fun is_arg :: "item \<Rightarrow> bool" where
  "is_arg (Arg w) = True" | "is_arg i = False"

fun item_cmd :: "item \<Rightarrow> cmd \<Rightarrow> cmd" where
  "item_cmd (Arg w) c = add_arg w c"
| "item_cmd (Inp w) c = REDIR c w O_RDONLY 0"
| "item_cmd (Outp w) c = REDIR c w O_WRONLY_CREATE 1"
| "item_cmd (App w) c = REDIR c w O_WRONLY_CREATE 1"

definition word_ok :: "string \<Rightarrow> bool" where
  "word_ok w \<longleftrightarrow> w \<noteq> [] \<and> list_all wordchar w"

definition blank :: "string \<Rightarrow> bool" where
  "blank sep \<longleftrightarrow> sep \<noteq> [] \<and> list_all whitespace sep"

type_synonym items = "(item \<times> string) list"

definition items_ok :: "items \<Rightarrow> bool" where
  "items_ok its \<longleftrightarrow> list_all (\<lambda>(i, sep). word_ok (item_word i) \<and> blank sep) its"

definition items_text :: "items \<Rightarrow> string" where
  "items_text its = concat (map (\<lambda>(i, sep). item_text i @ sep) its)"

definition items_cmd :: "items \<Rightarrow> cmd \<Rightarrow> cmd" where
  "items_cmd its c = fold (item_cmd \<circ> fst) its c"

definition nargs :: "items \<Rightarrow> nat" where
  "nargs its = length (filter (is_arg \<circ> fst) its)"

inductive gexec :: "cmd \<Rightarrow> string \<Rightarrow> bool"
  and gpipe :: "cmd \<Rightarrow> string \<Rightarrow> bool"
  and gline :: "cmd \<Rightarrow> string \<Rightarrow> bool" where
  g_simple: "items_ok its \<Longrightarrow> nargs its < MAXARGS \<Longrightarrow> gexec (items_cmd its (EXEC [])) (items_text its)"
| g_block: "gline c s \<Longrightarrow> items_ok its \<Longrightarrow> nargs its = 0 \<Longrightarrow> gexec (items_cmd its c) (''('' @ s @ '')'' @ items_text its)"
| g_exec: "gexec c s \<Longrightarrow> gpipe c s"
| g_pipe: "gexec a s \<Longrightarrow> gpipe b t \<Longrightarrow> gpipe (PIPE a b) (s @ ''|'' @ t)"
| g_back: "gpipe c s \<Longrightarrow> gline ((BACK ^^ k) c) (s @ replicate k CHR ''&'')"
| g_list: "gpipe c s \<Longrightarrow> gline d t \<Longrightarrow> gline (LIST ((BACK ^^ k) c) d) (s @ replicate k CHR ''&'' @ '';'' @ t)"

subsection \<open>Parsing the language\<close>

definition stops :: "string \<Rightarrow> string \<Rightarrow> bool" where
  "stops toks rest \<longleftrightarrow> skip rest = [] \<or> hd (skip rest) \<in> set toks"

lemma symbol_not_white: "symbols c \<Longrightarrow> \<not> whitespace c"
  by (auto simp: symbols_def whitespace_def)

lemma skip_Cons: "skip (c # s) = (if whitespace c then skip s else c # s)"
  by (simp add: skip_def)

lemma skip_symbol [simp]: "symbols c \<Longrightarrow> skip (c # s) = c # s"
  by (simp add: skip_Cons symbol_not_white)

lemma symbols_simps [simp]:
  "symbols CHR ''<''" "symbols CHR ''>''" "symbols CHR ''|''" "symbols CHR ''&''" "symbols CHR '';''"
  "symbols CHR ''(''" "symbols CHR '')''"
  by (simp_all add: symbols_def)

lemma skip_word: "word_ok w \<Longrightarrow> skip (w @ s) = w @ s"
  by (cases w) (auto simp: word_ok_def wordchar_def skip_Cons)

lemma skip_blank: "blank sep \<Longrightarrow> skip (sep @ s) = skip s"
  unfolding blank_def skip_def by (auto simp: dropWhile_append2 list_all_iff)

lemma peek_skip [simp]: "peek toks (skip s) = peek toks s"
  by (simp add: peek_def)

lemma peek_symbol: "symbols c \<Longrightarrow> peek toks (c # s) = (c \<in> set toks, c # s)"
  by (simp add: peek_def)

lemma peek_word:
  assumes "word_ok w" and "list_all symbols toks"
  shows "peek toks (w @ s) = (False, w @ s)"
proof -
  have "wordchar (hd (w @ s))" "w @ s \<noteq> []" using assms(1) by (cases w; simp add: word_ok_def)+
  moreover have "c \<in> set toks \<Longrightarrow> \<not> wordchar c" for c using assms(2) by (auto simp: wordchar_def list_all_iff)
  ultimately show ?thesis by (auto simp: peek_def Let_def skip_word [OF assms(1)])
qed

lemma peek_stops: "stops toks rest \<Longrightarrow> set toks \<inter> set toks' = {} \<Longrightarrow> peek toks' rest = (False, skip rest)"
  by (auto simp: peek_def stops_def Let_def)

lemma gettoken_skip [simp]: "gettoken (skip s) = gettoken s"
  by (simp add: gettoken_def)

lemma gettoken_symbol: "c \<in> set ''|();&<'' \<Longrightarrow> gettoken (c # s) = (c, [c], skip s)"
  by (auto simp: gettoken_def)

lemma gettoken_word:
  assumes "word_ok w" and "blank sep"
  shows "gettoken (w @ sep @ s) = (CHR ''a'', w, skip s)"
proof -
  obtain c u where w: "w = c # u" using assms(1) by (cases w) (auto simp: word_ok_def)
  have all: "\<forall>x\<in>set w. wordchar x" using assms(1) by (simp add: word_ok_def list_all_iff)
  obtain b v where sep: "sep = b # v" "\<not> wordchar b" using assms(2)
    by (cases sep) (auto simp: blank_def wordchar_def)
  have tw: "takeWhile wordchar (w @ sep @ s) = w" "dropWhile wordchar (w @ sep @ s) = sep @ s"
    using all sep by (simp_all add: takeWhile_append2 dropWhile_append2)
  have c: "wordchar c" using all w by simp
  then have nc: "c \<notin> set ''|();&<''" "c \<noteq> CHR ''>''" by (auto simp: wordchar_def symbols_def)
  have "gettoken (w @ sep @ s) = (CHR ''a'', takeWhile wordchar (w @ sep @ s), skip (dropWhile wordchar (w @ sep @ s)))"
    using skip_word [OF assms(1), of "sep @ s"] nc unfolding gettoken_def by (simp add: w)
  then show ?thesis using tw skip_blank [OF assms(2)] by simp
qed

lemma gettoken_out: "word_ok w \<Longrightarrow> gettoken (CHR ''>'' # w @ s) = (CHR ''>'', ''>'', w @ s)"
proof -
  assume w: "word_ok w"
  then have "hd (w @ s) \<noteq> CHR ''>''" by (cases w) (auto simp: word_ok_def wordchar_def)
  then show ?thesis by (simp add: gettoken_def skip_word [OF w])
qed

lemma gettoken_app: "word_ok w \<Longrightarrow> gettoken (CHR ''>'' # CHR ''>'' # w @ s) = (CHR ''+'', ''>>'', w @ s)"
  by (simp add: gettoken_def skip_word)

lemma parseredirs_skip: "parseredirs c (skip s) = parseredirs c s"
  unfolding parseredirs.simps [of c "skip s"] parseredirs.simps [of c s] by simp

lemma backs_skip: "backs c (skip s) = backs c s"
  unfolding backs.simps [of c "skip s"] backs.simps [of c s] by simp

lemma parse_skip: "parseexec n (skip s) = parseexec n s" "parsepipe n (skip s) = parsepipe n s"
  "parseline n (skip s) = parseline n s"
proof -
  show e: "parseexec n (skip s) = parseexec n s" for n by (cases n) simp_all
  show p: "parsepipe n (skip s) = parsepipe n s" for n by (cases n) (simp_all add: e)
  show "parseline n (skip s) = parseline n s" by (cases n) (simp_all add: p)
qed

lemma parseredirs_none: "peek ''<>'' s = (False, s') \<Longrightarrow> parseredirs c s = Ret (c, s')"
  unfolding parseredirs.simps [of c s] by simp

lemma parseredirs_item:
  assumes "word_ok (item_word i)" and "blank sep" and "\<not> is_arg i"
  shows "parseredirs c (item_text i @ sep @ s) = parseredirs (item_cmd i c) s"
proof -
  note w = assms(1)
  have g: "gettoken (item_word i @ sep @ s) = (CHR ''a'', item_word i, skip s)"
    by (rule gettoken_word [OF w assms(2)])
  show ?thesis
    unfolding parseredirs.simps [of c "item_text i @ sep @ s"]
    using assms(3) w g
    by (cases i) (simp_all add: peek_symbol gettoken_symbol gettoken_out gettoken_app skip_word
        parseredirs_skip constructors)
qed

lemma items_simps [simp]:
  "items_text [] = []" "items_text ((i, sep) # its) = item_text i @ sep @ items_text its"
  "items_cmd [] c = c" "items_cmd ((i, sep) # its) c = items_cmd its (item_cmd i c)"
  "nargs [] = 0" "nargs ((i, sep) # its) = (if is_arg i then 1 else 0) + nargs its"
  "items_ok [] = True" "items_ok ((i, sep) # its) = (word_ok (item_word i) \<and> blank sep \<and> items_ok its)"
  by (simp_all add: items_text_def items_cmd_def nargs_def items_ok_def)

lemma parseredirs_items:
  assumes "items_ok its" and "nargs its = 0" and "stops ''|)&;'' rest"
  shows "parseredirs c (items_text its @ rest) = Ret (items_cmd its c, skip rest)"
  using assms(1,2)
proof (induction its arbitrary: c)
  case Nil
  then show ?case using parseredirs_none [OF peek_stops [OF assms(3)]] by simp
next
  case (Cons x its)
  obtain i sep where x: "x = (i, sep)" by (cases x)
  then show ?case using Cons parseredirs_item [of i sep c "items_text its @ rest"] by (auto split: if_splits)
qed

lemma parseargs_stop:
  assumes "stops ''|)&;'' rest"
  shows "parseargs argc c (skip rest) = Ret (c, skip rest)"
proof (cases "skip rest = []")
  case True
  then have "peek ''|)&;'' (skip rest) = (False, [])" "gettoken [] = (CHR 0x00, [], [])"
    by (simp_all add: peek_def gettoken_def skip_def Let_def)
  then show ?thesis unfolding parseargs.simps [of argc c "skip rest"] using True by simp
next
  case False
  then have "peek ''|)&;'' (skip rest) = (True, skip rest)" using assms by (auto simp: peek_def stops_def Let_def)
  then show ?thesis unfolding parseargs.simps [of argc c "skip rest"] by simp
qed

lemma parse_simple:
  assumes "items_ok its" and "argc + nargs its < MAXARGS" and "stops ''|)&;'' rest"
  shows "obind (parseredirs c (items_text its @ rest)) (\<lambda>(c', s). parseargs argc c' s) =
    Ret (items_cmd its c, skip rest)"
  using assms(1,2)
proof (induction its arbitrary: argc c)
  case Nil
  then show ?case
    using parseredirs_none [OF peek_stops [OF assms(3)]] parseargs_stop [OF assms(3)] by simp
next
  case (Cons x its)
  obtain i sep where x: "x = (i, sep)" by (cases x)
  show ?case
  proof (cases i)
    case (Arg w)
    let ?s = "w @ sep @ items_text its @ rest"
    have w: "word_ok w" "blank sep" using Cons.prems x Arg by simp_all
    have "parseredirs c ?s = Ret (c, ?s)" by (rule parseredirs_none [OF peek_word [OF w(1)]]) simp
    moreover have "peek ''|)&;'' ?s = (False, ?s)" by (rule peek_word [OF w(1)]) simp
    then have "parseargs argc c ?s =
        obind (parseredirs (add_arg w c) (items_text its @ rest)) (\<lambda>(c', s). parseargs (argc + 1) c' s)"
      unfolding parseargs.simps [of argc c ?s]
      using gettoken_word [OF w, of "items_text its @ rest"] Cons.prems(2) x Arg
      by (simp add: parseredirs_skip)
    ultimately show ?thesis using Cons.IH [of "argc + 1" "add_arg w c"] Cons.prems x Arg by simp
  qed (use Cons x parseredirs_item [of i sep c "items_text its @ rest"] in auto)
qed

lemma items_not_block:
  assumes "items_ok its" and "stops ''|)&;'' rest"
  shows "peek ''('' (items_text its @ rest) = (False, skip (items_text its @ rest))"
proof (cases its)
  case Nil
  then show ?thesis using peek_stops [OF assms(2)] by simp
next
  case (Cons x its')
  obtain i sep where x: "x = (i, sep)" by (cases x)
  show ?thesis
    using assms(1) Cons x
    by (cases i) (simp_all add: peek_word peek_symbol skip_word)
qed

lemma backs_amps:
  assumes "stops '';)'' rest"
  shows "backs c (replicate k CHR ''&'' @ rest) = ((BACK ^^ k) c, skip rest)"
proof (induction k arbitrary: c)
  case 0
  have "peek ''&'' rest = (False, skip rest)" by (rule peek_stops [OF assms]) simp
  then show ?case unfolding backs.simps [of c "replicate 0 CHR ''&'' @ rest"] by simp
next
  case (Suc k)
  have "backs c (replicate (Suc k) CHR ''&'' @ rest) = backs (BACK c) (replicate k CHR ''&'' @ rest)"
    unfolding backs.simps [of c "replicate (Suc k) CHR ''&'' @ rest"]
    by (simp add: peek_symbol gettoken_symbol backs_skip constructors)
  then show ?case using Suc by (simp add: funpow_swap1)
qed

lemma stops_symbol: "c \<in> set toks \<Longrightarrow> symbols c \<Longrightarrow> stops toks (c # s)"
  by (simp add: stops_def)

lemma stops_mono: "stops toks s \<Longrightarrow> set toks \<subseteq> set toks' \<Longrightarrow> stops toks' s"
  by (auto simp: stops_def)

lemma stops_amps: "stops '';)'' s \<Longrightarrow> stops '')&;'' (replicate k CHR ''&'' @ s)"
  by (cases k) (auto simp: stops_symbol intro: stops_mono)

lemma parse_line_step:
  assumes "parsepipe n (s @ replicate k CHR ''&'' @ rest) = Ret (c, skip (replicate k CHR ''&'' @ rest))"
    and "stops '';)'' rest"
  shows "parseline (Suc n) (s @ replicate k CHR ''&'' @ rest) =
    (let (semi, s3) = peek '';'' rest
     in if semi then obind (parseline n (snd (snd (gettoken s3)))) (\<lambda>(r, s4). Ret (LIST ((BACK ^^ k) c) r, s4))
        else Ret ((BACK ^^ k) c, s3))"
  unfolding parseline.simps constructors using assms(1) backs_amps [OF assms(2), of c k] by (simp add: backs_skip)

lemma parse_grammar:
  "gexec c s \<Longrightarrow> (\<forall>n rest. 4 * length s + 1 \<le> n \<longrightarrow> stops ''|)&;'' rest \<longrightarrow> parseexec n (s @ rest) = Ret (c, skip rest))"
  "gpipe c s \<Longrightarrow> (\<forall>n rest. 4 * length s + 2 \<le> n \<longrightarrow> stops '')&;'' rest \<longrightarrow> parsepipe n (s @ rest) = Ret (c, skip rest))"
  "gline c s \<Longrightarrow> (\<forall>n rest. 4 * length s + 3 \<le> n \<longrightarrow> stops '')'' rest \<longrightarrow> parseline n (s @ rest) = Ret (c, skip rest))"
proof (induction rule: gexec_gpipe_gline.inducts)
  case (g_simple its)
  show ?case
  proof (intro allI impI)
    fix n rest assume n: "4 * length (items_text its) + 1 \<le> n" and st: "stops ''|)&;'' rest"
    obtain m where m: "n = Suc m" using n by (cases n) auto
    show "parseexec n (items_text its @ rest) = Ret (items_cmd its (EXEC []), skip rest)"
      using items_not_block [OF g_simple.hyps(1) st] parse_simple [OF g_simple.hyps(1) _ st, of 0 "EXEC []"] g_simple.hyps(2)
      by (simp add: m parseredirs_skip constructors)
  qed
next
  case (g_block c s its)
  show ?case
  proof (intro allI impI)
    fix n rest
    assume n: "4 * length (''('' @ s @ '')'' @ items_text its) + 1 \<le> n" and st: "stops ''|)&;'' rest"
    obtain m where m: "n = Suc (Suc m)" using n by (cases n; cases "n - 1") auto
    have "parseline m (s @ CHR '')'' # items_text its @ rest) = Ret (c, skip (CHR '')'' # items_text its @ rest))"
      using g_block.IH n m by (auto simp: stops_symbol)
    then show "parseexec n ((''('' @ s @ '')'' @ items_text its) @ rest) = Ret (items_cmd its c, skip rest)"
      using parseredirs_items [OF g_block.hyps(2,3) st, of c]
      by (simp add: m peek_symbol gettoken_symbol parse_skip parseredirs_skip)
  qed
next
  case (g_exec c s)
  show ?case
  proof (intro allI impI)
    fix n rest assume n: "4 * length s + 2 \<le> n" and st: "stops '')&;'' rest"
    obtain m where m: "n = Suc m" using n by (cases n) auto
    have "parseexec m (s @ rest) = Ret (c, skip rest)" using g_exec.IH n m stops_mono [OF st] by auto
    moreover have "peek ''|'' rest = (False, skip rest)" by (rule peek_stops [OF st]) simp
    ultimately show "parsepipe n (s @ rest) = Ret (c, skip rest)" by (simp add: m)
  qed
next
  case (g_pipe a s b t)
  show ?case
  proof (intro allI impI)
    fix n rest assume n: "4 * length (s @ ''|'' @ t) + 2 \<le> n" and st: "stops '')&;'' rest"
    obtain m where m: "n = Suc m" using n by (cases n) auto
    have "parseexec m (s @ CHR ''|'' # t @ rest) = Ret (a, skip (CHR ''|'' # t @ rest))"
      using g_pipe.IH(1) n m by (auto simp: stops_symbol)
    moreover have "parsepipe m (t @ rest) = Ret (b, skip rest)" using g_pipe.IH(2) n m st by auto
    ultimately show "parsepipe n ((s @ ''|'' @ t) @ rest) = Ret (PIPE a b, skip rest)"
      by (simp add: m peek_symbol gettoken_symbol parse_skip constructors)
  qed
next
  case (g_back c s k)
  show ?case
  proof (intro allI impI)
    fix n rest assume n: "4 * length (s @ replicate k CHR ''&'') + 3 \<le> n" and st: "stops '')'' rest"
    obtain m where m: "n = Suc m" using n by (cases n) auto
    have st': "stops '';)'' rest" using stops_mono [OF st] by auto
    have "parsepipe m (s @ replicate k CHR ''&'' @ rest) = Ret (c, skip (replicate k CHR ''&'' @ rest))"
      using g_back.IH n m stops_amps [OF st'] by auto
    moreover have "peek '';'' rest = (False, skip rest)" by (rule peek_stops [OF st]) simp
    ultimately show "parseline n ((s @ replicate k CHR ''&'') @ rest) = Ret ((BACK ^^ k) c, skip rest)"
      using parse_line_step [OF _ st', of m s k c] by (simp only: m append_assoc) simp
  qed
next
  case (g_list c s d t k)
  show ?case
  proof (intro allI impI)
    fix n rest assume n: "4 * length (s @ replicate k CHR ''&'' @ '';'' @ t) + 3 \<le> n" and st: "stops '')'' rest"
    obtain m where m: "n = Suc m" using n by (cases n) auto
    have st': "stops '';)'' (CHR '';'' # t @ rest)" by (simp add: stops_symbol)
    have "parsepipe m (s @ replicate k CHR ''&'' @ CHR '';'' # t @ rest) =
        Ret (c, skip (replicate k CHR ''&'' @ CHR '';'' # t @ rest))"
      using g_list.IH(1) n m stops_amps [OF st'] by auto
    moreover have "parseline m (t @ rest) = Ret (d, skip rest)" using g_list.IH(2) n m st by auto
    ultimately show "parseline n ((s @ replicate k CHR ''&'' @ '';'' @ t) @ rest) =
        Ret (LIST ((BACK ^^ k) c) d, skip rest)"
      using parse_line_step [OF _ st', of m s k c]
      by (simp add: m peek_symbol gettoken_symbol parse_skip del: parseline.simps)
  qed
qed

lemma parsecmd_line:
  assumes "gline c s"
  shows "parsecmd s = Ret c"
proof -
  have "parseline (4 * length s + 4) (s @ []) = Ret (c, skip [])"
    using parse_grammar(3) [OF assms, rule_format, of "4 * length s + 4" "[]"] by (simp add: stops_def skip_def)
  then show ?thesis by (simp add: parsecmd_def peek_def skip_def del: parseline.simps)
qed

text \<open>
  C24: the shell's parser accepts the language of commands and builds the command that was
  written: words and redirections separated by white space, pipes that group to the right,
  any number of ampersands, lists that group to the right, and blocks in parentheses with
  redirections of their own.
\<close>

theorem parsecmd_ok:
  assumes "gline c s"
  shows "parsecmd s = Ret c"
  using assms by (rule parsecmd_line)

lemma parsecmd_ok_witness:
  "parsecmd ''(ls <f )|wc x &'' = Ret (BACK (PIPE (REDIR (EXEC [''ls'']) ''f'' 0 0) (EXEC [''wc'', ''x''])))"
proof -
  have i: "items_ok [(Arg ''ls'', '' ''), (Inp ''f'', '' '')]" "items_ok [(Arg ''wc'', '' ''), (Arg ''x'', '' '')]"
    by (simp_all add: word_ok_def blank_def wordchar_def whitespace_def symbols_def)
  have "gexec (REDIR (EXEC [''ls'']) ''f'' 0 0) ''ls <f ''"
    using g_simple [OF i(1)] by simp
  from g_block [OF g_back [OF g_exec [OF this], of 0], of "[]"]
  have a: "gexec (REDIR (EXEC [''ls'']) ''f'' 0 0) ''(ls <f )''" by simp
  have b: "gexec (EXEC [''wc'', ''x'']) ''wc x ''" using g_simple [OF i(2)] by simp
  from g_back [OF g_pipe [OF a g_exec [OF b]], of 1]
  have "gline (BACK (PIPE (REDIR (EXEC [''ls'']) ''f'' 0 0) (EXEC [''wc'', ''x'']))) ''(ls <f )|wc x &''"
    by simp
  from parsecmd_ok [OF this] show ?thesis .
qed

end
