(* ===== verification/Mp.thy ===== *)
theory Mp
  imports Memory
begin

text \<open>
  The search for the multiprocessor tables in memory, the first half of \<^verbatim>\<open>xv6-public/mp.c\<close>. \<open>m\<close> is the
  memory as the kernel addresses it; a null pointer is \<open>None\<close>.
\<close>

text \<open>\<^verbatim>\<open>sum\<close> adds in an \<^verbatim>\<open>int\<close> and returns the low byte, the same as adding bytes.\<close>

fun mp_sum :: "(uint \<Rightarrow> uchar) \<Rightarrow> uint \<Rightarrow> nat \<Rightarrow> uchar" where
  "mp_sum m addr 0 = 0"
| "mp_sum m addr (Suc n) = m addr + mp_sum m (addr + 1) n"

definition signature :: "(uint \<Rightarrow> uchar) \<Rightarrow> uint \<Rightarrow> uchar list \<Rightarrow> bool" where
  "signature m p xs \<longleftrightarrow> bytes_at p (length xs) m = xs"

text \<open>The structure has 16 bytes; \<open>k\<close> of them fit between the position and the end.\<close>

fun mpsearch_loop :: "(uint \<Rightarrow> uchar) \<Rightarrow> uint \<Rightarrow> nat \<Rightarrow> uint option" where
  "mpsearch_loop m p 0 = None"
| "mpsearch_loop m p (Suc k) =
     (if signature m p [0x5F, 0x4D, 0x50, 0x5F] \<and> mp_sum m p 16 = 0 then Some p
      else mpsearch_loop m (p + 16) k)"

definition mpsearch1 :: "(uint \<Rightarrow> uchar) \<Rightarrow> uint \<Rightarrow> nat \<Rightarrow> uint option" where
  "mpsearch1 m a len = mpsearch_loop m (P2V a) ((len + 15) div 16)"

definition mpsearch :: "(uint \<Rightarrow> uchar) \<Rightarrow> uint option" where
  "mpsearch m =
     (let bda = P2V 0x400;
          p = push_bit 4 (push_bit 8 (ucast (m (bda + 0x0F))) OR ucast (m (bda + 0x0E)));
          first = (if p \<noteq> 0 then mpsearch1 m p 1024
                   else mpsearch1 m ((push_bit 8 (ucast (m (bda + 0x14))) OR ucast (m (bda + 0x13))) * 1024 - 1024) 1024)
      in case first of Some mp \<Rightarrow> Some mp | None \<Rightarrow> mpsearch1 m 0xF0000 0x10000)"

text \<open>
  In \<^verbatim>\<open>struct mp\<close> the physical address of the table is at offset 4; in \<^verbatim>\<open>struct mpconf\<close> the length is at
  offset 4 and the version at offset 6.
\<close>

definition mpconfig :: "(uint \<Rightarrow> uchar) \<Rightarrow> (uint \<times> uint) option" where
  "mpconfig m =
     (case mpsearch m of
        None \<Rightarrow> None
      | Some mp \<Rightarrow>
          let physaddr = ld32 m (mp + 4); conf = P2V physaddr
          in if physaddr = 0 then None
             else if \<not> signature m conf [0x50, 0x43, 0x4D, 0x50] then None
             else if m (conf + 6) \<noteq> 1 \<and> m (conf + 6) \<noteq> 4 then None
             else if mp_sum m conf (unat (m (conf + 4)) + 256 * unat (m (conf + 5))) \<noteq> 0 then None
             else Some (mp, conf))"

subsection \<open>What is found is a valid table\<close>

definition mp_valid :: "(uint \<Rightarrow> uchar) \<Rightarrow> uint \<Rightarrow> bool" where
  "mp_valid m p \<longleftrightarrow> signature m p [0x5F, 0x4D, 0x50, 0x5F] \<and> mp_sum m p 16 = 0"

lemma mpsearch_loop_first:
  "mpsearch_loop m p k = Some q \<longleftrightarrow>
   (\<exists>i<k. q = p + 16 * of_nat i \<and> mp_valid m q \<and> (\<forall>j<i. \<not> mp_valid m (p + 16 * of_nat j)))"
proof (induction k arbitrary: p)
  case (Suc k)
  show ?case
  proof (cases "mp_valid m p")
    case True
    then have "mpsearch_loop m p (Suc k) = Some p" by (simp add: mp_valid_def)
    then show ?thesis using True by (auto simp: gr0_conv_Suc dest: spec [of _ 0])
  next
    case False
    have "mpsearch_loop m p (Suc k) = mpsearch_loop m (p + 16) k" using False by (auto simp: mp_valid_def)
    moreover have "(\<exists>i<Suc k. q = p + 16 * of_nat i \<and> mp_valid m q \<and> (\<forall>j<i. \<not> mp_valid m (p + 16 * of_nat j))) \<longleftrightarrow>
        (\<exists>i<k. q = p + 16 + 16 * of_nat i \<and> mp_valid m q \<and> (\<forall>j<i. \<not> mp_valid m (p + 16 + 16 * of_nat j)))"
      using False by (simp add: Ex_less_Suc2 All_less_Suc2 algebra_simps) auto
    ultimately show ?thesis using Suc by simp
  qed
qed simp

lemma mpsearch_valid: "mpsearch m = Some p \<Longrightarrow> mp_valid m p"
  by (auto simp: mpsearch_def mpsearch1_def Let_def mpsearch_loop_first split: option.splits if_splits)

lemma mpconfig_valid:
  assumes "mpconfig m = Some (mp, conf)"
  shows "mp_valid m mp \<and> conf = P2V (ld32 m (mp + 4)) \<and> signature m conf [0x50, 0x43, 0x4D, 0x50] \<and>
    mp_sum m conf (unat (m (conf + 4)) + 256 * unat (m (conf + 5))) = 0"
  using assms by (auto simp: mpconfig_def Let_def mpsearch_valid split: option.splits if_splits)

end
