(* ===== verification/Fs.thy ===== *)
theory Fs
  imports Recovery
begin

text \<open>
  The file system, \<^verbatim>\<open>xv6-public/fs.c\<close> with the layouts of \<^verbatim>\<open>fs.h\<close> and \<^verbatim>\<open>file.h\<close>: the block allocator, the
  inode cache, the content of inodes, directories and path names. This theory holds the state
  and the operations; the theories after it hold what they do. Numbers of devices, blocks and
  inodes are natural numbers, an inode pointer is its index in the cache, and a buffer the
  caller passes is the list of bytes read or to be written.
\<close>

subsection \<open>State\<close>

abbreviation ROOTINO :: nat where "ROOTINO \<equiv> 1"
abbreviation NDIRECT :: nat where "NDIRECT \<equiv> 12"
abbreviation NINDIRECT :: nat where "NINDIRECT \<equiv> 128"
abbreviation MAXFILE :: nat where "MAXFILE \<equiv> 140"
abbreviation IPB :: nat where "IPB \<equiv> 8"
abbreviation BPB :: nat where "BPB \<equiv> 4096"
abbreviation DIRSIZ :: nat where "DIRSIZ \<equiv> 14"
abbreviation DIRENT :: nat where "DIRENT \<equiv> 16"
abbreviation T_DIR :: ushort where "T_DIR \<equiv> 1"
abbreviation T_FILE :: ushort where "T_FILE \<equiv> 2"
abbreviation T_DEV :: ushort where "T_DEV \<equiv> 3"

record inode =
  i_dev :: nat
  i_inum :: nat
  i_ref :: int
  i_lock :: sleeplock
  i_valid :: bool
  i_type :: ushort
  i_major :: ushort
  i_minor :: ushort
  i_nlink :: ushort
  i_size :: uint
  i_addrs :: "uint list"

text \<open>\<open>fs_sb\<close> is the super block \<^verbatim>\<open>sb\<close>, \<open>inodes\<close> the array \<^verbatim>\<open>icache.inode\<close>.\<close>

record fstate = lstate +
  fs_sb :: superblock
  inodes :: "nat \<Rightarrow> inode"

definition upd_inode :: "nat \<Rightarrow> (inode \<Rightarrow> inode) \<Rightarrow> 'a fstate_scheme \<Rightarrow> 'a fstate_scheme" where
  "upd_inode ip f s = s\<lparr>inodes := (inodes s)(ip := f (inodes s ip))\<rparr>"

definition IBLOCK :: "nat \<Rightarrow> superblock \<Rightarrow> nat" where
  "IBLOCK i sb = i div IPB + unat (sb_inodestart sb)"

definition BBLOCK :: "nat \<Rightarrow> superblock \<Rightarrow> nat" where
  "BBLOCK b sb = b div BPB + unat (sb_bmapstart sb)"

subsection \<open>Blocks\<close>

definition bzero :: "nat \<Rightarrow> nat \<Rightarrow> 'a lstate_scheme \<Rightarrow> 'a lstate_scheme outcome" where
  "bzero dev bno s =
     obind (bread dev bno s) (\<lambda>(bp, s1).
     obind (log_write bp (upd_buf bp (\<lambda>x. x\<lparr>b_data := replicate BSIZE 0\<rparr>) s1)) (\<lambda>s2.
     brelse bp s2))"

definition bit_mask :: "nat \<Rightarrow> uchar" where
  "bit_mask bi = push_bit (bi mod 8) 1"

definition bit_free :: "uchar list \<Rightarrow> nat \<Rightarrow> bool" where
  "bit_free d bi \<longleftrightarrow> d ! (bi div 8) AND bit_mask bi = 0"

definition bit_set :: "nat \<Rightarrow> uchar list \<Rightarrow> uchar list" where
  "bit_set bi d = d[bi div 8 := d ! (bi div 8) OR bit_mask bi]"

definition bit_clear :: "nat \<Rightarrow> uchar list \<Rightarrow> uchar list" where
  "bit_clear bi d = d[bi div 8 := d ! (bi div 8) AND NOT (bit_mask bi)]"

text \<open>The inner loop of \<^verbatim>\<open>balloc\<close> over the bits of a block of the map, of which \<open>k\<close> are left.\<close>

fun find_free :: "uchar list \<Rightarrow> nat \<Rightarrow> nat \<Rightarrow> nat option" where
  "find_free d bi 0 = None"
| "find_free d bi (Suc k) = (if bit_free d bi then Some bi else find_free d (Suc bi) k)"

fun balloc_loop :: "nat \<Rightarrow> nat \<Rightarrow> nat \<Rightarrow> 'a fstate_scheme \<Rightarrow> (nat \<times> 'a fstate_scheme) outcome" where
  "balloc_loop 0 dev b s = Panic ''out of fuel''"
| "balloc_loop (Suc n) dev b s =
     (if \<not> b < unat (sb_size (fs_sb s)) then Panic ''balloc: out of blocks''
      else obind (bread dev (BBLOCK b (fs_sb s)) s) (\<lambda>(bp, s1).
        case find_free (b_data (bufs s1 bp)) 0 (min BPB (unat (sb_size (fs_sb s1)) - b)) of
          Some bi \<Rightarrow>
            obind (log_write bp (upd_buf bp (\<lambda>x. x\<lparr>b_data := bit_set bi (b_data x)\<rparr>) s1)) (\<lambda>s2.
            obind (brelse bp s2) (\<lambda>s3.
            obind (bzero dev (b + bi) s3) (\<lambda>s4.
            Ret (b + bi, s4))))
        | None \<Rightarrow> obind (brelse bp s1) (\<lambda>s2. balloc_loop n dev (b + BPB) s2)))"

definition balloc :: "nat \<Rightarrow> 'a fstate_scheme \<Rightarrow> (nat \<times> 'a fstate_scheme) outcome" where
  "balloc dev s = balloc_loop (unat (sb_size (fs_sb s)) div BPB + 2) dev 0 s"

definition bfree :: "nat \<Rightarrow> nat \<Rightarrow> 'a fstate_scheme \<Rightarrow> 'a fstate_scheme outcome" where
  "bfree dev b s =
     obind (bread dev (BBLOCK b (fs_sb s)) s) (\<lambda>(bp, s1).
       let bi = b mod BPB
       in if bit_free (b_data (bufs s1 bp)) bi then Panic ''freeing free block''
          else obind (log_write bp (upd_buf bp (\<lambda>x. x\<lparr>b_data := bit_clear bi (b_data x)\<rparr>) s1)) (\<lambda>s2.
               brelse bp s2))"

subsection \<open>Inodes\<close>

definition all_inodes :: "nat list" where
  "all_inodes = [0..<NINODE]"

text \<open>The loop of \<^verbatim>\<open>iinit\<close> over the cache.\<close>

fun iinit_loop :: "nat \<Rightarrow> nat \<Rightarrow> 'a fstate_scheme \<Rightarrow> 'a fstate_scheme" where
  "iinit_loop i 0 s = s"
| "iinit_loop i (Suc n) s =
     (let (l, s1) = initsleeplock (SInode i) s
      in iinit_loop (Suc i) n (upd_inode i (\<lambda>x. x\<lparr>i_lock := l\<rparr>) s1))"

definition iinit :: "nat \<Rightarrow> 'a fstate_scheme \<Rightarrow> 'a fstate_scheme outcome" where
  "iinit dev s =
     obind (readsb dev (iinit_loop 0 NINODE (initlock LIcache s))) (\<lambda>(sb, s1).
     Ret (s1\<lparr>fs_sb := sb\<rparr>))"

text \<open>
  A \<^verbatim>\<open>struct dinode\<close> of 64 bytes in a block: type, major, minor and link count of two bytes each, the
  size, and thirteen block numbers.
\<close>

record dinode =
  d_type :: ushort
  d_major :: ushort
  d_minor :: ushort
  d_nlink :: ushort
  d_size :: uint
  d_addrs :: "uint list"

definition get_dinode :: "nat \<Rightarrow> uchar list \<Rightarrow> dinode" where
  "get_dinode k d = \<lparr>d_type = get16 (64 * k) d, d_major = get16 (64 * k + 2) d,
     d_minor = get16 (64 * k + 4) d, d_nlink = get16 (64 * k + 6) d, d_size = get32 (64 * k + 8) d,
     d_addrs = map (\<lambda>j. get32 (64 * k + 12 + 4 * j) d) [0..<NDIRECT + 1]\<rparr>"

definition dinode_bytes :: "dinode \<Rightarrow> uchar list" where
  "dinode_bytes x = le16 (d_type x) @ le16 (d_major x) @ le16 (d_minor x) @ le16 (d_nlink x) @
     le32 (d_size x) @ concat (map le32 (d_addrs x))"

definition put_dinode :: "nat \<Rightarrow> dinode \<Rightarrow> uchar list \<Rightarrow> uchar list" where
  "put_dinode k x d = splice (64 * k) (dinode_bytes x) d"

definition disk_part :: "inode \<Rightarrow> dinode" where
  "disk_part x = \<lparr>d_type = i_type x, d_major = i_major x, d_minor = i_minor x,
     d_nlink = i_nlink x, d_size = i_size x, d_addrs = i_addrs x\<rparr>"

definition load_inode :: "dinode \<Rightarrow> inode \<Rightarrow> inode" where
  "load_inode d x = x\<lparr>i_type := d_type d, i_major := d_major d, i_minor := d_minor d,
     i_nlink := d_nlink d, i_size := d_size d, i_addrs := d_addrs d, i_valid := True\<rparr>"

definition iget :: "nat \<Rightarrow> nat \<Rightarrow> 'a fstate_scheme \<Rightarrow> (nat \<times> 'a fstate_scheme) outcome" where
  "iget dev inum s =
     obind (acquire LIcache s) (\<lambda>s1.
       case List.find (\<lambda>ip. i_ref (inodes s1 ip) > 0 \<and> i_dev (inodes s1 ip) = dev \<and>
              i_inum (inodes s1 ip) = inum) all_inodes of
         Some ip \<Rightarrow>
           obind (release LIcache (upd_inode ip (\<lambda>x. x\<lparr>i_ref := i_ref x + 1\<rparr>) s1)) (\<lambda>s2. Ret (ip, s2))
       | None \<Rightarrow>
           (case List.find (\<lambda>ip. i_ref (inodes s1 ip) = 0) all_inodes of
              None \<Rightarrow> Panic ''iget: no inodes''
            | Some ip \<Rightarrow>
                obind (release LIcache (upd_inode ip (\<lambda>x. x\<lparr>i_dev := dev, i_inum := inum, i_ref := 1,
                  i_valid := False\<rparr>) s1)) (\<lambda>s2. Ret (ip, s2))))"

definition idup :: "nat \<Rightarrow> 'a fstate_scheme \<Rightarrow> (nat \<times> 'a fstate_scheme) outcome" where
  "idup ip s =
     obind (acquire LIcache s) (\<lambda>s1.
     obind (release LIcache (upd_inode ip (\<lambda>x. x\<lparr>i_ref := i_ref x + 1\<rparr>) s1)) (\<lambda>s2. Ret (ip, s2)))"

fun ialloc_loop :: "nat \<Rightarrow> nat \<Rightarrow> nat \<Rightarrow> ushort \<Rightarrow> 'a fstate_scheme \<Rightarrow> (nat \<times> 'a fstate_scheme) outcome" where
  "ialloc_loop 0 inum dev ty s = Panic ''ialloc: no inodes''"
| "ialloc_loop (Suc n) inum dev ty s =
     obind (bread dev (IBLOCK inum (fs_sb s)) s) (\<lambda>(bp, s1).
       if d_type (get_dinode (inum mod IPB) (b_data (bufs s1 bp))) = 0
       then obind (log_write bp (upd_buf bp (\<lambda>x. x\<lparr>b_data := put_dinode (inum mod IPB)
                \<lparr>d_type = ty, d_major = 0, d_minor = 0, d_nlink = 0, d_size = 0,
                 d_addrs = replicate (NDIRECT + 1) 0\<rparr> (b_data x)\<rparr>) s1)) (\<lambda>s2.
            obind (brelse bp s2) (\<lambda>s3. iget dev inum s3))
       else obind (brelse bp s1) (\<lambda>s2. ialloc_loop n (Suc inum) dev ty s2))"

definition ialloc :: "nat \<Rightarrow> ushort \<Rightarrow> 'a fstate_scheme \<Rightarrow> (nat \<times> 'a fstate_scheme) outcome" where
  "ialloc dev ty s = ialloc_loop (unat (sb_ninodes (fs_sb s)) - 1) 1 dev ty s"

definition iupdate :: "nat \<Rightarrow> 'a fstate_scheme \<Rightarrow> 'a fstate_scheme outcome" where
  "iupdate ip s =
     obind (bread (i_dev (inodes s ip)) (IBLOCK (i_inum (inodes s ip)) (fs_sb s)) s) (\<lambda>(bp, s1).
     obind (log_write bp (upd_buf bp (\<lambda>x. x\<lparr>b_data := put_dinode (i_inum (inodes s1 ip) mod IPB)
              (disk_part (inodes s1 ip)) (b_data x)\<rparr>) s1)) (\<lambda>s2.
     brelse bp s2))"

definition ilock :: "nat \<Rightarrow> 'a fstate_scheme \<Rightarrow> 'a fstate_scheme outcome" where
  "ilock ip s =
     (if i_ref (inodes s ip) < 1 then Panic ''ilock''
      else obind (acquiresleep (SInode ip) (i_lock (inodes s ip)) s) (\<lambda>(l, s1).
        let s2 = upd_inode ip (\<lambda>x. x\<lparr>i_lock := l\<rparr>) s1
        in if i_valid (inodes s2 ip) then Ret s2
           else obind (bread (i_dev (inodes s2 ip)) (IBLOCK (i_inum (inodes s2 ip)) (fs_sb s2)) s2) (\<lambda>(bp, s3).
                let dip = get_dinode (i_inum (inodes s3 ip) mod IPB) (b_data (bufs s3 bp))
                in obind (brelse bp (upd_inode ip (load_inode dip) s3)) (\<lambda>s4.
                   if i_type (inodes s4 ip) = 0 then Panic ''ilock: no type'' else Ret s4))))"

definition iunlock :: "nat \<Rightarrow> 'a fstate_scheme \<Rightarrow> 'a fstate_scheme outcome" where
  "iunlock ip s =
     obind (holdingsleep (SInode ip) (i_lock (inodes s ip)) s) (\<lambda>(h, s1).
       if \<not> h \<or> i_ref (inodes s1 ip) < 1 then Panic ''iunlock''
       else obind (releasesleep (SInode ip) (i_lock (inodes s1 ip)) s1) (\<lambda>(l, s2).
            Ret (upd_inode ip (\<lambda>x. x\<lparr>i_lock := l\<rparr>) s2)))"

subsection \<open>Content of inodes\<close>

definition set_addr :: "nat \<Rightarrow> nat \<Rightarrow> nat \<Rightarrow> 'a fstate_scheme \<Rightarrow> 'a fstate_scheme" where
  "set_addr ip i a = upd_inode ip (\<lambda>x. x\<lparr>i_addrs := (i_addrs x)[i := of_nat a]\<rparr>)"

text \<open>The block of \<open>addrs[i]\<close>, allocated when there is none yet.\<close>

definition addr_or_alloc :: "nat \<Rightarrow> nat \<Rightarrow> 'a fstate_scheme \<Rightarrow> (nat \<times> 'a fstate_scheme) outcome" where
  "addr_or_alloc ip i s =
     (let addr = unat (i_addrs (inodes s ip) ! i)
      in if addr = 0
         then obind (balloc (i_dev (inodes s ip)) s) (\<lambda>(a, s1). Ret (a, set_addr ip i a s1))
         else Ret (addr, s))"

definition bmap :: "nat \<Rightarrow> nat \<Rightarrow> 'a fstate_scheme \<Rightarrow> (nat \<times> 'a fstate_scheme) outcome" where
  "bmap ip bn s =
     (if bn < NDIRECT then addr_or_alloc ip bn s
      else if bn - NDIRECT < NINDIRECT
      then obind (addr_or_alloc ip NDIRECT s) (\<lambda>(addr, s1).
           obind (bread (i_dev (inodes s1 ip)) addr s1) (\<lambda>(bp, s2).
             let a = unat (get32 (4 * (bn - NDIRECT)) (b_data (bufs s2 bp)))
             in if a = 0
                then obind (balloc (i_dev (inodes s2 ip)) s2) (\<lambda>(c, s3).
                     obind (log_write bp (upd_buf bp (\<lambda>x. x\<lparr>b_data :=
                              put32 (4 * (bn - NDIRECT)) (of_nat c) (b_data x)\<rparr>) s3)) (\<lambda>s4.
                     obind (brelse bp s4) (\<lambda>s5. Ret (c, s5))))
                else obind (brelse bp s2) (\<lambda>s3. Ret (a, s3))))
      else Panic ''bmap: out of range'')"

fun itrunc_direct :: "nat \<Rightarrow> nat \<Rightarrow> nat \<Rightarrow> 'a fstate_scheme \<Rightarrow> 'a fstate_scheme outcome" where
  "itrunc_direct ip i 0 s = Ret s"
| "itrunc_direct ip i (Suc n) s =
     (if i_addrs (inodes s ip) ! i \<noteq> 0
      then obind (bfree (i_dev (inodes s ip)) (unat (i_addrs (inodes s ip) ! i)) s) (\<lambda>s1.
           itrunc_direct ip (Suc i) n (set_addr ip i 0 s1))
      else itrunc_direct ip (Suc i) n s)"

fun itrunc_indirect :: "nat \<Rightarrow> nat \<Rightarrow> nat \<Rightarrow> nat \<Rightarrow> 'a fstate_scheme \<Rightarrow> 'a fstate_scheme outcome" where
  "itrunc_indirect ip bp j 0 s = Ret s"
| "itrunc_indirect ip bp j (Suc n) s =
     (let a = get32 (4 * j) (b_data (bufs s bp))
      in if a \<noteq> 0
         then obind (bfree (i_dev (inodes s ip)) (unat a) s) (\<lambda>s1. itrunc_indirect ip bp (Suc j) n s1)
         else itrunc_indirect ip bp (Suc j) n s)"

definition itrunc :: "nat \<Rightarrow> 'a fstate_scheme \<Rightarrow> 'a fstate_scheme outcome" where
  "itrunc ip s =
     obind (itrunc_direct ip 0 NDIRECT s) (\<lambda>s1.
     obind (if i_addrs (inodes s1 ip) ! NDIRECT \<noteq> 0
            then let a = unat (i_addrs (inodes s1 ip) ! NDIRECT)
                 in obind (bread (i_dev (inodes s1 ip)) a s1) (\<lambda>(bp, s2).
                    obind (itrunc_indirect ip bp 0 NINDIRECT s2) (\<lambda>s3.
                    obind (brelse bp s3) (\<lambda>s4.
                    obind (bfree (i_dev (inodes s4 ip)) (unat (i_addrs (inodes s4 ip) ! NDIRECT)) s4) (\<lambda>s5.
                    Ret (set_addr ip NDIRECT 0 s5)))))
            else Ret s1) (\<lambda>s6.
     iupdate ip (upd_inode ip (\<lambda>x. x\<lparr>i_size := 0\<rparr>) s6)))"

definition iput :: "nat \<Rightarrow> 'a fstate_scheme \<Rightarrow> 'a fstate_scheme outcome" where
  "iput ip s =
     obind (acquiresleep (SInode ip) (i_lock (inodes s ip)) s) (\<lambda>(l, s0).
     let s1 = upd_inode ip (\<lambda>x. x\<lparr>i_lock := l\<rparr>) s0
     in obind (if i_valid (inodes s1 ip) \<and> i_nlink (inodes s1 ip) = 0
               then obind (acquire LIcache s1) (\<lambda>s2.
                    let r = i_ref (inodes s2 ip)
                    in obind (release LIcache s2) (\<lambda>s3.
                       if r = 1
                       then obind (itrunc ip s3) (\<lambda>s4.
                            obind (iupdate ip (upd_inode ip (\<lambda>x. x\<lparr>i_type := 0\<rparr>) s4)) (\<lambda>s5.
                            Ret (upd_inode ip (\<lambda>x. x\<lparr>i_valid := False\<rparr>) s5)))
                       else Ret s3))
               else Ret s1) (\<lambda>s6.
        obind (releasesleep (SInode ip) (i_lock (inodes s6 ip)) s6) (\<lambda>(l', s7).
        obind (acquire LIcache (upd_inode ip (\<lambda>x. x\<lparr>i_lock := l'\<rparr>) s7)) (\<lambda>s8.
        release LIcache (upd_inode ip (\<lambda>x. x\<lparr>i_ref := i_ref x - 1\<rparr>) s8)))))"

definition iunlockput :: "nat \<Rightarrow> 'a fstate_scheme \<Rightarrow> 'a fstate_scheme outcome" where
  "iunlockput ip s = obind (iunlock ip s) (iput ip)"

record stat =
  st_type :: ushort
  st_dev :: nat
  st_ino :: nat
  st_nlink :: ushort
  st_size :: uint

definition stati :: "nat \<Rightarrow> 'a fstate_scheme \<Rightarrow> stat" where
  "stati ip s = \<lparr>st_type = i_type (inodes s ip), st_dev = i_dev (inodes s ip),
     st_ino = i_inum (inodes s ip), st_nlink = i_nlink (inodes s ip), st_size = i_size (inodes s ip)\<rparr>"

text \<open>
  The table \<^verbatim>\<open>devsw\<close>: the read and write functions a driver installs, or none. The operations take
  the table as an argument, because the drivers work on a larger state.
\<close>

record 'a devfns =
  dev_read :: "(nat \<Rightarrow> uint \<Rightarrow> 'a \<Rightarrow> (int \<times> uchar list \<times> 'a) outcome) option"
  dev_write :: "(nat \<Rightarrow> uchar list \<Rightarrow> uint \<Rightarrow> 'a \<Rightarrow> (int \<times> 'a) outcome) option"

type_synonym 'a devtab = "nat \<Rightarrow> 'a devfns"

definition dev_slot :: "'s devtab \<Rightarrow> ushort \<Rightarrow> 's devfns" where
  "dev_slot dv major =
     (if sint major < 0 \<or> sint major \<ge> int NDEV then \<lparr>dev_read = None, dev_write = None\<rparr>
      else dv (nat (sint major)))"

text \<open>The number of bytes of the block at offset \<open>off\<close> when \<open>n\<close> bytes are left.\<close>

definition chunk :: "nat \<Rightarrow> nat \<Rightarrow> nat" where
  "chunk off n = min n (BSIZE - off mod BSIZE)"

lemma chunk_pos [simp]: "0 < n \<Longrightarrow> 0 < chunk off n"
  by (simp add: chunk_def)

lemma chunk_le [simp]: "chunk off n \<le> n"
  by (simp add: chunk_def)

function readi_loop :: "nat \<Rightarrow> nat \<Rightarrow> nat \<Rightarrow> 'a fstate_scheme \<Rightarrow> (uchar list \<times> 'a fstate_scheme) outcome" where
  "readi_loop ip off n s =
     (if n = 0 then Ret ([], s)
      else obind (bmap ip (off div BSIZE) s) (\<lambda>(addr, s1).
           obind (bread (i_dev (inodes s1 ip)) addr s1) (\<lambda>(bp, s2).
             let m = chunk off n; d = slice (off mod BSIZE) m (b_data (bufs s2 bp))
             in obind (brelse bp s2) (\<lambda>s3.
                obind (readi_loop ip (off + m) (n - m) s3) (\<lambda>(ds, s4). Ret (d @ ds, s4))))))"
  by pat_completeness auto
termination by (relation "measure (\<lambda>(ip, off, n, s). n)") auto

declare readi_loop.simps [simp del]

definition readi :: "'a fstate_scheme devtab \<Rightarrow> nat \<Rightarrow> uint \<Rightarrow> uint \<Rightarrow> 'a fstate_scheme
    \<Rightarrow> (int \<times> uchar list \<times> 'a fstate_scheme) outcome" where
  "readi dv ip off n s =
     (if i_type (inodes s ip) = T_DEV
      then (case dev_read (dev_slot dv (i_major (inodes s ip))) of
              None \<Rightarrow> Ret (-1, [], s)
            | Some f \<Rightarrow> f ip n s)
      else if off > i_size (inodes s ip) \<or> off + n < off then Ret (-1, [], s)
      else let n' = (if off + n > i_size (inodes s ip) then i_size (inodes s ip) - off else n)
           in obind (readi_loop ip (unat off) (unat n') s) (\<lambda>(d, s1). Ret (sint n', d, s1)))"

function writei_loop :: "nat \<Rightarrow> nat \<Rightarrow> nat \<Rightarrow> uchar list \<Rightarrow> 'a fstate_scheme \<Rightarrow> 'a fstate_scheme outcome" where
  "writei_loop ip off n src s =
     (if n = 0 then Ret s
      else obind (bmap ip (off div BSIZE) s) (\<lambda>(addr, s1).
           obind (bread (i_dev (inodes s1 ip)) addr s1) (\<lambda>(bp, s2).
             let m = chunk off n
             in obind (log_write bp (upd_buf bp (\<lambda>x. x\<lparr>b_data :=
                         splice (off mod BSIZE) (take m src) (b_data x)\<rparr>) s2)) (\<lambda>s3.
                obind (brelse bp s3) (\<lambda>s4.
                writei_loop ip (off + m) (n - m) (drop m src) s4)))))"
  by pat_completeness auto
termination by (relation "measure (\<lambda>(ip, off, n, src, s). n)") auto

declare writei_loop.simps [simp del]

definition writei :: "'a fstate_scheme devtab \<Rightarrow> nat \<Rightarrow> uchar list \<Rightarrow> uint \<Rightarrow> uint \<Rightarrow> 'a fstate_scheme
    \<Rightarrow> (int \<times> 'a fstate_scheme) outcome" where
  "writei dv ip src off n s =
     (if i_type (inodes s ip) = T_DEV
      then (case dev_write (dev_slot dv (i_major (inodes s ip))) of
              None \<Rightarrow> Ret (-1, s)
            | Some f \<Rightarrow> f ip src n s)
      else if off > i_size (inodes s ip) \<or> off + n < off then Ret (-1, s)
      else if off + n > of_nat (MAXFILE * BSIZE) then Ret (-1, s)
      else obind (writei_loop ip (unat off) (unat n) src s) (\<lambda>s1.
           if n > 0 \<and> off + n > i_size (inodes s1 ip)
           then obind (iupdate ip (upd_inode ip (\<lambda>x. x\<lparr>i_size := off + n\<rparr>) s1)) (\<lambda>s2. Ret (sint n, s2))
           else Ret (sint n, s1)))"

subsection \<open>Directories\<close>

text \<open>
  \<^verbatim>\<open>strncmp\<close> of \<^verbatim>\<open>xv6-public/string.c\<close> on the bytes of two names; the end of a list is the byte 0 that
  ends the string.
\<close>

fun byte0 :: "uchar list \<Rightarrow> uchar" where
  "byte0 [] = 0"
| "byte0 (x # xs) = x"

fun name_strncmp :: "uchar list \<Rightarrow> uchar list \<Rightarrow> nat \<Rightarrow> int" where
  "name_strncmp p q 0 = 0"
| "name_strncmp p q (Suc n) =
     (if byte0 p \<noteq> 0 \<and> byte0 p = byte0 q then name_strncmp (tl p) (tl q) n
      else uint (byte0 p) - uint (byte0 q))"

definition namecmp :: "uchar list \<Rightarrow> uchar list \<Rightarrow> int" where
  "namecmp s t = name_strncmp s t DIRSIZ"

text \<open>A \<^verbatim>\<open>struct dirent\<close>: the inode number, and fourteen bytes of the name.\<close>

definition de_inum :: "uchar list \<Rightarrow> ushort" where
  "de_inum d = get16 0 d"

definition de_name :: "uchar list \<Rightarrow> uchar list" where
  "de_name d = slice 2 DIRSIZ d"

definition de_fill :: "uchar list \<Rightarrow> uchar list" where
  "de_fill name = (let p = take DIRSIZ (takeWhile (\<lambda>c. c \<noteq> 0) name) in p @ replicate (DIRSIZ - length p) 0)"

definition mk_dirent :: "nat \<Rightarrow> uchar list \<Rightarrow> uchar list" where
  "mk_dirent inum name = le16 (of_nat inum) @ de_fill name"

fun dirlookup_loop :: "nat \<Rightarrow> 'a fstate_scheme devtab \<Rightarrow> nat \<Rightarrow> uchar list \<Rightarrow> uint \<Rightarrow> 'a fstate_scheme
    \<Rightarrow> ((nat \<times> uint) option \<times> 'a fstate_scheme) outcome" where
  "dirlookup_loop 0 dv dp name off s = Panic ''out of fuel''"
| "dirlookup_loop (Suc k) dv dp name off s =
     (if \<not> off < i_size (inodes s dp) then Ret (None, s)
      else obind (readi dv dp off 16 s) (\<lambda>(r, de, s1).
        if r \<noteq> 16 then Panic ''dirlookup read''
        else if de_inum de = 0 then dirlookup_loop k dv dp name (off + 16) s1
        else if namecmp name (de_name de) = 0
        then obind (iget (i_dev (inodes s1 dp)) (unat (de_inum de)) s1) (\<lambda>(ip, s2). Ret (Some (ip, off), s2))
        else dirlookup_loop k dv dp name (off + 16) s1))"

text \<open>\<^verbatim>\<open>dirlookup\<close> returns the inode with the offset it stores through \<^verbatim>\<open>poff\<close>.\<close>

definition dirlookup :: "'a fstate_scheme devtab \<Rightarrow> nat \<Rightarrow> uchar list \<Rightarrow> 'a fstate_scheme
    \<Rightarrow> ((nat \<times> uint) option \<times> 'a fstate_scheme) outcome" where
  "dirlookup dv dp name s =
     (if i_type (inodes s dp) \<noteq> T_DIR then Panic ''dirlookup not DIR''
      else dirlookup_loop (unat (i_size (inodes s dp)) div DIRENT + 2) dv dp name 0 s)"

fun dirlink_loop :: "nat \<Rightarrow> 'a fstate_scheme devtab \<Rightarrow> nat \<Rightarrow> uint \<Rightarrow> 'a fstate_scheme
    \<Rightarrow> (uint \<times> 'a fstate_scheme) outcome" where
  "dirlink_loop 0 dv dp off s = Panic ''out of fuel''"
| "dirlink_loop (Suc k) dv dp off s =
     (if \<not> off < i_size (inodes s dp) then Ret (off, s)
      else obind (readi dv dp off 16 s) (\<lambda>(r, de, s1).
        if r \<noteq> 16 then Panic ''dirlink read''
        else if de_inum de = 0 then Ret (off, s1)
        else dirlink_loop k dv dp (off + 16) s1))"

definition dirlink :: "'a fstate_scheme devtab \<Rightarrow> nat \<Rightarrow> uchar list \<Rightarrow> nat \<Rightarrow> 'a fstate_scheme
    \<Rightarrow> (int \<times> 'a fstate_scheme) outcome" where
  "dirlink dv dp name inum s =
     obind (dirlookup dv dp name s) (\<lambda>(r, s1).
       case r of
         Some (ip, poff) \<Rightarrow> obind (iput ip s1) (\<lambda>s2. Ret (-1, s2))
       | None \<Rightarrow>
           obind (dirlink_loop (unat (i_size (inodes s1 dp)) div DIRENT + 2) dv dp 0 s1) (\<lambda>(off, s2).
           obind (writei dv dp (mk_dirent inum name) off 16 s2) (\<lambda>(w, s3).
             if w \<noteq> 16 then Panic ''dirlink'' else Ret (0, s3))))"

subsection \<open>Path names\<close>

abbreviation SLASH :: uchar where "SLASH \<equiv> 0x2f"

text \<open>
  A path is its bytes without the final 0. \<^verbatim>\<open>skipelem\<close> gives the next element, cut to \<^verbatim>\<open>DIRSIZ\<close> bytes,
  and the rest of the path.
\<close>

definition skipelem :: "uchar list \<Rightarrow> (uchar list \<times> uchar list) option" where
  "skipelem path0 =
     (let path = dropWhile (\<lambda>c. c = SLASH) path0
      in if path = [] then None
         else Some (take DIRSIZ (takeWhile (\<lambda>c. c \<noteq> SLASH) path),
                    dropWhile (\<lambda>c. c = SLASH) (dropWhile (\<lambda>c. c \<noteq> SLASH) path)))"

lemma skipelem_shorter: "skipelem p = Some (name, p') \<Longrightarrow> length p' < length p"
proof -
  assume e: "skipelem p = Some (name, p')"
  let ?q = "dropWhile (\<lambda>c. c = SLASH) p"
  from e have ne: "?q \<noteq> []" and p': "p' = dropWhile (\<lambda>c. c = SLASH) (dropWhile (\<lambda>c. c \<noteq> SLASH) ?q)"
    by (auto simp: skipelem_def Let_def split: if_splits)
  have "hd ?q \<noteq> SLASH"
    using hd_dropWhile [of "\<lambda>c. c = SLASH" p] ne by simp
  then have "length (dropWhile (\<lambda>c. c \<noteq> SLASH) ?q) < length ?q"
    using ne by (cases ?q) (simp_all add: length_dropWhile_le less_Suc_eq_le)
  moreover have "length p' \<le> length (dropWhile (\<lambda>c. c \<noteq> SLASH) ?q)"
    by (simp add: p' length_dropWhile_le)
  moreover have "length ?q \<le> length p"
    by (rule length_dropWhile_le)
  ultimately show ?thesis by linarith
qed

function namex_loop :: "'a fstate_scheme devtab \<Rightarrow> bool \<Rightarrow> uchar list \<Rightarrow> uchar list \<Rightarrow> nat \<Rightarrow> 'a fstate_scheme
    \<Rightarrow> ((nat \<times> uchar list) option \<times> 'a fstate_scheme) outcome" where
  "namex_loop dv parent path name0 ip s =
     (case skipelem path of
        None \<Rightarrow> if parent then obind (iput ip s) (\<lambda>s1. Ret (None, s1)) else Ret (Some (ip, name0), s)
      | Some (name, rest) \<Rightarrow>
          obind (ilock ip s) (\<lambda>s1.
            if i_type (inodes s1 ip) \<noteq> T_DIR then obind (iunlockput ip s1) (\<lambda>s2. Ret (None, s2))
            else if parent \<and> rest = [] then obind (iunlock ip s1) (\<lambda>s2. Ret (Some (ip, name), s2))
            else obind (dirlookup dv ip name s1) (\<lambda>(r, s2).
                 obind (iunlockput ip s2) (\<lambda>s3.
                   case r of
                     None \<Rightarrow> Ret (None, s3)
                   | Some (ip', poff) \<Rightarrow> namex_loop dv parent rest name ip' s3))))"
  by pat_completeness auto
termination
  by (relation "measure (\<lambda>(dv, parent, path, name, ip, s). length path)") (auto simp: skipelem_shorter)

declare namex_loop.simps [simp del]

text \<open>
  The directory a relative path starts from is the working directory of the current process;
  a process without one would make \<^verbatim>\<open>idup\<close> use a null pointer.
\<close>

definition namex :: "'a fstate_scheme devtab \<Rightarrow> uchar list \<Rightarrow> bool \<Rightarrow> 'a fstate_scheme
    \<Rightarrow> ((nat \<times> uchar list) option \<times> 'a fstate_scheme) outcome" where
  "namex dv path parent s =
     (if byte0 path = SLASH
      then obind (iget ROOTDEV ROOTINO s) (\<lambda>(ip, s1). namex_loop dv parent path [] ip s1)
      else obind (myproc s) (\<lambda>p.
        case p_cwd (procs s ! p) of
          None \<Rightarrow> Panic ''null pointer''
        | Some c \<Rightarrow> obind (idup c s) (\<lambda>(ip, s1). namex_loop dv parent path [] ip s1)))"

definition namei :: "'a fstate_scheme devtab \<Rightarrow> uchar list \<Rightarrow> 'a fstate_scheme
    \<Rightarrow> (nat option \<times> 'a fstate_scheme) outcome" where
  "namei dv path s = obind (namex dv path False s) (\<lambda>(r, s1). Ret (map_option fst r, s1))"

definition nameiparent :: "'a fstate_scheme devtab \<Rightarrow> uchar list \<Rightarrow> 'a fstate_scheme
    \<Rightarrow> ((nat \<times> uchar list) option \<times> 'a fstate_scheme) outcome" where
  "nameiparent dv path s = namex dv path True s"


end
