(* ===== verification/File.thy ===== *)
theory File
  imports Fs Pipe Console Kalloc
begin

text \<open>
  Open files, \<^verbatim>\<open>xv6-public/file.c\<close>, with \<^verbatim>\<open>pipealloc\<close> of \<^verbatim>\<open>pipe.c\<close> and the console as an entry of the table
  \<^verbatim>\<open>devsw\<close>. Where a pipe or the console makes the process sleep the outcome is \<open>Wait\<close>; the theories
  of those components say how the operation goes on from there.
\<close>

subsection \<open>State\<close>

abbreviation NFILE :: nat where "NFILE \<equiv> 100"
abbreviation CONSOLE :: nat where "CONSOLE \<equiv> 1"

datatype filetype = FD_NONE | FD_PIPE | FD_INODE

text \<open>A pipe is named by the number of its page, an inode by its index in the cache.\<close>

record ofile =
  f_type :: filetype
  f_ref :: int
  f_readable :: bool
  f_writable :: bool
  f_pipe :: nat
  f_ip :: nat
  f_off :: uint

text \<open>
  \<open>files\<close> is the array \<^verbatim>\<open>ftable.file\<close>, \<open>kpipes\<close> holds the pipe in each page that has one, and
  \<open>kinput\<close> is the variable \<^verbatim>\<open>input\<close> of the console.
\<close>

record kstate = fstate +
  files :: "nat \<Rightarrow> ofile"
  kpipes :: "nat \<Rightarrow> pipe"
  kinput :: cinput

definition upd_file :: "nat \<Rightarrow> (ofile \<Rightarrow> ofile) \<Rightarrow> 'a kstate_scheme \<Rightarrow> 'a kstate_scheme" where
  "upd_file f g s = s\<lparr>files := (files s)(f := g (files s f))\<rparr>"

definition set_pipe :: "nat \<Rightarrow> pipe \<Rightarrow> 'a kstate_scheme \<Rightarrow> 'a kstate_scheme" where
  "set_pipe i p s = s\<lparr>kpipes := (kpipes s)(i := p)\<rparr>"

definition all_files :: "nat list" where
  "all_files = [0..<NFILE]"

subsection \<open>The console as a device\<close>

definition cons_read :: "nat \<Rightarrow> uint \<Rightarrow> 'a kstate_scheme \<Rightarrow> (int \<times> uchar list \<times> 'a kstate_scheme) outcome" where
  "cons_read ip n s =
     obind (iunlock ip s) (\<lambda>s1.
     obind (consoleread (nat (sint n)) (kinput s1) s1) (\<lambda>r.
       case r of
         CBlocked out i s2 \<Rightarrow> Wait ''consoleread''
       | CDone k out i s2 \<Rightarrow> obind (ilock ip (s2\<lparr>kinput := i\<rparr>)) (\<lambda>s3. Ret (k, out, s3))))"

definition cons_write :: "nat \<Rightarrow> uchar list \<Rightarrow> uint \<Rightarrow> 'a kstate_scheme \<Rightarrow> (int \<times> 'a kstate_scheme) outcome" where
  "cons_write ip src n s =
     obind (iunlock ip s) (\<lambda>s1.
     obind (consolewrite (take (nat (sint n)) src) (kinput s1) s1) (\<lambda>(k, i, s2).
     obind (ilock ip (s2\<lparr>kinput := i\<rparr>)) (\<lambda>s3. Ret (sint n, s3))))"

definition devsw :: "'a kstate_scheme devtab" where
  "devsw major =
     (if major = CONSOLE then \<lparr>dev_read = Some cons_read, dev_write = Some cons_write\<rparr>
      else \<lparr>dev_read = None, dev_write = None\<rparr>)"

subsection \<open>Operations\<close>

definition fileinit :: "'a mach_scheme \<Rightarrow> 'a mach_scheme" where
  "fileinit s = initlock LFtable s"

definition filealloc :: "'a kstate_scheme \<Rightarrow> (nat option \<times> 'a kstate_scheme) outcome" where
  "filealloc s =
     obind (acquire LFtable s) (\<lambda>s1.
       case List.find (\<lambda>f. f_ref (files s1 f) = 0) all_files of
         Some f \<Rightarrow> obind (release LFtable (upd_file f (\<lambda>x. x\<lparr>f_ref := 1\<rparr>) s1)) (\<lambda>s2. Ret (Some f, s2))
       | None \<Rightarrow> obind (release LFtable s1) (\<lambda>s2. Ret (None, s2)))"

definition filedup :: "nat \<Rightarrow> 'a kstate_scheme \<Rightarrow> (nat \<times> 'a kstate_scheme) outcome" where
  "filedup f s =
     obind (acquire LFtable s) (\<lambda>s1.
       if f_ref (files s1 f) < 1 then Panic ''filedup''
       else obind (release LFtable (upd_file f (\<lambda>x. x\<lparr>f_ref := f_ref x + 1\<rparr>) s1)) (\<lambda>s2. Ret (f, s2)))"

text \<open>The end of \<^verbatim>\<open>pipeclose\<close>: the page goes back when both ends are closed.\<close>

definition pipe_shut :: "uint \<Rightarrow> nat \<Rightarrow> bool \<Rightarrow> 'a kstate_scheme \<Rightarrow> 'a kstate_scheme outcome" where
  "pipe_shut kend i writable s =
     obind (pipeclose i writable (kpipes s i) s) (\<lambda>(r, s1).
       case r of None \<Rightarrow> kfree kend (of_nat i) s1 | Some p \<Rightarrow> Ret (set_pipe i p s1))"

definition fileclose :: "uint \<Rightarrow> nat \<Rightarrow> 'a kstate_scheme \<Rightarrow> 'a kstate_scheme outcome" where
  "fileclose kend f s =
     obind (acquire LFtable s) (\<lambda>s1.
       if f_ref (files s1 f) < 1 then Panic ''fileclose''
       else let s2 = upd_file f (\<lambda>x. x\<lparr>f_ref := f_ref x - 1\<rparr>) s1
            in if f_ref (files s2 f) > 0 then release LFtable s2
               else let ff = files s2 f
                    in obind (release LFtable (upd_file f (\<lambda>x. x\<lparr>f_ref := 0, f_type := FD_NONE\<rparr>) s2)) (\<lambda>s3.
                         case f_type ff of
                           FD_PIPE \<Rightarrow> pipe_shut kend (f_pipe ff) (f_writable ff) s3
                         | FD_INODE \<Rightarrow>
                             obind (begin_op s3) (\<lambda>s4. obind (iput (f_ip ff) s4) (\<lambda>s5. end_op s5))
                         | FD_NONE \<Rightarrow> Ret s3))"

definition filestat :: "nat \<Rightarrow> 'a kstate_scheme \<Rightarrow> (stat option \<times> 'a kstate_scheme) outcome" where
  "filestat f s =
     (if f_type (files s f) = FD_INODE
      then let ip = f_ip (files s f)
           in obind (ilock ip s) (\<lambda>s1.
              let st = stati ip s1 in obind (iunlock ip s1) (\<lambda>s2. Ret (Some st, s2)))
      else Ret (None, s))"

definition fileread :: "nat \<Rightarrow> int \<Rightarrow> 'a kstate_scheme \<Rightarrow> (int \<times> uchar list \<times> 'a kstate_scheme) outcome" where
  "fileread f n s =
     (if \<not> f_readable (files s f) then Ret (-1, [], s)
      else case f_type (files s f) of
        FD_PIPE \<Rightarrow>
          (let i = f_pipe (files s f)
           in obind (piperead i n (kpipes s i) s) (\<lambda>r.
                case r of
                  Blocked rest p s1 \<Rightarrow> Wait ''piperead''
                | Done k out p s1 \<Rightarrow> Ret (k, out, set_pipe i p s1)))
      | FD_INODE \<Rightarrow>
          (let ip = f_ip (files s f)
           in obind (ilock ip s) (\<lambda>s1.
              obind (readi devsw ip (f_off (files s1 f)) (of_int n) s1) (\<lambda>(r, d, s2).
              let s3 = (if r > 0 then upd_file f (\<lambda>x. x\<lparr>f_off := f_off x + of_int r\<rparr>) s2 else s2)
              in obind (iunlock ip s3) (\<lambda>s4. Ret (r, d, s4)))))
      | FD_NONE \<Rightarrow> Panic ''fileread'')"

text \<open>
  The bytes \<^verbatim>\<open>filewrite\<close> puts in one transaction, and its loop: \<open>n\<close> bytes are left, those of \<open>src\<close>. The result
  tells whether all of them were written.
\<close>

definition write_max :: int where
  "write_max = ((int MAXOPBLOCKS - 1 - 1 - 2) div 2) * 512"

definition write_part :: "nat \<Rightarrow> uchar list \<Rightarrow> int \<Rightarrow> 'a kstate_scheme \<Rightarrow> (int \<times> 'a kstate_scheme) outcome" where
  "write_part f src n1 s =
     (let ip = f_ip (files s f)
      in obind (begin_op s) (\<lambda>s1.
         obind (ilock ip s1) (\<lambda>s2.
         obind (writei devsw ip src (f_off (files s2 f)) (of_int n1) s2) (\<lambda>(r, s3).
         let s4 = (if r > 0 then upd_file f (\<lambda>x. x\<lparr>f_off := f_off x + of_int r\<rparr>) s3 else s3)
         in obind (iunlock ip s4) (\<lambda>s5. obind (end_op s5) (\<lambda>s6. Ret (r, s6)))))))"

function filewrite_loop :: "nat \<Rightarrow> uchar list \<Rightarrow> int \<Rightarrow> 'a kstate_scheme \<Rightarrow> (bool \<times> 'a kstate_scheme) outcome" where
  "filewrite_loop f src n s =
     (if \<not> 0 < n then Ret (n = 0, s)
      else let n1 = min n write_max
           in obind (write_part f src n1 s) (\<lambda>(r, s1).
              if r < 0 then Ret (False, s1)
              else if r \<noteq> n1 then Panic ''short filewrite''
              else filewrite_loop f (drop (nat n1) src) (n - n1) s1))"
  by pat_completeness auto
termination
  by (relation "measure (\<lambda>(f, src, n, s). nat n)") (auto simp: write_max_def min_def)

declare filewrite_loop.simps [simp del]

definition filewrite :: "nat \<Rightarrow> uchar list \<Rightarrow> int \<Rightarrow> 'a kstate_scheme \<Rightarrow> (int \<times> 'a kstate_scheme) outcome" where
  "filewrite f src n s =
     (if \<not> f_writable (files s f) then Ret (-1, s)
      else case f_type (files s f) of
        FD_PIPE \<Rightarrow>
          (let i = f_pipe (files s f)
           in obind (pipewrite i src n (kpipes s i) s) (\<lambda>r.
                case r of
                  Blocked rest p s1 \<Rightarrow> Wait ''pipewrite''
                | Done k out p s1 \<Rightarrow> Ret (k, set_pipe i p s1)))
      | FD_INODE \<Rightarrow> obind (filewrite_loop f src n s) (\<lambda>(all, s1). Ret (if all then n else -1, s1))
      | FD_NONE \<Rightarrow> Panic ''filewrite'')"

text \<open>
  \<^verbatim>\<open>pipealloc\<close>. The page \<^verbatim>\<open>kalloc\<close> returns becomes the pipe, whose buffer, after the 52 bytes of its lock, holds what was in the page;
  the branch \<^verbatim>\<open>bad\<close> is only reached while there is no page.
\<close>

definition pipe_bad :: "uint \<Rightarrow> nat option \<Rightarrow> nat option \<Rightarrow> 'a kstate_scheme
    \<Rightarrow> ((nat \<times> nat) option \<times> 'a kstate_scheme) outcome" where
  "pipe_bad kend f0 f1 s =
     obind (case f0 of None \<Rightarrow> Ret s | Some f \<Rightarrow> fileclose kend f s) (\<lambda>s1.
     obind (case f1 of None \<Rightarrow> Ret s1 | Some f \<Rightarrow> fileclose kend f s1) (\<lambda>s2.
     Ret (None, s2)))"

definition pipealloc :: "uint \<Rightarrow> 'a kstate_scheme \<Rightarrow> ((nat \<times> nat) option \<times> 'a kstate_scheme) outcome" where
  "pipealloc kend s =
     obind (filealloc s) (\<lambda>(f0, s1).
       case f0 of
         None \<Rightarrow> pipe_bad kend None None s1
       | Some a \<Rightarrow> obind (filealloc s1) (\<lambda>(f1, s2).
           case f1 of
             None \<Rightarrow> pipe_bad kend f0 None s2
           | Some b \<Rightarrow> obind (kalloc s2) (\<lambda>(page, s3).
               if page = 0 then pipe_bad kend f0 f1 s3
               else let i = unat page;
                        p = \<lparr>pi_data = bytes_at (page + 52) PIPESIZE (kmemory s3), nread = 0, nwrite = 0,
                             readopen = True, writeopen = True\<rparr>;
                        s4 = initlock (LPipe i) (set_pipe i p s3);
                        s5 = upd_file a (\<lambda>x. x\<lparr>f_type := FD_PIPE, f_readable := True, f_writable := False,
                               f_pipe := i\<rparr>) s4;
                        s6 = upd_file b (\<lambda>x. x\<lparr>f_type := FD_PIPE, f_readable := False, f_writable := True,
                               f_pipe := i\<rparr>) s5
                    in Ret (Some (a, b), s6))))"

end
