(* ===== verification/Fork.thy ===== *)
theory Fork
  imports File Proc
begin

text \<open>
  Birth and death of processes: \<^verbatim>\<open>userinit\<close>, \<^verbatim>\<open>fork\<close> and \<^verbatim>\<open>exit\<close> of \<^verbatim>\<open>xv6-public/proc.c\<close>, which work on the
  process table, the memory, the open files and the inodes at once. The arguments of \<open>allocproc\<close>
  are passed on: the addresses the linker chose and the times the clock shows.
\<close>

subsection \<open>The first process\<close>

definition user_tf :: trapframe where
  "user_tf = zero_tf\<lparr>tfcs := push_bit 3 3 OR 3, tfds := push_bit 3 4 OR 3, tfes := push_bit 3 4 OR 3,
     tfss := push_bit 3 4 OR 3, eflags := 0x200, esp := PGSIZE, eip := 0\<rparr>"

definition userinit :: "uint \<Rightarrow> uint \<Rightarrow> uint \<Rightarrow> uint \<Rightarrow> rtcdate \<Rightarrow> rtcdate \<Rightarrow> uchar list \<Rightarrow> 'a kstate_scheme
    \<Rightarrow> 'a kstate_scheme outcome" where
  "userinit kend kdata forkret trapret now now' initcode s =
     obind (allocproc forkret trapret now now' s) (\<lambda>(r, s1).
       case r of
         None \<Rightarrow> Panic ''null pointer''
       | Some p \<Rightarrow>
           obind (setupkvm kend kdata (s1\<lparr>initproc := Some p\<rparr>)) (\<lambda>(pgdir, s2).
             let s3 = set_proc p (\<lambda>x. x\<lparr>p_pgdir := pgdir\<rparr>) s2
             in if pgdir = 0 then Panic ''userinit: out of memory?''
                else obind (inituvm pgdir initcode s3) (\<lambda>s4.
                     obind (namei devsw [SLASH] (set_proc p (\<lambda>x. x\<lparr>p_sz := PGSIZE, p_tf := user_tf,
                              p_name := ''initcode''\<rparr>) s4)) (\<lambda>(cwd, s5).
                     obind (acquire LPtable (set_proc p (\<lambda>x. x\<lparr>p_cwd := cwd\<rparr>) s5)) (\<lambda>s6.
                     release LPtable (set_proc p (\<lambda>x. x\<lparr>p_state := RUNNABLE\<rparr>) s6))))))"

subsection \<open>Fork\<close>

text \<open>The loop over the open files of the parent \<open>me\<close>, from descriptor \<open>i\<close>.\<close>

fun fork_files :: "nat \<Rightarrow> nat \<Rightarrow> nat \<Rightarrow> nat \<Rightarrow> 'a kstate_scheme \<Rightarrow> 'a kstate_scheme outcome" where
  "fork_files me np i 0 s = Ret s"
| "fork_files me np i (Suc k) s =
     (case p_ofile (procs s ! me) ! i of
        None \<Rightarrow> fork_files me np (Suc i) k s
      | Some f \<Rightarrow>
          obind (filedup f s) (\<lambda>(f', s1).
          fork_files me np (Suc i) k (set_proc np (\<lambda>x. x\<lparr>p_ofile := (p_ofile x)[i := Some f']\<rparr>) s1)))"

definition fork :: "uint \<Rightarrow> uint \<Rightarrow> uint \<Rightarrow> uint \<Rightarrow> rtcdate \<Rightarrow> rtcdate \<Rightarrow> 'a kstate_scheme
    \<Rightarrow> (int \<times> 'a kstate_scheme) outcome" where
  "fork kend kdata forkret trapret now now' s =
     obind (myproc s) (\<lambda>me.
     obind (allocproc forkret trapret now now' s) (\<lambda>(r, s1).
       case r of
         None \<Rightarrow> Ret (-1, s1)
       | Some np \<Rightarrow>
           obind (copyuvm kend kdata (p_pgdir (procs s1 ! me)) (p_sz (procs s1 ! me)) s1) (\<lambda>(d, s2).
             let s3 = set_proc np (\<lambda>x. x\<lparr>p_pgdir := d\<rparr>) s2
             in if d = 0
                then obind (kfree kend (p_kstack (procs s3 ! np)) s3) (\<lambda>s4.
                     Ret (-1, set_proc np (\<lambda>x. x\<lparr>p_kstack := 0, p_state := UNUSED\<rparr>) s4))
                else let cp = procs s3 ! me;
                         s4 = set_proc np (\<lambda>x. x\<lparr>p_sz := p_sz cp, p_parent := Some me,
                                p_tf := (p_tf cp)\<lparr>eax := 0\<rparr>\<rparr>) s3
                     in obind (fork_files me np 0 NOFILE s4) (\<lambda>s5.
                          case p_cwd (procs s5 ! me) of
                            None \<Rightarrow> Panic ''null pointer''
                          | Some c \<Rightarrow>
                              obind (idup c s5) (\<lambda>(c', s6).
                              let s7 = set_proc np (\<lambda>x. x\<lparr>p_cwd := Some c',
                                         p_name := take 15 (p_name (procs s6 ! me))\<rparr>) s6;
                                  pid = p_pid (procs s7 ! np)
                              in obind (acquire LPtable s7) (\<lambda>s8.
                                 obind (release LPtable (set_proc np (\<lambda>x. x\<lparr>p_state := RUNNABLE\<rparr>) s8)) (\<lambda>s9.
                                 Ret (pid, s9))))))))"

subsection \<open>Exit\<close>

fun exit_files :: "uint \<Rightarrow> nat \<Rightarrow> nat \<Rightarrow> nat \<Rightarrow> 'a kstate_scheme \<Rightarrow> 'a kstate_scheme outcome" where
  "exit_files kend me fd 0 s = Ret s"
| "exit_files kend me fd (Suc k) s =
     (case p_ofile (procs s ! me) ! fd of
        None \<Rightarrow> exit_files kend me (Suc fd) k s
      | Some f \<Rightarrow>
          obind (fileclose kend f s) (\<lambda>s1.
          exit_files kend me (Suc fd) k (set_proc me (\<lambda>x. x\<lparr>p_ofile := (p_ofile x)[fd := None]\<rparr>) s1)))"

definition wake_proc :: "nat option \<Rightarrow> 'a mach_scheme \<Rightarrow> 'a mach_scheme" where
  "wake_proc p s = (case p of None \<Rightarrow> s | Some i \<Rightarrow> wakeup1 (ChProc i) s)"

text \<open>The loop that passes the children of \<open>me\<close> to the first process.\<close>

fun abandon :: "nat \<Rightarrow> nat \<Rightarrow> nat \<Rightarrow> 'a mach_scheme \<Rightarrow> 'a mach_scheme" where
  "abandon me i 0 s = s"
| "abandon me i (Suc k) s =
     (if p_parent (procs s ! i) = Some me
      then let s1 = set_proc i (\<lambda>x. x\<lparr>p_parent := initproc s\<rparr>) s
           in abandon me (Suc i) k (if p_state (procs s1 ! i) = ZOMBIE then wake_proc (initproc s1) s1 else s1)
      else abandon me (Suc i) k s)"

text \<open>\<^verbatim>\<open>exit\<close> up to the switch to the scheduler, from which it does not come back.\<close>

definition exit_enter :: "uint \<Rightarrow> rtcdate \<Rightarrow> int \<Rightarrow> 'a kstate_scheme \<Rightarrow> 'a kstate_scheme outcome" where
  "exit_enter kend now status s =
     obind (myproc s) (\<lambda>me.
     let s1 = set_proc me (\<lambda>x. x\<lparr>p_exitstatus := status\<rparr>) s
     in if Some me = initproc s1 then Panic ''init exiting''
        else obind (exit_files kend me 0 NOFILE s1) (\<lambda>s2.
             obind (begin_op s2) (\<lambda>s3.
               case p_cwd (procs s3 ! me) of
                 None \<Rightarrow> Panic ''null pointer''
               | Some c \<Rightarrow>
                   obind (iput c s3) (\<lambda>s4.
                   obind (end_op s4) (\<lambda>s5.
                   obind (acquire LPtable (set_proc me (\<lambda>x. x\<lparr>p_cwd := None\<rparr>) s5)) (\<lambda>s6.
                   let s7 = wake_proc (p_parent (procs s6 ! me)) s6;
                       s8 = abandon me 0 (length (procs s7)) s7
                   in sched_enter now (set_proc me (\<lambda>x. x\<lparr>p_state := ZOMBIE\<rparr>) s8)))))))"

end
