(* ===== verification/Exec.thy ===== *)
theory Exec
  imports File Proc
begin

text \<open>
  Programs: \<^verbatim>\<open>exec\<close> of \<^verbatim>\<open>xv6-public/exec.c\<close> with \<^verbatim>\<open>loaduvm\<close> of \<^verbatim>\<open>vm.c\<close> and the headers of \<^verbatim>\<open>elf.h\<close>. An argument
  vector is the list of its strings, each without its final 0. What \<^verbatim>\<open>exec\<close> prints is left out.
\<close>

subsection \<open>Headers\<close>

record elfhdr =
  elf_magic :: uint
  elf_entry :: uint
  elf_phoff :: uint
  elf_phnum :: ushort

record proghdr =
  ph_type :: uint
  ph_off :: uint
  ph_vaddr :: uint
  ph_filesz :: uint
  ph_memsz :: uint

abbreviation ELF_MAGIC :: uint where "ELF_MAGIC \<equiv> 0x464C457F"

definition get_elfhdr :: "uchar list \<Rightarrow> elfhdr" where
  "get_elfhdr d = \<lparr>elf_magic = get32 0 d, elf_entry = get32 24 d, elf_phoff = get32 28 d, elf_phnum = get16 44 d\<rparr>"

definition get_proghdr :: "uchar list \<Rightarrow> proghdr" where
  "get_proghdr d = \<lparr>ph_type = get32 0 d, ph_off = get32 4 d, ph_vaddr = get32 8 d, ph_filesz = get32 16 d,
     ph_memsz = get32 20 d\<rparr>"

subsection \<open>Loading\<close>

fun loaduvm_loop :: "nat \<Rightarrow> uint \<Rightarrow> uint \<Rightarrow> nat \<Rightarrow> uint \<Rightarrow> uint \<Rightarrow> uint \<Rightarrow> 'a kstate_scheme
    \<Rightarrow> (int \<times> 'a kstate_scheme) outcome" where
  "loaduvm_loop 0 pgdir addr ip offset sz i s = Panic ''out of fuel''"
| "loaduvm_loop (Suc k) pgdir addr ip offset sz i s =
     (if \<not> i < sz then Ret (0, s)
      else obind (walkpgdir pgdir (addr + i) False s) (\<lambda>(pte, s1).
        if pte = 0 then Panic ''loaduvm: address should exist''
        else let pa = PTE_ADDR (ld32 (kmemory s1) pte);
                 n = (if sz - i < PGSIZE then sz - i else PGSIZE)
             in obind (readi devsw ip (offset + i) n s1) (\<lambda>(r, d, s2).
                let s3 = s2\<lparr>kmemory := copy_bytes (P2V pa) d (kmemory s2)\<rparr>
                in if (of_int r :: uint) \<noteq> n then Ret (-1, s3)
                   else loaduvm_loop k pgdir addr ip offset sz (i + PGSIZE) s3)))"

definition loaduvm :: "uint \<Rightarrow> uint \<Rightarrow> nat \<Rightarrow> uint \<Rightarrow> uint \<Rightarrow> 'a kstate_scheme
    \<Rightarrow> (int \<times> 'a kstate_scheme) outcome" where
  "loaduvm pgdir addr ip offset sz s =
     (if addr mod PGSIZE \<noteq> 0 then Panic ''loaduvm: addr must be page aligned''
      else loaduvm_loop (unat sz div 4096 + 2) pgdir addr ip offset sz 0 s)"

text \<open>The loop of \<^verbatim>\<open>exec\<close> over the program headers; no size is the branch \<^verbatim>\<open>bad\<close>.\<close>

fun exec_load :: "uint \<Rightarrow> uint \<Rightarrow> nat \<Rightarrow> nat \<Rightarrow> uint \<Rightarrow> uint \<Rightarrow> 'a kstate_scheme
    \<Rightarrow> (uint option \<times> 'a kstate_scheme) outcome" where
  "exec_load kend pgdir ip 0 off sz s = Ret (Some sz, s)"
| "exec_load kend pgdir ip (Suc k) off sz s =
     obind (readi devsw ip off 32 s) (\<lambda>(r, d, s1).
       let ph = get_proghdr d
       in if r \<noteq> 32 then Ret (None, s1)
          else if ph_type ph \<noteq> 1 then exec_load kend pgdir ip k (off + 32) sz s1
          else if ph_memsz ph < ph_filesz ph then Ret (None, s1)
          else if ph_vaddr ph + ph_memsz ph < ph_vaddr ph then Ret (None, s1)
          else obind (allocuvm kend pgdir sz (ph_vaddr ph + ph_memsz ph) s1) (\<lambda>(sz', s2).
            if sz' = 0 then Ret (None, s2)
            else if ph_vaddr ph mod PGSIZE \<noteq> 0 then Ret (None, s2)
            else obind (loaduvm pgdir (ph_vaddr ph) ip (ph_off ph) (ph_filesz ph) s2) (\<lambda>(r', s3).
              if r' < 0 then Ret (None, s3)
              else exec_load kend pgdir ip k (off + 32) sz' s3)))"

subsection \<open>The stack\<close>

abbreviation MAXARG :: nat where "MAXARG \<equiv> 32"

text \<open>The strings of the arguments go to the top of the stack; \<open>ustack\<close> collects their addresses.\<close>

fun push_args :: "uint \<Rightarrow> nat \<Rightarrow> uint \<Rightarrow> uchar list list \<Rightarrow> uint list \<Rightarrow> 'a kstate_scheme
    \<Rightarrow> ((uint \<times> uint list) option \<times> 'a kstate_scheme) outcome" where
  "push_args pgdir argc sp [] ustack s = Ret (Some (sp, ustack), s)"
| "push_args pgdir argc sp (a # as) ustack s =
     (if argc \<ge> MAXARG then Ret (None, s)
      else let sp' = (sp - (of_nat (length a) + 1)) AND NOT 3
           in obind (copyout pgdir sp' (a @ [0]) s) (\<lambda>(r, s1).
                if r < 0 then Ret (None, s1)
                else push_args pgdir (Suc argc) sp' as (ustack @ [sp']) s1))"

text \<open>The part of the path after its last slash.\<close>

fun base_name :: "uchar list \<Rightarrow> uchar list \<Rightarrow> uchar list" where
  "base_name l [] = l"
| "base_name l (c # cs) = base_name (if c = SLASH then cs else l) cs"

definition exec_bad :: "uint \<Rightarrow> uint \<Rightarrow> nat option \<Rightarrow> 'a kstate_scheme \<Rightarrow> (int \<times> 'a kstate_scheme) outcome" where
  "exec_bad kend pgdir ip s =
     obind (if pgdir \<noteq> 0 then freevm kend pgdir s else Ret s) (\<lambda>s1.
     obind (case ip of None \<Rightarrow> Ret s1 | Some i \<Rightarrow> obind (iunlockput i s1) end_op) (\<lambda>s2.
     Ret (-1, s2)))"

text \<open>From the program in memory to the new image of process \<open>p\<close>.\<close>

definition exec_commit :: "uint \<Rightarrow> nat \<Rightarrow> uint \<Rightarrow> uint \<Rightarrow> uint \<Rightarrow> uint \<Rightarrow> uchar list \<Rightarrow> 'a kstate_scheme
    \<Rightarrow> (int \<times> 'a kstate_scheme) outcome" where
  "exec_commit kend p pgdir sz entry sp path s =
     (let oldpgdir = p_pgdir (procs s ! p)
      in obind (switchuvm (Some p) (set_proc p (\<lambda>x. x\<lparr>p_name := map (\<lambda>b. char_of (unat b)) (take 15 (base_name path path)),
             p_pgdir := pgdir, p_sz := sz, p_tf := (p_tf x)\<lparr>eip := entry, esp := sp\<rparr>\<rparr>) s)) (\<lambda>s1.
         obind (freevm kend oldpgdir s1) (\<lambda>s2. Ret (0, s2))))"

definition exec_stack :: "uint \<Rightarrow> nat \<Rightarrow> uint \<Rightarrow> uint \<Rightarrow> uint \<Rightarrow> uchar list \<Rightarrow> uchar list list \<Rightarrow> 'a kstate_scheme
    \<Rightarrow> (int \<times> 'a kstate_scheme) outcome" where
  "exec_stack kend p pgdir sz0 entry path argv s =
     (let sz1 = PGROUNDUP sz0
      in obind (allocuvm kend pgdir sz1 (sz1 + 2 * PGSIZE) s) (\<lambda>(sz, s1).
         if sz = 0 then exec_bad kend pgdir None s1
         else obind (clearpteu pgdir (sz - 2 * PGSIZE) s1) (\<lambda>s2.
              obind (push_args pgdir 0 sz argv [] s2) (\<lambda>(r, s3).
                case r of
                  None \<Rightarrow> exec_bad kend pgdir None s3
                | Some (sp, args) \<Rightarrow>
                    let argc = length args;
                        ustack = [0xffffffff, of_nat argc, sp - (of_nat argc + 1) * 4] @ args @ [0];
                        sp' = sp - (3 + of_nat argc + 1) * 4
                    in obind (copyout pgdir sp' (concat (map le32 ustack)) s3) (\<lambda>(r', s4).
                         if r' < 0 then exec_bad kend pgdir None s4
                         else exec_commit kend p pgdir sz entry sp' path s4)))))"

definition exec :: "uint \<Rightarrow> uint \<Rightarrow> uchar list \<Rightarrow> uchar list list \<Rightarrow> 'a kstate_scheme
    \<Rightarrow> (int \<times> 'a kstate_scheme) outcome" where
  "exec kend kdata path argv s =
     obind (myproc s) (\<lambda>p.
     obind (begin_op s) (\<lambda>s1.
     obind (namei devsw path s1) (\<lambda>(r, s2).
       case r of
         None \<Rightarrow> obind (end_op s2) (\<lambda>s3. Ret (-1, s3))
       | Some ip \<Rightarrow>
           obind (ilock ip s2) (\<lambda>s3.
           obind (readi devsw ip 0 52 s3) (\<lambda>(n, d, s4).
             let elf = get_elfhdr d
             in if n \<noteq> 52 \<or> elf_magic elf \<noteq> ELF_MAGIC then exec_bad kend 0 (Some ip) s4
                else obind (setupkvm kend kdata s4) (\<lambda>(pgdir, s5).
                  if pgdir = 0 then exec_bad kend 0 (Some ip) s5
                  else obind (exec_load kend pgdir ip (unat (elf_phnum elf)) (elf_phoff elf) 0 s5) (\<lambda>(sz, s6).
                    case sz of
                      None \<Rightarrow> exec_bad kend pgdir (Some ip) s6
                    | Some sz0 \<Rightarrow>
                        obind (iunlockput ip s6) (\<lambda>s7.
                        obind (end_op s7) (\<lambda>s8.
                        exec_stack kend p pgdir sz0 (elf_entry elf) path argv s8)))))))))"

end
