(* ===== verification/Sysfile.thy ===== *)
theory Sysfile
  imports Exec Syscall
begin

text \<open>
  The system calls on files, \<^verbatim>\<open>xv6-public/sysfile.c\<close>. \<open>um\<close> is the memory of the process that calls;
  what a call stores there is part of its result, with the address.
\<close>

subsection \<open>Descriptors\<close>

definition argfd :: "(uint \<Rightarrow> uchar) \<Rightarrow> uint \<Rightarrow> 'a mach_scheme \<Rightarrow> (nat \<times> nat) option outcome" where
  "argfd um n s =
     obind (argint um n s) (\<lambda>r.
       case r of
         None \<Rightarrow> Ret None
       | Some a \<Rightarrow>
           if sint a < 0 \<or> sint a \<ge> int NOFILE then Ret None
           else obind (myproc s) (\<lambda>p.
             case p_ofile (procs s ! p) ! nat (sint a) of
               None \<Rightarrow> Ret None
             | Some f \<Rightarrow> Ret (Some (nat (sint a), f))))"

fun free_fd :: "nat \<Rightarrow> nat option list \<Rightarrow> nat option" where
  "free_fd fd [] = None"
| "free_fd fd (x # xs) = (if x = None then Some fd else free_fd (Suc fd) xs)"

definition set_fd :: "nat \<Rightarrow> nat \<Rightarrow> nat option \<Rightarrow> 'a mach_scheme \<Rightarrow> 'a mach_scheme" where
  "set_fd p fd f s = set_proc p (\<lambda>x. x\<lparr>p_ofile := (p_ofile x)[fd := f]\<rparr>) s"

definition fdalloc :: "nat \<Rightarrow> 'a mach_scheme \<Rightarrow> (nat option \<times> 'a mach_scheme) outcome" where
  "fdalloc f s =
     obind (myproc s) (\<lambda>p.
       case free_fd 0 (p_ofile (procs s ! p)) of
         Some fd \<Rightarrow> Ret (Some fd, set_fd p fd (Some f) s)
       | None \<Rightarrow> Ret (None, s))"

definition sys_dup :: "(uint \<Rightarrow> uchar) \<Rightarrow> 'a kstate_scheme \<Rightarrow> (int \<times> 'a kstate_scheme) outcome" where
  "sys_dup um s =
     obind (argfd um 0 s) (\<lambda>r.
       case r of
         None \<Rightarrow> Ret (-1, s)
       | Some (_, f) \<Rightarrow>
           obind (fdalloc f s) (\<lambda>(d, s1).
             case d of
               None \<Rightarrow> Ret (-1, s1)
             | Some fd \<Rightarrow> obind (filedup f s1) (\<lambda>(_, s2). Ret (int fd, s2))))"

text \<open>The arguments of \<^verbatim>\<open>sys_read\<close> and \<^verbatim>\<open>sys_write\<close>: the file, the number of bytes and the address.\<close>

definition arg_io :: "(uint \<Rightarrow> uchar) \<Rightarrow> 'a mach_scheme \<Rightarrow> (nat \<times> int \<times> uint) option outcome" where
  "arg_io um s =
     obind (argfd um 0 s) (\<lambda>r.
       case r of
         None \<Rightarrow> Ret None
       | Some (_, f) \<Rightarrow>
           obind (argint um 2 s) (\<lambda>r2.
             case r2 of
               None \<Rightarrow> Ret None
             | Some n \<Rightarrow>
                 obind (argptr um 1 (sint n) s) (\<lambda>r3.
                   case r3 of None \<Rightarrow> Ret None | Some p \<Rightarrow> Ret (Some (f, sint n, p)))))"

definition sys_read :: "(uint \<Rightarrow> uchar) \<Rightarrow> 'a kstate_scheme
    \<Rightarrow> (int \<times> (uint \<times> uchar list) option \<times> 'a kstate_scheme) outcome" where
  "sys_read um s =
     obind (arg_io um s) (\<lambda>r.
       case r of
         None \<Rightarrow> Ret (-1, None, s)
       | Some (f, n, p) \<Rightarrow> obind (fileread f n s) (\<lambda>(k, d, s1). Ret (k, Some (p, d), s1)))"

definition sys_write :: "(uint \<Rightarrow> uchar) \<Rightarrow> 'a kstate_scheme \<Rightarrow> (int \<times> 'a kstate_scheme) outcome" where
  "sys_write um s =
     obind (arg_io um s) (\<lambda>r.
       case r of
         None \<Rightarrow> Ret (-1, s)
       | Some (f, n, p) \<Rightarrow> filewrite f (bytes_at p (nat n) um) n s)"

definition sys_close :: "uint \<Rightarrow> (uint \<Rightarrow> uchar) \<Rightarrow> 'a kstate_scheme \<Rightarrow> (int \<times> 'a kstate_scheme) outcome" where
  "sys_close kend um s =
     obind (argfd um 0 s) (\<lambda>r.
       case r of
         None \<Rightarrow> Ret (-1, s)
       | Some (fd, f) \<Rightarrow>
           obind (myproc s) (\<lambda>p.
           obind (fileclose kend f (set_fd p fd None s)) (\<lambda>s1. Ret (0, s1))))"

definition sys_fstat :: "(uint \<Rightarrow> uchar) \<Rightarrow> 'a kstate_scheme
    \<Rightarrow> (int \<times> (uint \<times> stat) option \<times> 'a kstate_scheme) outcome" where
  "sys_fstat um s =
     obind (argfd um 0 s) (\<lambda>r.
       case r of
         None \<Rightarrow> Ret (-1, None, s)
       | Some (_, f) \<Rightarrow>
           obind (argptr um 1 20 s) (\<lambda>r2.
             case r2 of
               None \<Rightarrow> Ret (-1, None, s)
             | Some p \<Rightarrow>
                 obind (filestat f s) (\<lambda>(st, s1).
                   case st of None \<Rightarrow> Ret (-1, None, s1) | Some x \<Rightarrow> Ret (0, Some (p, x), s1))))"

subsection \<open>Links\<close>

text \<open>A string argument: the bytes up to the final 0.\<close>

definition arg_path :: "(uint \<Rightarrow> uchar) \<Rightarrow> uint \<Rightarrow> 'a mach_scheme \<Rightarrow> uchar list option outcome" where
  "arg_path um n s =
     obind (argstr um n s) (\<lambda>r. Ret (map_option (\<lambda>(addr, len). bytes_at addr len um) r))"

text \<open>The end of a call in a transaction, with its return value.\<close>

definition op_ret :: "int \<Rightarrow> 'a kstate_scheme \<Rightarrow> (int \<times> 'a kstate_scheme) outcome" where
  "op_ret r s = obind (end_op s) (\<lambda>s1. Ret (r, s1))"

definition put_ret :: "nat \<Rightarrow> int \<Rightarrow> 'a kstate_scheme \<Rightarrow> (int \<times> 'a kstate_scheme) outcome" where
  "put_ret ip r s = obind (iunlockput ip s) (op_ret r)"

definition add_nlink :: "nat \<Rightarrow> ushort \<Rightarrow> 'a kstate_scheme \<Rightarrow> 'a kstate_scheme outcome" where
  "add_nlink ip d s = iupdate ip (upd_inode ip (\<lambda>x. x\<lparr>i_nlink := i_nlink x + d\<rparr>) s)"

definition link_bad :: "nat \<Rightarrow> 'a kstate_scheme \<Rightarrow> (int \<times> 'a kstate_scheme) outcome" where
  "link_bad ip s =
     obind (ilock ip s) (\<lambda>s1. obind (add_nlink ip (-1) s1) (\<lambda>s2. put_ret ip (-1) s2))"

definition link :: "uchar list \<Rightarrow> uchar list \<Rightarrow> 'a kstate_scheme \<Rightarrow> (int \<times> 'a kstate_scheme) outcome" where
  "link old new s =
     obind (begin_op s) (\<lambda>s1.
     obind (namei devsw old s1) (\<lambda>(r, s2).
       case r of
         None \<Rightarrow> op_ret (-1) s2
       | Some ip \<Rightarrow>
           obind (ilock ip s2) (\<lambda>s3.
             if i_type (inodes s3 ip) = T_DIR then put_ret ip (-1) s3
             else
               obind (add_nlink ip 1 s3) (\<lambda>s4.
               obind (iunlock ip s4) (\<lambda>s5.
               obind (nameiparent devsw new s5) (\<lambda>(r', s6).
                 case r' of
                   None \<Rightarrow> link_bad ip s6
                 | Some (dp, name) \<Rightarrow>
                     obind (ilock dp s6) (\<lambda>s7.
                       obind (if i_dev (inodes s7 dp) \<noteq> i_dev (inodes s7 ip) then Ret (-1, s7)
                              else dirlink devsw dp name (i_inum (inodes s7 ip)) s7) (\<lambda>(k, s8).
                       obind (iunlockput dp s8) (\<lambda>s9.
                         if k < 0 then link_bad ip s9
                         else obind (iput ip s9) (op_ret 0))))))))))"

definition sys_link :: "(uint \<Rightarrow> uchar) \<Rightarrow> 'a kstate_scheme \<Rightarrow> (int \<times> 'a kstate_scheme) outcome" where
  "sys_link um s =
     obind (arg_path um 0 s) (\<lambda>r.
       case r of
         None \<Rightarrow> Ret (-1, s)
       | Some old \<Rightarrow>
           obind (arg_path um 1 s) (\<lambda>r'. case r' of None \<Rightarrow> Ret (-1, s) | Some new \<Rightarrow> link old new s))"

fun isdirempty_loop :: "nat \<Rightarrow> nat \<Rightarrow> uint \<Rightarrow> 'a kstate_scheme \<Rightarrow> (bool \<times> 'a kstate_scheme) outcome" where
  "isdirempty_loop 0 dp off s = Panic ''out of fuel''"
| "isdirempty_loop (Suc k) dp off s =
     (if \<not> off < i_size (inodes s dp) then Ret (True, s)
      else obind (readi devsw dp off 16 s) (\<lambda>(r, de, s1).
        if r \<noteq> 16 then Panic ''isdirempty: readi''
        else if de_inum de \<noteq> 0 then Ret (False, s1)
        else isdirempty_loop k dp (off + 16) s1))"

definition isdirempty :: "nat \<Rightarrow> 'a kstate_scheme \<Rightarrow> (bool \<times> 'a kstate_scheme) outcome" where
  "isdirempty dp s = isdirempty_loop (unat (i_size (inodes s dp)) div DIRENT + 2) dp 32 s"

text \<open>The names \<^verbatim>\<open>.\<close> and \<^verbatim>\<open>..\<close>\<close>

abbreviation DOT :: "uchar list" where "DOT \<equiv> [0x2e]"
abbreviation DOTDOT :: "uchar list" where "DOTDOT \<equiv> [0x2e, 0x2e]"

text \<open>\<^verbatim>\<open>sys_unlink\<close> from the entry at \<open>off\<close> of directory \<open>dp\<close> for inode \<open>ip\<close>, both locked.\<close>

definition unlink_entry :: "nat \<Rightarrow> nat \<Rightarrow> uint \<Rightarrow> 'a kstate_scheme \<Rightarrow> (int \<times> 'a kstate_scheme) outcome" where
  "unlink_entry dp ip off s =
     obind (writei devsw dp (replicate DIRENT 0) off 16 s) (\<lambda>(w, s1).
       if w \<noteq> 16 then Panic ''unlink: writei''
       else obind (if i_type (inodes s1 ip) = T_DIR then add_nlink dp (-1) s1 else Ret s1) (\<lambda>s2.
            obind (iunlockput dp s2) (\<lambda>s3.
            obind (add_nlink ip (-1) s3) (\<lambda>s4.
            put_ret ip 0 s4))))"

definition unlink :: "uchar list \<Rightarrow> 'a kstate_scheme \<Rightarrow> (int \<times> 'a kstate_scheme) outcome" where
  "unlink path s =
     obind (begin_op s) (\<lambda>s1.
     obind (nameiparent devsw path s1) (\<lambda>(r, s2).
       case r of
         None \<Rightarrow> op_ret (-1) s2
       | Some (dp, name) \<Rightarrow>
           obind (ilock dp s2) (\<lambda>s3.
             if namecmp name DOT = 0 \<or> namecmp name DOTDOT = 0 then put_ret dp (-1) s3
             else obind (dirlookup devsw dp name s3) (\<lambda>(e, s4).
               case e of
                 None \<Rightarrow> put_ret dp (-1) s4
               | Some (ip, off) \<Rightarrow>
                   obind (ilock ip s4) (\<lambda>s5.
                     if sint (i_nlink (inodes s5 ip)) < 1 then Panic ''unlink: nlink < 1''
                     else obind (if i_type (inodes s5 ip) = T_DIR then isdirempty ip s5 else Ret (True, s5)) (\<lambda>(emp, s6).
                       if \<not> emp then obind (iunlockput ip s6) (\<lambda>s7. put_ret dp (-1) s7)
                       else unlink_entry dp ip off s6))))))"

definition sys_unlink :: "(uint \<Rightarrow> uchar) \<Rightarrow> 'a kstate_scheme \<Rightarrow> (int \<times> 'a kstate_scheme) outcome" where
  "sys_unlink um s =
     obind (arg_path um 0 s) (\<lambda>r. case r of None \<Rightarrow> Ret (-1, s) | Some path \<Rightarrow> unlink path s)"

subsection \<open>Creation\<close>

text \<open>\<^verbatim>\<open>create\<close> when directory \<open>dp\<close>, locked, has no entry with the name.\<close>

definition create_new :: "nat \<Rightarrow> uchar list \<Rightarrow> ushort \<Rightarrow> ushort \<Rightarrow> ushort \<Rightarrow> 'a kstate_scheme
    \<Rightarrow> (nat option \<times> 'a kstate_scheme) outcome" where
  "create_new dp name ty major minor s =
     obind (ialloc (i_dev (inodes s dp)) ty s) (\<lambda>(ip, s1).
     obind (ilock ip s1) (\<lambda>s2.
     obind (iupdate ip (upd_inode ip (\<lambda>x. x\<lparr>i_major := major, i_minor := minor, i_nlink := 1\<rparr>) s2)) (\<lambda>s3.
     obind (if ty = T_DIR
            then obind (add_nlink dp 1 s3) (\<lambda>s4.
                 obind (dirlink devsw ip DOT (i_inum (inodes s4 ip)) s4) (\<lambda>(r, s5).
                   if r < 0 then Panic ''create dots''
                   else obind (dirlink devsw ip DOTDOT (i_inum (inodes s5 dp)) s5) (\<lambda>(r', s6).
                     if r' < 0 then Panic ''create dots'' else Ret s6)))
            else Ret s3) (\<lambda>s7.
     obind (dirlink devsw dp name (i_inum (inodes s7 ip)) s7) (\<lambda>(r, s8).
       if r < 0 then Panic ''create: dirlink''
       else obind (iunlockput dp s8) (\<lambda>s9. Ret (Some ip, s9)))))))"

definition create :: "uchar list \<Rightarrow> ushort \<Rightarrow> ushort \<Rightarrow> ushort \<Rightarrow> 'a kstate_scheme
    \<Rightarrow> (nat option \<times> 'a kstate_scheme) outcome" where
  "create path ty major minor s =
     obind (nameiparent devsw path s) (\<lambda>(r, s1).
       case r of
         None \<Rightarrow> Ret (None, s1)
       | Some (dp, name) \<Rightarrow>
           obind (ilock dp s1) (\<lambda>s2.
           obind (dirlookup devsw dp name s2) (\<lambda>(e, s3).
             case e of
               Some (ip, off) \<Rightarrow>
                 obind (iunlockput dp s3) (\<lambda>s4.
                 obind (ilock ip s4) (\<lambda>s5.
                   if ty = T_FILE \<and> i_type (inodes s5 ip) = T_FILE then Ret (Some ip, s5)
                   else obind (iunlockput ip s5) (\<lambda>s6. Ret (None, s6))))
             | None \<Rightarrow> create_new dp name ty major minor s3)))"

abbreviation O_RDONLY :: uint where "O_RDONLY \<equiv> 0"
abbreviation O_WRONLY :: uint where "O_WRONLY \<equiv> 1"
abbreviation O_RDWR :: uint where "O_RDWR \<equiv> 2"
abbreviation O_CREATE :: uint where "O_CREATE \<equiv> 0x200"

text \<open>\<^verbatim>\<open>sys_open\<close> from the inode \<open>ip\<close>, locked, in three steps: the inode, the descriptor, the file.\<close>

definition open_inode :: "uchar list \<Rightarrow> uint \<Rightarrow> 'a kstate_scheme \<Rightarrow> (nat option \<times> 'a kstate_scheme) outcome" where
  "open_inode path omode s =
     (if omode AND O_CREATE \<noteq> 0 then create path T_FILE 0 0 s
      else obind (namei devsw path s) (\<lambda>(r, s1).
        case r of
          None \<Rightarrow> Ret (None, s1)
        | Some ip \<Rightarrow>
            obind (ilock ip s1) (\<lambda>s2.
              if i_type (inodes s2 ip) = T_DIR \<and> omode \<noteq> O_RDONLY
              then obind (iunlockput ip s2) (\<lambda>s3. Ret (None, s3))
              else Ret (Some ip, s2))))"

definition open_file :: "nat \<Rightarrow> uint \<Rightarrow> ofile \<Rightarrow> ofile" where
  "open_file ip omode x = x\<lparr>f_type := FD_INODE, f_ip := ip, f_off := 0,
     f_readable := (omode AND O_WRONLY = 0),
     f_writable := (omode AND O_WRONLY \<noteq> 0 \<or> omode AND O_RDWR \<noteq> 0)\<rparr>"

definition open_path :: "uint \<Rightarrow> uchar list \<Rightarrow> uint \<Rightarrow> 'a kstate_scheme \<Rightarrow> (int \<times> 'a kstate_scheme) outcome" where
  "open_path kend path omode s =
     obind (begin_op s) (\<lambda>s1.
     obind (open_inode path omode s1) (\<lambda>(r, s2).
       case r of
         None \<Rightarrow> op_ret (-1) s2
       | Some ip \<Rightarrow>
           obind (filealloc s2) (\<lambda>(f, s3).
             case f of
               None \<Rightarrow> put_ret ip (-1) s3
             | Some g \<Rightarrow>
                 obind (fdalloc g s3) (\<lambda>(d, s4).
                   case d of
                     None \<Rightarrow> obind (fileclose kend g s4) (\<lambda>s5. put_ret ip (-1) s5)
                   | Some fd \<Rightarrow>
                       obind (iunlock ip s4) (\<lambda>s5.
                       obind (end_op s5) (\<lambda>s6.
                       Ret (int fd, upd_file g (open_file ip omode) s6)))))))"

definition sys_open :: "uint \<Rightarrow> (uint \<Rightarrow> uchar) \<Rightarrow> 'a kstate_scheme \<Rightarrow> (int \<times> 'a kstate_scheme) outcome" where
  "sys_open kend um s =
     obind (arg_path um 0 s) (\<lambda>r.
       case r of
         None \<Rightarrow> Ret (-1, s)
       | Some path \<Rightarrow>
           obind (argint um 1 s) (\<lambda>r'. case r' of None \<Rightarrow> Ret (-1, s) | Some omode \<Rightarrow> open_path kend path omode s))"

definition sys_mkdir :: "(uint \<Rightarrow> uchar) \<Rightarrow> 'a kstate_scheme \<Rightarrow> (int \<times> 'a kstate_scheme) outcome" where
  "sys_mkdir um s =
     obind (begin_op s) (\<lambda>s1.
     obind (arg_path um 0 s1) (\<lambda>r.
       case r of
         None \<Rightarrow> op_ret (-1) s1
       | Some path \<Rightarrow>
           obind (create path T_DIR 0 0 s1) (\<lambda>(i, s2).
             case i of None \<Rightarrow> op_ret (-1) s2 | Some ip \<Rightarrow> put_ret ip 0 s2)))"

definition sys_mknod :: "(uint \<Rightarrow> uchar) \<Rightarrow> 'a kstate_scheme \<Rightarrow> (int \<times> 'a kstate_scheme) outcome" where
  "sys_mknod um s =
     obind (begin_op s) (\<lambda>s1.
     obind (arg_path um 0 s1) (\<lambda>r.
     obind (argint um 1 s1) (\<lambda>ma.
     obind (argint um 2 s1) (\<lambda>mi.
       case (r, ma, mi) of
         (Some path, Some major, Some minor) \<Rightarrow>
           obind (create path T_DEV (ucast major) (ucast minor) s1) (\<lambda>(i, s2).
             case i of None \<Rightarrow> op_ret (-1) s2 | Some ip \<Rightarrow> put_ret ip 0 s2)
       | _ \<Rightarrow> op_ret (-1) s1))))"

definition sys_chdir :: "(uint \<Rightarrow> uchar) \<Rightarrow> 'a kstate_scheme \<Rightarrow> (int \<times> 'a kstate_scheme) outcome" where
  "sys_chdir um s =
     obind (myproc s) (\<lambda>p.
     obind (begin_op s) (\<lambda>s1.
     obind (arg_path um 0 s1) (\<lambda>r.
       case r of
         None \<Rightarrow> op_ret (-1) s1
       | Some path \<Rightarrow>
           obind (namei devsw path s1) (\<lambda>(i, s2).
             case i of
               None \<Rightarrow> op_ret (-1) s2
             | Some ip \<Rightarrow>
                 obind (ilock ip s2) (\<lambda>s3.
                   if i_type (inodes s3 ip) \<noteq> T_DIR then put_ret ip (-1) s3
                   else obind (iunlock ip s3) (\<lambda>s4.
                     case p_cwd (procs s4 ! p) of
                       None \<Rightarrow> Panic ''null pointer''
                     | Some c \<Rightarrow>
                         obind (iput c s4) (\<lambda>s5.
                         obind (end_op s5) (\<lambda>s6.
                         Ret (0, set_proc p (\<lambda>x. x\<lparr>p_cwd := Some ip\<rparr>) s6)))))))))"

text \<open>The argument vector of \<^verbatim>\<open>sys_exec\<close>, from index \<open>i\<close> with \<open>k\<close> places left in \<^verbatim>\<open>argv\<close>.\<close>

fun fetch_argv :: "nat \<Rightarrow> nat \<Rightarrow> (uint \<Rightarrow> uchar) \<Rightarrow> uint \<Rightarrow> 'a mach_scheme \<Rightarrow> uchar list list option outcome" where
  "fetch_argv i 0 um uargv s = Ret None"
| "fetch_argv i (Suc k) um uargv s =
     obind (fetchint um (uargv + 4 * of_nat i) s) (\<lambda>r.
       case r of
         None \<Rightarrow> Ret None
       | Some uarg \<Rightarrow>
           if uarg = 0 then Ret (Some [])
           else obind (fetchstr um uarg s) (\<lambda>q.
             case q of
               None \<Rightarrow> Ret None
             | Some (addr, len) \<Rightarrow>
                 obind (fetch_argv (Suc i) k um uargv s) (\<lambda>rest.
                 Ret (map_option (\<lambda>as. bytes_at addr len um # as) rest))))"

definition sys_exec :: "uint \<Rightarrow> uint \<Rightarrow> (uint \<Rightarrow> uchar) \<Rightarrow> 'a kstate_scheme \<Rightarrow> (int \<times> 'a kstate_scheme) outcome" where
  "sys_exec kend kdata um s =
     obind (arg_path um 0 s) (\<lambda>r.
     obind (argint um 1 s) (\<lambda>r'.
       case (r, r') of
         (Some path, Some uargv) \<Rightarrow>
           obind (fetch_argv 0 MAXARG um uargv s) (\<lambda>a.
             case a of None \<Rightarrow> Ret (-1, s) | Some argv \<Rightarrow> exec kend kdata path argv s)
       | _ \<Rightarrow> Ret (-1, s)))"

definition pipe_fail :: "uint \<Rightarrow> nat \<Rightarrow> nat \<Rightarrow> 'a kstate_scheme
    \<Rightarrow> (int \<times> (uint \<times> int \<times> int) option \<times> 'a kstate_scheme) outcome" where
  "pipe_fail kend rfile wfile s =
     obind (fileclose kend rfile s) (\<lambda>s1. obind (fileclose kend wfile s1) (\<lambda>s2. Ret (-1, None, s2)))"

definition sys_pipe :: "uint \<Rightarrow> (uint \<Rightarrow> uchar) \<Rightarrow> 'a kstate_scheme
    \<Rightarrow> (int \<times> (uint \<times> int \<times> int) option \<times> 'a kstate_scheme) outcome" where
  "sys_pipe kend um s =
     obind (argptr um 0 8 s) (\<lambda>r.
       case r of
         None \<Rightarrow> Ret (-1, None, s)
       | Some fd \<Rightarrow>
           obind (pipealloc kend s) (\<lambda>(q, s1).
             case q of
               None \<Rightarrow> Ret (-1, None, s1)
             | Some (rfile, wfile) \<Rightarrow>
                 obind (fdalloc rfile s1) (\<lambda>(d0, s2).
                   case d0 of
                     None \<Rightarrow> pipe_fail kend rfile wfile s2
                   | Some fd0 \<Rightarrow>
                       obind (fdalloc wfile s2) (\<lambda>(d1, s3).
                         case d1 of
                           None \<Rightarrow> obind (myproc s3) (\<lambda>p. pipe_fail kend rfile wfile (set_fd p fd0 None s3))
                         | Some fd1 \<Rightarrow> Ret (0, Some (fd, int fd0, int fd1), s3)))))"

end
