(* ===== verification/Txn.thy ===== *)
theory Txn
  imports Fs
begin

text \<open>
  What the file system may rely on inside a transaction: reading a block, changing it through
  the log, and the blocks it allocates and frees. The rest of the file system is proved over
  these contracts and not over the cache and the log.
\<close>

subsection \<open>Blocks inside a transaction\<close>

text \<open>
  With the buffers \<open>H\<close> held, the log has room for \<open>k\<close> more blocks.
\<close>

definition txn :: "nat \<Rightarrow> nat set \<Rightarrow> 'a lstate_scheme \<Rightarrow> bool" where
  "txn k H s \<longleftrightarrow> lwf H s \<and> lh_n s + int k < l_size s"

text \<open>What stays the same while blocks are read and logged, with the held buffers \<open>H\<close> untouched.\<close>

definition tstep :: "nat set \<Rightarrow> 'a lstate_scheme \<Rightarrow> 'a lstate_scheme \<Rightarrow> bool" where
  "tstep H s t \<longleftrightarrow> lframe s t \<and> l_outstanding t = l_outstanding s \<and> l_committing t = l_committing s \<and>
     disk t = disk s \<and> (\<forall>c\<in>H. bufs t c = bufs s c)"

lemma tstep_refl [simp]: "tstep H s s"
  by (simp add: tstep_def)

lemma tstep_trans [trans]: "tstep H s t \<Longrightarrow> tstep H t u \<Longrightarrow> tstep H s u"
  by (auto simp: tstep_def intro: lframe_trans)

lemma tstep_mono: "tstep H s t \<Longrightarrow> G \<subseteq> H \<Longrightarrow> tstep G s t"
  by (auto simp: tstep_def)

lemma tstepD:
  assumes "tstep H s t"
  shows "lframe s t" "l_outstanding t = l_outstanding s" "l_committing t = l_committing s"
    "disk t = disk s" "home t = home s" "disksize t = disksize s" "held_blocks H t = held_blocks H s"
    "c \<in> H \<Longrightarrow> bufs t c = bufs s c"
  using assms lframe_home [of s t] by (auto simp: tstep_def held_blocks_def lframe_def)

lemma fstate_more:
  fixes s t :: "'a fstate_scheme"
  assumes "lstate.more t = lstate.more s"
  shows "fs_sb t = fs_sb s" "inodes t = inodes s" "fstate.more t = fstate.more s"
  using assms by (cases s; cases t; simp)+

lemma tstep_fs:
  fixes s t :: "'a fstate_scheme"
  assumes "tstep H s t"
  shows "fs_sb t = fs_sb s" "inodes t = inodes s" "fstate.more t = fstate.more s"
  using fstate_more [of t s] assms by (simp_all add: tstep_def lframe_def)

lemma txn_lwf: "txn k H s \<Longrightarrow> lwf H s"
  by (simp add: txn_def)

lemma txn_bwf: "txn k H s \<Longrightarrow> bwf H s"
  by (simp add: txn_def lwf_def)

lemma txn_less: "txn k H s \<Longrightarrow> j \<le> k \<Longrightarrow> txn j H s"
  by (simp add: txn_def)

lemma lwf_txn: "lwf H s \<Longrightarrow> txn 0 H s"
  by (auto simp: txn_def lwf_def lfits_def)

lemma txn_room:
  assumes "txn k H s" and "card H \<le> k"
  shows "room H s"
proof -
  note w = lwfD [OF txn_lwf [OF assms(1)]]
  have "l_size s \<le> 30" "0 \<le> lh_n s" using w(2) by (auto simp: lfits_def lgeom_def)
  moreover have "card (dirty_blocks s) = nat (lh_n s)"
    using w(3,4) lfitsD(4) [OF w(2)] by (simp add: distinct_card)
  ultimately have "card (dirty_blocks s) + card H < NBUF"
    using assms unfolding txn_def by linarith
  then show ?thesis by (rule room_card [OF w(1)])
qed

lemma bframe_txn:
  assumes "lwf H s" and "bframe s t" and "bwf G t" and "disk t = disk s" and "dirty_blocks t = dirty_blocks s"
  shows "lwf G t" "lh_n t = lh_n s" "l_size t = l_size s"
  using assms bframe_log [OF assms(2)] lfits_bframe [OF assms(2)] by (simp_all add: lwf_def)

lemma bframe_tstep:
  assumes "bframe s t" and "disk t = disk s" and "\<And>c. c \<in> H \<Longrightarrow> bufs t c = bufs s c"
  shows "tstep H s t"
  using assms bframe_log [OF assms(1)] bframe_lframe [OF assms(1)] by (simp add: tstep_def)

lemma txn_bread:
  assumes t: "txn k H s" and n: "n < disksize s" "n \<notin> held_blocks H s" and c: "card H \<le> k"
  obtains b t where "bread ROOTDEV n s = Ret (b, t)" "txn k (insert b H) t" "b \<notin> H"
    "b_blockno (bufs t b) = n" "b_data (bufs t b) = view s n" "view t = view s" "tstep H s t"
    "b_dirty (bufs t b) \<or> b_data (bufs t b) = disk t n"
proof -
  note wf = txn_lwf [OF t]
  obtain b t where b: "bread ROOTDEV n s = Ret (b, t)" "bwf (insert b H) t" "b \<notin> H"
    "bufs t b = loaded s n b" "view t = view s" "disk t = disk s" "bframe s t"
    "\<And>c. c \<noteq> b \<Longrightarrow> bufs t c = bufs s c" "dirty_blocks t = dirty_blocks s"
    "n \<in> dirty_blocks s \<longleftrightarrow> b_dirty (bufs s b)" "n \<notin> dirty_blocks s \<Longrightarrow> view s n = disk s n"
    by (rule bread_ok [OF txn_bwf [OF t] n]) (use txn_room [OF t c] in auto)
  note f = bframe_txn [OF wf b(7,2,6,9)]
  show thesis
  proof (rule that [OF b(1)])
    show "txn k (insert b H) t" using f t by (simp add: txn_def)
    show "tstep H s t" by (rule bframe_tstep [OF b(7,6)]) (use b(3,8) in metis)
  qed (use b in auto)
qed

lemma txn_brelse:
  assumes t: "txn k H s" and b: "b \<in> H"
    and p: "b_dirty (bufs s b) \<or> b_data (bufs s b) = disk s (b_blockno (bufs s b))"
  obtains t where "brelse b s = Ret t" "txn k (H - {b}) t" "view t = view s" "tstep (H - {b}) s t"
proof -
  note wf = txn_lwf [OF t]
  obtain t where r: "brelse b s = Ret t" "bwf (H - {b}) t" "view t = view s" "disk t = disk s"
    "bufs t = (bufs s)(b := unheld (bufs s b))" "bframe s t" "dirty_blocks t = dirty_blocks s"
    by (rule brelse_ok [OF txn_bwf [OF t] b p]) auto
  note f = bframe_txn [OF wf r(6,2,4,7)]
  show thesis
  proof (rule that [OF r(1) _ r(3)])
    show "txn k (H - {b}) t" using f t by (simp add: txn_def)
    show "tstep (H - {b}) s t" by (rule bframe_tstep [OF r(6,4)]) (simp add: r(5))
  qed
qed

lemma upd_data:
  "upd_buf b (\<lambda>x. x\<lparr>b_data := f (b_data x)\<rparr>) s = upd_buf b (\<lambda>x. x\<lparr>b_data := f (b_data (bufs s b))\<rparr>) s"
  by (simp add: upd_buf_def)

lemma txn_log_write:
  assumes t: "txn (Suc k) H s" and b: "b \<in> H" and h: "home s (b_blockno (bufs s b))"
    and d: "length d = BSIZE" and op: "1 \<le> l_outstanding s"
  obtains t where "log_write b (upd_buf b (\<lambda>x. x\<lparr>b_data := d\<rparr>) s) = Ret t" "txn k H t"
    "view t = (view s)(b_blockno (bufs s b) := d)" "tstep (H - {b}) s t" "b_dirty (bufs t b)"
    "b_blockno (bufs t b) = b_blockno (bufs s b)" "b_data (bufs t b) = d"
proof -
  note wf = txn_lwf [OF t]
  let ?s = "upd_buf b (\<lambda>x. x\<lparr>b_data := d\<rparr>) s"
  have w: "bwf H ?s" "view ?s = (view s)(b_blockno (bufs s b) := d)"
    using set_data [OF txn_bwf [OF t] b d] by simp_all
  have fr: "bframe s ?s" by simp
  note f = bframe_log [OF fr] lfits_bframe [OF fr]
  have dirty: "dirty_blocks ?s = dirty_blocks s" by (auto simp: dirty_blocks_def image_iff)
  have lw: "lwf H ?s" using w(1) lwfD [OF wf] f dirty by (simp add: lwf_def)
  obtain t where r: "log_write b ?s = Ret t" "lwf H t" "lframe ?s t" "view t = view ?s"
    "disk t = disk s" "bufs t = (bufs ?s)(b := bufs ?s b\<lparr>b_dirty := True\<rparr>)"
    "l_outstanding t = l_outstanding s" "l_committing t = l_committing s" 
    "logged t = (if b_blockno (bufs ?s b) \<in> set (logged ?s) then logged ?s
       else logged ?s @ [b_blockno (bufs ?s b)])"
    by (rule log_write_ok [OF lw b]) (use h f t op in \<open>auto simp: txn_def\<close>)
  have "length (logged t) \<le> Suc (length (logged s))" using r(9) f by simp
  then have "lh_n t \<le> lh_n s + 1"
    using lfitsD(4) [OF lwfD(2) [OF r(2)]] lfitsD(4) [OF lwfD(2) [OF wf]]
      lwfD(2) [OF r(2)] lwfD(2) [OF wf] unfolding lfits_def by linarith
  moreover have "l_size t = l_size s" using r(3) f by (simp add: lframe_def)
  ultimately have "txn k H t" using t r(2) by (simp add: txn_def)
  moreover have "tstep (H - {b}) s t"
    using r(3,5,6,7,8) lframe_trans [OF bframe_lframe [OF fr] r(3)] by (simp add: tstep_def upd_buf_def)
  ultimately show thesis
    using r(4,6) w(2) by (intro that [OF r(1)]) simp_all
qed

text \<open>Reading a block and releasing it, and changing one.\<close>

lemma txn_peek:
  assumes t: "txn k H s" and n: "n < disksize s" "n \<notin> held_blocks H s" and c: "card H \<le> k"
  obtains b s1 t where "bread ROOTDEV n s = Ret (b, s1)" "b_data (bufs s1 b) = view s n"
    "brelse b s1 = Ret t" "txn k H t" "view t = view s" "tstep H s s1" "tstep H s t"
proof -
  obtain b s1 where b: "bread ROOTDEV n s = Ret (b, s1)" "txn k (insert b H) s1" "b \<notin> H"
    "b_blockno (bufs s1 b) = n" "b_data (bufs s1 b) = view s n" "view s1 = view s" "tstep H s s1"
    "b_dirty (bufs s1 b) \<or> b_data (bufs s1 b) = disk s1 n"
    by (rule txn_bread [OF t n c])
  obtain t where r: "brelse b s1 = Ret t" "txn k (insert b H - {b}) t" "view t = view s1"
    "tstep (insert b H - {b}) s1 t"
    by (rule txn_brelse [OF b(2)]) (use b(4,8) in auto)
  have H: "insert b H - {b} = H" using b(3) by simp
  show thesis
    using that [OF b(1,5) r(1)] r(2-4) b(6,7) tstep_trans [OF b(7)] unfolding H by simp
qed

lemma txn_modify:
  assumes t: "txn (Suc k) H s" and n: "home s n" "n \<notin> held_blocks H s" and c: "card H \<le> Suc k"
    and d: "length d = BSIZE" and op: "1 \<le> l_outstanding s"
  obtains b s1 s2 t where "bread ROOTDEV n s = Ret (b, s1)" "b_data (bufs s1 b) = view s n"
    "log_write b (upd_buf b (\<lambda>x. x\<lparr>b_data := d\<rparr>) s1) = Ret s2" "brelse b s2 = Ret t" "txn k H t"
    "view t = (view s)(n := d)" "tstep H s s1" "tstep H s t"
proof -
  obtain b s1 where b: "bread ROOTDEV n s = Ret (b, s1)" "txn (Suc k) (insert b H) s1" "b \<notin> H"
    "b_blockno (bufs s1 b) = n" "b_data (bufs s1 b) = view s n" "view s1 = view s" "tstep H s s1"
    by (rule txn_bread [OF t home_disk [OF n(1)] n(2) c])
  obtain s2 where w: "log_write b (upd_buf b (\<lambda>x. x\<lparr>b_data := d\<rparr>) s1) = Ret s2" "txn k (insert b H) s2"
    "view s2 = (view s1)(n := d)" "tstep (insert b H - {b}) s1 s2" "b_dirty (bufs s2 b)"
    by (rule txn_log_write [OF b(2), of b d]) (use b(4) n(1) tstepD [OF b(7)] d op in auto)
  obtain t where r: "brelse b s2 = Ret t" "txn k (insert b H - {b}) t" "view t = view s2"
    "tstep (insert b H - {b}) s2 t"
    by (rule txn_brelse [OF w(2)]) (use w(5) in auto)
  have H: "insert b H - {b} = H" using b(3) by simp
  show thesis
    using that [OF b(1,5) w(1) r(1)] r(2-4) w(3,4) b(6,7) tstep_trans [OF tstep_trans [OF b(7)], of s2 t]
    unfolding H by simp
qed

lemma bzero_ok:
  assumes "txn (Suc k) H s" and "home s n" and "n \<notin> held_blocks H s" and "card H \<le> Suc k"
    and "1 \<le> l_outstanding s"
  obtains t where "bzero ROOTDEV n s = Ret t" "txn k H t" "view t = (view s)(n := replicate BSIZE 0)"
    "tstep H s t"
  by (rule txn_modify [OF assms(1-4), of "replicate BSIZE 0"]) (use assms(5) that in \<open>auto simp: bzero_def\<close>)

end
