(* ===== verification/Balloc.thy ===== *)
theory Balloc
  imports Txn
begin

text \<open>
  The block allocator of \<^verbatim>\<open>xv6-public/fs.c\<close>: \<^verbatim>\<open>balloc\<close> hands out the first block that the map on the disk
  shows free, zeroed, and \<^verbatim>\<open>bfree\<close> gives a block back.
\<close>

subsection \<open>Bits\<close>

lemma word_and_bit: "n < 8 \<Longrightarrow> (w :: uchar) AND 2 ^ n = 0 \<longleftrightarrow> \<not> bit w n"
proof -
  assume n: "n < 8"
  have e: "bit (2 ^ n :: uchar) k \<longleftrightarrow> k = n" for k
    using n by (auto simp: bit_exp_iff)
  show ?thesis
  proof
    assume "w AND 2 ^ n = 0"
    then have "bit (w AND 2 ^ n) n = bit (0 :: uchar) n" by simp
    then show "\<not> bit w n" by (simp add: bit_and_iff e)
  qed (auto intro!: bit_eqI simp: bit_and_iff e)
qed

lemma bit_free_iff: "bit_free d bi \<longleftrightarrow> \<not> bit (d ! (bi div 8)) (bi mod 8)"
  using word_and_bit [of "bi mod 8"] by (simp add: bit_free_def bit_mask_def)

lemma bit_free_bit_set [simp]:
  assumes "bi < 8 * length d" and "bj < 8 * length d"
  shows "bit_free (bit_set bi d) bj \<longleftrightarrow> bj \<noteq> bi \<and> bit_free d bj"
proof (cases "bj div 8 = bi div 8")
  case True
  then have "bj mod 8 = bi mod 8 \<longleftrightarrow> bj = bi" using div_mult_mod_eq [of bi 8] div_mult_mod_eq [of bj 8] by linarith
  then show ?thesis using assms True by (auto simp: bit_free_iff bit_set_def bit_mask_def bit_simps)
next
  case False
  then have "bj \<noteq> bi" by auto
  with False show ?thesis by (simp add: bit_free_iff bit_set_def)
qed

lemma bit_free_bit_clear [simp]:
  assumes "bi < 8 * length d" and "bj < 8 * length d"
  shows "bit_free (bit_clear bi d) bj \<longleftrightarrow> bj = bi \<or> bit_free d bj"
proof (cases "bj div 8 = bi div 8")
  case True
  then have "bj mod 8 = bi mod 8 \<longleftrightarrow> bj = bi" using div_mult_mod_eq [of bi 8] div_mult_mod_eq [of bj 8] by linarith
  then show ?thesis using assms True by (auto simp: bit_free_iff bit_clear_def bit_mask_def bit_simps)
next
  case False
  then have "bj \<noteq> bi" by auto
  with False show ?thesis by (simp add: bit_free_iff bit_clear_def)
qed

lemma bit_set_clear [simp]: "bit_clear bi (bit_set bi d) = d" if "bit_free d bi" "bi < 8 * length d"
proof -
  have "(w OR m) AND NOT m = w" if "w AND m = 0" for w m :: uchar
  proof (rule bit_word_eqI)
    fix n assume "n < LENGTH(8)"
    have "bit (w AND m) n = bit (0 :: uchar) n" using that by simp
    then show "bit ((w OR m) AND NOT m) n = bit w n"
      using \<open>n < LENGTH(8)\<close> by (auto simp: bit_and_iff bit_or_iff bit_not_iff)
  qed
  then show ?thesis using that by (simp add: bit_free_def bit_set_def bit_clear_def)
qed

lemma length_bit_ops [simp]: "length (bit_set bi d) = length d" "length (bit_clear bi d) = length d"
  by (simp_all add: bit_set_def bit_clear_def)

lemma find_free_Some:
  "bi \<le> j \<Longrightarrow> j < bi + k \<Longrightarrow> bit_free d j \<Longrightarrow> (\<And>i. bi \<le> i \<Longrightarrow> i < j \<Longrightarrow> \<not> bit_free d i) \<Longrightarrow>
   find_free d bi k = Some j"
proof (induction k arbitrary: bi)
  case (Suc k)
  show ?case
  proof (cases "j = bi")
    case False
    then have "\<not> bit_free d bi" using Suc.prems(1,4) by simp
    moreover have "find_free d (Suc bi) k = Some j"
      by (rule Suc.IH) (use Suc.prems False in auto)
    ultimately show ?thesis by simp
  qed (use Suc.prems(3) in simp)
qed simp

lemma find_free_None: "(\<And>i. bi \<le> i \<Longrightarrow> i < bi + k \<Longrightarrow> \<not> bit_free d i) \<Longrightarrow> find_free d bi k = None"
  by (induction k arbitrary: bi) auto

subsection \<open>The layout\<close>

text \<open>The first block after the map, where \<^verbatim>\<open>mkfs\<close> starts the data.\<close>

definition datastart :: "superblock \<Rightarrow> nat" where
  "datastart sb = unat (sb_bmapstart sb) + unat (sb_size sb) div BPB + 1"

text \<open>Whether the map shows block \<open>b\<close> as used.\<close>

definition marked :: "'a fstate_scheme \<Rightarrow> nat \<Rightarrow> bool" where
  "marked s b \<longleftrightarrow> \<not> bit_free (view s (BBLOCK b (fs_sb s))) (b mod BPB)"

text \<open>
  The parts of the disk follow each other: log, inodes, map and data; and the blocks before the data
  are in use.
\<close>

definition fs_geom :: "'a fstate_scheme \<Rightarrow> bool" where
  "fs_geom s \<longleftrightarrow> (let sb = fs_sb s in
     unat (sb_size sb) \<le> disksize s \<and> l_start s + nat (l_size s) \<le> unat (sb_inodestart sb) \<and>
     unat (sb_inodestart sb) + unat (sb_ninodes sb) div IPB + 1 \<le> unat (sb_bmapstart sb) \<and>
     datastart sb \<le> unat (sb_size sb) \<and> (\<forall>b<datastart sb. marked s b))"

lemma fs_geomD:
  assumes "fs_geom s"
  shows "unat (sb_size (fs_sb s)) \<le> disksize s" "l_start s + nat (l_size s) \<le> unat (sb_inodestart (fs_sb s))"
    "unat (sb_inodestart (fs_sb s)) + unat (sb_ninodes (fs_sb s)) div IPB + 1 \<le> unat (sb_bmapstart (fs_sb s))"
    "datastart (fs_sb s) \<le> unat (sb_size (fs_sb s))" "b < datastart (fs_sb s) \<Longrightarrow> marked s b"
  using assms unfolding fs_geom_def Let_def by blast+

definition data_block :: "'a fstate_scheme \<Rightarrow> nat \<Rightarrow> bool" where
  "data_block s b \<longleftrightarrow> datastart (fs_sb s) \<le> b \<and> b < unat (sb_size (fs_sb s))"

lemma BBLOCK_less: "b < unat (sb_size sb) \<Longrightarrow> BBLOCK b sb < datastart sb"
proof -
  assume "b < unat (sb_size sb)"
  then have "b div BPB \<le> unat (sb_size sb) div BPB" by (intro div_le_mono) simp
  then show ?thesis by (simp add: BBLOCK_def datastart_def)
qed

lemma data_block_home: "fs_geom s \<Longrightarrow> data_block s b \<Longrightarrow> home s b"
  using fs_geomD(1-4) [of s] by (auto simp: data_block_def home_def datastart_def)

lemma BBLOCK_home:
  assumes "fs_geom s" and "b < unat (sb_size (fs_sb s))"
  shows "home s (BBLOCK b (fs_sb s))"
  using fs_geomD(1-4) [OF assms(1)] BBLOCK_less [OF assms(2)] by (simp add: home_def BBLOCK_def)

lemma unmarked_data: "fs_geom s \<Longrightarrow> b < unat (sb_size (fs_sb s)) \<Longrightarrow> \<not> marked s b \<Longrightarrow> data_block s b"
  using fs_geomD(5) [of s b] unfolding data_block_def by (meson not_le)

lemma data_block_not_map:
  "data_block s b \<Longrightarrow> c < unat (sb_size (fs_sb s)) \<Longrightarrow> b \<noteq> BBLOCK c (fs_sb s)"
  using BBLOCK_less [of c "fs_sb s"] by (auto simp: data_block_def)

text \<open>The view after the bit of block \<open>c\<close> is set, and after it is cleared.\<close>

definition mark_view :: "'a fstate_scheme \<Rightarrow> nat \<Rightarrow> nat \<Rightarrow> uchar list" where
  "mark_view s c = (view s)(BBLOCK c (fs_sb s) := bit_set (c mod BPB) (view s (BBLOCK c (fs_sb s))))"

definition unmark_view :: "'a fstate_scheme \<Rightarrow> nat \<Rightarrow> nat \<Rightarrow> uchar list" where
  "unmark_view s c = (view s)(BBLOCK c (fs_sb s) := bit_clear (c mod BPB) (view s (BBLOCK c (fs_sb s))))"

lemma same_block_bit: "BBLOCK x sb = BBLOCK c sb \<Longrightarrow> x mod BPB = c mod BPB \<longleftrightarrow> x = c"
  using div_mult_mod_eq [of x BPB] div_mult_mod_eq [of c BPB] by (auto simp: BBLOCK_def)

lemma marked_cong:
  assumes "fs_sb t = fs_sb s" and "view t (BBLOCK x (fs_sb s)) = view s (BBLOCK x (fs_sb s))"
  shows "marked t x = marked s x"
  using assms by (simp add: marked_def)

lemma marked_mark:
  assumes "fs_sb t = fs_sb s" and "view t (BBLOCK x (fs_sb s)) = mark_view s c (BBLOCK x (fs_sb s))"
    and "length (view s (BBLOCK c (fs_sb s))) = BSIZE"
  shows "marked t x \<longleftrightarrow> x = c \<or> marked s x"
  using assms same_block_bit [of x "fs_sb s" c] by (auto simp: marked_def mark_view_def)

lemma marked_unmark:
  assumes "fs_sb t = fs_sb s" and "view t (BBLOCK x (fs_sb s)) = unmark_view s c (BBLOCK x (fs_sb s))"
    and "length (view s (BBLOCK c (fs_sb s))) = BSIZE"
  shows "marked t x \<longleftrightarrow> x \<noteq> c \<and> marked s x"
  using assms same_block_bit [of x "fs_sb s" c] by (auto simp: marked_def unmark_view_def)

subsection \<open>Allocation\<close>

lemma bread_buf_geom:
  assumes "txn k H s" and "fs_geom s" and "b < unat (sb_size (fs_sb s))"
  shows "length (view s (BBLOCK b (fs_sb s))) = BSIZE" "BBLOCK b (fs_sb s) < disksize s"
  using length_view [OF txn_bwf [OF assms(1)]] home_disk [OF BBLOCK_home [OF assms(2,3)]] by simp_all

lemma balloc_hit:
  assumes t: "txn (Suc (Suc k)) H s" and g: "fs_geom s" and op: "1 \<le> l_outstanding s"
    and c: "c < unat (sb_size (fs_sb s))" "\<not> marked s c" and card: "card H \<le> k"
    and H: "BBLOCK c (fs_sb s) \<notin> held_blocks H s" "c \<notin> held_blocks H s"
    and b: "b \<le> c" "c < b + BPB" "b mod BPB = 0" and first: "\<And>x. b \<le> x \<Longrightarrow> x < c \<Longrightarrow> marked s x"
  obtains t where "balloc_loop (Suc n) ROOTDEV b s = Ret (c, t)" "txn k H t" "tstep H s t"
    "view t = (mark_view s c)(c := replicate BSIZE 0)"
proof -
  let ?m = "BBLOCK c (fs_sb s)" and ?i = "c mod BPB"
  have q: "x div BPB = c div BPB" "x = b + x mod BPB" if "b \<le> x" "x \<le> c" for x
  proof -
    obtain j where j: "b = BPB * j" using b(3) by auto
    have split: "y div BPB = j" "y = b + y mod BPB" if y: "b \<le> y" "y < b + BPB" for y
    proof -
      obtain i where i: "y = BPB * j + i" "i < BPB" using y j le_Suc_ex [OF y(1)] by auto
      then show "y div BPB = j" by simp
      show "y = b + y mod BPB" using i j by simp
    qed
    show "x div BPB = c div BPB" "x = b + x mod BPB"
      using split [of x] split [of c] that b by simp_all
  qed
  have m: "BBLOCK b (fs_sb s) = ?m" using q(1) [of b] b by (simp add: BBLOCK_def)
  obtain bp s1 s2 s3 where st: "bread ROOTDEV ?m s = Ret (bp, s1)" "b_data (bufs s1 bp) = view s ?m"
    "log_write bp (upd_buf bp (\<lambda>x. x\<lparr>b_data := bit_set ?i (view s ?m)\<rparr>) s1) = Ret s2" "brelse bp s2 = Ret s3"
    "txn (Suc k) H s3" "view s3 = mark_view s c" "tstep H s s1" "tstep H s s3"
    by (rule txn_modify [OF t BBLOCK_home [OF g c(1)] H(1), of "bit_set ?i (view s ?m)"])
      (use card bread_buf_geom [OF t g c(1)] op in \<open>auto simp: mark_view_def\<close>)
  obtain s4 where z: "bzero ROOTDEV c s3 = Ret s4" "txn k H s4" "view s4 = (view s3)(c := replicate BSIZE 0)"
    "tstep H s3 s4"
    by (rule bzero_ok [OF st(5), of c])
      (use data_block_home [OF g unmarked_data [OF g c]] tstepD [OF st(8)] H(2) card op in auto)
  have "find_free (view s ?m) 0 (min BPB (unat (sb_size (fs_sb s)) - b)) = Some ?i"
  proof (rule find_free_Some)
    show "?i < 0 + min BPB (unat (sb_size (fs_sb s)) - b)" using q(2) [of c] b c(1) by auto
    show "bit_free (view s ?m) ?i" using c(2) by (simp add: marked_def)
    show "\<not> bit_free (view s ?m) i" if "i < ?i" for i
    proof -
      have lt: "b + i < c" using that q(2) [of c] b(1) by linarith
      then have "marked s (b + i)" by (intro first) simp_all
      moreover have "(b + i) mod BPB = i" using q(2) [of "b + i"] lt by simp
      moreover have "BBLOCK (b + i) (fs_sb s) = ?m" using q(1) [of "b + i"] lt by (simp add: BBLOCK_def)
      ultimately show ?thesis by (simp add: marked_def)
    qed
  qed simp
  then have "balloc_loop (Suc n) ROOTDEV b s = Ret (c, s4)"
    using st(1-4) z(1) m b c(1) q(2) [of c] tstep_fs [OF st(7)] by (simp add: upd_data [of bp "bit_set ?i" s1])
  then show thesis
    using that z(2-4) st(6) tstep_trans [OF st(8) z(4)] by simp
qed

lemma balloc_miss:
  assumes t: "txn k H s" and g: "fs_geom s" and b: "b + BPB \<le> unat (sb_size (fs_sb s))" "b mod BPB = 0"
    and card: "card H \<le> k" and H: "BBLOCK b (fs_sb s) \<notin> held_blocks H s"
    and all: "\<And>x. b \<le> x \<Longrightarrow> x < b + BPB \<Longrightarrow> marked s x"
  obtains t where "balloc_loop (Suc n) ROOTDEV b s = balloc_loop n ROOTDEV (b + BPB) t" "txn k H t"
    "view t = view s" "tstep H s t"
proof -
  let ?m = "BBLOCK b (fs_sb s)"
  have lt: "b < unat (sb_size (fs_sb s))" using b(1) by simp
  obtain bp s1 t where r: "bread ROOTDEV ?m s = Ret (bp, s1)" "b_data (bufs s1 bp) = view s ?m"
    "brelse bp s1 = Ret t" "txn k H t" "view t = view s" "tstep H s s1" "tstep H s t"
    by (rule txn_peek [OF t bread_buf_geom(2) [OF t g lt] H card])
  have "find_free (view s ?m) 0 BPB = None"
  proof (rule find_free_None)
    fix i assume "i < 0 + BPB"
    then have i: "(b + i) mod BPB = i" "(b + i) div BPB = b div BPB" "marked s (b + i)"
      using b(2) all [of "b + i"] by (auto simp: mod_eq_0_iff_dvd elim!: dvdE)
    then show "\<not> bit_free (view s ?m) i" by (simp add: marked_def BBLOCK_def)
  qed
  then show thesis
    using that r b(1) lt tstep_fs [OF r(6)] by (simp add: min_absorb1)
qed

lemma balloc_loop_ok:
  assumes "txn (Suc (Suc k)) H s" and "fs_geom s" and "1 \<le> l_outstanding s"
    and "c < unat (sb_size (fs_sb s))" and "\<not> marked s c" and "card H \<le> k"
    and "\<And>x. x < unat (sb_size (fs_sb s)) \<Longrightarrow> BBLOCK x (fs_sb s) \<notin> held_blocks H s" and "c \<notin> held_blocks H s"
    and "b \<le> c" and "c < b + n * BPB" and "b mod BPB = 0" and "\<And>x. b \<le> x \<Longrightarrow> x < c \<Longrightarrow> marked s x"
  shows "\<exists>t. balloc_loop n ROOTDEV b s = Ret (c, t) \<and> txn k H t \<and> tstep H s t \<and>
    view t = (mark_view s c)(c := replicate BSIZE 0)"
  using assms
proof (induction n arbitrary: b s)
  case (Suc n)
  show ?case
  proof (cases "c < b + BPB")
    case True
    then show ?thesis
      using balloc_hit [OF Suc.prems(1-6) Suc.prems(7) [OF Suc.prems(4)] Suc.prems(8,9) True Suc.prems(11,12), of n]
      by metis
  next
    case False
    have b: "b < unat (sb_size (fs_sb s))" using Suc.prems(4,9) by simp
    obtain t where t: "balloc_loop (Suc n) ROOTDEV b s = balloc_loop n ROOTDEV (b + BPB) t"
      "txn (Suc (Suc k)) H t" "view t = view s" "tstep H s t"
    proof (rule balloc_miss [OF Suc.prems(1,2) _ Suc.prems(11) _ Suc.prems(7) [OF b], of n])
      show "b + BPB \<le> unat (sb_size (fs_sb s))" "card H \<le> Suc (Suc k)"
        using False Suc.prems(4,6) by simp_all
      show "marked s x" if "b \<le> x" "x < b + BPB" for x
        using Suc.prems(12) that False by simp
    qed
    note f = tstep_fs [OF t(4)] tstepD [OF t(4)]
    have l: "l_start t = l_start s" "l_size t = l_size s" using f(4) by (simp_all add: lframe_def)
    have m: "marked t = marked s" using t(3) f(1) by (simp add: fun_eq_iff marked_def)
    have "\<exists>u. balloc_loop n ROOTDEV (b + BPB) t = Ret (c, u) \<and> txn k H u \<and> tstep H t u \<and>
      view u = (mark_view t c)(c := replicate BSIZE 0)"
      by (rule Suc.IH [OF t(2)]) (use Suc.prems False f l m in \<open>auto simp: fs_geom_def\<close>)
    moreover have "mark_view t c = mark_view s c" using t(3) f(1) by (simp add: mark_view_def)
    ultimately show ?thesis using t(1) tstep_trans [OF t(4)] by auto
  qed
qed simp

text \<open>What \<^verbatim>\<open>balloc\<close> changes when \<open>c\<close> is the first free block.\<close>

lemma balloc_ok:
  assumes "txn (Suc (Suc k)) H s" and "fs_geom s" and "1 \<le> l_outstanding s"
    and "c < unat (sb_size (fs_sb s))" and "\<not> marked s c" and "\<And>x. x < c \<Longrightarrow> marked s x" and "card H \<le> k"
    and "\<And>x. x < unat (sb_size (fs_sb s)) \<Longrightarrow> BBLOCK x (fs_sb s) \<notin> held_blocks H s" and "c \<notin> held_blocks H s"
  obtains t where "balloc ROOTDEV s = Ret (c, t)" "txn k H t" "tstep H s t"
    "view t = (mark_view s c)(c := replicate BSIZE 0)"
proof -
  have "c < 0 + (unat (sb_size (fs_sb s)) div BPB + 2) * BPB"
  proof -
    have "unat (sb_size (fs_sb s)) mod BPB < BPB" by simp
    then show ?thesis
      using assms(4) div_mult_mod_eq [of "unat (sb_size (fs_sb s))" BPB] unfolding add_mult_distrib by linarith
  qed
  then show thesis
    using balloc_loop_ok [OF assms(1-5,7-9), of 0 "unat (sb_size (fs_sb s)) div BPB + 2"] assms(6) that
    unfolding balloc_def by (auto simp del: balloc_loop.simps)
qed

lemma fs_geom_step:
  assumes "fs_geom s" and "tstep H s t" and "fs_sb t = fs_sb s"
    and "\<And>x. x < datastart (fs_sb s) \<Longrightarrow> marked s x \<Longrightarrow> marked t x"
  shows "fs_geom t"
proof -
  have "l_start t = l_start s" "l_size t = l_size s" "disksize t = disksize s"
    using assms(2) by (simp_all add: tstep_def lframe_def)
  then show ?thesis using assms(1,3,4) by (auto simp: fs_geom_def Let_def)
qed

text \<open>The same, in terms of the map and of the blocks.\<close>

lemma balloc_effect:
  assumes g: "fs_geom s" and c: "c < unat (sb_size (fs_sb s))" "\<not> marked s c" and wf: "txn j H s"
    and t: "tstep H s t" "view t = (mark_view s c)(c := replicate BSIZE 0)"
  shows "fs_geom t" "x < unat (sb_size (fs_sb s)) \<Longrightarrow> marked t x \<longleftrightarrow> x = c \<or> marked s x"
    "data_block s x \<Longrightarrow> view t x = (if x = c then replicate BSIZE 0 else view s x)"
proof -
  note f = tstep_fs [OF t(1)] and d = unmarked_data [OF g c]
  note len = bread_buf_geom(1) [OF wf g c(1)]
  show m: "marked t x \<longleftrightarrow> x = c \<or> marked s x" if "x < unat (sb_size (fs_sb s))" for x
    by (rule marked_mark [OF f(1) _ len]) (use data_block_not_map [OF d that] t(2) in auto)
  show "fs_geom t"
    by (rule fs_geom_step [OF g t(1) f(1)]) (use m fs_geomD(4) [OF g] in auto)
  show "view t x = (if x = c then replicate BSIZE 0 else view s x)" if "data_block s x"
    using t(2) data_block_not_map [OF that c(1)] by (auto simp: mark_view_def)
qed

subsection \<open>Freeing\<close>

lemma bfree_ok:
  assumes t: "txn (Suc k) H s" and g: "fs_geom s" and op: "1 \<le> l_outstanding s"
    and b: "b < unat (sb_size (fs_sb s))" "marked s b" and card: "card H \<le> k"
    and H: "BBLOCK b (fs_sb s) \<notin> held_blocks H s"
  obtains t where "bfree ROOTDEV b s = Ret t" "txn k H t" "tstep H s t" "view t = unmark_view s b"
proof -
  let ?m = "BBLOCK b (fs_sb s)" and ?i = "b mod BPB"
  obtain bp s1 s2 t where st: "bread ROOTDEV ?m s = Ret (bp, s1)" "b_data (bufs s1 bp) = view s ?m"
    "log_write bp (upd_buf bp (\<lambda>x. x\<lparr>b_data := bit_clear ?i (view s ?m)\<rparr>) s1) = Ret s2" "brelse bp s2 = Ret t"
    "txn k H t" "view t = unmark_view s b" "tstep H s s1" "tstep H s t"
    by (rule txn_modify [OF t BBLOCK_home [OF g b(1)] H, of "bit_clear ?i (view s ?m)"])
      (use card bread_buf_geom [OF t g b(1)] op in \<open>auto simp: unmark_view_def\<close>)
  have "bfree ROOTDEV b s = Ret t"
    using st(1-4) b(2) by (simp add: bfree_def marked_def Let_def upd_data [of bp "bit_clear ?i" s1])
  then show thesis using that st by simp
qed

lemma bfree_effect:
  assumes g: "fs_geom s" and b: "data_block s b" and wf: "txn j H s"
    and t: "tstep H s t" "view t = unmark_view s b"
  shows "fs_geom t" "marked t x \<longleftrightarrow> x \<noteq> b \<and> marked s x" "data_block s x \<Longrightarrow> view t x = view s x"
proof -
  have lt: "b < unat (sb_size (fs_sb s))" using b by (simp add: data_block_def)
  note f = tstep_fs [OF t(1)] and len = bread_buf_geom(1) [OF wf g lt]
  show m: "marked t x \<longleftrightarrow> x \<noteq> b \<and> marked s x" for x
    by (rule marked_unmark [OF f(1) _ len]) (simp add: t(2))
  show "fs_geom t"
    by (rule fs_geom_step [OF g t(1) f(1)]) (use m b in \<open>auto simp: data_block_def\<close>)
  show "view t x = view s x" if "data_block s x"
    using t(2) data_block_not_map [OF that lt] by (auto simp: unmark_view_def)
qed

lemma bfree_free:
  assumes t: "txn 0 {} s" and g: "fs_geom s" and b: "b < unat (sb_size (fs_sb s))" "\<not> marked s b"
  shows "bfree ROOTDEV b s = Panic ''freeing free block''"
proof -
  let ?m = "BBLOCK b (fs_sb s)"
  obtain bp s1 where "bread ROOTDEV ?m s = Ret (bp, s1)" "b_data (bufs s1 bp) = view s ?m"
    by (rule txn_peek [OF t bread_buf_geom(2) [OF t g b(1)]]) (auto simp: held_blocks_def)
  then show ?thesis using b(2) by (simp add: bfree_def marked_def Let_def)
qed

subsection \<open>A small file system\<close>

text \<open>The contracts of the log depend on the fields of its state only.\<close>

lemma lwf_fields:
  fixes s :: "'a lstate_scheme" and t :: "'b lstate_scheme"
  assumes "cpu_id t = cpu_id s" "iflag t = iflag s" "ncli t = ncli s" "intena t = intena s" "cur t = cur s"
    "locks t = locks s" "procs t = procs s" "bufs t = bufs s" "blinks t = blinks s" "disk t = disk s"
    "disksize t = disksize s" "l_start t = l_start s" "l_size t = l_size s" "l_dev t = l_dev s"
    "lh_n t = lh_n s" "lh_block t = lh_block s"
  shows "lwf H t = lwf H s" "view t = view s" "home t = home s"
proof -
  show h: "home t = home s" using assms by (simp add: home_def fun_eq_iff)
  have c: "caches t = caches s" using assms by (simp add: caches_def fun_eq_iff)
  then show "view t = view s" by (intro ext) (simp add: view_def assms split: option.split)
  have "kernel_ok t = kernel_ok s" "my_pid t = my_pid s"
    using assms by (simp_all add: kernel_ok_def cli_ok_def my_pid_def)
  then have b: "bwf H t = bwf H s"
    using assms by (simp add: bwf_def bring_def bring_list_def bufs_distinct_def disk_ok_def buf_ok_def)
  have l: "lfits t = lfits s" "logged t = logged s"
    using assms h by (simp_all add: lfits_def lgeom_def logged_def)
  have "dirty_blocks t = dirty_blocks s" using assms by (simp add: dirty_blocks_def)
  with b l show "lwf H t = lwf H s" using assms by (simp add: lwf_def)
qed

definition boot_fs :: "superblock \<Rightarrow> (nat \<Rightarrow> uchar list) \<Rightarrow> (nat \<Rightarrow> inode) \<Rightarrow> fstate" where
  "boot_fs sb d ino = lstate.extend (boot_lstate d (unat (sb_size sb))) (fstate.fields sb ino)"

lemma boot_fs_simps [simp]:
  "fs_sb (boot_fs sb d ino) = sb" "inodes (boot_fs sb d ino) = ino"
  by (simp_all add: boot_fs_def lstate.defs fstate.defs)

lemma boot_fs:
  assumes "\<And>k. k < unat (sb_size sb) \<Longrightarrow> length (d k) = BSIZE" and "32 \<le> unat (sb_size sb)" and "head_n (d 2) = 0"
  shows "lwf {} (boot_fs sb d ino)" "view (boot_fs sb d ino) = d" "disk (boot_fs sb d ino) = d"
    "l_start (boot_fs sb d ino) = 2" "l_size (boot_fs sb d ino) = 30"
    "disksize (boot_fs sb d ino) = unat (sb_size sb)" "l_outstanding (boot_fs sb d ino) = 0"
    "lh_n (boot_fs sb d ino) = 0" "\<not> l_committing (boot_fs sb d ino)"
proof -
  have n: "unat (sb_size sb) < 2 ^ 32" using unsigned_less [of "sb_size sb"] by simp
  note b = boot_lstate [where d = d and n = "unat (sb_size sb)", OF assms(1,2) n assms(3)]
  note e = lwf_fields [of "boot_fs sb d ino" "boot_lstate d (unat (sb_size sb))"]
  show "lwf {} (boot_fs sb d ino)" "view (boot_fs sb d ino) = d" using e b by (simp_all add: boot_fs_def lstate.defs)
  show "disk (boot_fs sb d ino) = d" "l_start (boot_fs sb d ino) = 2" "l_size (boot_fs sb d ino) = 30"
    "disksize (boot_fs sb d ino) = unat (sb_size sb)" "l_outstanding (boot_fs sb d ino) = 0"
    "lh_n (boot_fs sb d ino) = 0" "\<not> l_committing (boot_fs sb d ino)"
    using b by (simp_all add: boot_fs_def lstate.defs)
qed

text \<open>A disk of 100 blocks: the log in 2 to 31, inodes in 32 and 33, the map in 34, data from 35 on, of
  which the first five blocks are in use.\<close>

definition small_sb :: superblock where
  "small_sb = \<lparr>sb_size = 100, sb_nblocks = 65, sb_ninodes = 15, sb_nlog = 30, sb_logstart = 2,
     sb_inodestart = 32, sb_bmapstart = 34\<rparr>"

definition small_map :: "uchar list" where
  "small_map = [255, 255, 255, 255, 255] @ replicate 507 0"

definition small_disk :: "nat \<Rightarrow> uchar list" where
  "small_disk n = (if n = 34 then small_map else replicate BSIZE 0)"

lemma small_disk_length [simp]: "length (small_disk n) = BSIZE"
  by (simp add: small_disk_def small_map_def)

definition small_fs :: fstate where
  "small_fs = (boot_fs small_sb small_disk (\<lambda>_. undefined))\<lparr>l_outstanding := 1\<rparr>"

lemma small_fs:
  "lwf {} small_fs" "l_outstanding small_fs = 1" "lh_n small_fs = 0" "l_size small_fs = 30"
  "view small_fs = small_disk" "fs_sb small_fs = small_sb" "l_start small_fs = 2" "disksize small_fs = 100"
proof -
  have h: "head_n (small_disk 2) = 0"
    using zero_disk(2) [of 2] by (simp add: small_disk_def zero_disk_def)
  have u: "unat (sb_size small_sb) = 100" by (simp add: small_sb_def)
  note b = boot_fs [of small_sb small_disk, OF small_disk_length _ h]
  note e = lwf_fields [of "boot_fs small_sb small_disk (\<lambda>_. undefined)\<lparr>l_outstanding := 1\<rparr>"
      "boot_fs small_sb small_disk (\<lambda>_. undefined)"]
  show "lwf {} small_fs" "l_outstanding small_fs = 1" "lh_n small_fs = 0" "l_size small_fs = 30"
    "view small_fs = small_disk" "fs_sb small_fs = small_sb" "l_start small_fs = 2" "disksize small_fs = 100"
    using b e u by (simp_all add: small_fs_def)
qed

lemma small_map_bits: "b < 4096 \<Longrightarrow> bit_free small_map b \<longleftrightarrow> 40 \<le> b"
proof -
  assume b: "b < 4096"
  have "list_all (\<lambda>b. \<not> bit_free small_map b) [0..<40]" by code_simp
  then have a: "\<forall>b\<in>{0..<40}. \<not> bit_free small_map b" unfolding list_all_iff set_upt by blast
  show ?thesis
  proof (cases "b < 40")
    case True
    then have "b \<in> {0..<40}" by (simp only: atLeastLessThan_iff le0)
    then show ?thesis using a True by (auto simp only: not_le)
  next
    case False
    then have "5 \<le> b div 8" by linarith
    then obtain j where j: "b div 8 = 5 + j" using le_Suc_ex by blast
    then have "j < 507" using b by linarith
    then have "small_map ! (b div 8) = 0"
      unfolding j small_map_def by (simp add: nth_append)
    then show ?thesis using False by (simp add: bit_free_def)
  qed
qed

lemma small_marked: "b < 4096 \<Longrightarrow> marked small_fs b \<longleftrightarrow> b < 40"
  using small_map_bits [of b] small_fs
  by (simp add: marked_def BBLOCK_def small_sb_def small_disk_def not_le)

lemma small_geom: "fs_geom small_fs"
  using small_fs small_marked by (simp add: fs_geom_def datastart_def small_sb_def Let_def)

subsection \<open>The allocator\<close>

lemma least_unmarked:
  assumes "\<not> marked s b"
  obtains c where "c \<le> b" "\<not> marked s c" "\<And>x. x < c \<Longrightarrow> marked s x"
proof
  show "\<not> marked s (LEAST x. \<not> marked s x)" using assms by (rule LeastI)
  show "(LEAST x. \<not> marked s x) \<le> b" using assms by (rule Least_le)
  show "marked s x" if "x < (LEAST x. \<not> marked s x)" for x using not_less_Least [OF that] by simp
qed

text \<open>
  C9: \<^verbatim>\<open>balloc\<close> returns the first block that the map shows free, filled with zeros; afterwards the map
  shows that block used and every other block as before, and no other data block has changed.
\<close>

theorem balloc_first_free:
  assumes "lwf {} s" and "1 \<le> l_outstanding s" and "lh_n s + 2 < l_size s" and "fs_geom s"
    and "b < unat (sb_size (fs_sb s))" and "\<not> marked s b"
  shows "\<exists>c t. balloc ROOTDEV s = Ret (c, t) \<and> c \<le> b \<and> \<not> marked s c \<and> (\<forall>x<c. marked s x) \<and>
    view t c = replicate BSIZE 0 \<and> (\<forall>x<unat (sb_size (fs_sb s)). marked t x \<longleftrightarrow> x = c \<or> marked s x) \<and>
    (\<forall>x. data_block s x \<longrightarrow> x \<noteq> c \<longrightarrow> view t x = view s x)"
proof -
  obtain c where c: "c \<le> b" "\<not> marked s c" "\<And>x. x < c \<Longrightarrow> marked s x"
    by (rule least_unmarked [OF assms(6)]) auto
  have lt: "c < unat (sb_size (fs_sb s))" using c(1) assms(5) by simp
  have t: "txn (Suc (Suc 0)) {} s" using assms(1,3) by (simp add: txn_def)
  obtain t where r: "balloc ROOTDEV s = Ret (c, t)" "tstep {} s t"
    "view t = (mark_view s c)(c := replicate BSIZE 0)"
    by (rule balloc_ok [OF t assms(4,2) lt c(2,3)]) (auto simp: held_blocks_def)
  show ?thesis
    using r(1) c balloc_effect(2,3) [OF assms(4) lt c(2) t r(2,3)]
      unmarked_data [OF assms(4) lt c(2)] by auto
qed

lemma balloc_first_free_witness:
  "\<exists>c t. balloc ROOTDEV small_fs = Ret (c, t) \<and> c \<le> 40 \<and> \<not> marked small_fs c \<and> view t c = replicate BSIZE 0"
  using balloc_first_free [OF small_fs(1) _ _ small_geom, of 40] small_fs small_marked [of 40]
  by (fastforce simp: small_sb_def)

text \<open>
  C10: giving back a block that has just been allocated restores the map: after \<^verbatim>\<open>balloc\<close> and \<^verbatim>\<open>bfree\<close> the
  disk shows what it showed before, but for the block itself, which is now zeroed.
\<close>

theorem balloc_bfree:
  assumes "lwf {} s" and "1 \<le> l_outstanding s" and "lh_n s + 3 < l_size s" and "fs_geom s"
    and "balloc ROOTDEV s = Ret (c, t)" and "\<not> marked s b" and "b < unat (sb_size (fs_sb s))"
  shows "\<exists>u. bfree ROOTDEV c t = Ret u \<and> view u = (view s)(c := replicate BSIZE 0)"
proof -
  obtain c' where c: "c' \<le> b" "\<not> marked s c'" "\<And>x. x < c' \<Longrightarrow> marked s x"
    by (rule least_unmarked [OF assms(6)]) auto
  have lt: "c' < unat (sb_size (fs_sb s))" using c(1) assms(7) by simp
  have t3: "txn (Suc (Suc 1)) {} s" using assms(1,3) by (simp add: txn_def)
  obtain t' where r: "balloc ROOTDEV s = Ret (c', t')" "txn 1 {} t'" "tstep {} s t'"
    "view t' = (mark_view s c')(c' := replicate BSIZE 0)"
    by (rule balloc_ok [OF t3 assms(4,2) lt c(2,3)]) (auto simp: held_blocks_def)
  have [simp]: "c' = c" "t' = t" using r(1) assms(5) by simp_all
  note e = balloc_effect [OF assms(4) lt c(2) t3 r(3,4)] and f = tstep_fs [OF r(3)]
  have d: "data_block s c" using unmarked_data [OF assms(4) lt c(2)] by simp
  obtain u where u: "bfree ROOTDEV c t = Ret u" "view u = unmark_view t c"
    by (rule bfree_ok [of 0 "{}" t c]) (use r(2) e lt f tstepD(2) [OF r(3)] assms(2) in \<open>auto simp: held_blocks_def\<close>)
  have "bit_free (view s (BBLOCK c (fs_sb s))) (c mod BPB)" using c(2) by (simp add: marked_def)
  then have "view u = (view s)(c := replicate BSIZE 0)"
    using u(2) r(4) f data_block_not_map [OF d, of c] lt bread_buf_geom(1) [OF t3 assms(4) lt]
    by (auto simp: unmark_view_def mark_view_def fun_eq_iff)
  with u(1) show ?thesis by blast
qed

lemma balloc_bfree_witness:
  "\<exists>c t u. balloc ROOTDEV small_fs = Ret (c, t) \<and> bfree ROOTDEV c t = Ret u \<and>
    view u = small_disk(c := replicate BSIZE 0)"
proof -
  have m: "\<not> marked small_fs 40" "40 < unat (sb_size (fs_sb small_fs))"
    using small_marked [of 40] small_fs by (simp_all add: small_sb_def)
  obtain c t where "balloc ROOTDEV small_fs = Ret (c, t)"
    by (rule balloc_ok [of 0 "{}" small_fs 40])
      (use small_fs small_marked small_geom in \<open>auto simp: txn_def held_blocks_def small_sb_def\<close>)
  then show ?thesis
    using balloc_bfree [OF small_fs(1) _ _ small_geom _ m] small_fs by auto
qed

end
