(* ===== verification/Inode.thy ===== *)
theory Inode
  imports Balloc
begin

text \<open>
  The content of inodes, \<^verbatim>\<open>bmap\<close>, \<^verbatim>\<open>readi\<close> and \<^verbatim>\<open>writei\<close> of \<^verbatim>\<open>xv6-public/fs.c\<close>: the blocks an inode lists hold an array of
  bytes, which \<^verbatim>\<open>readi\<close> returns a piece of and \<^verbatim>\<open>writei\<close> overwrites or extends.
\<close>

subsection \<open>States that differ in the inodes\<close>

lemma upd_inode_simps [simp]:
  "lwf H (upd_inode ip f s) = lwf H s" "view (upd_inode ip f s) = view s" "home (upd_inode ip f s) = home s"
  "fs_sb (upd_inode ip f s) = fs_sb s" "inodes (upd_inode ip f s) = (inodes s)(ip := f (inodes s ip))"
  "l_outstanding (upd_inode ip f s) = l_outstanding s" "l_committing (upd_inode ip f s) = l_committing s"
  "lh_n (upd_inode ip f s) = lh_n s" "l_size (upd_inode ip f s) = l_size s" "l_start (upd_inode ip f s) = l_start s"
  "disk (upd_inode ip f s) = disk s" "disksize (upd_inode ip f s) = disksize s" "bufs (upd_inode ip f s) = bufs s"
  "l_dev (upd_inode ip f s) = l_dev s" "fstate.more (upd_inode ip f s) = fstate.more s"
  "cur (upd_inode ip f s) = cur s" "procs (upd_inode ip f s) = procs s" "locks (upd_inode ip f s) = locks s"
  "cpu_id (upd_inode ip f s) = cpu_id s" "nextpid (upd_inode ip f s) = nextpid s" "initproc (upd_inode ip f s) = initproc s"
  using lwf_fields [of "upd_inode ip f s" s] by (simp_all add: upd_inode_def)

lemma upd_inode_txn [simp]:
  "txn k H (upd_inode ip f s) = txn k H s" "marked (upd_inode ip f s) = marked s"
  "fs_geom (upd_inode ip f s) = fs_geom s" "data_block (upd_inode ip f s) = data_block s"
  by (simp_all add: txn_def marked_def fs_geom_def data_block_def fun_eq_iff)

text \<open>What the operations on inodes keep besides the inodes, the map and the blocks.\<close>

definition fstep :: "'a fstate_scheme \<Rightarrow> 'a fstate_scheme \<Rightarrow> bool" where
  "fstep s t \<longleftrightarrow> cpu_id t = cpu_id s \<and> cur t = cur s \<and> nextpid t = nextpid s \<and> initproc t = initproc s \<and>
     map erase_state (procs t) = map erase_state (procs s) \<and> disksize t = disksize s \<and> l_start t = l_start s \<and>
     l_size t = l_size s \<and> l_dev t = l_dev s \<and> l_outstanding t = l_outstanding s \<and>
     l_committing t = l_committing s \<and> disk t = disk s \<and> fs_sb t = fs_sb s \<and> fstate.more t = fstate.more s"

lemma fstep_refl [simp]: "fstep s s"
  by (simp add: fstep_def)

lemma fstep_trans [trans]: "fstep s t \<Longrightarrow> fstep t u \<Longrightarrow> fstep s u"
  by (simp add: fstep_def)

lemma tstep_fstep: "tstep H s t \<Longrightarrow> fstep s t"
  using tstep_fs [of H s t] by (simp add: tstep_def lframe_def fstep_def)

lemma fstep_upd_inode [simp]: "fstep s (upd_inode ip f t) = fstep s t"
  by (simp add: fstep_def)

lemma fstepD:
  assumes "fstep s t"
  shows "fs_sb t = fs_sb s" "l_outstanding t = l_outstanding s" "disksize t = disksize s" "home t = home s"
    "data_block t = data_block s" "l_committing t = l_committing s" "disk t = disk s"
  using assms by (simp_all add: fstep_def home_def data_block_def fun_eq_iff)

subsection \<open>The bytes of a file\<close>

definition ind :: "'a fstate_scheme \<Rightarrow> nat \<Rightarrow> nat" where
  "ind s ip = unat (i_addrs (inodes s ip) ! NDIRECT)"

text \<open>The address of block \<open>bn\<close> of the file, zero where it has none.\<close>

definition fblock :: "'a fstate_scheme \<Rightarrow> nat \<Rightarrow> nat \<Rightarrow> nat" where
  "fblock s ip bn =
     (if bn < NDIRECT then unat (i_addrs (inodes s ip) ! bn)
      else if ind s ip = 0 then 0
      else unat (get32 (4 * (bn - NDIRECT)) (view s (ind s ip))))"

definition fbyte :: "'a fstate_scheme \<Rightarrow> nat \<Rightarrow> nat \<Rightarrow> uchar" where
  "fbyte s ip i = view s (fblock s ip (i div BSIZE)) ! (i mod BSIZE)"

definition fcontent :: "'a fstate_scheme \<Rightarrow> nat \<Rightarrow> uchar list" where
  "fcontent s ip = map (fbyte s ip) [0..<unat (i_size (inodes s ip))]"

text \<open>
  The blocks of a file are data blocks in use, and no two places of the file share one; the
  bytes below \<open>n\<close> have a block.
\<close>

definition fwf :: "'a fstate_scheme \<Rightarrow> nat \<Rightarrow> bool" where
  "fwf s ip \<longleftrightarrow> i_dev (inodes s ip) = ROOTDEV \<and> length (i_addrs (inodes s ip)) = NDIRECT + 1 \<and>
     (ind s ip \<noteq> 0 \<longrightarrow> data_block s (ind s ip) \<and> marked s (ind s ip)) \<and>
     (\<forall>bn<MAXFILE. fblock s ip bn \<noteq> 0 \<longrightarrow> data_block s (fblock s ip bn) \<and> marked s (fblock s ip bn) \<and>
        fblock s ip bn \<noteq> ind s ip) \<and>
     (\<forall>bn<MAXFILE. \<forall>bm<MAXFILE. fblock s ip bn \<noteq> 0 \<longrightarrow> fblock s ip bn = fblock s ip bm \<longrightarrow> bn = bm)"

definition has_blocks :: "'a fstate_scheme \<Rightarrow> nat \<Rightarrow> nat \<Rightarrow> bool" where
  "has_blocks s ip n \<longleftrightarrow> (\<forall>i<n. fblock s ip (i div BSIZE) \<noteq> 0)"

lemma fwfD:
  assumes "fwf s ip"
  shows "i_dev (inodes s ip) = ROOTDEV" "length (i_addrs (inodes s ip)) = NDIRECT + 1"
    "ind s ip \<noteq> 0 \<Longrightarrow> data_block s (ind s ip)" "ind s ip \<noteq> 0 \<Longrightarrow> marked s (ind s ip)"
    "bn < MAXFILE \<Longrightarrow> fblock s ip bn \<noteq> 0 \<Longrightarrow> data_block s (fblock s ip bn)"
    "bn < MAXFILE \<Longrightarrow> fblock s ip bn \<noteq> 0 \<Longrightarrow> marked s (fblock s ip bn)"
    "bn < MAXFILE \<Longrightarrow> fblock s ip bn \<noteq> 0 \<Longrightarrow> fblock s ip bn \<noteq> ind s ip"
    "bn < MAXFILE \<Longrightarrow> bm < MAXFILE \<Longrightarrow> fblock s ip bn \<noteq> 0 \<Longrightarrow> fblock s ip bn = fblock s ip bm \<Longrightarrow> bn = bm"
  using assms unfolding fwf_def by blast+

lemma fblock_cong:
  assumes "inodes t ip = inodes s ip" and "ind s ip \<noteq> 0 \<Longrightarrow> view t (ind s ip) = view s (ind s ip)"
  shows "fblock t ip = fblock s ip" "ind t ip = ind s ip"
  using assms by (auto simp: fblock_def ind_def fun_eq_iff)

subsection \<open>Reading\<close>

lemma bmap_mapped:
  assumes t: "txn k {} s" and g: "fs_geom s" and f: "fwf s ip" and bn: "bn < MAXFILE" "fblock s ip bn \<noteq> 0"
  obtains t where "bmap ip bn s = Ret (fblock s ip bn, t)" "txn k {} t" "view t = view s" "tstep {} s t"
proof (cases "bn < NDIRECT")
  case True
  then have "bmap ip bn s = Ret (fblock s ip bn, s)"
    using bn(2) by (simp add: bmap_def addr_or_alloc_def fblock_def)
  then show thesis using that t by simp
next
  case False
  then have i: "ind s ip \<noteq> 0" using bn(2) by (simp add: fblock_def split: if_splits)
  have h: "ind s ip < disksize s" using data_block_home [OF g fwfD(3) [OF f i]] by (rule home_disk)
  obtain b s1 t where r: "bread ROOTDEV (ind s ip) s = Ret (b, s1)" "b_data (bufs s1 b) = view s (ind s ip)"
    "brelse b s1 = Ret t" "txn k {} t" "view t = view s" "tstep {} s s1" "tstep {} s t"
    by (rule txn_peek [OF t h]) (auto simp: held_blocks_def)
  have "addr_or_alloc ip NDIRECT s = Ret (ind s ip, s)"
    using i by (simp add: addr_or_alloc_def ind_def)
  moreover have "fblock s ip bn = unat (get32 (4 * (bn - NDIRECT)) (view s (ind s ip)))"
    using False i by (simp add: fblock_def)
  ultimately have "bmap ip bn s = Ret (fblock s ip bn, t)"
    using False bn r(1-3) fwfD(1) [OF f] by (simp add: bmap_def Let_def)
  then show thesis using that r(4,5,7) by blast
qed

lemma chunk_div_mod:
  assumes "off \<le> i" and "i < off + chunk off n"
  shows "i div BSIZE = off div BSIZE" "i mod BSIZE = off mod BSIZE + (i - off)"
proof -
  obtain j where j: "i = off + j" "j < chunk off n" using assms le_Suc_ex [OF assms(1)] by auto
  then have lt: "off mod BSIZE + j < BSIZE" by (auto simp: chunk_def less_diff_conv add.commute)
  have e: "i = BSIZE * (off div BSIZE) + (off mod BSIZE + j)" using j(1) by simp
  have d: "i div BSIZE = off div BSIZE + (off mod BSIZE + j) div BSIZE" unfolding e by (rule div_mult_self4) simp
  then show "i div BSIZE = off div BSIZE" using lt by simp
  have "i mod BSIZE = (off mod BSIZE + j) mod BSIZE" using j(1) by (simp add: mod_add_left_eq)
  then show "i mod BSIZE = off mod BSIZE + (i - off)" using lt j(1) by simp
qed

lemma slice_chunk:
  assumes "length (view s (fblock s ip (off div BSIZE))) = BSIZE"
  shows "slice (off mod BSIZE) (chunk off n) (view s (fblock s ip (off div BSIZE))) =
    map (fbyte s ip) [off..<off + chunk off n]"
proof (rule nth_equalityI)
  have c: "off mod BSIZE + chunk off n \<le> BSIZE" by (simp add: chunk_def)
  with assms show "length (slice (off mod BSIZE) (chunk off n) (view s (fblock s ip (off div BSIZE)))) =
    length (map (fbyte s ip) [off..<off + chunk off n])" by simp
  fix j assume "j < length (slice (off mod BSIZE) (chunk off n) (view s (fblock s ip (off div BSIZE))))"
  then have "j < chunk off n" using c assms by simp
  then show "slice (off mod BSIZE) (chunk off n) (view s (fblock s ip (off div BSIZE))) ! j =
    map (fbyte s ip) [off..<off + chunk off n] ! j"
    using c assms chunk_div_mod [of off "off + j" n] by (simp add: nth_slice fbyte_def)
qed

lemma readi_loop_ok:
  assumes "txn k {} s" and "fs_geom s" and "fwf s ip" and "has_blocks s ip (off + n)" and "off + n \<le> MAXFILE * BSIZE"
  shows "\<exists>t. readi_loop ip off n s = Ret (map (fbyte s ip) [off..<off + n], t) \<and> txn k {} t \<and>
    view t = view s \<and> tstep {} s t"
  using assms
proof (induction n arbitrary: off s rule: less_induct)
  case (less n)
  show ?case
  proof (cases "n = 0")
    case True
    then show ?thesis using less.prems by (simp add: readi_loop.simps)
  next
    case False
    let ?m = "chunk off n" and ?a = "fblock s ip (off div BSIZE)"
    have m: "0 < ?m" "?m \<le> n" using False by simp_all
    have bn: "off div BSIZE < MAXFILE" using less.prems(5) False by (simp add: less_mult_imp_div_less)
    have a: "?a \<noteq> 0" using less.prems(4) False by (simp add: has_blocks_def)
    obtain s1 where s1: "bmap ip (off div BSIZE) s = Ret (?a, s1)" "txn k {} s1" "view s1 = view s" "tstep {} s s1"
      by (rule bmap_mapped [OF less.prems(1-3) bn a])
    note d1 = tstepD [OF s1(4)] and f1 = tstep_fs [OF s1(4)]
    have h: "home s ?a" using data_block_home [OF less.prems(2) fwfD(5) [OF less.prems(3) bn a]] .
    obtain b s2 s3 where s3: "bread ROOTDEV ?a s1 = Ret (b, s2)" "b_data (bufs s2 b) = view s1 ?a"
      "brelse b s2 = Ret s3" "txn k {} s3" "view s3 = view s1" "tstep {} s1 s3"
      by (rule txn_peek [OF s1(2), of ?a]) (use home_disk [OF h] d1 in \<open>auto simp: held_blocks_def\<close>)
    note st = tstep_trans [OF s1(4) s3(6)]
    note d3 = tstepD [OF st] and f3 = tstep_fs [OF st]
    have v3: "view s3 = view s" using s3(5) s1(3) by simp
    have fb: "fblock s3 ip = fblock s ip" "ind s3 ip = ind s ip"
      using fblock_cong [of s3 ip s] f3 v3 by simp_all
    have mk: "marked s3 = marked s" using v3 f3 by (simp add: marked_def fun_eq_iff)
    have db: "data_block s3 = data_block s" using f3 by (simp add: data_block_def fun_eq_iff)
    have byte: "fbyte s3 ip = fbyte s ip" using fb v3 by (simp add: fbyte_def fun_eq_iff)
    have "\<exists>t. readi_loop ip (off + ?m) (n - ?m) s3 =
        Ret (map (fbyte s3 ip) [off + ?m..<off + ?m + (n - ?m)], t) \<and> txn k {} t \<and> view t = view s3 \<and> tstep {} s3 t"
    proof (rule less.IH [OF _ s3(4)])
      show "fs_geom s3" by (rule fs_geom_step [OF less.prems(2) st f3(1)]) (simp add: mk)
      show "fwf s3 ip" using less.prems(3) fb mk db f3 by (simp add: fwf_def)
      show "has_blocks s3 ip (off + ?m + (n - ?m))" using less.prems(4) fb m by (simp add: has_blocks_def)
    qed (use m False less.prems(5) in auto)
    then obtain t where t: "readi_loop ip (off + ?m) (n - ?m) s3 = Ret (map (fbyte s ip) [off + ?m..<off + n], t)"
      "txn k {} t" "view t = view s3" "tstep {} s3 t" using byte m by auto
    have len: "length (view s ?a) = BSIZE" by (rule length_view [OF txn_bwf [OF less.prems(1)] home_disk [OF h]])
    have up: "[off..<off + n] = [off..<off + ?m] @ [off + ?m..<off + n]"
      using upt_add_eq_append [of off "off + ?m" "n - ?m"] m by simp
    have "readi_loop ip off n s = Ret (map (fbyte s ip) [off..<off + n], t)"
      using False s1(1) s3(1-3) t(1) f1 fwfD(1) [OF less.prems(3)] s1(3) slice_chunk [OF len, of n]
      by (subst readi_loop.simps) (simp add: Let_def up)
    then show ?thesis using t v3 tstep_trans [OF st t(4)] by simp
  qed
qed

lemma word_add_wraps: "off + n < off \<longleftrightarrow> 2 ^ 32 \<le> unat off + unat n" for off n :: uint
proof (cases "unat off + unat n < 2 ^ 32")
  case True
  then have "unat (off + n) = unat off + unat n" by (simp add: unat_word_ariths)
  with True show ?thesis by (simp add: word_less_nat_alt)
next
  case False
  have lt: "unat off < 2 ^ 32" "unat n < 2 ^ 32" using unsigned_less [of off] unsigned_less [of n] by simp_all
  obtain j where j: "unat off + unat n = 2 ^ 32 + j" "j < 2 ^ 32"
    using False lt le_Suc_ex [of "2 ^ 32" "unat off + unat n"] by auto
  then have "unat (off + n) = j" by (simp add: unat_word_ariths)
  then show ?thesis using j lt(2) False by (simp add: word_less_nat_alt)
qed

lemma unat_add_fits: "unat off + unat n < 2 ^ 32 \<Longrightarrow> unat (off + n) = unat off + unat n" for off n :: uint
  by (simp add: unat_word_ariths)

lemma sint_small: "unat w < 2 ^ 31 \<Longrightarrow> sint w = int (unat w)" for w :: uint
proof -
  assume "unat w < 2 ^ 31"
  then have "int (unat w) < int (2 ^ 31)" by (simp only: of_nat_less_iff)
  moreover have "- (2 ^ 31) \<le> uint w" using uint_ge_0 [of w] by (simp add: order_trans [of _ 0])
  ultimately have "signed_take_bit 31 (uint w) = uint w" by (intro signed_take_bit_int_eq_self) simp_all
  then show ?thesis by (simp add: sint_uint)
qed

text \<open>
  C6: \<^verbatim>\<open>readi\<close> returns the bytes of the file from offset \<open>off\<close>, at most \<open>n\<close> of them and only up to the end of the
  file, with their number, and changes neither a block nor an inode; an offset beyond the end or
  a range that wraps around is an error.
\<close>

theorem readi_content:
  assumes "lwf {} s" and "fs_geom s" and "fwf s ip" and "i_type (inodes s ip) \<noteq> T_DEV"
    and "has_blocks s ip (unat (i_size (inodes s ip)))" and "unat (i_size (inodes s ip)) \<le> MAXFILE * BSIZE"
  shows "\<exists>t. view t = view s \<and> inodes t = inodes s \<and> readi dv ip off n s =
    (if unat (i_size (inodes s ip)) < unat off \<or> 2 ^ 32 \<le> unat off + unat n then Ret (-1, [], s)
     else let d = take (unat n) (drop (unat off) (fcontent s ip)) in Ret (int (length d), d, t))"
proof (cases "unat (i_size (inodes s ip)) < unat off \<or> 2 ^ 32 \<le> unat off + unat n")
  case True
  then have "off > i_size (inodes s ip) \<or> off + n < off"
    using word_add_wraps [of off n] by (simp only: word_less_nat_alt [of "i_size (inodes s ip)"])
  then have "readi dv ip off n s = Ret (-1, [], s)" using assms(4) by (simp add: readi_def)
  with True show ?thesis by (intro exI [of _ s]) simp
next
  case False
  then have c: "\<not> (off > i_size (inodes s ip) \<or> off + n < off)"
    using word_add_wraps [of off n] by (auto simp only: word_less_nat_alt [of "i_size (inodes s ip)"])
  let ?z = "i_size (inodes s ip)"
  define m where "m = (if off + n > ?z then ?z - off else n)"
  have off: "unat off \<le> unat ?z" and fit: "unat off + unat n < 2 ^ 32" using False by auto
  have m: "unat m = min (unat n) (unat ?z - unat off)"
  proof (cases "unat ?z < unat off + unat n")
    case True
    then have "m = ?z - off" using unat_add_fits [OF fit] by (simp add: m_def word_less_nat_alt)
    then show ?thesis using True off by (simp add: unat_sub word_le_nat_alt)
  next
    case False
    then have "m = n" using unat_add_fits [OF fit] by (simp add: m_def word_less_nat_alt)
    then show ?thesis using False by simp
  qed
  then have le: "unat off + unat m \<le> unat ?z" using off by simp
  obtain t where t: "readi_loop ip (unat off) (unat m) s = Ret (map (fbyte s ip) [unat off..<unat off + unat m], t)"
    "view t = view s" "tstep {} s t"
    using readi_loop_ok [OF lwf_txn [OF assms(1)] assms(2,3), of "unat off" "unat m"] le assms(5,6)
    by (auto simp: has_blocks_def)
  have d: "take (unat n) (drop (unat off) (fcontent s ip)) = map (fbyte s ip) [unat off..<unat off + unat m]"
    using le m off by (cases "unat n \<le> unat ?z - unat off") (simp_all add: fcontent_def take_map drop_map take_upt)
  have "sint m = int (unat m)" by (rule sint_small) (use le assms(6) in simp)
  then have "readi dv ip off n s = Ret (int (unat m), map (fbyte s ip) [unat off..<unat off + unat m], t)"
    using c assms(4) t(1) by (simp only: readi_def if_False Let_def obind_simps prod.case m_def [symmetric])
  then show ?thesis
    using False t(2) d tstep_fs [OF t(3)] by (intro exI [of _ t]) (simp only: if_False Let_def length_map length_upt diff_add_inverse)
qed

end
