(* ===== verification/Writei.thy ===== *)
theory Writei
  imports Inode
begin

text \<open>
  Growing and overwriting files: \<^verbatim>\<open>bmap\<close> where it allocates, \<^verbatim>\<open>iupdate\<close> and \<^verbatim>\<open>writei\<close> of \<^verbatim>\<open>xv6-public/fs.c\<close>.
\<close>

subsection \<open>Free blocks\<close>

definition nfree :: "'a fstate_scheme \<Rightarrow> nat" where
  "nfree s = card {x. x < unat (sb_size (fs_sb s)) \<and> \<not> marked s x}"

lemma finite_free [simp]: "finite {x. x < (n :: nat) \<and> P x}"
  by (rule finite_subset [of _ "{..<n}"]) auto

lemma nfree_pos: "Suc m \<le> nfree s \<Longrightarrow> \<exists>x<unat (sb_size (fs_sb s)). \<not> marked s x"
  by (metis (mono_tags, lifting) card.empty empty_Collect_eq nfree_def not_less_eq_eq zero_le)

lemma nfree_mark:
  assumes "fs_sb t = fs_sb s" and "c < unat (sb_size (fs_sb s))" and "\<not> marked s c"
    and "\<And>x. x < unat (sb_size (fs_sb s)) \<Longrightarrow> marked t x \<longleftrightarrow> x = c \<or> marked s x"
  shows "nfree s = Suc (nfree t)"
proof -
  have "{x. x < unat (sb_size (fs_sb s)) \<and> \<not> marked s x} =
      insert c {x. x < unat (sb_size (fs_sb s)) \<and> \<not> marked t x}"
    using assms(2-4) by auto
  then show ?thesis using assms(1,2,4) by (simp add: nfree_def)
qed

lemma nfree_cong: "fs_sb t = fs_sb s \<Longrightarrow> (\<And>x. x < unat (sb_size (fs_sb s)) \<Longrightarrow> marked t x = marked s x) \<Longrightarrow> nfree t = nfree s"
  by (simp add: nfree_def) (metis (mono_tags, lifting))

text \<open>
  A step of the file system that only adds blocks: what was in use stays in use and, but for the
  blocks \<open>X\<close>, the inodes and the data keep their content.
\<close>

definition area :: "'a fstate_scheme \<Rightarrow> nat \<Rightarrow> bool" where
  "area s x \<longleftrightarrow> x < unat (sb_bmapstart (fs_sb s)) \<or> data_block s x"

definition grow :: "nat set \<Rightarrow> 'a fstate_scheme \<Rightarrow> 'a fstate_scheme \<Rightarrow> bool" where
  "grow X s t \<longleftrightarrow> fstep s t \<and> fs_geom t \<and> (\<forall>x<unat (sb_size (fs_sb s)). marked s x \<longrightarrow> marked t x) \<and>
     (\<forall>x. area s x \<longrightarrow> marked s x \<longrightarrow> x \<notin> X \<longrightarrow> view t x = view s x)"

lemma growD:
  assumes "grow X s t"
  shows "fstep s t" "fs_geom t" "x < unat (sb_size (fs_sb s)) \<Longrightarrow> marked s x \<Longrightarrow> marked t x"
    "area s x \<Longrightarrow> marked s x \<Longrightarrow> x \<notin> X \<Longrightarrow> view t x = view s x"
  using assms by (simp_all add: grow_def)

lemma grow_refl: "fs_geom s \<Longrightarrow> grow X s s"
  by (simp add: grow_def)

lemma area_step: "fstep s t \<Longrightarrow> area t = area s"
  using fstepD [of s t] by (simp add: area_def fun_eq_iff)

lemma area_size: "fs_geom s \<Longrightarrow> area s x \<Longrightarrow> x < unat (sb_size (fs_sb s))"
  using fs_geomD(4) [of s] by (auto simp: area_def data_block_def datastart_def)

lemma grow_trans:
  assumes "grow X s t" and "grow Y t u" and "fs_geom s" and "\<And>y. y \<in> Y \<Longrightarrow> area s y \<Longrightarrow> marked s y \<Longrightarrow> y \<in> X"
  shows "grow X s u"
proof -
  note a = growD [OF assms(1)] and b = growD [OF assms(2)]
  have ar: "area t = area s" and sb: "fs_sb t = fs_sb s" using area_step a(1) fstepD [OF a(1)] by auto
  have "view u x = view s x" if "area s x" "marked s x" "x \<notin> X" for x
    using a(4) [OF that] b(4) [of x] a(3) [of x] area_size [OF assms(3) that(1)] that ar assms(4) by auto
  then show ?thesis using a b sb fstep_trans [OF a(1) b(1)] by (simp add: grow_def)
qed

lemma grow_mono: "grow X s t \<Longrightarrow> X \<subseteq> Y \<Longrightarrow> grow Y s t"
  by (auto simp: grow_def)

lemma grow_upd_inode [simp]: "grow X s (upd_inode ip f t) = grow X s t"
  by (simp add: grow_def)

lemma tstep_grow:
  assumes "tstep H s t" and "fs_geom s" and "view t = view s"
  shows "grow X s t" "marked t = marked s"
proof -
  note f = tstep_fs [OF assms(1)]
  show m: "marked t = marked s" using f assms(3) by (simp add: marked_def fun_eq_iff)
  have "fs_geom t" by (rule fs_geom_step [OF assms(2,1) f(1)]) (simp add: m)
  then show "grow X s t" using tstep_fstep [OF assms(1)] m assms(3) by (simp add: grow_def)
qed

lemma area_not_map: "fs_geom s \<Longrightarrow> area s x \<Longrightarrow> c < unat (sb_size (fs_sb s)) \<Longrightarrow> x \<noteq> BBLOCK c (fs_sb s)"
  using data_block_not_map [of s x c] by (auto simp: area_def BBLOCK_def)

text \<open>\<^verbatim>\<open>balloc\<close> while the buffers \<open>H\<close> of used data blocks are held.\<close>

lemma balloc_any:
  assumes t: "txn (Suc (Suc k)) H s" and g: "fs_geom s" and op: "1 \<le> l_outstanding s" and card: "card H \<le> k"
    and H: "\<And>x. x \<in> held_blocks H s \<Longrightarrow> data_block s x \<and> marked s x" and n: "Suc m \<le> nfree s"
  obtains c t where "balloc ROOTDEV s = Ret (c, t)" "data_block s c" "\<not> marked s c" "txn k H t" "tstep H s t"
    "grow {} s t" "marked t c" "view t c = replicate BSIZE 0" "m \<le> nfree t" "c \<noteq> 0" "unat (of_nat c :: uint) = c"
proof -
  obtain x where x: "x < unat (sb_size (fs_sb s))" "\<not> marked s x" using nfree_pos [OF n] by blast
  obtain c where c: "c \<le> x" "\<not> marked s c" "\<And>y. y < c \<Longrightarrow> marked s y" by (rule least_unmarked [OF x(2)]) auto
  have lt: "c < unat (sb_size (fs_sb s))" using c(1) x(1) by simp
  note d = unmarked_data [OF g lt c(2)]
  obtain t where r: "balloc ROOTDEV s = Ret (c, t)" "txn k H t" "tstep H s t"
    "view t = (mark_view s c)(c := replicate BSIZE 0)"
    by (rule balloc_ok [OF t g op lt c(2,3) card]) (use H data_block_not_map c(2) in blast)+
  note e = balloc_effect [OF g lt c(2) t r(3,4)]
  have "view t x = view s x" if "area s x" "marked s x" for x
    using r(4) area_not_map [OF g that(1) lt] that(2) c(2) by (auto simp: mark_view_def)
  then have gr: "grow {} s t" using tstep_fstep [OF r(3)] e by (auto simp: grow_def)
  have "nfree s = Suc (nfree t)" by (rule nfree_mark [OF tstep_fs(1) [OF r(3)] lt c(2) e(2)])
  moreover have "c < 2 ^ 32"
  proof -
    have "unat (sb_size (fs_sb s)) < 2 ^ 32" using unsigned_less [of "sb_size (fs_sb s)"] by simp
    with lt show ?thesis by simp
  qed
  moreover have "c \<noteq> 0" using d by (simp add: data_block_def datastart_def)
  ultimately show thesis
    using that [OF r(1) d c(2) r(2,3) gr] e(2) [OF lt] r(4) n by (simp add: unat_of_nat)
qed

subsection \<open>Giving a file its blocks\<close>

text \<open>The file after slot \<open>i\<close> of its inode has got a block, or had one already.\<close>

lemma addr_or_alloc_ok:
  assumes t: "txn (Suc (Suc k)) {} s" and g: "fs_geom s" and op: "1 \<le> l_outstanding s" and dev: "i_dev (inodes s ip) = ROOTDEV"
    and n: "Suc m \<le> nfree s" and i: "i < length (i_addrs (inodes s ip))"
  obtains a t where "addr_or_alloc ip i s = Ret (a, t)" "txn k {} t" "grow {} s t" "a \<noteq> 0" "m \<le> nfree t"
    "inodes t = (inodes s)(ip := (inodes s ip)\<lparr>i_addrs := (i_addrs (inodes s ip))[i := of_nat a]\<rparr>)"
    "unat (of_nat a :: uint) = a"
    "if unat (i_addrs (inodes s ip) ! i) = 0
     then data_block s a \<and> \<not> marked s a \<and> marked t a \<and> view t a = replicate BSIZE 0
     else a = unat (i_addrs (inodes s ip) ! i) \<and> t = s"
proof (cases "unat (i_addrs (inodes s ip) ! i) = 0")
  case True
  obtain c u where c: "balloc ROOTDEV s = Ret (c, u)" "data_block s c" "\<not> marked s c" "txn k {} u" "tstep {} s u"
    "grow {} s u" "marked u c" "view u c = replicate BSIZE 0" "m \<le> nfree u" "c \<noteq> 0" "unat (of_nat c :: uint) = c"
    by (rule balloc_any [OF t g op _ _ n]) (auto simp: held_blocks_def)
  have "addr_or_alloc ip i s = Ret (c, set_addr ip i c u)"
    using True c(1) dev by (simp add: addr_or_alloc_def Let_def)
  moreover have "nfree (set_addr ip i c u) = nfree u" by (simp add: nfree_def set_addr_def)
  ultimately show thesis
    using that [of c "set_addr ip i c u"] True c tstep_fs [OF c(5)] by (simp add: set_addr_def)
next
  case False
  let ?a = "unat (i_addrs (inodes s ip) ! i)"
  have "(inodes s)(ip := (inodes s ip)\<lparr>i_addrs := (i_addrs (inodes s ip))[i := of_nat ?a]\<rparr>) = inodes s" by simp
  moreover have "addr_or_alloc ip i s = Ret (?a, s)" using False by (simp add: addr_or_alloc_def)
  ultimately show thesis
    using that [of ?a s] False txn_less [OF t, of k] grow_refl [OF g] n by simp
qed

lemma fwf_new:
  assumes f: "fwf s ip" and g: "fs_geom s" and gr: "grow X s t" and bn: "bn < MAXFILE"
    and dev: "i_dev (inodes t ip) = ROOTDEV" and len: "length (i_addrs (inodes t ip)) = NDIRECT + 1"
    and fb: "\<And>bm. bm < MAXFILE \<Longrightarrow> fblock t ip bm = (if bm = bn then a else fblock s ip bm)"
    and a: "data_block s a" "\<not> marked s a" "marked t a"
    and i: "ind t ip \<noteq> ind s ip \<Longrightarrow>
      ind s ip = 0 \<and> data_block s (ind t ip) \<and> \<not> marked s (ind t ip) \<and> marked t (ind t ip) \<and> ind t ip \<noteq> a"
  shows "fwf t ip"
proof -
  note gd = growD [OF gr] and fd = fwfD [OF f]
  have db: "data_block t = data_block s" using fstepD [OF gd(1)] by simp
  have mk: "marked t x" if "data_block s x" "marked s x" for x
    using gd(3) that by (simp add: data_block_def)
  have new: "a \<noteq> fblock s ip bm" if "bm < MAXFILE" "fblock s ip bm \<noteq> 0" for bm using fd(6) [OF that] a(2) by auto
  have 1: "data_block t (ind t ip) \<and> marked t (ind t ip)" if "ind t ip \<noteq> 0"
    using that i mk [OF fd(3,4)] fd(3) db by (cases "ind t ip = ind s ip") auto
  have 2: "a \<noteq> ind t ip"
    using i fd(4) a(1,2) by (cases "ind t ip = ind s ip") (auto simp: data_block_def datastart_def)
  have 3: "fblock s ip bm \<noteq> ind t ip" if "bm < MAXFILE" "fblock s ip bm \<noteq> 0" for bm
    using i fd(6,7) [OF that] by (cases "ind t ip = ind s ip") auto
  have 4: "data_block t (fblock t ip bm) \<and> marked t (fblock t ip bm) \<and> fblock t ip bm \<noteq> ind t ip"
    if "bm < MAXFILE" "fblock t ip bm \<noteq> 0" for bm
    using that fb [OF that(1)] a 2 3 [of bm] mk fd(5,6) [OF that(1)] db by (auto split: if_splits)
  have 5: "x = y" if "x < MAXFILE" "y < MAXFILE" "fblock t ip x \<noteq> 0" "fblock t ip x = fblock t ip y" for x y
    using that fb [OF that(1)] fb [OF that(2)] fd(8) [of x y] new [of x] new [of y] by (auto split: if_splits)
  show ?thesis unfolding fwf_def using dev len 1 4 5 by blast
qed

text \<open>What \<^verbatim>\<open>bmap\<close> does when it returns \<open>a\<close> for block \<open>bn\<close>.\<close>

definition gets_block :: "'a fstate_scheme \<Rightarrow> nat \<Rightarrow> nat \<Rightarrow> nat \<Rightarrow> 'a fstate_scheme \<Rightarrow> bool" where
  "gets_block s ip bn a t \<longleftrightarrow> grow {ind s ip} s t \<and> fwf t ip \<and> a \<noteq> 0 \<and>
     (\<forall>bm<MAXFILE. fblock t ip bm = (if bm = bn then a else fblock s ip bm)) \<and>
     (if fblock s ip bn = 0 then data_block s a \<and> \<not> marked s a \<and> view t a = replicate BSIZE 0
      else a = fblock s ip bn \<and> view t = view s) \<and>
     (\<exists>A. inodes t = (inodes s)(ip := (inodes s ip)\<lparr>i_addrs := A\<rparr>)) \<and>
     (ind t ip = ind s ip \<or> \<not> marked s (ind t ip))"

lemma get32_zeros [simp]: "i + 4 \<le> n \<Longrightarrow> get32 i (replicate n 0) = 0"
  by (simp add: get32_def slice_def numeral_eq_Suc)

lemma bmap_direct:
  assumes t: "txn (Suc (Suc k)) {} s" and g: "fs_geom s" and op: "1 \<le> l_outstanding s" and f: "fwf s ip"
    and n: "Suc m \<le> nfree s" and bn: "bn < NDIRECT" "fblock s ip bn = 0"
  obtains a t where "bmap ip bn s = Ret (a, t)" "txn k {} t" "gets_block s ip bn a t" "m \<le> nfree t"
proof -
  note fd = fwfD [OF f]
  have old: "unat (i_addrs (inodes s ip) ! bn) = 0" using bn by (simp add: fblock_def)
  have len: "bn < length (i_addrs (inodes s ip))" using fd(2) bn(1) by simp
  obtain a t where r: "addr_or_alloc ip bn s = Ret (a, t)" "txn k {} t" "grow {} s t" "a \<noteq> 0" "m \<le> nfree t"
    "inodes t = (inodes s)(ip := (inodes s ip)\<lparr>i_addrs := (i_addrs (inodes s ip))[bn := of_nat a]\<rparr>)"
    "unat (of_nat a :: uint) = a"
    "data_block s a" "\<not> marked s a" "marked t a" "view t a = replicate BSIZE 0"
    by (rule addr_or_alloc_ok [OF t g op fd(1) n len]) (use old in simp)
  have i: "ind t ip = ind s ip" using r(6) bn(1) by (simp add: ind_def)
  have v: "view t (ind s ip) = view s (ind s ip)" if "ind s ip \<noteq> 0"
    using growD(4) [OF r(3)] fd(3,4) [OF that] by (simp add: area_def)
  have fb: "fblock t ip bm = (if bm = bn then a else fblock s ip bm)" if "bm < MAXFILE" for bm
    using r(6,7) i v bn(1) len fd(2) by (auto simp: fblock_def)
  have "fwf t ip" by (rule fwf_new [OF f g r(3) _ _ _ fb r(8-10)]) (use bn r(6) fd(1,2) i in simp_all)
  moreover have "bmap ip bn s = Ret (a, t)" using bn(1) r(1) by (simp add: bmap_def)
  ultimately show thesis
    using that [of a t] r fb bn(2) i grow_mono [OF r(3)] unfolding gets_block_def by auto
qed

text \<open>The second half of the indirect case: an empty slot \<open>j\<close> of the indirect block gets a block.\<close>

lemma fill_slot:
  assumes t: "txn (Suc (Suc (Suc k))) {} s" and g: "fs_geom s" and op: "1 \<le> l_outstanding s"
    and i: "data_block s i" "marked s i" and j: "j < NINDIRECT" "get32 (4 * j) (view s i) = 0" and n: "Suc m \<le> nfree s"
  obtains b s2 c s3 s4 u where "bread ROOTDEV i s = Ret (b, s2)" "b_data (bufs s2 b) = view s i"
    "balloc ROOTDEV s2 = Ret (c, s3)"
    "log_write b (upd_buf b (\<lambda>x. x\<lparr>b_data := put32 (4 * j) (of_nat c) (b_data x)\<rparr>) s3) = Ret s4" "brelse b s4 = Ret u"
    "txn k {} u" "grow {i} s u" "data_block s c" "\<not> marked s c" "marked u c" "view u c = replicate BSIZE 0"
    "view u i = put32 (4 * j) (of_nat c) (view s i)" "m \<le> nfree u" "c \<noteq> 0" "unat (of_nat c :: uint) = c"
    "tstep {} s s2" "tstep {} s u"
proof -
  have h: "home s i" by (rule data_block_home [OF g i(1)])
  obtain b s2 where b: "bread ROOTDEV i s = Ret (b, s2)" "txn (Suc (Suc (Suc k))) {b} s2" "b_blockno (bufs s2 b) = i"
    "b_data (bufs s2 b) = view s i" "view s2 = view s" "tstep {} s s2"
    by (rule txn_bread [OF t home_disk [OF h]]) (auto simp: held_blocks_def)
  note f2 = tstep_fs [OF b(6)] and m2 = tstep_grow [OF b(6) g b(5)]
  have hb: "held_blocks {b} s2 = {i}" using b(3) by (simp add: held_blocks_def)
  have db2: "data_block s2 = data_block s" using f2 by (simp add: data_block_def fun_eq_iff)
  have n2: "Suc m \<le> nfree s2" using n nfree_cong [of s2 s] f2 m2(2) by simp
  obtain c s3 where c: "balloc ROOTDEV s2 = Ret (c, s3)" "data_block s c" "\<not> marked s c" "txn (Suc k) {b} s3"
    "tstep {b} s2 s3" "grow {} s2 s3" "marked s3 c" "view s3 c = replicate BSIZE 0" "m \<le> nfree s3" "c \<noteq> 0"
    "unat (of_nat c :: uint) = c"
    by (rule balloc_any [OF b(2) growD(2) [OF m2(1)] _ _ _ n2])
      (use tstepD(2) [OF b(6)] op hb db2 m2(2) i in auto)
  have b3: "bufs s3 b = bufs s2 b" using tstepD(8) [OF c(5)] by simp
  have ci: "c \<noteq> i" using c(3) i(2) by auto
  have v3: "view s3 i = view s i" using growD(4) [OF c(6), of i] i db2 m2(2) b(5) by (simp add: area_def)
  let ?d = "put32 (4 * j) (of_nat c) (view s i)"
  have len: "length (view s i) = BSIZE" by (rule length_view [OF txn_bwf [OF t] home_disk [OF h]])
  have l2: "l_outstanding s3 = l_outstanding s" "home s3 = home s"
    using tstepD [OF c(5)] tstepD [OF b(6)] by simp_all
  obtain s4 where w: "log_write b (upd_buf b (\<lambda>x. x\<lparr>b_data := ?d\<rparr>) s3) = Ret s4" "txn k {b} s4"
    "view s4 = (view s3)(i := ?d)" "tstep {} s3 s4" "b_dirty (bufs s4 b)"
    by (rule txn_log_write [OF c(4), of b ?d]) (use b3 b(3) l2 h op len j(1) in auto)
  obtain u where u: "brelse b s4 = Ret u" "txn k ({b} - {b}) u" "view u = view s4" "tstep ({b} - {b}) s4 u"
    by (rule txn_brelse [OF w(2)]) (use w(5) in auto)
  have st3: "tstep {} s3 u" using tstep_trans [OF w(4)] u(4) by simp
  have st: "tstep {} s u" using tstep_trans [OF b(6) tstep_trans [OF tstep_mono [OF c(5)] st3]] by simp
  note f3 = tstep_fs [OF st3] and fu = tstep_fs [OF st]
  have sb3: "fs_sb s3 = fs_sb s" using tstep_fs(1) [OF c(5)] f2 by simp
  have mk: "marked u x = marked s3 x" if "x < unat (sb_size (fs_sb s))" for x
    by (rule marked_cong [OF f3(1)]) (use u(3) w(3) data_block_not_map [OF i(1) that] sb3 in auto)
  have gu: "fs_geom u"
    by (rule fs_geom_step [OF growD(2) [OF c(6)] st3 f3(1)]) (use mk fs_geomD(4) [OF g] sb3 in auto)
  have "view u x = view s x" if "area s x" "marked s x" "x \<noteq> i" for x
    using growD(4) [OF c(6), of x] that u(3) w(3) b(5) m2(2) area_step [OF tstep_fstep [OF b(6)]] by simp
  then have "grow {i} s u"
    using tstep_fstep [OF st] gu mk growD(3) [OF c(6)] m2(2) f2 by (simp add: grow_def)
  moreover have "m \<le> nfree u" using c(9) nfree_cong [OF f3(1)] mk sb3 by simp
  ultimately show thesis
    using that [OF b(1,4) c(1) _ u(1)] w(1) b3 b(4) u c mk [of c] ci w(3) st b(6)
    by (simp add: upd_data [of b "put32 (4 * j) (of_nat c)" s3] data_block_def)
qed

lemma fblock_slot:
  assumes "ind t ip = ind s ip" and "i_addrs (inodes t ip) = i_addrs (inodes s ip)" and "ind s ip \<noteq> 0"
    and "view t (ind s ip) = put32 (4 * (bn - NDIRECT)) (of_nat c) (view s (ind s ip))"
    and "length (view s (ind s ip)) = BSIZE" and "unat (of_nat c :: uint) = c"
    and "NDIRECT \<le> bn" and "bn < MAXFILE" and "bm < MAXFILE"
  shows "fblock t ip bm = (if bm = bn then c else fblock s ip bm)"
proof (cases "bm < NDIRECT")
  case True
  then show ?thesis using assms by (simp add: fblock_def)
next
  case False
  then have "fblock t ip bm = unat (get32 (4 * (bm - NDIRECT)) (put32 (4 * (bn - NDIRECT)) (of_nat c) (view s (ind s ip))))"
    using assms by (simp add: fblock_def)
  also have "\<dots> = (if bm = bn then c else fblock s ip bm)"
  proof (cases "bm = bn")
    case True
    then show ?thesis using assms(5-9) False by simp
  next
    case ne: False
    then have "4 * (bm - NDIRECT) + 4 \<le> 4 * (bn - NDIRECT) \<or> 4 * (bn - NDIRECT) + 4 \<le> 4 * (bm - NDIRECT)"
      using False assms(7) by linarith
    then show ?thesis using ne False assms by (simp add: get_put_other fblock_def)
  qed
  finally show ?thesis .
qed

lemma bmap_indirect:
  assumes t: "txn (k + 5) {} s" and g: "fs_geom s" and op: "1 \<le> l_outstanding s" and f: "fwf s ip"
    and n: "m + 2 \<le> nfree s" and bn: "NDIRECT \<le> bn" "bn < MAXFILE" "fblock s ip bn = 0"
  obtains a t where "bmap ip bn s = Ret (a, t)" "txn k {} t" "gets_block s ip bn a t" "m \<le> nfree t"
proof -
  note fd = fwfD [OF f]
  have t': "txn (Suc (Suc (Suc (Suc (Suc k))))) {} s" using t by (simp add: numeral_eq_Suc)
  have len: "NDIRECT < length (i_addrs (inodes s ip))" and n': "Suc (Suc m) \<le> nfree s" using fd(2) n by simp_all
  obtain i s1 where r: "addr_or_alloc ip NDIRECT s = Ret (i, s1)" "txn (Suc (Suc (Suc k))) {} s1" "grow {} s s1" "i \<noteq> 0"
    "Suc m \<le> nfree s1"
    "inodes s1 = (inodes s)(ip := (inodes s ip)\<lparr>i_addrs := (i_addrs (inodes s ip))[NDIRECT := of_nat i]\<rparr>)"
    "unat (of_nat i :: uint) = i"
    and new: "if ind s ip = 0 then data_block s i \<and> \<not> marked s i \<and> marked s1 i \<and> view s1 i = replicate BSIZE 0
      else i = ind s ip \<and> s1 = s"
    unfolding ind_def by (rule addr_or_alloc_ok [OF t' g op fd(1) n' len])
  note g1 = growD [OF r(3)]
  note f1 = fstepD [OF g1(1)]
  have i1: "ind s1 ip = i" using r(6,7) len by (simp add: ind_def)
  have fb1: "fblock s1 ip bm = fblock s ip bm" if "bm < MAXFILE" for bm
    using new i1 that r(6) by (auto simp: fblock_def split: if_splits)
  have di: "data_block s i" "marked s1 i" using new fd(3,4) by (auto split: if_splits)
  have slot: "get32 (4 * (bn - NDIRECT)) (view s1 i) = 0"
    using fb1 [OF bn(2)] bn i1 r(4) by (simp add: fblock_def unat_eq_0)
  obtain b s2 c s3 s4 u where w: "bread ROOTDEV i s1 = Ret (b, s2)" "b_data (bufs s2 b) = view s1 i"
    "balloc ROOTDEV s2 = Ret (c, s3)"
    "log_write b (upd_buf b (\<lambda>x. x\<lparr>b_data := put32 (4 * (bn - NDIRECT)) (of_nat c) (b_data x)\<rparr>) s3) = Ret s4"
    "brelse b s4 = Ret u" "txn k {} u" "grow {i} s1 u" "data_block s1 c" "\<not> marked s1 c" "marked u c"
    "view u c = replicate BSIZE 0" "view u i = put32 (4 * (bn - NDIRECT)) (of_nat c) (view s1 i)" "m \<le> nfree u"
    "c \<noteq> 0" "unat (of_nat c :: uint) = c" "tstep {} s1 s2" "tstep {} s1 u"
    by (rule fill_slot [OF r(2) g1(2) _ _ di(2) _ slot r(5)]) (use f1 op di bn in auto)
  note f2 = tstep_fs [OF w(16)] and fu = tstep_fs [OF w(17)]
  have iu: "ind u ip = i" using fu i1 by (simp add: ind_def)
  have dev: "i_dev (inodes s1 ip) = ROOTDEV" "length (i_addrs (inodes s1 ip)) = NDIRECT + 1" using r(6) fd(1,2) by simp_all
  have vlen: "length (view s1 (ind s1 ip)) = BSIZE"
    using length_view [OF txn_bwf [OF r(2)]] home_disk [OF data_block_home [OF g1(2)]] di(1) f1 i1 by simp
  have fb: "fblock u ip bm = (if bm = bn then c else fblock s ip bm)" if "bm < MAXFILE" for bm
    using fblock_slot [of u ip s1 bn c bm] iu i1 fu r(4) w(12,15) vlen bn that fb1 by simp
  have gr: "grow {ind s ip} s u"
    by (rule grow_trans [OF grow_mono [OF r(3)] w(7) g]) (use new in \<open>auto split: if_splits\<close>)
  have c: "data_block s c" "\<not> marked s c" using w(8,9) f1 g1(3) [of c] by (auto simp: data_block_def)
  have "fwf u ip"
  proof (rule fwf_new [OF f g gr bn(2) _ _ fb c w(10)])
    show "i_dev (inodes u ip) = ROOTDEV" "length (i_addrs (inodes u ip)) = NDIRECT + 1" using dev fu by simp_all
    assume "ind u ip \<noteq> ind s ip"
    then show "ind s ip = 0 \<and> data_block s (ind u ip) \<and> \<not> marked s (ind u ip) \<and> marked u (ind u ip) \<and> ind u ip \<noteq> c"
      using new iu di w(9) growD(3) [OF w(7), of i] f1 by (auto simp: data_block_def split: if_splits)
  qed
  moreover have "bmap ip bn s = Ret (c, u)"
    using bn r(1) w(1-5) slot dev f2 fu by (simp add: bmap_def Let_def)
  moreover have "ind u ip = ind s ip \<or> \<not> marked s (ind u ip)" using new iu by (auto split: if_splits)
  ultimately show thesis
    using that [of c u] w(6,13,14,11) fb bn(3) gr c fu r(6) unfolding gets_block_def by auto
qed

lemma bmap_ok:
  assumes t: "txn (k + 5) {} s" and g: "fs_geom s" and op: "1 \<le> l_outstanding s" and f: "fwf s ip"
    and n: "m + 2 \<le> nfree s" and bn: "bn < MAXFILE"
  obtains a t where "bmap ip bn s = Ret (a, t)" "txn k {} t" "gets_block s ip bn a t" "m \<le> nfree t"
proof -
  consider "fblock s ip bn \<noteq> 0" | "fblock s ip bn = 0" "bn < NDIRECT" | "fblock s ip bn = 0" "NDIRECT \<le> bn"
    by linarith
  then show thesis
  proof cases
    case 1
    obtain u where u: "bmap ip bn s = Ret (fblock s ip bn, u)" "txn (k + 5) {} u" "view u = view s" "tstep {} s u"
      by (rule bmap_mapped [OF t g f bn 1])
    note fu = tstep_fs [OF u(4)] and gu = tstep_grow [OF u(4) g u(3)]
    have fb: "fblock u ip = fblock s ip" "ind u ip = ind s ip" using fblock_cong [of u ip s] fu u(3) by simp_all
    have "data_block u = data_block s" using fu by (simp add: data_block_def fun_eq_iff)
    then have "fwf u ip" using f fb gu(2) fu by (simp add: fwf_def)
    moreover have "nfree u = nfree s" using nfree_cong [of u s] fu gu(2) by simp
    moreover have "\<exists>A. inodes u = (inodes s)(ip := (inodes s ip)\<lparr>i_addrs := A\<rparr>)"
      by (rule exI [of _ "i_addrs (inodes s ip)"]) (simp add: fu)
    ultimately have "gets_block s ip bn (fblock s ip bn) u"
      unfolding gets_block_def using gu(1) fb u(3) 1 by simp
    then show thesis using that [OF u(1)] txn_less [OF u(2), of k] \<open>nfree u = nfree s\<close> n by simp
  next
    case 2
    have t2: "txn (Suc (Suc k)) {} s" by (rule txn_less [OF t]) simp
    have n2: "Suc m \<le> nfree s" using n by simp
    show thesis by (rule bmap_direct [OF t2 g op f n2 2(2,1)]) (use that in blast)
  next
    case 3
    then show thesis using bmap_indirect [OF t g op f n _ bn] that by metis
  qed
qed

subsection \<open>Writing bytes\<close>

text \<open>The number of blocks that \<open>n\<close> bytes at \<open>off\<close> touch.\<close>

definition spans :: "nat \<Rightarrow> nat \<Rightarrow> nat" where
  "spans off n = (if n = 0 then 0 else Suc ((off + n - 1) div BSIZE - off div BSIZE))"

lemma spans_step: "0 < n \<Longrightarrow> spans off n = Suc (spans (off + chunk off n) (n - chunk off n))"
proof (cases "n \<le> BSIZE - off mod BSIZE")
  case True
  assume "0 < n"
  moreover from True have "chunk off n = n" by (simp add: chunk_def)
  moreover have "(off + n - 1) div BSIZE = off div BSIZE"
    using chunk_div_mod(1) [of off "off + n - 1" n] \<open>chunk off n = n\<close> \<open>0 < n\<close> by simp
  ultimately show ?thesis by (simp add: spans_def)
next
  case False
  assume "0 < n"
  have c: "chunk off n = BSIZE - off mod BSIZE" using False by (simp add: chunk_def)
  have "off + chunk off n = BSIZE * Suc (off div BSIZE)"
  proof -
    have "off mod BSIZE < BSIZE" by simp
    then show ?thesis unfolding c mult_Suc_right using mult_div_mod_eq [of BSIZE off] by linarith
  qed
  then have d: "(off + chunk off n) div BSIZE = Suc (off div BSIZE)" by simp
  have "Suc (off div BSIZE) \<le> (off + n - 1) div BSIZE"
    unfolding d [symmetric] using False c by (intro div_le_mono) simp
  moreover have lt: "chunk off n < n" using False c by simp
  moreover have "off + chunk off n + (n - chunk off n) - 1 = off + n - 1" using lt by simp
  ultimately show ?thesis using \<open>0 < n\<close> by (simp only: spans_def d) (simp add: Suc_diff_Suc Suc_le_eq)
qed

definition wrote :: "'a fstate_scheme \<Rightarrow> nat \<Rightarrow> nat \<Rightarrow> uchar list \<Rightarrow> 'a fstate_scheme \<Rightarrow> bool" where
  "wrote s ip off src t \<longleftrightarrow>
     grow (insert (ind s ip) ((\<lambda>i. fblock s ip (i div BSIZE)) ` {off..<off + length src})) s t \<and> fwf t ip \<and>
     (\<exists>A. inodes t = (inodes s)(ip := (inodes s ip)\<lparr>i_addrs := A\<rparr>)) \<and>
     (ind t ip = ind s ip \<or> \<not> marked s (ind t ip)) \<and>
     (\<forall>bn<MAXFILE. if fblock s ip bn \<noteq> 0 then fblock t ip bn = fblock s ip bn
        else fblock t ip bn \<noteq> 0 \<longrightarrow> \<not> marked s (fblock t ip bn)) \<and>
     (\<forall>i. off \<le> i \<and> i < off + length src \<longrightarrow> fblock t ip (i div BSIZE) \<noteq> 0 \<and> fbyte t ip i = src ! (i - off)) \<and>
     (\<forall>i<MAXFILE * BSIZE. fblock s ip (i div BSIZE) \<noteq> 0 \<longrightarrow> \<not> (off \<le> i \<and> i < off + length src) \<longrightarrow>
        fbyte t ip i = fbyte s ip i)"

lemma wroteD:
  assumes "wrote s ip off src t"
  shows "grow (insert (ind s ip) ((\<lambda>i. fblock s ip (i div BSIZE)) ` {off..<off + length src})) s t" "fwf t ip"
    "\<exists>A. inodes t = (inodes s)(ip := (inodes s ip)\<lparr>i_addrs := A\<rparr>)" "ind t ip = ind s ip \<or> \<not> marked s (ind t ip)"
    "bn < MAXFILE \<Longrightarrow> fblock s ip bn \<noteq> 0 \<Longrightarrow> fblock t ip bn = fblock s ip bn"
    "bn < MAXFILE \<Longrightarrow> fblock s ip bn = 0 \<Longrightarrow> fblock t ip bn \<noteq> 0 \<Longrightarrow> \<not> marked s (fblock t ip bn)"
    "off \<le> i \<Longrightarrow> i < off + length src \<Longrightarrow> fblock t ip (i div BSIZE) \<noteq> 0"
    "off \<le> i \<Longrightarrow> i < off + length src \<Longrightarrow> fbyte t ip i = src ! (i - off)"
    "i < MAXFILE * BSIZE \<Longrightarrow> fblock s ip (i div BSIZE) \<noteq> 0 \<Longrightarrow> \<not> (off \<le> i \<and> i < off + length src) \<Longrightarrow>
      fbyte t ip i = fbyte s ip i"
  using assms unfolding wrote_def by auto

lemma wrote_trans:
  assumes w: "wrote s ip off a t" and v: "wrote t ip (off + length a) b u" and g: "fs_geom s"
    and fit: "off + length a + length b \<le> MAXFILE * BSIZE"
  shows "wrote s ip off (a @ b) u"
proof -
  note x = wroteD [OF w] and y = wroteD [OF v]
  note gx = growD [OF x(1)]
  have bn: "i div BSIZE < MAXFILE" if "i < MAXFILE * BSIZE" for i using that by (simp add: less_mult_imp_div_less)
  have old: "z < unat (sb_size (fs_sb s)) \<Longrightarrow> \<not> marked t z \<Longrightarrow> \<not> marked s z" for z using gx(3) by blast
  have dt: "data_block t = data_block s" using fstepD [OF gx(1)] by simp
  have size: "fblock u ip n < unat (sb_size (fs_sb s))" if "n < MAXFILE" "fblock u ip n \<noteq> 0" for n
    using fwfD(5) [OF y(2) that] fstepD [OF growD(1) [OF y(1)]] dt by (simp add: data_block_def)
  have isize: "ind u ip < unat (sb_size (fs_sb s))"
  proof (cases "ind u ip = 0")
    case True
    then show ?thesis using fs_geomD(4) [OF g] by (simp add: datastart_def)
  next
    case False
    then show ?thesis using fwfD(3) [OF y(2)] fstepD [OF growD(1) [OF y(1)]] dt by (simp add: data_block_def)
  qed
  have gr: "grow (insert (ind s ip) ((\<lambda>i. fblock s ip (i div BSIZE)) ` {off..<off + length (a @ b)})) s u"
  proof (rule grow_trans [OF grow_mono [OF x(1)] y(1) g])
    fix z assume z: "z \<in> insert (ind t ip) ((\<lambda>i. fblock t ip (i div BSIZE)) ` {off + length a..<off + length a + length b})"
      "area s z" "marked s z"
    then consider "z = ind t ip" | i where "off + length a \<le> i" "i < off + length a + length b" "z = fblock t ip (i div BSIZE)"
      by auto
    then show "z \<in> insert (ind s ip) ((\<lambda>i. fblock s ip (i div BSIZE)) ` {off..<off + length (a @ b)})"
    proof cases
      case 1
      then show ?thesis using x(4) z(3) by auto
    next
      case 2
      have b: "i div BSIZE < MAXFILE" by (rule bn) (use 2(2) fit in simp)
      have "fblock t ip (i div BSIZE) = fblock s ip (i div BSIZE)"
        using x(5,6) [OF b] z(3) 2(3) fwfD(5) [OF x(2) b] by (cases "fblock s ip (i div BSIZE) = 0"; cases "z = 0") auto
      then show ?thesis using 2 by auto
    qed
  qed auto
  have id: "ind u ip = ind s ip \<or> \<not> marked s (ind u ip)" using x(4) y(4) old [OF isize] by auto
  have fbk: "if fblock s ip n \<noteq> 0 then fblock u ip n = fblock s ip n
      else fblock u ip n \<noteq> 0 \<longrightarrow> \<not> marked s (fblock u ip n)" if "n < MAXFILE" for n
    using x(5,6) [OF that] y(5,6) [OF that] old [OF size [OF that]] by (cases "fblock t ip n = 0") auto
  have in1: "fblock u ip (i div BSIZE) \<noteq> 0 \<and> fbyte u ip i = (a @ b) ! (i - off)"
    if "off \<le> i" "i < off + length (a @ b)" for i
  proof (cases "i < off + length a")
    case True
    have i: "i < MAXFILE * BSIZE" using that fit by simp
    have "fblock t ip (i div BSIZE) \<noteq> 0" "fbyte t ip i = a ! (i - off)" using x(7,8) [OF that(1) True] by simp_all
    moreover from this have "fbyte u ip i = fbyte t ip i" by (intro y(9) [OF i]) (use True in auto)
    ultimately show ?thesis using y(5) [OF bn [OF i]] True that(1) by (simp add: nth_append less_diff_conv2)
  next
    case False
    have "\<not> i - off < length a" using False by linarith
    then have "(a @ b) ! (i - off) = b ! (i - (off + length a))" by (simp add: nth_append)
    then show ?thesis using y(7,8) [of i] False that by simp
  qed
  have out: "fbyte u ip i = fbyte s ip i" if "i < MAXFILE * BSIZE" "fblock s ip (i div BSIZE) \<noteq> 0"
    "\<not> (off \<le> i \<and> i < off + length (a @ b))" for i
    using x(9) [OF that(1,2)] x(5) [OF bn [OF that(1)] that(2)] y(9) [OF that(1)] that by auto
  have "\<exists>A. inodes u = (inodes s)(ip := (inodes s ip)\<lparr>i_addrs := A\<rparr>)" using x(3) y(3) by fastforce
  then show ?thesis unfolding wrote_def using gr y(2) id fbk in1 out by blast
qed

lemma write_chunk:
  assumes t: "txn (k + 6) {} s" and g: "fs_geom s" and op: "1 \<le> l_outstanding s" and f: "fwf s ip"
    and n: "m + 2 \<le> nfree s" and bn: "off div BSIZE < MAXFILE" and c: "off mod BSIZE + length src \<le> BSIZE" "0 < length src"
  obtains a s1 b s2 s3 u where "bmap ip (off div BSIZE) s = Ret (a, s1)" "bread (i_dev (inodes s1 ip)) a s1 = Ret (b, s2)"
    "log_write b (upd_buf b (\<lambda>x. x\<lparr>b_data := splice (off mod BSIZE) src (b_data x)\<rparr>) s2) = Ret s3" "brelse b s3 = Ret u"
    "txn k {} u" "wrote s ip off src u" "m \<le> nfree u"
proof -
  let ?bn = "off div BSIZE" and ?o = "off mod BSIZE"
  have t': "txn (Suc k + 5) {} s" using t by (simp add: numeral_eq_Suc)
  obtain a s1 where r: "bmap ip ?bn s = Ret (a, s1)" "txn (Suc k) {} s1" "gets_block s ip ?bn a s1" "m \<le> nfree s1"
    by (rule bmap_ok [OF t' g op f n bn])
  from r(3) have gb: "grow {ind s ip} s s1" "fwf s1 ip" "a \<noteq> 0"
    "\<And>bm. bm < MAXFILE \<Longrightarrow> fblock s1 ip bm = (if bm = ?bn then a else fblock s ip bm)"
    "if fblock s ip ?bn = 0 then data_block s a \<and> \<not> marked s a \<and> view s1 a = replicate BSIZE 0
     else a = fblock s ip ?bn \<and> view s1 = view s"
    "\<exists>A. inodes s1 = (inodes s)(ip := (inodes s ip)\<lparr>i_addrs := A\<rparr>)" "ind s1 ip = ind s ip \<or> \<not> marked s (ind s1 ip)"
    unfolding gets_block_def by blast+
  note g1 = growD [OF gb(1)]
  note f1 = fstepD [OF g1(1)] and w1 = fwfD [OF gb(2)]
  have fa: "fblock s1 ip ?bn = a" using gb(4) [OF bn] by simp
  have da: "data_block s1 a" "a \<noteq> ind s1 ip" using w1(5,7) [OF bn] fa gb(3) by simp_all
  have h: "home s1 a" by (rule data_block_home [OF g1(2) da(1)])
  have len: "length (view s1 a) = BSIZE" by (rule length_view [OF txn_bwf [OF r(2)] home_disk [OF h]])
  let ?d = "splice ?o src (view s1 a)"
  obtain b s2 s3 u where w: "bread ROOTDEV a s1 = Ret (b, s2)" "b_data (bufs s2 b) = view s1 a"
    "log_write b (upd_buf b (\<lambda>x. x\<lparr>b_data := ?d\<rparr>) s2) = Ret s3" "brelse b s3 = Ret u" "txn k {} u"
    "view u = (view s1)(a := ?d)" "tstep {} s1 u"
    by (rule txn_modify [OF r(2) h, of ?d]) (use len c f1 op in \<open>auto simp: held_blocks_def\<close>)
  note fu = tstep_fs [OF w(7)]
  have fb: "fblock u ip = fblock s1 ip" "ind u ip = ind s1 ip" using fblock_cong [of u ip s1] fu w(6) da(2) by auto
  have mk: "marked u x = marked s1 x" if "x < unat (sb_size (fs_sb s1))" for x
    by (rule marked_cong [OF fu(1)]) (use w(6) data_block_not_map [OF da(1) that] in auto)
  have gu: "grow {a} s1 u"
    using tstep_fstep [OF w(7)] mk w(6) fs_geom_step [OF g1(2) w(7) fu(1)] fs_geomD(4) [OF g1(2)] by (auto simp: grow_def)
  have du: "data_block u = data_block s1" using fu by (simp add: data_block_def fun_eq_iff)
  then have wu: "fwf u ip"
    using gb(2) fb mk fu unfolding fwf_def data_block_def by (metis (no_types, lifting))
  have in1: "fbyte u ip i = src ! (i - off)" "i div BSIZE = ?bn" if "off \<le> i" "i < off + length src" for i
  proof -
    have "i < off + chunk off (length src)" using that(2) c by (simp add: chunk_def)
    note e = chunk_div_mod [OF that(1) this]
    show "i div BSIZE = ?bn" by (rule e(1))
    define j where "j = i - off"
    have "i mod BSIZE = ?o + j" "j < length src" using e(2) that by (simp_all add: j_def)
    then show "fbyte u ip i = src ! (i - off)"
      using e(1) fb fa w(6) len c by (simp add: fbyte_def nth_splice j_def [symmetric])
  qed
  have out: "fbyte u ip i = fbyte s ip i" if i: "i < MAXFILE * BSIZE" "fblock s ip (i div BSIZE) \<noteq> 0"
    "\<not> (off \<le> i \<and> i < off + length src)" for i
  proof -
    have bi: "i div BSIZE < MAXFILE" using i(1) by (simp add: less_mult_imp_div_less)
    show ?thesis
    proof (cases "i div BSIZE = ?bn")
      case True
      then have v: "view s1 = view s" "a = fblock s ip ?bn" using gb(5) i(2) by auto
      have "\<not> (?o \<le> i mod BSIZE \<and> i mod BSIZE < ?o + length src)"
        using i(3) True div_mult_mod_eq [of i BSIZE] div_mult_mod_eq [of off BSIZE] by linarith
      then show ?thesis using True fb fa w(6) len c v by (auto simp: fbyte_def nth_splice)
    next
      case False
      let ?x = "fblock s ip (i div BSIZE)"
      have x1: "fblock s1 ip (i div BSIZE) = ?x" using gb(4) [OF bi] False by simp
      then have "?x \<noteq> a" using w1(8) [OF bi bn] i(2) fa False by metis
      moreover have "view s1 ?x = view s ?x"
        using g1(4) [of ?x] fwfD(5-7) [OF f bi i(2)] by (simp add: area_def)
      ultimately show ?thesis using x1 fb w(6) by (simp add: fbyte_def)
    qed
  qed
  have "grow (insert (ind s ip) ((\<lambda>i. fblock s ip (i div BSIZE)) ` {off..<off + length src})) s u"
    by (rule grow_trans [OF grow_mono [OF gb(1)] gu g]) (use gb(5) c(2) in \<open>auto split: if_splits\<close>)
  moreover have "if fblock s ip bm \<noteq> 0 then fblock u ip bm = fblock s ip bm
      else fblock u ip bm \<noteq> 0 \<longrightarrow> \<not> marked s (fblock u ip bm)" if "bm < MAXFILE" for bm
    using gb(4) [OF that] fb(1) gb(5) by auto
  moreover have "\<exists>A. inodes u = (inodes s)(ip := (inodes s ip)\<lparr>i_addrs := A\<rparr>)" using gb(6) fu(2) by simp
  moreover have "ind u ip = ind s ip \<or> \<not> marked s (ind u ip)" using gb(7) fb(2) by simp
  moreover have "fblock u ip (i div BSIZE) \<noteq> 0 \<and> fbyte u ip i = src ! (i - off)" if "off \<le> i" "i < off + length src" for i
    using in1 [OF that] fb(1) fa gb(3) by simp
  ultimately have "wrote s ip off src u" unfolding wrote_def using wu out by blast
  moreover have "nfree u = nfree s1" using nfree_cong [OF fu(1)] mk by simp
  ultimately show thesis
    using that [OF r(1) _ _ w(4,5)] w(1-3) w1(1) r(4) by (simp add: upd_data [of b "splice ?o src" s2])
qed

lemma writei_loop_ok:
  assumes "txn (k + 6 * spans off n) {} s" and "fs_geom s" and "1 \<le> l_outstanding s" and "fwf s ip"
    and "m + 2 * spans off n \<le> nfree s" and "off + n \<le> MAXFILE * BSIZE" and "n \<le> length src" and "0 < n"
  shows "\<exists>t. writei_loop ip off n src s = Ret t \<and> txn k {} t \<and> wrote s ip off (take n src) t \<and> m \<le> nfree t"
  using assms
proof (induction n arbitrary: off src s rule: less_induct)
  case (less n)
  let ?m = "chunk off n" and ?n = "n - chunk off n"
  note sp = spans_step [OF less.prems(8), of off]
  have m: "0 < ?m" "?m \<le> n" "off mod BSIZE + ?m \<le> BSIZE" using less.prems(8) by (simp_all, simp add: chunk_def)
  have bn: "off div BSIZE < MAXFILE" using less.prems(6,8) by (simp add: less_mult_imp_div_less)
  have t: "txn (k + 6 * spans (off + ?m) ?n + 6) {} s" using less.prems(1) sp by (simp add: algebra_simps)
  have f: "m + 2 * spans (off + ?m) ?n + 2 \<le> nfree s" using less.prems(5) sp by simp
  have len: "length (take ?m src) = ?m" using le_trans [OF m(2) less.prems(7)] by (simp add: min_absorb2)
  obtain a s1 b s2 s3 u where w: "bmap ip (off div BSIZE) s = Ret (a, s1)" "bread (i_dev (inodes s1 ip)) a s1 = Ret (b, s2)"
    "log_write b (upd_buf b (\<lambda>x. x\<lparr>b_data := splice (off mod BSIZE) (take ?m src) (b_data x)\<rparr>) s2) = Ret s3" "brelse b s3 = Ret u"
    "txn (k + 6 * spans (off + ?m) ?n) {} u" "wrote s ip off (take ?m src) u" "m + 2 * spans (off + ?m) ?n \<le> nfree u"
    by (rule write_chunk [OF t less.prems(2,3,4) f bn, of "take ?m src"]) (use m len in auto)
  have step: "writei_loop ip off n src s = writei_loop ip (off + ?m) ?n (drop ?m src) u"
    using less.prems(8) w(1-4) by (subst writei_loop.simps) (simp add: Let_def)
  show ?case
  proof (cases "?n = 0")
    case True
    then have "?m = n" using m(2) by simp
    then show ?thesis using step w(5-7) True by (auto simp: writei_loop.simps spans_def)
  next
    case False
    note gr = wroteD(1,2) [OF w(6)]
    have "\<exists>t. writei_loop ip (off + ?m) ?n (drop ?m src) u = Ret t \<and> txn k {} t \<and>
        wrote u ip (off + ?m) (take ?n (drop ?m src)) t \<and> m \<le> nfree t"
      by (rule less.IH [OF _ w(5) growD(2) [OF gr(1)] _ gr(2) w(7)])
        (use m False less.prems(3,6,7) fstepD [OF growD(1) [OF gr(1)]] in auto)
    then obtain t where t: "writei_loop ip (off + ?m) ?n (drop ?m src) u = Ret t" "txn k {} t"
      "wrote u ip (off + ?m) (take ?n (drop ?m src)) t" "m \<le> nfree t" by blast
    have "wrote s ip off (take ?m src @ take ?n (drop ?m src)) t"
    proof (rule wrote_trans [OF w(6) _ less.prems(2)])
      show "wrote u ip (off + length (take ?m src)) (take ?n (drop ?m src)) t" unfolding len by (rule t(3))
      show "off + length (take ?m src) + length (take ?n (drop ?m src)) \<le> MAXFILE * BSIZE"
      proof -
        have "length (take ?n (drop ?m src)) \<le> ?n" by simp
        then show ?thesis unfolding len using m(2) less.prems(6) by linarith
      qed
    qed
    moreover have "take ?m src @ take ?n (drop ?m src) = take n src" using take_add [of ?m ?n src] m(2) by simp
    ultimately show ?thesis using step t by auto
  qed
qed

subsection \<open>Inodes on the disk\<close>

lemma slice_splice_inner:
  assumes "i + length xs \<le> length d" and "j + n \<le> length xs"
  shows "slice (i + j) n (splice i xs d) = slice j n xs"
  by (rule nth_equalityI) (use assms in \<open>auto simp: nth_slice nth_splice\<close>)

lemma get_splice_inner:
  assumes "i + length xs \<le> length d"
  shows "j + 2 \<le> length xs \<Longrightarrow> get16 (i + j) (splice i xs d) = get16 j xs"
    "j + 4 \<le> length xs \<Longrightarrow> get32 (i + j) (splice i xs d) = get32 j xs"
  using assms by (simp_all add: get16_def get32_def slice_splice_inner)

lemma length_concat_le32 [simp]: "length (concat (map le32 xs)) = 4 * length xs"
  by (induction xs) simp_all

lemma get32_concat: "j < length xs \<Longrightarrow> get32 (length ys + 4 * j) (ys @ concat (map le32 xs)) = xs ! j"
proof (induction xs arbitrary: j ys)
  case (Cons x xs)
  show ?case
  proof (cases j)
    case 0
    then show ?thesis by (simp add: get32_def slice_def)
  next
    case (Suc i)
    then show ?thesis using Cons.IH [of i "ys @ le32 x"] Cons.prems by (simp add: add.assoc)
  qed
qed simp

lemma length_dinode_bytes [simp]: "length (d_addrs x) = NDIRECT + 1 \<Longrightarrow> length (dinode_bytes x) = 64"
  by (simp add: dinode_bytes_def)

lemma get_dinode_bytes:
  assumes "length (d_addrs x) = NDIRECT + 1"
  shows "get16 0 (dinode_bytes x) = d_type x" "get16 2 (dinode_bytes x) = d_major x" "get16 4 (dinode_bytes x) = d_minor x"
    "get16 6 (dinode_bytes x) = d_nlink x" "get32 8 (dinode_bytes x) = d_size x"
    "j < NDIRECT + 1 \<Longrightarrow> get32 (12 + 4 * j) (dinode_bytes x) = d_addrs x ! j"
proof -
  let ?h = "le16 (d_type x) @ le16 (d_major x) @ le16 (d_minor x) @ le16 (d_nlink x) @ le32 (d_size x)"
  have b: "dinode_bytes x = ?h @ concat (map le32 (d_addrs x))" by (simp add: dinode_bytes_def)
  show "get16 0 (dinode_bytes x) = d_type x" "get16 2 (dinode_bytes x) = d_major x" "get16 4 (dinode_bytes x) = d_minor x"
    "get16 6 (dinode_bytes x) = d_nlink x" "get32 8 (dinode_bytes x) = d_size x"
    unfolding b get16_def get32_def by (simp_all add: slice_def)
  show "get32 (12 + 4 * j) (dinode_bytes x) = d_addrs x ! j" if "j < NDIRECT + 1"
    using get32_concat [of j "d_addrs x" ?h] that assms unfolding b by simp
qed

text \<open>An inode written into its place of a block is read back, and its neighbours are left alone.\<close>

lemma get_put_dinode:
  assumes "length d = BSIZE" and "k < IPB" and "length (d_addrs x) = NDIRECT + 1"
  shows "get_dinode k (put_dinode k x d) = x"
proof -
  have le: "64 * k + length (dinode_bytes x) \<le> length d" using assms by simp
  note g = get_splice_inner [OF le] and b = get_dinode_bytes [OF assms(3)]
  have "map (\<lambda>j. get32 (64 * k + 12 + 4 * j) (splice (64 * k) (dinode_bytes x) d)) [0..<NDIRECT + 1] = d_addrs x"
    by (rule nth_equalityI) (use g(2) [of "12 + 4 * _"] b(6) assms(3) in \<open>auto simp: add.assoc simp del: upt_Suc\<close>)
  then show ?thesis
    using g(1) [of 0] g(1) [of 2] g(1) [of 4] g(1) [of 6] g(2) [of 8] b assms(3)
    by (simp add: get_dinode_def put_dinode_def del: upt_Suc)
qed

lemma get_put_dinode_other:
  assumes "length d = BSIZE" and "k < IPB" and "j < IPB" and "j \<noteq> k" and "length (d_addrs x) = NDIRECT + 1"
  shows "get_dinode j (put_dinode k x d) = get_dinode j d"
proof -
  have le: "64 * k + length (dinode_bytes x) \<le> length d" using assms by simp
  have "64 * j + 64 \<le> 64 * k \<or> 64 * k + 64 \<le> 64 * j" using assms(4) by linarith
  then have g16: "get16 (64 * j + i) (put_dinode k x d) = get16 (64 * j + i) d" if "i + 2 \<le> 64" for i
    unfolding put_dinode_def using that assms le by (intro get_splice_other) auto
  have g32: "get32 (64 * j + i) (put_dinode k x d) = get32 (64 * j + i) d" if "i + 4 \<le> 64" for i
    unfolding put_dinode_def using \<open>64 * j + 64 \<le> 64 * k \<or> 64 * k + 64 \<le> 64 * j\<close> that assms le
    by (intro get_splice_other) auto
  show ?thesis
    using g16 [of 0] g16 [of 2] g16 [of 4] g16 [of 6] g32 [of 8] g32
    by (simp add: get_dinode_def add.assoc del: upt_Suc)
qed

lemma IBLOCK_home:
  assumes "fs_geom s" and "n < unat (sb_ninodes (fs_sb s))"
  shows "home s (IBLOCK n (fs_sb s))" "IBLOCK n (fs_sb s) < unat (sb_bmapstart (fs_sb s))"
proof -
  note g = fs_geomD [OF assms(1)]
  have "n div IPB \<le> unat (sb_ninodes (fs_sb s)) div IPB" using assms(2) by (intro div_le_mono) simp
  then show "IBLOCK n (fs_sb s) < unat (sb_bmapstart (fs_sb s))" using g(3) by (simp add: IBLOCK_def)
  then show "home s (IBLOCK n (fs_sb s))" using g(1,2,4) by (auto simp: home_def IBLOCK_def datastart_def)
qed

lemma iupdate_ok:
  assumes t: "txn (Suc k) {} s" and g: "fs_geom s" and op: "1 \<le> l_outstanding s"
    and dev: "i_dev (inodes s ip) = ROOTDEV" and n: "i_inum (inodes s ip) < unat (sb_ninodes (fs_sb s))"
    and a: "length (i_addrs (inodes s ip)) = NDIRECT + 1"
  obtains t where "iupdate ip s = Ret t" "txn k {} t" "tstep {} s t"
    "view t = (view s)(IBLOCK (i_inum (inodes s ip)) (fs_sb s) :=
       put_dinode (i_inum (inodes s ip) mod IPB) (disk_part (inodes s ip)) (view s (IBLOCK (i_inum (inodes s ip)) (fs_sb s))))"
proof -
  let ?b = "IBLOCK (i_inum (inodes s ip)) (fs_sb s)" and ?k = "i_inum (inodes s ip) mod IPB"
  let ?d = "put_dinode ?k (disk_part (inodes s ip)) (view s ?b)"
  note h = IBLOCK_home(1) [OF g n]
  have len: "length (view s ?b) = BSIZE" by (rule length_view [OF txn_bwf [OF t] home_disk [OF h]])
  have k: "?k < IPB" by simp
  then have ld: "length ?d = BSIZE" using len a by (simp add: put_dinode_def disk_part_def)
  obtain b s1 s2 t where w: "bread ROOTDEV ?b s = Ret (b, s1)" "b_data (bufs s1 b) = view s ?b"
    "log_write b (upd_buf b (\<lambda>x. x\<lparr>b_data := ?d\<rparr>) s1) = Ret s2" "brelse b s2 = Ret t" "txn k {} t"
    "view t = (view s)(?b := ?d)" "tstep {} s s1" "tstep {} s t"
    by (rule txn_modify [OF t h, of ?d]) (use ld op in \<open>auto simp: held_blocks_def\<close>)
  have "iupdate ip s = Ret t"
    using w(1-4) dev tstep_fs [OF w(7)]
    by (simp add: iupdate_def upd_data [of b "put_dinode ?k (disk_part (inodes s ip))" s1])
  then show thesis using that w(5,6,8) by blast
qed

subsection \<open>Writing to a file\<close>

text \<open>The file after the bytes are in its blocks, when its size is set to \<open>z\<close> and stored, or left.\<close>

lemma content_grown:
  assumes w: "wrote s ip off src t" and z: "unat (i_size (inodes s ip)) = z" and b: "has_blocks s ip z"
    and off: "off \<le> z" and fit: "off + length src \<le> MAXFILE * BSIZE" "z \<le> MAXFILE * BSIZE"
    and u: "\<And>i. i < max z (off + length src) \<Longrightarrow> fbyte u ip i = fbyte t ip i"
      "unat (i_size (inodes u ip)) = max z (off + length src)"
  shows "fcontent u ip = splice off src (fcontent s ip)"
proof (rule nth_equalityI)
  show "length (fcontent u ip) = length (splice off src (fcontent s ip))"
    using u(2) z off by (auto simp: fcontent_def splice_def)
  fix i assume "i < length (fcontent u ip)"
  then have i: "i < max z (off + length src)" using u(2) by (simp add: fcontent_def)
  note d = wroteD [OF w]
  have "fbyte t ip i = splice off src (fcontent s ip) ! i"
  proof (cases "off \<le> i \<and> i < off + length src")
    case True
    then have "i - off < length src" by linarith
    then show ?thesis using True d(8) [of i] off z by (simp add: splice_def nth_append fcontent_def min_def)
  next
    case False
    then have iz: "i < z" using i off by auto
    then have "fbyte t ip i = fbyte s ip i"
      by (intro d(9)) (use False fit b in \<open>auto simp: has_blocks_def\<close>)
    also have "\<dots> = splice off src (fcontent s ip) ! i"
      using False iz off z by (auto simp: splice_def nth_append fcontent_def min_def)
    finally show ?thesis .
  qed
  then show "fcontent u ip ! i = splice off src (fcontent s ip) ! i"
    using u i by (simp add: fcontent_def)
qed

text \<open>
  C5: \<^verbatim>\<open>writei\<close> refines a write into an array of bytes: it returns the number of bytes, and the content of
  the file is the old content with the bytes put in at \<open>off\<close>, extended where they reach beyond its
  end, whether blocks have to be allocated or not. The file stays well formed, and no block in use
  outside this file and the inode's own block changes.
\<close>

theorem writei_content:
  assumes "lwf {} s" and "1 \<le> l_outstanding s" and "fs_geom s" and "fwf s ip" and "i_type (inodes s ip) \<noteq> T_DEV"
    and "has_blocks s ip (unat (i_size (inodes s ip)))" and "unat (i_size (inodes s ip)) \<le> MAXFILE * BSIZE"
    and "i_inum (inodes s ip) < unat (sb_ninodes (fs_sb s))" and "unat off \<le> unat (i_size (inodes s ip))"
    and "unat n = length src" and "0 < length src" and "unat off + length src \<le> MAXFILE * BSIZE"
    and "lh_n s + 6 * int (spans (unat off) (length src)) + 1 < l_size s" and "2 * spans (unat off) (length src) \<le> nfree s"
  shows "\<exists>t. writei dv ip src off n s = Ret (int (length src), t) \<and>
    fcontent t ip = splice (unat off) src (fcontent s ip) \<and> fwf t ip \<and> lwf {} t \<and> fs_geom t \<and>
    (\<forall>x. data_block s x \<longrightarrow> marked s x \<longrightarrow> x \<noteq> ind s ip \<longrightarrow> (\<forall>bn<MAXFILE. x \<noteq> fblock s ip bn) \<longrightarrow> view t x = view s x)"
proof -
  let ?o = "unat off" and ?l = "length src" and ?z = "unat (i_size (inodes s ip))" and ?X = "\<lambda>i. fblock s ip (i div BSIZE)"
  have t: "txn (1 + 6 * spans ?o ?l) {} s" using assms(1,13) by (simp add: txn_def)
  obtain t where w: "writei_loop ip ?o ?l src s = Ret t" "txn 1 {} t" "wrote s ip ?o src t"
    using writei_loop_ok [OF t assms(3,2,4), of 0 src] assms(11,12,14) by auto
  note d = wroteD [OF w(3)] and g = growD [OF wroteD(1) [OF w(3)]]
  obtain A where A: "inodes t = (inodes s)(ip := (inodes s ip)\<lparr>i_addrs := A\<rparr>)" using d(3) by blast
  have fits: "unat (off + n) = ?o + ?l" "\<not> off + n < off"
    using unat_add_fits [of off n] word_add_wraps [of off n] assms(10,12) by auto
  have sz: "sint n = int ?l" using sint_small [of n] assms(10,12) by simp
  have wr: "writei dv ip src off n s = (if ?z < ?o + ?l
      then obind (iupdate ip (upd_inode ip (\<lambda>x. x\<lparr>i_size := off + n\<rparr>) t)) (\<lambda>u. Ret (int ?l, u)) else Ret (int ?l, t))"
    using assms(5,9-12) fits sz w(1) A
    by (simp add: writei_def word_less_nat_alt word_le_nat_alt unat_of_nat not_less)
  have keep: "view t x = view s x" if k: "data_block s x" "marked s x" "x \<noteq> ind s ip" "\<forall>bn<MAXFILE. x \<noteq> fblock s ip bn" for x
  proof (rule g(4))
    show "x \<notin> insert (ind s ip) (?X ` {?o..<?o + ?l})"
    proof
      assume "x \<in> insert (ind s ip) (?X ` {?o..<?o + ?l})"
      then obtain i where i: "i < ?o + ?l" "x = ?X i" using k(3) by auto
      have "i div BSIZE < MAXFILE" by (rule less_mult_imp_div_less) (use i(1) assms(12) in linarith)
      then show False using k(4) i(2) by blast
    qed
  qed (use k in \<open>simp_all add: area_def\<close>)
  show ?thesis
  proof (cases "?z < ?o + ?l")
    case False
    then have "fcontent t ip = splice ?o src (fcontent s ip)"
      by (intro content_grown [OF w(3) refl assms(6,9,12,7)]) (use A in auto)
    then show ?thesis using False wr d(2) txn_lwf [OF w(2)] g(2) keep by auto
  next
    case True
    let ?t = "upd_inode ip (\<lambda>x. x\<lparr>i_size := off + n\<rparr>) t"
    have t': "txn (Suc 0) {} ?t" using w(2) by simp
    obtain u where u: "iupdate ip ?t = Ret u" "txn 0 {} u" "tstep {} ?t u"
      "view u = (view ?t)(IBLOCK (i_inum (inodes ?t ip)) (fs_sb ?t) := put_dinode (i_inum (inodes ?t ip) mod IPB)
         (disk_part (inodes ?t ip)) (view ?t (IBLOCK (i_inum (inodes ?t ip)) (fs_sb ?t))))"
      by (rule iupdate_ok [OF t']) (use g(2) fstepD [OF g(1)] assms(2,8) A fwfD [OF d(2)] in auto)
    note fu = tstep_fs [OF u(3)] and ft = fstepD [OF g(1)]
    have ib: "IBLOCK (i_inum (inodes ?t ip)) (fs_sb ?t) < unat (sb_bmapstart (fs_sb s))"
      using IBLOCK_home(2) [OF assms(3,8)] A ft by simp
    have vd: "view u x = view t x" if "unat (sb_bmapstart (fs_sb s)) \<le> x" for x using u(4) ib that by auto
    have vdb: "view u x = view t x" if "data_block t x" for x
      using that vd [of x] ft by (simp add: data_block_def datastart_def)
    have iu: "inodes u ip = (inodes t ip)\<lparr>i_size := off + n\<rparr>" using fu by simp
    have id: "ind u ip = ind t ip" using iu by (simp add: ind_def)
    have fb: "fblock u ip = fblock t ip"
      using id iu vdb [OF fwfD(3) [OF d(2)]] by (auto simp: fblock_def fun_eq_iff)
    have mk: "marked u x = marked t x" for x
      by (rule marked_cong) (use fu vd [of "BBLOCK x (fs_sb t)"] ft in \<open>auto simp: BBLOCK_def\<close>)
    have db: "data_block u = data_block t" using fu by (simp add: data_block_def fun_eq_iff)
    have "fwf u ip" using d(2) fb id mk db iu by (simp add: fwf_def)
    moreover have "fs_geom u" by (rule fs_geom_step [OF _ u(3)]) (use g(2) fu mk in auto)
    moreover have "fcontent u ip = splice ?o src (fcontent s ip)"
    proof (rule content_grown [OF w(3) refl assms(6,9,12,7)])
      fix i assume "i < max ?z (?o + ?l)"
      then have i: "i < MAXFILE * BSIZE" "i < ?z \<or> ?o \<le> i \<and> i < ?o + ?l" using assms(7,9,12) by auto
      then have bn: "i div BSIZE < MAXFILE" by (simp add: less_mult_imp_div_less)
      have "fblock t ip (i div BSIZE) \<noteq> 0" using i(2) d(7) [of i] d(5) [OF bn] assms(6) by (auto simp: has_blocks_def)
      then show "fbyte u ip i = fbyte t ip i" using vdb [OF fwfD(5) [OF d(2) bn]] fb by (simp add: fbyte_def)
    qed (use iu True fits in simp)
    ultimately show ?thesis
      using True wr u(1) txn_lwf [OF u(2)] keep vdb ft by auto
  qed
qed

text \<open>A file of 600 bytes in blocks 35 and 36 of the small file system.\<close>

definition small_inode :: inode where
  "small_inode = \<lparr>i_dev = 1, i_inum = 2, i_ref = 1, i_lock = sl_free, i_valid = True, i_type = T_FILE, i_major = 0,
     i_minor = 0, i_nlink = 1, i_size = 600, i_addrs = [35, 36] @ replicate 11 0\<rparr>"

definition small_file :: fstate where
  "small_file = small_fs\<lparr>inodes := (\<lambda>_. small_inode)\<rparr>"

lemma small_file:
  "lwf {} small_file" "l_outstanding small_file = 1" "lh_n small_file = 0" "l_size small_file = 30"
  "fs_sb small_file = small_sb" "inodes small_file = (\<lambda>_. small_inode)" "view small_file = small_disk"
  "marked small_file = marked small_fs" "fs_geom small_file"
proof -
  note e = lwf_fields [of small_file small_fs] and f = small_fs
  show v: "lwf {} small_file" "l_outstanding small_file = 1" "lh_n small_file = 0" "l_size small_file = 30"
    "fs_sb small_file = small_sb" "inodes small_file = (\<lambda>_. small_inode)" "view small_file = small_disk"
    using e f by (simp_all add: small_file_def)
  show m: "marked small_file = marked small_fs" using v f by (simp add: marked_def fun_eq_iff)
  show "fs_geom small_file" using small_geom m by (simp add: fs_geom_def small_file_def)
qed

lemma small_blocks:
  "ind small_file ip = 0"
  "bn < MAXFILE \<Longrightarrow> fblock small_file ip bn = (if bn = 0 then 35 else if bn = 1 then 36 else 0)"
proof -
  show i: "ind small_file ip = 0" using small_file(6) by (simp add: ind_def small_inode_def)
  show "fblock small_file ip bn = (if bn = 0 then 35 else if bn = 1 then 36 else 0)" if "bn < MAXFILE"
  proof (cases "bn < NDIRECT")
    case True
    then have "([35, 36] @ replicate 11 0 :: uint list) ! bn = (if bn = 0 then 35 else if bn = 1 then 36 else 0)"
      by (auto simp: nth_append nth_Cons' )
    then show ?thesis using True small_file(6) by (simp add: fblock_def small_inode_def)
  qed (use i in \<open>simp add: fblock_def\<close>)
qed

lemma small_fwf: "fwf small_file ip"
proof -
  have d: "data_block small_file x \<and> marked small_file x" if "35 \<le> x" "x < 40" for x
    using that small_file(5,8) small_marked [of x] by (simp add: data_block_def datastart_def small_sb_def)
  then show ?thesis
    using small_file(6) small_blocks d [of 35] d [of 36] by (simp add: fwf_def small_inode_def)
qed

lemma small_has_blocks: "has_blocks small_file ip 600"
  unfolding has_blocks_def
proof (intro allI impI)
  fix i :: nat assume "i < 600"
  then have "i div BSIZE < 2" by (intro less_mult_imp_div_less) simp
  then show "fblock small_file ip (i div BSIZE) \<noteq> 0" using small_blocks(2) [of "i div BSIZE" ip] by simp
qed

lemma small_free: "10 \<le> nfree small_file"
proof -
  have "{40..<50} \<subseteq> {x. x < unat (sb_size (fs_sb small_file)) \<and> \<not> marked small_file x}"
    using small_file(5,8) small_marked by (auto simp: small_sb_def)
  then have "card {40..<50 :: nat} \<le> nfree small_file" unfolding nfree_def by (rule card_mono [rotated]) simp
  then show ?thesis by simp
qed

definition no_devs :: "fstate devtab" where
  "no_devs = (\<lambda>_. \<lparr>dev_read = None, dev_write = None\<rparr>)"

lemma writei_content_witness:
  "\<exists>t. writei no_devs 0 (replicate 700 7) 500 700 small_file = Ret (700, t) \<and>
    fcontent t 0 = splice 500 (replicate 700 7) (fcontent small_file 0)"
proof -
  have i: "i_size (inodes small_file 0) = 600" "i_type (inodes small_file 0) = T_FILE" "i_inum (inodes small_file 0) = 2"
    using small_file(6) by (simp_all add: small_inode_def)
  have s: "spans 500 700 = 3" by (simp add: spans_def)
  show ?thesis
    using writei_content [OF small_file(1) _ small_file(9) small_fwf, of 0 500 700 "replicate 700 7" no_devs]
      small_file(2-5) small_has_blocks [of 0] small_free i s by (auto simp: small_sb_def)
qed

lemma readi_content_witness:
  "\<exists>t. readi no_devs 0 590 100 small_file = Ret (10, drop 590 (fcontent small_file 0), t)"
proof -
  have i: "i_size (inodes small_file 0) = 600" "i_type (inodes small_file 0) = T_FILE"
    using small_file(6) by (simp_all add: small_inode_def)
  then show ?thesis
    using readi_content [OF small_file(1,9) small_fwf, of 0 no_devs 590 100] small_has_blocks [of 0]
    by (auto simp: fcontent_def Let_def)
qed

end
