(* ===== verification/Icache.thy ===== *)
theory Icache
  imports Reserve Writei
begin

text \<open>
  The inode cache of \<^verbatim>\<open>xv6-public/fs.c\<close>: whatever sequence of \<^verbatim>\<open>iget\<close>, \<^verbatim>\<open>idup\<close> and \<^verbatim>\<open>iput\<close> runs, an inode has at
  most one entry that is referenced, and the reference counts count the references held.
\<close>

subsection \<open>What the operations keep\<close>

text \<open>The identity and the reference count of every entry.\<close>

definition ids :: "'a fstate_scheme \<Rightarrow> nat \<Rightarrow> nat \<times> nat \<times> int" where
  "ids s i = (i_dev (inodes s i), i_inum (inodes s i), i_ref (inodes s i))"

lemma fs_bstate:
  fixes s t :: "'a fstate_scheme"
  assumes "bstate.more t = bstate.more s"
  shows "inodes t = inodes s"
  using assms by (cases s; cases t; simp)

lemma fs_mach:
  fixes s t :: "'a fstate_scheme"
  assumes "mach.more t = mach.more s"
  shows "inodes t = inodes s"
  using assms by (cases s; cases t; simp)

lemma log_write_inodes: "log_write b s = Ret t \<Longrightarrow> inodes t = inodes s" for s t :: "'a fstate_scheme"
  by (fastforce simp: log_write_def Let_def upd_buf_def split: if_splits
      dest!: acquire_more [THEN fs_mach] release_more [THEN fs_mach])

lemmas io_inodes = bread_more [THEN fs_bstate] brelse_more [THEN fs_bstate] log_write_inodes

lemma upd_buf_inodes [simp]: "inodes (upd_buf b f s) = inodes s" for s :: "'a fstate_scheme"
  by (simp add: upd_buf_def)

lemma bfree_inodes: "bfree dev b s = Ret t \<Longrightarrow> inodes t = inodes s"
  by (fastforce simp: bfree_def Let_def split: if_splits dest!: io_inodes)

lemma iupdate_inodes: "iupdate ip s = Ret t \<Longrightarrow> inodes t = inodes s"
  by (fastforce simp: iupdate_def dest!: io_inodes)

lemma ids_upd [simp]:
  "(\<And>x. i_dev (f x) = i_dev x \<and> i_inum (f x) = i_inum x \<and> i_ref (f x) = i_ref x) \<Longrightarrow> ids (upd_inode ip f s) = ids s"
  by (auto simp: ids_def upd_inode_def fun_eq_iff)

lemma ids_cong: "inodes t = inodes s \<Longrightarrow> ids t = ids s"
  by (simp add: ids_def fun_eq_iff)

lemmas ids_io = io_inodes [THEN ids_cong] bfree_inodes [THEN ids_cong] iupdate_inodes [THEN ids_cong]

lemma set_addr_ids [simp]: "ids (set_addr ip i a s) = ids s"
  by (simp add: set_addr_def)

lemma itrunc_direct_ids: "itrunc_direct ip i n s = Ret t \<Longrightarrow> ids t = ids s"
proof (induction n arbitrary: i s)
  case (Suc n)
  from Suc.prems show ?case
    by (auto split: if_splits dest!: Suc.IH bfree_inodes [THEN ids_cong])
qed simp

lemma itrunc_indirect_ids: "itrunc_indirect ip bp i n s = Ret t \<Longrightarrow> ids t = ids s"
proof (induction n arbitrary: i s)
  case (Suc n)
  from Suc.prems show ?case
    by (auto simp: Let_def split: if_splits dest!: Suc.IH bfree_inodes [THEN ids_cong])
qed simp

lemma itrunc_ids: "itrunc ip s = Ret t \<Longrightarrow> ids t = ids s"
  by (auto simp: itrunc_def Let_def split: if_splits dest!: itrunc_direct_ids itrunc_indirect_ids ids_io)

text \<open>The effect of each operation on the identities and counts.\<close>

lemmas lock_ids = acquire_more [THEN fs_mach, THEN ids_cong] release_more [THEN fs_mach, THEN ids_cong]
  sleeplock_more(1,2) [THEN fs_mach, THEN ids_cong]

lemma iput_ids:
  assumes "iput ip s = Ret t"
  shows "ids t = (ids s)(ip := (i_dev (inodes s ip), i_inum (inodes s ip), i_ref (inodes s ip) - 1))"
proof -
  let ?ref = "\<lambda>u. upd_inode ip (\<lambda>x. x\<lparr>i_ref := i_ref x - 1\<rparr>) u"
  have dec: "ids (?ref u) = (ids u)(ip := (fst (ids u ip), fst (snd (ids u ip)), snd (snd (ids u ip)) - 1))" for u
    by (auto simp: ids_def upd_inode_def fun_eq_iff)
  have "ids t = (ids s)(ip := (fst (ids s ip), fst (snd (ids s ip)), snd (snd (ids s ip)) - 1))"
    using assms
    by (auto simp: iput_def Let_def dec split: if_splits dest!: lock_ids itrunc_ids ids_io)
  then show ?thesis by (simp add: ids_def)
qed

lemma idup_ids:
  assumes "idup ip s = Ret (r, t)"
  shows "r = ip" "ids t = (ids s)(ip := (i_dev (inodes s ip), i_inum (inodes s ip), i_ref (inodes s ip) + 1))"
proof -
  obtain s1 where s1: "acquire LIcache s = Ret s1" "release LIcache (upd_inode ip (\<lambda>x. x\<lparr>i_ref := i_ref x + 1\<rparr>) s1) = Ret t"
    "r = ip" using assms by (auto simp: idup_def)
  show "r = ip" by (rule s1(3))
  have "inodes s1 = inodes s" "inodes t = inodes (upd_inode ip (\<lambda>x. x\<lparr>i_ref := i_ref x + 1\<rparr>) s1)"
    using acquire_more [OF s1(1), THEN fs_mach] release_more [OF s1(2), THEN fs_mach] .
  then show "ids t = (ids s)(ip := (i_dev (inodes s ip), i_inum (inodes s ip), i_ref (inodes s ip) + 1))"
    by (auto simp: ids_def upd_inode_def fun_eq_iff)
qed

lemma iget_ids:
  assumes "iget dev inum s = Ret (ip, t)"
  shows "ip < NINODE \<and>
    (if \<exists>i<NINODE. i_ref (inodes s i) > 0 \<and> i_dev (inodes s i) = dev \<and> i_inum (inodes s i) = inum
     then i_ref (inodes s ip) > 0 \<and> i_dev (inodes s ip) = dev \<and> i_inum (inodes s ip) = inum \<and>
       ids t = (ids s)(ip := (dev, inum, i_ref (inodes s ip) + 1))
     else i_ref (inodes s ip) = 0 \<and> ids t = (ids s)(ip := (dev, inum, 1)))"
proof -
  obtain s1 where s1: "acquire LIcache s = Ret s1" using assms by (auto simp: iget_def)
  have in1: "inodes s1 = inodes s" using acquire_more [OF s1, THEN fs_mach] .
  let ?P = "\<lambda>i. i_ref (inodes s i) > 0 \<and> i_dev (inodes s i) = dev \<and> i_inum (inodes s i) = inum"
  have all: "set all_inodes = {..<NINODE}" by (simp only: all_inodes_def set_upt atLeast0LessThan)
  show ?thesis
  proof (cases "List.find ?P all_inodes")
    case (Some j)
    then have j: "j < NINODE" "?P j" using all by (auto simp: find_Some_iff)
    with assms s1 in1 Some have r: "ip = j" "release LIcache (upd_inode j (\<lambda>x. x\<lparr>i_ref := i_ref x + 1\<rparr>) s1) = Ret t"
      by (auto simp: iget_def)
    have "inodes t = inodes (upd_inode j (\<lambda>x. x\<lparr>i_ref := i_ref x + 1\<rparr>) s1)"
      using release_more [OF r(2), THEN fs_mach] .
    then have "ids t = (ids s)(j := (dev, inum, i_ref (inodes s j) + 1))"
      using in1 j by (auto simp: ids_def upd_inode_def fun_eq_iff)
    then show ?thesis using j r(1) by auto
  next
    case None
    then have none: "\<not> (\<exists>i<NINODE. ?P i)" using all by (auto simp: find_None_iff)
    from assms s1 in1 None obtain j where f: "List.find (\<lambda>i. i_ref (inodes s i) = 0) all_inodes = Some j" "ip = j"
      and r: "release LIcache (upd_inode j (\<lambda>x. x\<lparr>i_dev := dev, i_inum := inum, i_ref := 1, i_valid := False\<rparr>) s1) = Ret t"
      by (auto simp: iget_def split: option.splits)
    have j: "j < NINODE" "i_ref (inodes s j) = 0" using f all by (auto simp: find_Some_iff)
    have "inodes t = inodes (upd_inode j (\<lambda>x. x\<lparr>i_dev := dev, i_inum := inum, i_ref := 1, i_valid := False\<rparr>) s1)"
      using release_more [OF r, THEN fs_mach] .
    then have "ids t = (ids s)(j := (dev, inum, 1))"
      using in1 by (auto simp: ids_def upd_inode_def fun_eq_iff)
    then show ?thesis using none j f(2) by auto
  qed
qed

subsection \<open>References\<close>

text \<open>
  The second component counts the references that callers hold to each entry. A caller only
  duplicates and drops references it holds; other operations keep identities and counts.
\<close>

definition ic_init :: "'a fstate_scheme \<times> (nat \<Rightarrow> nat) \<Rightarrow> bool" where
  "ic_init st \<longleftrightarrow> (\<forall>i. i_ref (inodes (fst st) i) = 0) \<and> snd st = (\<lambda>_. 0)"

inductive ic_step :: "'a fstate_scheme \<times> (nat \<Rightarrow> nat) \<Rightarrow> 'a fstate_scheme \<times> (nat \<Rightarrow> nat) \<Rightarrow> bool" where
  ic_get: "iget dev inum s = Ret (ip, t) \<Longrightarrow> ic_step (s, R) (t, R(ip := R ip + 1))"
| ic_dup: "0 < R ip \<Longrightarrow> idup ip s = Ret (r, t) \<Longrightarrow> ic_step (s, R) (t, R(r := R r + 1))"
| ic_put: "0 < R ip \<Longrightarrow> iput ip s = Ret t \<Longrightarrow> ic_step (s, R) (t, R(ip := R ip - 1))"
| ic_other: "ids t = ids s \<Longrightarrow> ic_step (s, R) (t, R)"

definition refs_ok :: "(nat \<Rightarrow> nat \<times> nat \<times> int) \<Rightarrow> (nat \<Rightarrow> nat) \<Rightarrow> bool" where
  "refs_ok f R \<longleftrightarrow> (\<forall>i. snd (snd (f i)) = int (R i)) \<and>
     (\<forall>i<NINODE. \<forall>j<NINODE. 0 < R i \<longrightarrow> 0 < R j \<longrightarrow> fst (f i) = fst (f j) \<longrightarrow> fst (snd (f i)) = fst (snd (f j)) \<longrightarrow> i = j)"

definition icache_ok :: "'a fstate_scheme \<times> (nat \<Rightarrow> nat) \<Rightarrow> bool" where
  "icache_ok st \<longleftrightarrow> refs_ok (ids (fst st)) (snd st)"

lemma icache_ok_iff:
  "icache_ok (s, R) \<longleftrightarrow> (\<forall>i. i_ref (inodes s i) = int (R i)) \<and>
     (\<forall>i<NINODE. \<forall>j<NINODE. 0 < R i \<longrightarrow> 0 < R j \<longrightarrow> i_dev (inodes s i) = i_dev (inodes s j) \<longrightarrow>
        i_inum (inodes s i) = i_inum (inodes s j) \<longrightarrow> i = j)"
  by (simp add: icache_ok_def refs_ok_def ids_def)

lemma refs_ok_upd:
  assumes "refs_ok f R"
    and "\<And>i. i < NINODE \<Longrightarrow> ip < NINODE \<Longrightarrow> 0 < R i \<Longrightarrow> 0 < n \<Longrightarrow> fst (f i) = d \<Longrightarrow> fst (snd (f i)) = k \<Longrightarrow> i = ip"
  shows "refs_ok (f(ip := (d, k, int n))) (R(ip := n))"
  unfolding refs_ok_def
proof (intro conjI allI impI)
  show "snd (snd ((f(ip := (d, k, int n))) i)) = int ((R(ip := n)) i)" for i
    using assms(1) by (simp add: refs_ok_def)
  fix i j
  assume "i < NINODE" "j < NINODE" "0 < (R(ip := n)) i" "0 < (R(ip := n)) j"
    "fst ((f(ip := (d, k, int n))) i) = fst ((f(ip := (d, k, int n))) j)"
    "fst (snd ((f(ip := (d, k, int n))) i)) = fst (snd ((f(ip := (d, k, int n))) j))"
  then show "i = j"
    using assms(2) [of i] assms(2) [of j] assms(1) unfolding refs_ok_def
    by (cases "i = ip"; cases "j = ip") auto
qed

lemma refs_ok_same:
  assumes "refs_ok f R" and "0 < R ip"
  shows "refs_ok (f(ip := (fst (f ip), fst (snd (f ip)), int n))) (R(ip := n))"
  using assms by (intro refs_ok_upd) (auto simp: refs_ok_def)

lemma icache_ok_step:
  assumes "icache_ok st" and "ic_step st st'"
  shows "icache_ok st'"
  using assms(2,1)
proof cases
  case (ic_get dev inum s ip t R)
  have ok: "refs_ok (ids s) R" using assms(1) ic_get(1) by (simp add: icache_ok_def)
  then have ref: "i_ref (inodes s i) = int (R i)" for i by (simp add: refs_ok_def ids_def)
  note g = iget_ids [OF ic_get(3)]
  have t: "ids t = (ids s)(ip := (dev, inum, int (R ip + 1)))"
    using g ref [of ip] by (auto split: if_splits)
  have "i = ip" if i: "i < NINODE" "0 < R i" "fst (ids s i) = dev" "fst (snd (ids s i)) = inum" for i
  proof -
    have "\<exists>i<NINODE. i_ref (inodes s i) > 0 \<and> i_dev (inodes s i) = dev \<and> i_inum (inodes s i) = inum"
      using i ref by (auto simp: ids_def)
    then have "0 < R ip" "fst (ids s ip) = dev" "fst (snd (ids s ip)) = inum" "ip < NINODE"
      using g ref by (auto simp: ids_def)
    then show ?thesis using ok i unfolding refs_ok_def by blast
  qed
  then show ?thesis using refs_ok_upd [OF ok, of ip "R ip + 1" dev inum] by (simp add: icache_ok_def ic_get(2) t)
next
  case (ic_dup R ip s r t)
  have ok: "refs_ok (ids s) R" using assms(1) ic_dup(1) by (simp add: icache_ok_def)
  then have "i_ref (inodes s ip) = int (R ip)" by (simp add: refs_ok_def ids_def)
  then show ?thesis
    using refs_ok_same [OF ok ic_dup(3), of "R ip + 1"] idup_ids [OF ic_dup(4)]
    by (simp add: icache_ok_def ic_dup(2) ids_def add.commute)
next
  case (ic_put R ip s t)
  have ok: "refs_ok (ids s) R" using assms(1) ic_put(1) by (simp add: icache_ok_def)
  then have "i_ref (inodes s ip) = int (R ip)" by (simp add: refs_ok_def ids_def)
  then show ?thesis
    using refs_ok_same [OF ok ic_put(3), of "R ip - 1"] iput_ids [OF ic_put(4)] ic_put(3)
    by (simp add: icache_ok_def ic_put(2) ids_def of_nat_diff)
next
  case (ic_other t s R)
  then show ?thesis using assms(1) by (simp add: icache_ok_def)
qed

interpretation icache: invariant_system ic_init ic_step icache_ok
proof unfold_locales
  show "icache_ok st" if "ic_init st" for st :: "'a fstate_scheme \<times> (nat \<Rightarrow> nat)"
    using that by (simp add: ic_init_def icache_ok_def refs_ok_def ids_def)
qed (rule icache_ok_step)

text \<open>
  C11: in every state that operations on the inode cache can reach, the count of an entry is the number of
  references to it that are held, and no two entries in use stand for the same inode. So \<^verbatim>\<open>iget\<close> returns
  the entry through which others already use the inode, or an entry nobody uses.
\<close>

theorem icache_refs:
  assumes "reachable ic_init ic_step (s, R)"
  shows "(\<forall>i. i_ref (inodes s i) = int (R i)) \<and>
    (\<forall>i<NINODE. \<forall>j<NINODE. 0 < R i \<longrightarrow> 0 < R j \<longrightarrow> i_dev (inodes s i) = i_dev (inodes s j) \<longrightarrow>
       i_inum (inodes s i) = i_inum (inodes s j) \<longrightarrow> i = j) \<and>
    (iget dev inum s = Ret (ip, t) \<longrightarrow> 0 < R ip \<longrightarrow> i_dev (inodes s ip) = dev \<and> i_inum (inodes s ip) = inum)"
proof -
  have ok: "icache_ok (s, R)" by (rule icache.reachable_invar [OF assms])
  moreover have "i_dev (inodes s ip) = dev \<and> i_inum (inodes s ip) = inum"
    if "iget dev inum s = Ret (ip, t)" "0 < R ip"
    using iget_ids [OF that(1)] that(2) ok by (auto simp: icache_ok_iff split: if_splits)
  ultimately show ?thesis by (auto simp: icache_ok_iff)
qed

definition idle_inodes :: fstate where
  "idle_inodes = small_fs\<lparr>inodes := (\<lambda>_. small_inode\<lparr>i_ref := 0\<rparr>)\<rparr>"

lemma icache_refs_witness:
  "\<exists>t. iget 1 5 idle_inodes = Ret (0, t) \<and> reachable ic_init ic_step (t, (\<lambda>_. 0)(0 := 1)) \<and> i_ref (inodes t 0) = 1"
proof -
  have "lwf {} idle_inodes" using lwf_fields [of idle_inodes small_fs] small_fs(1) by (simp add: idle_inodes_def)
  then have k: "kernel_ok idle_inodes" by (simp add: lwf_def bwf_def)
  have a: "all_inodes = 0 # [Suc 0..<NINODE]" unfolding all_inodes_def by (rule upt_conv_Cons) simp
  have r0: "i_ref (inodes idle_inodes i) = 0" for i by (simp add: idle_inodes_def)
  have "List.find (\<lambda>ip. i_ref (inodes idle_inodes ip) > 0 \<and> i_dev (inodes idle_inodes ip) = 1 \<and>
      i_inum (inodes idle_inodes ip) = 5) all_inodes = None" using r0 by (simp add: find_None_iff)
  moreover have "List.find (\<lambda>ip. i_ref (inodes idle_inodes ip) = 0) all_inodes = Some 0" using r0 by (simp add: a)
  ultimately obtain t where t: "iget 1 5 idle_inodes = Ret (0, t)"
    using k r0 by (simp add: iget_def crit_simps kernel_ok_lock_map upd_inode_def)
  have "reachable ic_init ic_step (idle_inodes, \<lambda>_. 0)"
    by (rule reachable.intros) (simp add: ic_init_def r0)
  then have r: "reachable ic_init ic_step (t, (\<lambda>_. 0)(0 := 1))"
    using ic_get [OF t, of "\<lambda>_. 0"] by (auto intro: reachable.intros)
  then show ?thesis using t icache_refs [OF r] by auto
qed

end
