(* ===== verification/Live.thy ===== *)
theory Live
  imports Proc
begin

text \<open>
  Progress of the scheduler and of the loop that frees memory: a process that stays runnable is
  chosen in every pass of \<^verbatim>\<open>scheduler\<close> of \<^verbatim>\<open>xv6-public/proc.c\<close>, and \<^verbatim>\<open>deallocuvm\<close> of \<^verbatim>\<open>vm.c\<close> ends although it skips
  whole page tables.
\<close>

subsection \<open>A pass of the scheduler\<close>

text \<open>
  The rest of a pass, from what the loop of the scheduler gives: the slots it chooses. Between two
  choices the chosen process runs and changes the state, but nobody else runs process \<open>p\<close>, which
  waits its turn.
\<close>

definition keeps_waiting :: "nat \<Rightarrow> nat \<Rightarrow> 'a mach_scheme \<Rightarrow> 'a mach_scheme \<Rightarrow> bool" where
  "keeps_waiting p j s t \<longleftrightarrow> length (procs t) = length (procs s) \<and>
     (p \<noteq> j \<longrightarrow> p_state (procs s ! p) = RUNNABLE \<longrightarrow> p_state (procs t ! p) = RUNNABLE)"

inductive sched_run :: "rtcdate \<Rightarrow> nat \<Rightarrow> (nat option \<times> 'a mach_scheme) outcome \<Rightarrow> nat list \<Rightarrow> bool" for now p where
  run_end: "sched_run now p (Ret (None, t)) []"
| run_pick: "keeps_waiting p j t u \<Longrightarrow> sched_run now p (scheduler_back now j u) js \<Longrightarrow>
    sched_run now p (Ret (Some j, t)) (j # js)"

lemma find_proc_None: "find_proc P i ps = None \<Longrightarrow> k < length ps \<Longrightarrow> \<not> P (ps ! k)"
proof (induction ps arbitrary: i k)
  case (Cons a ps)
  then show ?case by (cases k) (auto split: if_splits)
qed simp

lemma switchuvm_keeps: "switchuvm p s = Ret t \<Longrightarrow> keeps s t"
  by (auto simp: switchuvm_def keeps_def pushcli_keeps split: option.splits if_splits dest!: popcli_keeps)

lemma scheduler_pick_None:
  assumes "scheduler_pick now i s = Ret (None, t)" and "i \<le> p" and "p < length (procs s)"
  shows "p_state (procs s ! p) \<noteq> RUNNABLE"
proof -
  have "find_proc (\<lambda>p. p_state p = RUNNABLE) i (drop i (procs s)) = None"
    using assms(1) by (auto simp: scheduler_pick_def split: option.splits)
  from find_proc_None [OF this, of "p - i"] show ?thesis using assms(2,3) by simp
qed

lemma scheduler_pick_Some:
  assumes "scheduler_pick now i s = Ret (Some j, t)"
  shows "i \<le> j" "j < length (procs s)" "length (procs t) = length (procs s)"
    "i \<le> p \<Longrightarrow> p < length (procs s) \<Longrightarrow> p_state (procs s ! p) = RUNNABLE \<Longrightarrow> j \<le> p"
    "p \<noteq> j \<Longrightarrow> procs t ! p = procs s ! p"
proof -
  have f: "find_proc (\<lambda>p. p_state p = RUNNABLE) i (drop i (procs s)) = Some j"
    and r: "\<exists>s1. switchuvm (Some j) (s\<lparr>cur := Some j\<rparr>) = Ret s1 \<and>
      t = set_proc j (\<lambda>p. p\<lparr>p_switchedIn := now, p_state := RUNNING\<rparr>) s1"
    using assms by (auto simp: scheduler_pick_def split: option.splits)
  note g = find_proc_Some [OF f]
  then have le: "i \<le> j" "j < i + (length (procs s) - i)" by simp_all
  show "i \<le> j" "j < length (procs s)" using le by simp_all
  show "length (procs t) = length (procs s)" "p \<noteq> j \<Longrightarrow> procs t ! p = procs s ! p"
    using r by (auto simp: keeps_def dest!: switchuvm_keeps)
  show "j \<le> p" if p: "i \<le> p" "p < length (procs s)" "p_state (procs s ! p) = RUNNABLE"
  proof (rule ccontr)
    assume "\<not> j \<le> p"
    then have "p - i < j - i" using p(1) by simp
    then have "p_state (drop i (procs s) ! (p - i)) \<noteq> RUNNABLE" using g by blast
    then show False using p by simp
  qed
qed

lemma sched_run_ok:
  assumes "sched_run now p r js" and "r = scheduler_pick now i s"
  shows "length js \<le> length (procs s) - i \<and>
    (i \<le> p \<longrightarrow> p < length (procs s) \<longrightarrow> p_state (procs s ! p) = RUNNABLE \<longrightarrow> p \<in> set js)"
  using assms
proof (induction arbitrary: i s rule: sched_run.induct)
  case (run_end t)
  then show ?case using scheduler_pick_None [OF run_end [symmetric]] by auto
next
  case (run_pick j t u js)
  note k = scheduler_pick_Some [OF run_pick.prems [symmetric]]
  note IH = run_pick.IH [OF scheduler_back_def]
  show ?case
  proof (intro conjI impI)
    show "length (j # js) \<le> length (procs s) - i"
      using IH k(1-3) run_pick.hyps(1) by (auto simp: keeps_waiting_def)
    assume p: "i \<le> p" "p < length (procs s)" "p_state (procs s ! p) = RUNNABLE"
    show "p \<in> set (j # js)"
      using IH run_pick.hyps(1) p k(3) k(4) [OF p] k(5) [of p]
      by (cases "j = p") (auto simp: keeps_waiting_def)
  qed
qed

text \<open>
  C19: a process that is runnable when a pass of the scheduler starts, and waits until it is chosen, is
  chosen in this pass, which chooses no more processes than the table has slots.
\<close>

theorem scheduler_fair:
  assumes "sched_run now p (scheduler_pass now s) js"
    and "p < length (procs s)" and "p_state (procs s ! p) = RUNNABLE"
  shows "p \<in> set js \<and> length js \<le> length (procs s)"
proof -
  obtain s1 where s1: "acquire LPtable (s\<lparr>iflag := True\<rparr>) = Ret s1"
    using assms(1) by (auto simp: scheduler_pass_def elim: sched_run.cases split: outcome.splits)
  have "procs s1 = procs s" using acquire_keeps [OF s1] by (simp add: keeps_def)
  then show ?thesis
    using sched_run_ok [OF assms(1), of 0 s1] s1 assms(2,3) by (simp add: scheduler_pass_def)
qed

definition two_runnable :: mach where
  "two_runnable = \<lparr>cpu_id = 0, iflag = True, ncli = 0, intena = True, cur = None,
     locks = (\<lambda>_. unlocked),
     procs = replicate 2 (zero_proc\<lparr>p_state := RUNNABLE, p_kstack := 4096, p_pgdir := 8192\<rparr>),
     nextpid = 3, initproc = None, kmemory = (\<lambda>_. 0), freelist = 0, use_lock = True\<rparr>"

lemma switchuvm_same:
  assumes "\<not> iflag s" and "0 < ncli s" and "p_kstack (procs s ! i) \<noteq> 0" and "p_pgdir (procs s ! i) \<noteq> 0"
  shows "switchuvm (Some i) s = Ret s"
  using assms by (simp add: switchuvm_def popcli_def pushcli_def Let_def)

lemma scheduler_pick_next:
  assumes "find_proc (\<lambda>p. p_state p = RUNNABLE) i (drop i (procs s)) = Some j" and "\<not> iflag s" and "0 < ncli s"
    and "p_kstack (procs s ! j) \<noteq> 0" and "p_pgdir (procs s ! j) \<noteq> 0"
  shows "scheduler_pick now i s =
    Ret (Some j, set_proc j (\<lambda>p. p\<lparr>p_switchedIn := now, p_state := RUNNING\<rparr>) (s\<lparr>cur := Some j\<rparr>))"
  using assms by (simp add: scheduler_pick_def switchuvm_same)

lemma scheduler_fair_witness:
  "\<exists>js. sched_run zero_date 1 (scheduler_pass zero_date two_runnable) js \<and> 1 \<in> set js"
proof -
  define p where "p = zero_proc\<lparr>p_state := RUNNABLE, p_kstack := 4096, p_pgdir := 8192\<rparr>"
  define q where "q = p\<lparr>p_switchedIn := zero_date, p_state := RUNNING\<rparr>"
  define s where "s ps c = two_runnable\<lparr>iflag := False, ncli := 1, procs := ps, cur := c,
    locks := (\<lambda>_. unlocked)(LPtable := \<lparr>locked = True, lk_cpu = Some 0\<rparr>)\<rparr>" for ps c
  have p: "p_state p = RUNNABLE" "p_kstack p \<noteq> 0" "p_pgdir p \<noteq> 0" by (simp_all add: p_def)
  have q: "p_state q = RUNNING" by (simp add: q_def)
  have f: "iflag (s ps c) = False" "ncli (s ps c) = 1" "procs (s ps c) = ps" "(s ps c)\<lparr>cur := c'\<rparr> = s ps c'"
    "(s ps c)\<lparr>procs := ps'\<rparr> = s ps' c" for ps c ps' c'
    by (simp_all add: s_def)
  have "scheduler_pass zero_date two_runnable = scheduler_pick zero_date 0 (s [p, p] None)"
    by (simp add: scheduler_pass_def acquire_def holding_def popcli_def pushcli_def two_runnable_def Let_def s_def p_def
        numeral_eq_Suc unlocked_def)
  also have "\<dots> = Ret (Some 0, s [q, p] (Some 0))"
    using p by (subst scheduler_pick_next [where j = 0]) (simp_all add: f set_proc_def q_def)
  finally have 1: "scheduler_pass zero_date two_runnable = Ret (Some 0, s [q, p] (Some 0))" .
  have 2: "scheduler_back zero_date 0 (s [q, p] (Some 0)) = Ret (Some 1, s [q, q] (Some 1))"
    using p unfolding scheduler_back_def
    by (subst scheduler_pick_next [where j = 1]) (simp_all add: f set_proc_def q_def)
  have "\<exists>t. release LPtable (s [q, q] None) = Ret t"
    by (simp add: release_def holding_def popcli_def pushcli_def Let_def s_def two_runnable_def)
  then obtain t where 3: "scheduler_back zero_date 1 (s [q, q] (Some 1)) = Ret (None, t)"
    by (auto simp: scheduler_back_def scheduler_pick_def f)
  have "sched_run zero_date 1 (Ret (Some 1, s [q, q] (Some 1))) [1]"
    by (rule run_pick [where u = "s [q, q] (Some 1)"]) (simp_all only: 3 keeps_waiting_def run_end simp_thms)
  then have r: "sched_run zero_date 1 (scheduler_pass zero_date two_runnable) [0, 1]"
    unfolding 1 by (intro run_pick [where u = "s [q, p] (Some 0)"]) (simp_all only: 2 keeps_waiting_def simp_thms)
  show ?thesis
    using scheduler_fair [OF r] r by (auto simp: two_runnable_def)
qed

subsection \<open>Freeing memory\<close>

lemma kfree_returns:
  assumes "cli_ok s" and "locks s LKmem = unlocked"
  shows "kfree kend v s = Panic ''kfree'' \<or> (\<exists>t. kfree kend v s = Ret t \<and> cli_ok t \<and> locks t LKmem = unlocked)"
proof (cases "v mod PGSIZE \<noteq> 0 \<or> v < kend \<or> PHYSTOP \<le> V2P v")
  case False
  let ?s = "s\<lparr>kmemory := fill v 1 PGSIZE (kmemory s)\<rparr>"
  have pre: "use_lock ?s \<longrightarrow> cli_ok ?s \<and> locks ?s LKmem = unlocked" using assms by (simp add: cli_ok_def)
  obtain s1 where s1: "kmem_lock ?s = Ret s1" "kmemory s1 = kmemory ?s" "freelist s1 = freelist ?s"
    "\<forall>m f. kmem_unlock (s1\<lparr>kmemory := m, freelist := f\<rparr>) = Ret (?s\<lparr>kmemory := m, freelist := f\<rparr>)"
    by (rule kmem_lock_unlock [OF pre]) blast
  have "\<exists>m. kfree kend v s = Ret (s\<lparr>kmemory := m, freelist := v\<rparr>)"
    by (rule exI [of _ "st32 v (freelist s) (fill v 1 PGSIZE (kmemory s))"]) (use False s1 in \<open>simp add: kfree_def\<close>)
  then show ?thesis using assms by (auto simp: cli_ok_def)
qed (simp add: kfree_def)

lemma walkpgdir_look: "\<exists>pte. walkpgdir pgdir va False s = Ret (pte, s)"
  by (auto simp: walkpgdir_def Let_def)

lemma unat_jump:
  assumes "unat a < 2 ^ 31"
  shows "unat (PGADDR (PDX a + 1) 0 0 - PGSIZE + PGSIZE) = (unat a div 2 ^ 22 + 1) * 2 ^ 22"
proof -
  have "unat (drop_bit 22 a AND 0x3FF) = unat a div 2 ^ 22"
  proof -
    have "drop_bit 22 a AND 0x3FF = take_bit 10 (drop_bit 22 a)"
      by (simp add: take_bit_eq_mask mask_eq_exp_minus_1 and.commute)
    then have "unat (drop_bit 22 a AND 0x3FF) = unat a div 2 ^ 22 mod 2 ^ 10"
      by (simp add: take_bit_eq_mod drop_bit_eq_div unat_div_distrib unat_mod_distrib)
    then show ?thesis using assms by simp
  qed
  then have "unat (PDX a + 1) = unat a div 2 ^ 22 + 1"
    using assms by (simp add: PDX_def unat_word_ariths)
  moreover have "unat (push_bit 22 w) = unat w * 2 ^ 22" if "unat w < 2 ^ 10" for w :: uint
    using that by (simp add: push_bit_eq_mult unat_word_ariths)
  ultimately have "unat (push_bit 22 (PDX a + 1)) = (unat a div 2 ^ 22 + 1) * 2 ^ 22"
    using assms by simp
  then show ?thesis by (simp add: PGADDR_def)
qed

lemma next_multiple: "0 < n \<Longrightarrow> k + 1 \<le> n * (k div n + 1)" for n k :: nat
  using dividend_less_div_times [of n k] by (simp add: algebra_simps)

lemma jump_ahead:
  assumes "unat a < 2 ^ 31" and "unat a mod 4096 = 0"
  shows "unat (PGADDR (PDX a + 1) 0 0 - PGSIZE + PGSIZE) mod 4096 = 0"
    "unat a + 4096 \<le> unat (PGADDR (PDX a + 1) 0 0 - PGSIZE + PGSIZE)"
proof -
  have e: "unat (PGADDR (PDX a + 1) 0 0 - PGSIZE + PGSIZE) = 4096 * (1024 * (unat a div 2 ^ 22 + 1))"
    using unat_jump [OF assms(1)] by simp
  show "unat (PGADDR (PDX a + 1) 0 0 - PGSIZE + PGSIZE) mod 4096 = 0" unfolding e by simp
  obtain k where k: "unat a = 4096 * k" using assms(2) by auto
  have d: "unat a div 2 ^ 22 = k div 1024" unfolding k by simp
  have "4096 * (k + 1) \<le> 4096 * (1024 * (k div 1024 + 1))"
    by (rule mult_le_mono2, rule next_multiple) simp
  then show "unat a + 4096 \<le> unat (PGADDR (PDX a + 1) 0 0 - PGSIZE + PGSIZE)"
    unfolding e d by (simp only: k distrib_left mult_1_right)
qed

lemma dealloc_loop_returns:
  fixes s :: "'a mach_scheme"
  assumes "unat oldsz \<le> 2 ^ 31" and "unat a mod 4096 = 0" and "unat oldsz \<le> unat a + 4096 * n"
    and "cli_ok s" and "locks s LKmem = unlocked"
  shows "deallocuvm_loop (Suc n) kend pgdir a oldsz s = Panic ''kfree'' \<or>
    (\<exists>t. deallocuvm_loop (Suc n) kend pgdir a oldsz s = Ret t)"
  using assms
proof (induction n arbitrary: a s)
  case 0
  then show ?case by (simp add: word_less_nat_alt)
next
  case (Suc n)
  show ?case
  proof (cases "a < oldsz")
    case True
    then have lt: "unat a < 2 ^ 31" using Suc.prems(1) by (simp add: word_less_nat_alt)
    let ?j = "PGADDR (PDX a + 1) 0 0 - PGSIZE + PGSIZE"
    note j = jump_ahead [OF lt Suc.prems(2)]
    have p: "unat (a + PGSIZE) = unat a + 4096" using lt by (simp add: unat_word_ariths)
    have pm: "unat (a + PGSIZE) mod 4096 = 0" unfolding p using Suc.prems(2) by simp
    obtain pte where w: "walkpgdir pgdir a False s = Ret (pte, s)" using walkpgdir_look by blast
    have skip: "deallocuvm_loop (Suc n) kend pgdir ?j oldsz s = Panic ''kfree'' \<or>
        (\<exists>t. deallocuvm_loop (Suc n) kend pgdir ?j oldsz s = Ret t)"
      by (rule Suc.IH) (use Suc.prems j in auto)
    have page: "deallocuvm_loop (Suc n) kend pgdir (a + PGSIZE) oldsz t = Panic ''kfree'' \<or>
        (\<exists>u. deallocuvm_loop (Suc n) kend pgdir (a + PGSIZE) oldsz t = Ret u)"
      if "cli_ok t" "locks t LKmem = unlocked" for t :: "'a mach_scheme"
      by (rule Suc.IH) (use Suc.prems(1,3) that p pm in auto)
    note kf = kfree_returns [OF Suc.prems(4,5), of kend "P2V (PTE_ADDR (ld32 (kmemory s) pte))"]
    have "deallocuvm_loop (Suc (Suc n)) kend pgdir a oldsz s =
        (if pte = 0 then deallocuvm_loop (Suc n) kend pgdir ?j oldsz s
         else if ld32 (kmemory s) pte AND PTE_P \<noteq> 0 then
           if PTE_ADDR (ld32 (kmemory s) pte) = 0 then Panic ''kfree''
           else obind (kfree kend (P2V (PTE_ADDR (ld32 (kmemory s) pte))) s) (\<lambda>s2.
             deallocuvm_loop (Suc n) kend pgdir (a + PGSIZE) oldsz (s2\<lparr>kmemory := st32 pte 0 (kmemory s2)\<rparr>))
         else deallocuvm_loop (Suc n) kend pgdir (a + PGSIZE) oldsz s)"
      unfolding deallocuvm_loop.simps(2) [of "Suc n" kend pgdir a] using True w by (simp only: obind_simps prod.case if_True not_True_eq_False if_False Let_def)
    moreover have "obind (kfree kend (P2V (PTE_ADDR (ld32 (kmemory s) pte))) s) (\<lambda>s2.
             deallocuvm_loop (Suc n) kend pgdir (a + PGSIZE) oldsz (s2\<lparr>kmemory := st32 pte 0 (kmemory s2)\<rparr>)) =
             Panic ''kfree'' \<or> (\<exists>t. obind (kfree kend (P2V (PTE_ADDR (ld32 (kmemory s) pte))) s) (\<lambda>s2.
             deallocuvm_loop (Suc n) kend pgdir (a + PGSIZE) oldsz (s2\<lparr>kmemory := st32 pte 0 (kmemory s2)\<rparr>)) = Ret t)"
      using kf
    proof (elim disjE exE conjE)
      fix t assume t: "kfree kend (P2V (PTE_ADDR (ld32 (kmemory s) pte))) s = Ret t" "cli_ok t" "locks t LKmem = unlocked"
      show ?thesis unfolding t(1) obind_simps by (rule page) (use t in \<open>simp_all add: cli_ok_def\<close>)
    qed simp
    ultimately show ?thesis
      using skip page [OF Suc.prems(4,5)] by (simp split: if_split del: deallocuvm_loop.simps)
  qed simp
qed

text \<open>
  C17: \<^verbatim>\<open>deallocuvm\<close> ends: whatever the page table holds, it returns the new size, or stops because the allocator
  refuses a page. In particular the jump over an absent page table, which goes back one page and
  forward again, always makes progress.
\<close>

theorem deallocuvm_returns:
  assumes "oldsz \<le> KERNBASE" and "newsz < oldsz" and "cli_ok s" and "locks s LKmem = unlocked"
  shows "deallocuvm kend pgdir oldsz newsz s = Panic ''kfree'' \<or> (\<exists>t. deallocuvm kend pgdir oldsz newsz s = Ret (newsz, t))"
proof -
  have al: "unat (PGROUNDUP newsz) mod 4096 = 0"
    using aligned_PTE_ADDR [of "newsz + PGSIZE - 1"] by (simp add: PGROUNDUP_def PTE_ADDR_def aligned_unat)
  have "unat oldsz \<le> 2 ^ 31" using assms(1) by (simp add: word_le_nat_alt)
  moreover have "unat oldsz \<le> unat (PGROUNDUP newsz) + 4096 * (unat oldsz div 4096 + 1)"
  proof -
    have "unat oldsz mod 4096 < 4096" by simp
    then show ?thesis using mult_div_mod_eq [of 4096 "unat oldsz"] unfolding add_mult_distrib2 by linarith
  qed
  ultimately show ?thesis
    using dealloc_loop_returns [OF _ al _ assms(3,4), of oldsz "unat oldsz div 4096 + 1" kend pgdir] assms(2)
    by (auto simp: deallocuvm_def simp del: deallocuvm_loop.simps)
qed

lemma deallocuvm_returns_witness:
  "deallocuvm 0x80100000 0x80200000 0x7FFFF000 0x1000 kboot = Panic ''kfree'' \<or>
   (\<exists>t. deallocuvm 0x80100000 0x80200000 0x7FFFF000 0x1000 kboot = Ret (0x1000, t))"
  by (rule deallocuvm_returns) (simp_all add: kboot_def cli_ok_def)

end
