(* ===== verification/Trap.thy ===== *)
theory Trap
  imports Sysfile Fork Sysproc Balloc
begin

text \<open>
  Entering the kernel: the dispatch of system calls (\<^verbatim>\<open>xv6-public/syscall.c\<close>, with \<^verbatim>\<open>sys_fork\<close> and
  \<^verbatim>\<open>sys_exit\<close> of \<^verbatim>\<open>sysproc.c\<close>) and of traps and interrupts (\<^verbatim>\<open>trap.c\<close>). A process that was killed does not
  get back to user space. What the handlers print, and the acknowledgement of an interrupt in the
  interrupt controller, are left out.
\<close>

subsection \<open>System calls\<close>

text \<open>What the kernel's code takes from outside: symbols of the linker and the real-time clock.\<close>

record env =
  e_kend :: uint
  e_kdata :: uint
  e_forkret :: uint
  e_trapret :: uint
  e_now :: rtcdate
  e_now' :: rtcdate

text \<open>
  A call returns a value, with what it stores in the memory of the process, or it has gone to sleep
  and the processor has to switch to the scheduler, or it has ended the process. \<^verbatim>\<open>wait\<close> sleeps with
  the address for the exit status, \<^verbatim>\<open>sleep\<close> with its number of ticks and the tick at which it began. A
  call that has to sleep deeper in the kernel, for a pipe, the console, the log or a lock, is an
  outcome \<open>Wait\<close>.
\<close>

type_synonym stores = "(uint \<times> uchar list) list"

datatype slept = SleptWait uint | SleptTicks int uint

datatype 's sysres = Returns int stores 's | Sleeps slept 's | Exits 's

definition sys_fork :: "env \<Rightarrow> 'a kstate_scheme \<Rightarrow> (int \<times> 'a kstate_scheme) outcome" where
  "sys_fork E s = fork (e_kend E) (e_kdata E) (e_forkret E) (e_trapret E) (e_now E) (e_now' E) s"

definition sys_exit :: "env \<Rightarrow> (uint \<Rightarrow> uchar) \<Rightarrow> 'a kstate_scheme \<Rightarrow> 'a kstate_scheme sysres outcome" where
  "sys_exit E um s =
     with_arg um s (Ret (Returns (- 1) [] s)) (\<lambda>status.
       obind (exit_enter (e_kend E) (e_now E) status s) (\<lambda>s1. Ret (Exits s1)))"

text \<open>The calls with their results in one form.\<close>

definition plain :: "(int \<times> 's) outcome \<Rightarrow> 's sysres outcome" where
  "plain r = obind r (\<lambda>(v, s). Ret (Returns v [] s))"

definition printing :: "(int \<times> string \<times> 's) outcome \<Rightarrow> 's sysres outcome" where
  "printing r = obind r (\<lambda>(v, out, s). Ret (Returns v [] s))"

fun waited :: "uint \<Rightarrow> 's wresult \<Rightarrow> 's sysres" where
  "waited p (Reaped pid status s) = Returns pid [(p, le32 (of_int status))] s"
| "waited p (NoChild s) = Returns (- 1) [] s"
| "waited p (WaitSleep s) = Sleeps (SleptWait p) s"

definition waiting :: "'s \<Rightarrow> (uint \<times> 's wresult) option outcome \<Rightarrow> 's sysres outcome" where
  "waiting s r = obind r (\<lambda>x.
     Ret (case x of None \<Rightarrow> Returns (- 1) [] s | Some (p, w) \<Rightarrow> waited p w))"

definition sleeping :: "'s sresult outcome \<Rightarrow> 's sysres outcome" where
  "sleeping r = obind r (\<lambda>x.
     case x of SDone v s \<Rightarrow> Ret (Returns v [] s) | SSleep n ticks0 s \<Rightarrow> Ret (Sleeps (SleptTicks n ticks0) s))"

definition storing :: "('b \<Rightarrow> stores) \<Rightarrow> (int \<times> 'b option \<times> 's) outcome \<Rightarrow> 's sysres outcome" where
  "storing f r = obind r (\<lambda>(v, x, s). Ret (Returns v (case x of None \<Rightarrow> [] | Some y \<Rightarrow> f y) s))"

text \<open>The fields of \<^verbatim>\<open>struct stat\<close>, aligned as the compiler does.\<close>

definition stat_stores :: "uint \<times> stat \<Rightarrow> stores" where
  "stat_stores = (\<lambda>(p, st). [(p, le16 (st_type st)), (p + 4, le32 (of_nat (st_dev st))),
     (p + 8, le32 (of_nat (st_ino st))), (p + 12, le16 (st_nlink st)), (p + 16, le32 (st_size st))])"

definition syscalls :: "env \<Rightarrow> (uint \<Rightarrow> uchar) \<Rightarrow> uint
    \<Rightarrow> ('a kstate_scheme \<Rightarrow> 'a kstate_scheme sysres outcome) option list" where
  "syscalls E um ticks =
     [None,
      Some (\<lambda>s. plain (sys_fork E s)),
      Some (\<lambda>s. sys_exit E um s),
      Some (\<lambda>s. waiting s (sys_wait (e_kend E) um s)),
      Some (\<lambda>s. storing (\<lambda>(p, fd0, fd1). [(p, le32 (of_int fd0)), (p + 4, le32 (of_int fd1))])
                  (sys_pipe (e_kend E) um s)),
      Some (\<lambda>s. storing (\<lambda>w. [w]) (sys_read um s)),
      Some (\<lambda>s. plain (sys_kill um s)),
      Some (\<lambda>s. plain (sys_exec (e_kend E) (e_kdata E) um s)),
      Some (\<lambda>s. storing stat_stores (sys_fstat um s)),
      Some (\<lambda>s. plain (sys_chdir um s)),
      Some (\<lambda>s. plain (sys_dup um s)),
      Some (\<lambda>s. obind (sys_getpid s) (\<lambda>v. Ret (Returns v [] s))),
      Some (\<lambda>s. plain (sys_sbrk (e_kend E) um s)),
      Some (\<lambda>s. sleeping (sys_sleep um ticks s)),
      Some (\<lambda>s. plain (sys_uptime ticks s)),
      Some (\<lambda>s. plain (sys_open (e_kend E) um s)),
      Some (\<lambda>s. plain (sys_write um s)),
      Some (\<lambda>s. plain (sys_mknod um s)),
      Some (\<lambda>s. plain (sys_unlink um s)),
      Some (\<lambda>s. plain (sys_link um s)),
      Some (\<lambda>s. plain (sys_mkdir um s)),
      Some (\<lambda>s. plain (sys_close (e_kend E) um s)),
      Some (\<lambda>s. Ret (Returns (fst sys_helloWorld) [] s)),
      Some (\<lambda>s. printing (sys_numOpenFiles um s)),
      Some (\<lambda>s. printing (sys_memAlloc um s)),
      Some (\<lambda>s. printing (sys_getprocesstimedetails um s)),
      Some (\<lambda>s. printing (sys_psinfo s))]"

definition set_eax :: "nat \<Rightarrow> int \<Rightarrow> 'a mach_scheme \<Rightarrow> 'a mach_scheme" where
  "set_eax p v s = set_proc p (\<lambda>x. x\<lparr>p_tf := (p_tf x)\<lparr>eax := of_int v\<rparr>\<rparr>) s"

fun syscall_result :: "nat \<Rightarrow> 'a mach_scheme sysres \<Rightarrow> 'a mach_scheme sysres" where
  "syscall_result p (Returns v w s) = Returns v w (set_eax p v s)"
| "syscall_result p (Sleeps k s) = Sleeps k s"
| "syscall_result p (Exits s) = Exits s"

definition syscall :: "env \<Rightarrow> (uint \<Rightarrow> uchar) \<Rightarrow> uint \<Rightarrow> 'a kstate_scheme \<Rightarrow> 'a kstate_scheme sysres outcome" where
  "syscall E um ticks s =
     obind (myproc s) (\<lambda>p.
     let num = sint (eax (p_tf (procs s ! p)))
     in case (if 0 < num \<and> num < int (length (syscalls E um ticks :: ('a kstate_scheme \<Rightarrow> _) option list))
              then syscalls E um ticks ! nat num else None) of
          Some f \<Rightarrow> obind (f s) (\<lambda>r. Ret (syscall_result p r))
        | None \<Rightarrow> Ret (Returns (- 1) [] (set_eax p (- 1) s)))"

text \<open>What is left of a call that has slept, from the return of \<^verbatim>\<open>sched\<close> in \<^verbatim>\<open>sleep\<close> on.\<close>

definition syscall_resume :: "env \<Rightarrow> uint \<Rightarrow> slept \<Rightarrow> 'a kstate_scheme \<Rightarrow> 'a kstate_scheme sysres outcome" where
  "syscall_resume E ticks k s =
     obind (myproc s) (\<lambda>p.
     obind (case k of
              SleptWait a \<Rightarrow> obind (wait_resume (e_kend E) s) (\<lambda>w. Ret (waited a w))
            | SleptTicks n ticks0 \<Rightarrow> sleeping (sys_sleep_resume n ticks0 ticks s)) (\<lambda>r.
     Ret (syscall_result p r)))"

subsection \<open>Traps\<close>

abbreviation T_SYSCALL :: uint where "T_SYSCALL \<equiv> 64"
abbreviation T_IRQ0 :: uint where "T_IRQ0 \<equiv> 32"
abbreviation IRQ_TIMER :: uint where "IRQ_TIMER \<equiv> 0"
abbreviation IRQ_KBD :: uint where "IRQ_KBD \<equiv> 1"
abbreviation IRQ_COM1 :: uint where "IRQ_COM1 \<equiv> 4"
abbreviation IRQ_IDE :: uint where "IRQ_IDE \<equiv> 14"
abbreviation IRQ_SPURIOUS :: uint where "IRQ_SPURIOUS \<equiv> 31"
abbreviation DPL_USER :: ushort where "DPL_USER \<equiv> 3"

text \<open>The gates of the interrupt table are left out.\<close>

definition tvinit :: "'a mach_scheme \<Rightarrow> 'a mach_scheme" where
  "tvinit s = initlock LTicks s"

datatype 's tresult = TReturn stores 's | TSleep slept 's | TExit 's | TYield 's

definition trap_exit :: "env \<Rightarrow> 'a kstate_scheme \<Rightarrow> 'a kstate_scheme tresult outcome" where
  "trap_exit E s = obind (exit_enter (e_kend E) (e_now E) 0 s) (\<lambda>s1. Ret (TExit s1))"

text \<open>The end of a system call: the test after the return of \<^verbatim>\<open>syscall\<close>.\<close>

fun trap_syscall_end :: "env \<Rightarrow> 'a kstate_scheme sysres \<Rightarrow> 'a kstate_scheme tresult outcome" where
  "trap_syscall_end E (Returns v w s) = obind (killed s) (\<lambda>k. if k then trap_exit E s else Ret (TReturn w s))"
| "trap_syscall_end E (Sleeps k s) = Ret (TSleep k s)"
| "trap_syscall_end E (Exits s) = Ret (TExit s)"

definition trap_syscall :: "env \<Rightarrow> (uint \<Rightarrow> uchar) \<Rightarrow> uint \<Rightarrow> trapframe \<Rightarrow> 'a kstate_scheme
    \<Rightarrow> 'a kstate_scheme tresult outcome" where
  "trap_syscall E um ticks tf s =
     obind (killed s) (\<lambda>k.
       if k then trap_exit E s
       else obind (myproc s) (\<lambda>p.
            obind (syscall E um ticks (set_proc p (\<lambda>x. x\<lparr>p_tf := tf\<rparr>) s)) (trap_syscall_end E)))"

definition trap_syscall_resume :: "env \<Rightarrow> uint \<Rightarrow> slept \<Rightarrow> 'a kstate_scheme \<Rightarrow> 'a kstate_scheme tresult outcome" where
  "trap_syscall_resume E ticks k s = obind (syscall_resume E ticks k s) (trap_syscall_end E)"

definition timer_tick :: "uint \<Rightarrow> 'a kstate_scheme \<Rightarrow> (uint \<times> 'a kstate_scheme) outcome" where
  "timer_tick ticks s =
     (if cpu_id s = 0
      then obind (acquire LTicks s) (\<lambda>s1.
           obind (wakeup ChTicks s1) (\<lambda>s2.
           obind (release LTicks s2) (\<lambda>s3. Ret (ticks + 1, s3))))
      else Ret (ticks, s))"

text \<open>
  \<^verbatim>\<open>kbdintr\<close> and \<^verbatim>\<open>uartintr\<close>: \<open>keys\<close> are the characters the device delivers. A process dump only prints.
\<close>

definition key_intr :: "uchar list \<Rightarrow> 'a kstate_scheme \<Rightarrow> 'a kstate_scheme outcome" where
  "key_intr keys s = obind (consoleintr keys (kinput s) s) (\<lambda>(dump, i, s1). Ret (s1\<lparr>kinput := i\<rparr>))"

definition trap_switch :: "uchar list \<Rightarrow> uint \<Rightarrow> trapframe \<Rightarrow> 'a kstate_scheme \<Rightarrow> (uint \<times> 'a kstate_scheme) outcome" where
  "trap_switch keys ticks tf s =
     (if trapno tf = T_IRQ0 + IRQ_TIMER then timer_tick ticks s
      else if trapno tf = T_IRQ0 + IRQ_IDE \<or> trapno tf = T_IRQ0 + IRQ_IDE + 1 then Ret (ticks, s)
      else if trapno tf = T_IRQ0 + IRQ_KBD \<or> trapno tf = T_IRQ0 + IRQ_COM1
      then obind (key_intr keys s) (\<lambda>s1. Ret (ticks, s1))
      else if trapno tf = T_IRQ0 + 7 \<or> trapno tf = T_IRQ0 + IRQ_SPURIOUS then Ret (ticks, s)
      else case cur s of
             None \<Rightarrow> Panic ''trap''
           | Some p \<Rightarrow>
               if tfcs tf AND 3 = 0 then Panic ''trap''
               else Ret (ticks, set_proc p (\<lambda>x. x\<lparr>p_killed := True\<rparr>) s))"

definition must_exit :: "trapframe \<Rightarrow> 'a mach_scheme \<Rightarrow> bool" where
  "must_exit tf s \<longleftrightarrow> (case cur s of None \<Rightarrow> False | Some p \<Rightarrow> p_killed (procs s ! p) \<and> tfcs tf AND 3 = DPL_USER)"

definition must_yield :: "trapframe \<Rightarrow> 'a mach_scheme \<Rightarrow> bool" where
  "must_yield tf s \<longleftrightarrow> (case cur s of None \<Rightarrow> False
     | Some p \<Rightarrow> p_state (procs s ! p) = RUNNING \<and> trapno tf = T_IRQ0 + IRQ_TIMER)"

text \<open>The test after \<^verbatim>\<open>yield\<close>, and what is left of a trap when the process runs again.\<close>

definition trap_last :: "env \<Rightarrow> trapframe \<Rightarrow> 'a kstate_scheme \<Rightarrow> 'a kstate_scheme tresult outcome" where
  "trap_last E tf s = (if must_exit tf s then trap_exit E s else Ret (TReturn [] s))"

definition trap_resume :: "env \<Rightarrow> trapframe \<Rightarrow> 'a kstate_scheme \<Rightarrow> 'a kstate_scheme tresult outcome" where
  "trap_resume E tf s = obind (release LPtable s) (trap_last E tf)"

definition trap :: "env \<Rightarrow> (uint \<Rightarrow> uchar) \<Rightarrow> uchar list \<Rightarrow> trapframe \<Rightarrow> uint \<Rightarrow> 'a kstate_scheme
    \<Rightarrow> (uint \<times> 'a kstate_scheme tresult) outcome" where
  "trap E um keys tf ticks s =
     (if trapno tf = T_SYSCALL
      then obind (trap_syscall E um ticks tf s) (\<lambda>r. Ret (ticks, r))
      else obind (trap_switch keys ticks tf s) (\<lambda>(ticks1, s1).
           obind (if must_exit tf s1 then trap_exit E s1
                  else if must_yield tf s1 then obind (yield_enter (e_now E) s1) (\<lambda>s2. Ret (TYield s2))
                  else trap_last E tf s1) (\<lambda>r. Ret (ticks1, r))))"

subsection \<open>Properties\<close>

lemma trap_exit_no_return [simp]: "trap_exit E s \<noteq> Ret (TReturn w t)"
  by (cases "exit_enter (e_kend E) (e_now E) 0 s") (simp_all add: trap_exit_def)

lemma killed_not [simp]: "killed s = Ret False \<longleftrightarrow> (\<exists>p. cur s = Some p \<and> \<not> p_killed (procs s ! p))"
  by (auto simp: killed_def myproc_def split: option.splits)

text \<open>
  The way of a process through the kernel, from the trap with frame \<open>tf\<close> on. While it has given up
  the processor, by \<^verbatim>\<open>yield\<close> or in a sleep, other processes run, so it goes on in a state of which
  nothing is known; in particular it may have been killed.
\<close>

datatype suspension = Yielded | Asleep_in slept

inductive suspended :: "env \<Rightarrow> trapframe \<Rightarrow> suspension \<Rightarrow> bool" for E tf where
  susp_yield: "trap E um keys tf ticks (s :: kstate) = Ret (ticks', TYield t) \<Longrightarrow> suspended E tf Yielded"
| susp_sleep: "trap E um keys tf ticks (s :: kstate) = Ret (ticks', TSleep k t) \<Longrightarrow> suspended E tf (Asleep_in k)"
| susp_again: "suspended E tf (Asleep_in k) \<Longrightarrow> trap_syscall_resume E ticks k (s :: kstate) = Ret (TSleep k' t) \<Longrightarrow>
    suspended E tf (Asleep_in k')"

text \<open>
  The ways back to user space. The last is that of a system call that has slept deeper in the kernel:
  whatever it has done meanwhile, it ends with the test after the return of \<^verbatim>\<open>syscall\<close>.
\<close>

inductive to_user :: "env \<Rightarrow> trapframe \<Rightarrow> kstate \<Rightarrow> bool" for E tf where
  user_at_once: "trap E um keys tf ticks s = Ret (ticks', TReturn w t) \<Longrightarrow> to_user E tf t"
| user_yielded: "suspended E tf Yielded \<Longrightarrow> trap_resume E tf s = Ret (TReturn w t) \<Longrightarrow> to_user E tf t"
| user_slept: "suspended E tf (Asleep_in k) \<Longrightarrow> trap_syscall_resume E ticks k s = Ret (TReturn w t) \<Longrightarrow>
    to_user E tf t"
| user_waited: "trapno tf = T_SYSCALL \<Longrightarrow> trap_syscall_end E (Returns v w' s) = Ret (TReturn w t) \<Longrightarrow>
    to_user E tf t"

definition alive :: "'a mach_scheme \<Rightarrow> bool" where
  "alive s \<longleftrightarrow> (\<exists>p. cur s = Some p \<and> \<not> p_killed (procs s ! p))"

lemma aliveD: "alive s \<Longrightarrow> cur s = Some p \<Longrightarrow> \<not> p_killed (procs s ! p)"
  by (auto simp: alive_def)

lemma trap_syscall_end_alive: "trap_syscall_end E r = Ret (TReturn w t) \<Longrightarrow> alive t"
  by (cases r) (auto simp: alive_def split: if_splits)

lemma trap_syscall_alive:
  "trap_syscall E um ticks tf s = Ret (TReturn w t) \<Longrightarrow> alive t"
  "trap_syscall_resume E ticks k s = Ret (TReturn w t) \<Longrightarrow> alive t"
  by (auto simp: trap_syscall_def trap_syscall_resume_def split: if_splits dest: trap_syscall_end_alive)

lemma trap_last_alive:
  "trap_last E tf s = Ret (TReturn w t) \<Longrightarrow> tfcs tf AND 3 = DPL_USER \<Longrightarrow> cur t = Some p \<Longrightarrow> \<not> p_killed (procs t ! p)"
  by (auto simp: trap_last_def must_exit_def split: if_splits option.splits)

lemma suspended_yield: "suspended E tf x \<Longrightarrow> x = Yielded \<Longrightarrow> trapno tf \<noteq> T_SYSCALL"
proof (induction rule: suspended.induct)
  case (susp_yield um keys ticks s ticks' t)
  show ?case
  proof
    assume "trapno tf = T_SYSCALL"
    then have "trap_syscall E um ticks tf s = Ret (TYield t)" using susp_yield(1) by (auto simp: trap_def)
    then consider "trap_exit E s = Ret (TYield t)" | r where "trap_syscall_end E r = Ret (TYield t)"
      unfolding trap_syscall_def by (auto split: if_splits)
    then show False
    proof cases
      case (2 r)
      then show False by (cases r) (auto simp: trap_exit_def split: if_splits)
    qed (auto simp: trap_exit_def)
  qed
qed simp_all

text \<open>
  C20: a process that was killed does not return to user space: when a system call, or a trap or
  interrupt that came from user space, returns, the process is not marked as killed. This holds
  for a return at once, for one after the process has given up the processor to a timer
  interrupt, for the calls \<^verbatim>\<open>wait\<close> and \<^verbatim>\<open>sleep\<close> after any number of sleeps, and for every other
  system call that has slept, whatever happened to the process meanwhile.
\<close>

theorem killed_stays_in_kernel:
  assumes "trapno tf = T_SYSCALL \<or> tfcs tf AND 3 = DPL_USER" and "to_user E tf t" and "cur t = Some p"
  shows "\<not> p_killed (procs t ! p)"
  using assms(2)
proof cases
  case (user_at_once um keys ticks s ticks' w)
  then consider "trap_syscall E um ticks tf s = Ret (TReturn w t)"
    | u where "trapno tf \<noteq> T_SYSCALL" "trap_last E tf u = Ret (TReturn w t)"
    by (auto simp: trap_def split: if_splits)
  then show ?thesis
  proof cases
    case 1
    then show ?thesis using trap_syscall_alive(1) aliveD assms(3) by blast
  next
    case 2
    then show ?thesis using trap_last_alive assms(1,3) by blast
  qed
next
  case (user_yielded s w)
  then obtain u where "trap_last E tf u = Ret (TReturn w t)" by (auto simp: trap_resume_def)
  moreover have "tfcs tf AND 3 = DPL_USER" using suspended_yield [OF user_yielded(1)] assms(1) by simp
  ultimately show ?thesis using trap_last_alive assms(3) by blast
next
  case (user_slept k ticks s w)
  then show ?thesis using trap_syscall_alive(2) aliveD assms(3) by blast
next
  case (user_waited v w' s w)
  then show ?thesis using trap_syscall_end_alive aliveD assms(3) by blast
qed

text \<open>A process that calls \<^verbatim>\<open>sleep\<close> for one tick, sleeps, and goes on at the next tick.\<close>

definition running :: kstate where
  "running = (fstate.extend small_fs (kstate.fields
       (\<lambda>_. \<lparr>f_type = FD_NONE, f_ref = 0, f_readable = False, f_writable = False, f_pipe = 0, f_ip = 0, f_off = 0\<rparr>)
       (\<lambda>_. \<lparr>pi_data = [], nread = 0, nwrite = 0, readopen = False, writeopen = False\<rparr>) blank_input))
     \<lparr>cpu_id := 0, iflag := True, ncli := 0, intena := True, cur := Some 0, locks := (\<lambda>_. unlocked),
      procs := [zero_proc\<lparr>p_state := RUNNING, p_sz := 4096\<rparr>]\<rparr>"

definition sleep_tf :: trapframe where
  "sleep_tf = zero_tf\<lparr>trapno := T_SYSCALL, eax := 13, tfcs := 27\<rparr>"

definition one_tick :: "uint \<Rightarrow> uchar" where
  "one_tick a = (if a = 4 then 1 else 0)"

definition some_env :: env where
  "some_env = \<lparr>e_kend = 0x80100000, e_kdata = 0x80108000, e_forkret = 0x80103000, e_trapret = 0x80105000,
     e_now = zero_date, e_now' = zero_date\<rparr>"

lemma running_sleeps:
  obtains s where "trap some_env one_tick [] sleep_tf 0 running = Ret (0, TSleep (SleptTicks 1 0) s)"
    "cur s = Some 0" "\<not> p_killed (procs s ! 0)" "length (procs s) = 1" "\<not> iflag s" "ncli s = 1"
    "locks s LPtable = held_lock s" "locks s LTicks = unlocked"
proof -
  have r: "cur running = Some 0" "procs running = [zero_proc\<lparr>p_state := RUNNING, p_sz := 4096\<rparr>]"
    "iflag running" "intena running" "ncli running = 0" "locks running = (\<lambda>_. unlocked)" "cpu_id running = 0"
    by (simp_all add: running_def)
  have z: "\<not> p_killed zero_proc" by (simp add: zero_proc_def)
  have f: "syscalls some_env one_tick 0 ! 13 = Some (\<lambda>s :: kstate. sleeping (sys_sleep one_tick 0 s))"
    "length (syscalls some_env one_tick 0 :: (kstate \<Rightarrow> _) option list) = 27"
    by (simp_all add: syscalls_def)
  have tf: "trapno sleep_tf = T_SYSCALL" "eax sleep_tf = 13" "esp sleep_tf = 0"
    by (simp_all add: sleep_tf_def zero_tf_def)
  let ?u = "set_proc 0 (\<lambda>x. x\<lparr>p_tf := sleep_tf\<rparr>) running"
  have "ld32 one_tick 4 = 1" by code_simp
  then have "argint one_tick 0 ?u = Ret (Some 1)"
    by (simp add: argint_def fetchint_def myproc_def r tf)
  then have "\<exists>s. sys_sleep one_tick 0 ?u = Ret (SSleep 1 0 s) \<and> cur s = Some 0 \<and> \<not> p_killed (procs s ! 0) \<and>
      length (procs s) = 1 \<and> \<not> iflag s \<and> ncli s = 1 \<and> locks s LPtable = held_lock s \<and> locks s LTicks = unlocked"
    using r z by (simp add: sys_sleep_def with_arg_def sys_sleep_test_def killed_def myproc_def sleep_enter_def
        cli_ok_def held_lock_def)
  then show thesis
    using that r z f tf
    by (auto simp: trap_def trap_syscall_def killed_def myproc_def syscall_def sleeping_def)
qed

lemma killed_stays_in_kernel_witness:
  "suspended some_env sleep_tf (Asleep_in (SleptTicks 1 0)) \<and>
   (\<exists>s t. trap_syscall_resume some_env 1 (SleptTicks 1 0) s = Ret (TReturn [] t) \<and> to_user some_env sleep_tf t \<and>
     cur t = Some 0 \<and> \<not> p_killed (procs t ! 0))"
proof -
  obtain s where s: "trap some_env one_tick [] sleep_tf 0 running = Ret (0, TSleep (SleptTicks 1 0) s)"
    "cur s = Some 0" "\<not> p_killed (procs s ! 0)" "length (procs s) = 1" "\<not> iflag s" "ncli s = 1"
    "locks s LPtable = held_lock s" "locks s LTicks = unlocked" by (rule running_sleeps)
  have sus: "suspended some_env sleep_tf (Asleep_in (SleptTicks 1 0))" using s(1) by (rule susp_sleep)
  have "\<exists>t. trap_syscall_resume some_env 1 (SleptTicks 1 0) s = Ret (TReturn [] t) \<and> cur t = Some 0"
    using s(2-) by (simp add: trap_syscall_resume_def syscall_resume_def sleeping_def sys_sleep_resume_def sleep_leave_def
        sys_sleep_test_def killed_def myproc_def set_eax_def held_lock_def cli_ok_def)
  then obtain t where t: "trap_syscall_resume some_env 1 (SleptTicks 1 0) s = Ret (TReturn [] t)" "cur t = Some 0"
    by blast
  then have u: "to_user some_env sleep_tf t" using sus by (intro user_slept)
  have "trapno sleep_tf = T_SYSCALL" by (simp add: sleep_tf_def)
  then show ?thesis using killed_stays_in_kernel [OF _ u t(2)] sus t u by blast
qed

end
