(* ===== verification/Umalloc.thy ===== *)
theory Umalloc
  imports Memory
begin

text \<open>
  The memory allocator of user programs (\<^verbatim>\<open>xv6-public/umalloc.c\<close>): \<^verbatim>\<open>malloc\<close>, \<^verbatim>\<open>free\<close> and \<^verbatim>\<open>morecore\<close> on a ring of free
  blocks sorted by address, and the invariant that free and allocated blocks partition the memory
  obtained from the kernel.
\<close>

subsection \<open>The code\<close>

text \<open>
  A pointer to a \<^verbatim>\<open>Header\<close> is its address divided by eight, the size of a header, so that pointer arithmetic is
  addition; zero is the null pointer. \<open>hptr\<close> and \<open>hsize\<close> are the two fields of the header at an address, \<open>ubrk\<close> is the end
  of the memory of the process, in bytes.
\<close>

record uheap =
  hptr :: "nat \<Rightarrow> nat"
  hsize :: "nat \<Rightarrow> uint"
  freep :: nat
  ubrk :: uint

abbreviation HEADER :: uint where "HEADER \<equiv> 8"

text \<open>
  \<^verbatim>\<open>sbrk\<close> as the process sees it, with the arithmetic of \<^verbatim>\<open>growproc\<close>, \<^verbatim>\<open>allocuvm\<close> and \<^verbatim>\<open>deallocuvm\<close>; \<open>mem\<close> says whether the kernel has
  the pages to grow from one size to another. The result is the new end, or \<open>None\<close> for an error.
\<close>

definition sbrk :: "(uint \<Rightarrow> uint \<Rightarrow> bool) \<Rightarrow> int \<Rightarrow> uint \<Rightarrow> uint option" where
  "sbrk mem n b =
     (let b' = b + of_int n
      in if n > 0 then if KERNBASE \<le> b' then None else if b' < b then Some b else if mem b b' then Some b' else None
         else if n < 0 then if b \<le> b' then if b = 0 then None else Some b else if b' = 0 then None else Some b'
         else Some b)"

definition place_found :: "nat \<Rightarrow> nat \<Rightarrow> uheap \<Rightarrow> bool" where
  "place_found bp p m \<longleftrightarrow> (p < bp \<and> bp < hptr m p) \<or> (hptr m p \<le> p \<and> (p < bp \<or> bp < hptr m p))"

partial_function (option) free_place :: "nat \<Rightarrow> nat \<Rightarrow> uheap \<Rightarrow> nat option" where
  "free_place bp p m = (if place_found bp p m then Some p else free_place bp (hptr m p) m)"

definition free_join :: "nat \<Rightarrow> nat \<Rightarrow> uheap \<Rightarrow> uheap" where
  "free_join bp p m =
     (let q = hptr m p;
          m1 = (if bp + unat (hsize m bp) = q
                then m\<lparr>hsize := (hsize m)(bp := hsize m bp + hsize m q), hptr := (hptr m)(bp := hptr m q)\<rparr>
                else m\<lparr>hptr := (hptr m)(bp := q)\<rparr>);
          m2 = (if p + unat (hsize m1 p) = bp
                then m1\<lparr>hsize := (hsize m1)(p := hsize m1 p + hsize m1 bp), hptr := (hptr m1)(p := hptr m1 bp)\<rparr>
                else m1\<lparr>hptr := (hptr m1)(p := bp)\<rparr>)
      in m2\<lparr>freep := p\<rparr>)"

definition ufree :: "nat \<Rightarrow> uheap \<Rightarrow> uheap option" where
  "ufree ap m = Option.bind (free_place (ap - 1) (freep m) m) (\<lambda>p. Some (free_join (ap - 1) p m))"

definition morecore :: "(uint \<Rightarrow> uint \<Rightarrow> bool) \<Rightarrow> uint \<Rightarrow> uheap \<Rightarrow> (nat \<times> uheap) option" where
  "morecore mem nu0 m =
     (let nu = (if nu0 < 4096 then 4096 else nu0)
      in case sbrk mem (sint (nu * HEADER)) (ubrk m) of
           None \<Rightarrow> Some (0, m)
         | Some b \<Rightarrow>
             let hp = unat (ubrk m) div 8
             in Option.bind (ufree (hp + 1) (m\<lparr>ubrk := b, hsize := (hsize m)(hp := nu)\<rparr>)) (\<lambda>m1.
                Some (freep m1, m1)))"

definition take_block :: "uint \<Rightarrow> nat \<Rightarrow> nat \<Rightarrow> uheap \<Rightarrow> nat \<times> uheap" where
  "take_block nunits prevp p m =
     (if hsize m p = nunits then (p + 1, m\<lparr>hptr := (hptr m)(prevp := hptr m p), freep := prevp\<rparr>)
      else let k = hsize m p - nunits; q = p + unat k
           in (q + 1, m\<lparr>hsize := (hsize m)(p := k, q := nunits), freep := prevp\<rparr>))"

partial_function (option) malloc_loop ::
  "(uint \<Rightarrow> uint \<Rightarrow> bool) \<Rightarrow> uint \<Rightarrow> nat \<Rightarrow> nat \<Rightarrow> uheap \<Rightarrow> (nat \<times> uheap) option" where
  "malloc_loop mem nunits prevp p m =
     (if nunits \<le> hsize m p then Some (take_block nunits prevp p m)
      else if p = freep m
      then Option.bind (morecore mem nunits m) (\<lambda>r.
             if fst r = 0 then Some (0, snd r)
             else malloc_loop mem nunits (fst r) (hptr (snd r) (fst r)) (snd r))
      else malloc_loop mem nunits p (hptr m p) m)"

definition nunits_of :: "uint \<Rightarrow> uint" where
  "nunits_of nbytes = (nbytes + HEADER - 1) div HEADER + 1"

text \<open>\<open>base\<close> is where the linker puts the static header; the result is the address of the block behind its header.\<close>

definition umalloc :: "(uint \<Rightarrow> uint \<Rightarrow> bool) \<Rightarrow> nat \<Rightarrow> uint \<Rightarrow> uheap \<Rightarrow> (nat \<times> uheap) option" where
  "umalloc mem base nbytes m =
     (let m1 = (if freep m = 0 then m\<lparr>hptr := (hptr m)(base := base), hsize := (hsize m)(base := 0), freep := base\<rparr>
                else m)
      in malloc_loop mem (nunits_of nbytes) (freep m1) (hptr m1 (freep m1)) m1)"

subsection \<open>Rings\<close>

fun path :: "(nat \<Rightarrow> nat) \<Rightarrow> nat \<Rightarrow> nat list \<Rightarrow> nat \<Rightarrow> bool" where
  "path h x [] y \<longleftrightarrow> x = y"
| "path h x (a # as) y \<longleftrightarrow> a = x \<and> path h (h x) as y"

lemma path_append [simp]: "path h x (as @ bs) z \<longleftrightarrow> (\<exists>y. path h x as y \<and> path h y bs z)"
  by (induction as arbitrary: x) auto

lemma path_upd [simp]: "u \<notin> set as \<Longrightarrow> path (h(u := v)) x as y = path h x as y"
  by (induction as arbitrary: x) auto

lemma path_next: "path h x (as @ p # bs) x \<Longrightarrow> h p = (case bs of [] \<Rightarrow> x | q # _ \<Rightarrow> q)"
  by (auto split: list.split)

lemma path_rotate:
  assumes "path h x (as @ f # bs) x"
  shows "path h f (f # bs @ as) f" "path h (h f) (bs @ as @ [f]) (h f)"
  using assms by auto

text \<open>The layout of the blocks: the free ones in order, the allocated ones, and the units they cover.\<close>

definition units :: "(nat \<Rightarrow> uint) \<Rightarrow> nat \<Rightarrow> nat set" where
  "units sz a = {a..<a + unat (sz a)}"

definition layout :: "nat \<Rightarrow> (nat \<Rightarrow> uint) \<Rightarrow> nat list \<Rightarrow> nat set \<Rightarrow> nat set \<Rightarrow> bool" where
  "layout base sz xs A U \<longleftrightarrow>
     sorted_wrt (<) xs \<and> sz base = 0 \<and> base \<notin> A \<and> set xs \<inter> A = {} \<and>
     (\<forall>x\<in>set xs \<union> A. x \<noteq> base \<longrightarrow> 0 < sz x) \<and>
     (\<forall>x\<in>set xs \<union> A. \<forall>y\<in>set xs \<union> A. x \<noteq> y \<longrightarrow> units sz x \<inter> units sz y = {}) \<and>
     (\<Union>x\<in>set xs \<union> A. units sz x) = U \<and> U \<subseteq> {base<..<2 ^ 28}"

lemma layout_unit:
  assumes "layout base sz xs A U" and "x \<in> set xs \<union> A" and "x \<noteq> base"
  shows "x \<in> units sz x" "units sz x \<subseteq> U" "base < x" "x + unat (sz x) \<le> 2 ^ 28"
proof -
  have "0 < sz x" using assms by (simp add: layout_def)
  then have pos: "0 < unat (sz x)" by (simp add: word_less_nat_alt)
  then show x: "x \<in> units sz x" by (simp add: units_def)
  show u: "units sz x \<subseteq> U" using assms(1,2) by (auto simp: layout_def)
  have U: "U \<subseteq> {base<..<2 ^ 28}" using assms(1) by (simp add: layout_def)
  show "base < x" using x u U by auto
  have "x + unat (sz x) - 1 \<in> units sz x" using pos by (auto simp: units_def)
  then have "x + unat (sz x) - 1 < 2 ^ 28" using u U by auto
  then show "x + unat (sz x) \<le> 2 ^ 28" by simp
qed

lemma layout_insert:
  assumes "layout base sz (as @ p # bs) A U" and "a \<in> A" and "p < a" and "bs \<noteq> [] \<longrightarrow> a < hd bs"
  shows "layout base sz (as @ p # a # bs) (A - {a}) U"
proof -
  have s: "set (as @ p # a # bs) \<union> (A - {a}) = set (as @ p # bs) \<union> A" using assms(2) by auto
  have "sorted_wrt (<) (as @ p # a # bs)"
    using assms(1,3,4) by (cases bs) (auto simp: layout_def sorted_wrt_append dest: order.strict_trans)
  then show ?thesis using assms(1) unfolding layout_def s by auto
qed

lemma layout_take:
  assumes "layout base sz (as @ x # bs) A U" and "x \<noteq> base"
  shows "layout base sz (as @ bs) (insert x A) U"
proof -
  have s: "set (as @ bs) \<union> insert x A = set (as @ x # bs) \<union> A" by auto
  have "sorted_wrt (<) (as @ bs)" "x \<notin> set (as @ bs)"
    using assms(1) by (auto simp: layout_def sorted_wrt_append)
  then show ?thesis using assms unfolding layout_def s by auto
qed

lemma unat_plus: "unat a + unat b < 2 ^ 32 \<Longrightarrow> unat (a + b) = unat a + unat b" for a b :: uint
  by (simp add: unat_word_ariths)

lemma layout_merge:
  assumes l: "layout base sz (as @ x # y # bs) A U" and adj: "x + unat (sz x) = y" and x: "x \<noteq> base"
  shows "layout base (sz(x := sz x + sz y)) (as @ x # bs) A U"
proof -
  let ?sz = "sz(x := sz x + sz y)" and ?S = "set (as @ x # bs) \<union> A" and ?T = "set (as @ x # y # bs) \<union> A"
  have so: "sorted_wrt (<) (as @ x # y # bs)" and dj: "set (as @ x # y # bs) \<inter> A = {}"
    using l by (simp_all add: layout_def)
  have T: "?T = insert y ?S" "y \<notin> ?S" "x \<in> ?S" "x \<noteq> y" using so dj by (auto simp: sorted_wrt_append)
  have y: "y \<noteq> base" using layout_unit(3) [OF l, of x] x so by (auto simp: sorted_wrt_append)
  note lx = layout_unit(4) [OF l, of x] and ly = layout_unit(4) [OF l, of y]
  have "unat (sz x + sz y) = unat (sz x) + unat (sz y)" by (rule unat_plus) (use lx ly x y in simp)
  then have ux: "units ?sz x = units sz x \<union> units sz y" using adj by (auto simp: units_def)
  have uo: "units ?sz z = units sz z" if "z \<noteq> x" for z using that by (simp add: units_def)
  have d: "\<And>v w. v \<in> ?T \<Longrightarrow> w \<in> ?T \<Longrightarrow> v \<noteq> w \<Longrightarrow> units sz v \<inter> units sz w = {}"
    using l by (simp only: layout_def) blast
  have disj: "units ?sz v \<inter> units ?sz w = {}" if "v \<in> ?S" "w \<in> ?S" "v \<noteq> w" for v w
    using that d [of v w] d [of y v] d [of y w] T uo [of v] uo [of w] ux by (cases "v = x"; cases "w = x") auto
  have cov: "(\<Union>z\<in>?S. units ?sz z) = (\<Union>z\<in>?T. units sz z)"
  proof -
    have "(\<Union>z\<in>?S. units ?sz z) = units ?sz x \<union> (\<Union>z\<in>?S - {x}. units ?sz z)" using T(3) by blast
    also have "\<dots> = units sz x \<union> units sz y \<union> (\<Union>z\<in>?S - {x}. units sz z)" using ux uo by auto
    also have "\<dots> = (\<Union>z\<in>?T. units sz z)" unfolding T(1) using T(3) by blast
    finally show ?thesis .
  qed
  have U: "(\<Union>z\<in>?T. units sz z) = U" "U \<subseteq> {base<..<2 ^ 28}" using l by (simp_all only: layout_def)
  have pos: "0 < ?sz z" if "z \<in> ?S" "z \<noteq> base" for z
  proof -
    have "z \<in> ?T" using that(1) T(1) by blast
    then have "0 < sz z" using l that(2) unfolding layout_def by blast
    moreover have "0 < unat (sz x + sz y)" if "z = x"
      using \<open>unat (sz x + sz y) = _\<close> calculation that by (simp add: word_less_nat_alt)
    ultimately show ?thesis by (auto simp: word_less_nat_alt)
  qed
  show ?thesis
    unfolding layout_def using so dj disj cov U pos l x by (auto simp: layout_def sorted_wrt_append)
qed

lemma layout_split:
  assumes l: "layout base sz (as @ x # bs) A U" and n: "0 < n" "n < sz x" and q: "q = x + unat (sz x - n)"
  shows "layout base (sz(x := sz x - n, q := n)) (as @ x # bs) (insert q A) U" "q \<notin> set (as @ x # bs) \<union> A"
proof -
  let ?sz = "sz(x := sz x - n, q := n)" and ?T = "set (as @ x # bs) \<union> A"
  have xT: "x \<in> ?T" by simp
  have x: "x \<noteq> base" using n l by (auto simp: layout_def)
  have s: "unat (sz x - n) = unat (sz x) - unat n" "unat n < unat (sz x)" "0 < unat n"
    using n by (simp_all add: unat_sub word_less_nat_alt order_less_imp_le)
  have q': "x < q" "q < x + unat (sz x)" using s q by auto
  have d: "\<And>v w. v \<in> ?T \<Longrightarrow> w \<in> ?T \<Longrightarrow> v \<noteq> w \<Longrightarrow> units sz v \<inter> units sz w = {}"
    using l by (simp only: layout_def) blast
  have qx: "q \<in> units sz x" using q' by (simp add: units_def)
  show qT: "q \<notin> ?T"
  proof
    assume "q \<in> ?T"
    moreover have "q \<noteq> base" using layout_unit(3) [OF l xT x] q' by simp
    ultimately show False using layout_unit(1) [OF l, of q] d [of q x] qx q' xT by auto
  qed
  have ux: "units ?sz x \<union> units ?sz q = units sz x" "units ?sz x \<inter> units ?sz q = {}"
    using s q q' by (auto simp: units_def)
  have uo: "units ?sz z = units sz z" if "z \<noteq> x" "z \<noteq> q" for z using that by (simp add: units_def)
  have disj: "units ?sz v \<inter> units ?sz w = {}" if "v \<in> insert q ?T" "w \<in> insert q ?T" "v \<noteq> w" for v w
  proof -
    have h: "units ?sz v \<inter> units ?sz w = {}" if "v \<in> ?T" "v \<noteq> x" "w = x \<or> w = q" for v w
      using d [of v x] xT that uo [of v] qT ux(1) by blast
    show ?thesis
      using that h [of v w] h [of w v] d [of v w] ux(2) uo [of v] uo [of w] qT by (cases "v \<in> {x, q}"; cases "w \<in> {x, q}") auto
  qed
  have cov: "(\<Union>z\<in>insert q ?T. units ?sz z) = (\<Union>z\<in>?T. units sz z)"
  proof -
    have "(\<Union>z\<in>insert q ?T. units ?sz z) = units ?sz x \<union> units ?sz q \<union> (\<Union>z\<in>?T - {x}. units ?sz z)" using xT by blast
    also have "(\<Union>z\<in>?T - {x}. units ?sz z) = (\<Union>z\<in>?T - {x}. units sz z)"
      by (rule SUP_cong) (use uo qT in auto)
    also have "units ?sz x \<union> units ?sz q \<union> (\<Union>z\<in>?T - {x}. units sz z) = units sz x \<union> (\<Union>z\<in>?T - {x}. units sz z)"
      using ux(1) by simp
    also have "\<dots> = (\<Union>z\<in>?T. units sz z)" using xT by blast
    finally show ?thesis .
  qed
  have U: "(\<Union>z\<in>?T. units sz z) = U" "U \<subseteq> {base<..<2 ^ 28}" using l by (simp_all only: layout_def)
  have "q \<noteq> base" using layout_unit(3) [OF l xT x] q' by simp
  moreover have "0 < sz x - n" using s by (simp add: word_less_nat_alt)
  moreover have "insert q ?T = set (as @ x # bs) \<union> insert q A" by auto
  ultimately show "layout base ?sz (as @ x # bs) (insert q A) U"
    using disj cov U l x n qT unfolding layout_def by (auto split: if_splits)
qed

lemma layout_grow:
  assumes l: "layout base sz xs A U" and h: "\<forall>u\<in>U. u < h" "base < h" "0 < n" "h + unat n \<le> 2 ^ 28"
  shows "layout base (sz(h := n)) xs (insert h A) (U \<union> {h..<h + unat n})" "h \<notin> set xs \<union> A"
proof -
  let ?T = "set xs \<union> A" and ?sz = "sz(h := n)"
  show hT: "h \<notin> ?T" using layout_unit(1,2) [OF l, of h] h(1,2) by auto
  have uo: "units ?sz z = units sz z" if "z \<in> ?T" for z using that hT by (auto simp: units_def)
  have uh: "units ?sz h = {h..<h + unat n}" by (simp add: units_def)
  have sub: "units sz z \<subseteq> U" if "z \<in> ?T" for z using that l by (auto simp: layout_def)
  have hd: "units ?sz z \<inter> units ?sz h = {}" if "z \<in> ?T" for z using uo [OF that] uh sub [OF that] h(1) by fastforce
  have disj: "units ?sz v \<inter> units ?sz w = {}" if "v \<in> insert h ?T" "w \<in> insert h ?T" "v \<noteq> w" for v w
  proof -
    have "units sz v \<inter> units sz w = {}" if "v \<in> ?T" "w \<in> ?T" "v \<noteq> w" for v w
      using l that by (simp only: layout_def) blast
    then show ?thesis using that hd [of v] hd [of w] uo [of v] uo [of w] by (cases "v = h"; cases "w = h") auto
  qed
  have cov: "(\<Union>z\<in>insert h ?T. units ?sz z) = U \<union> {h..<h + unat n}"
  proof -
    have "(\<Union>z\<in>insert h ?T. units ?sz z) = units ?sz h \<union> (\<Union>z\<in>?T. units sz z)" using uo by auto
    then show ?thesis using uh l by (auto simp: layout_def)
  qed
  have "insert h ?T = set xs \<union> insert h A" by auto
  moreover have "U \<union> {h..<h + unat n} \<subseteq> {base<..<2 ^ 28}" using l h by (auto simp: layout_def)
  ultimately show "layout base ?sz xs (insert h A) (U \<union> {h..<h + unat n})"
    using disj cov l h hT unfolding layout_def by auto
qed

subsection \<open>The heap\<close>

definition heap_ok :: "nat \<Rightarrow> uheap \<Rightarrow> nat list \<Rightarrow> nat set \<Rightarrow> nat set \<Rightarrow> bool" where
  "heap_ok base m xs A U \<longleftrightarrow> path (hptr m) base xs base \<and> xs \<noteq> [] \<and> freep m \<in> set xs \<and> 0 < base \<and>
     layout base (hsize m) xs A U"

lemma heap_okD:
  assumes "heap_ok base m xs A U"
  shows "path (hptr m) base xs base" "freep m \<in> set xs" "layout base (hsize m) xs A U" "sorted_wrt (<) xs" "distinct xs"
    "base \<in> set xs" "0 < base" "\<And>x. x \<in> set xs \<Longrightarrow> base \<le> x"
proof -
  show l: "layout base (hsize m) xs A U" and "path (hptr m) base xs base" "freep m \<in> set xs" "0 < base"
    using assms by (simp_all add: heap_ok_def)
  then show "sorted_wrt (<) xs" by (simp add: layout_def)
  then show "distinct xs" using strict_sorted_iff by blast
  show "base \<in> set xs" using assms by (cases xs) (auto simp: heap_ok_def)
  show "base \<le> x" if "x \<in> set xs" for x using layout_unit(3) [OF l, of x] that by (cases "x = base") auto
qed

lemma free_place_walk:
  assumes "path (hptr m) p ys q" and "y \<in> set ys" and "place_found bp y m"
  shows "\<exists>z\<in>set ys. free_place bp p m = Some z \<and> place_found bp z m"
  using assms
proof (induction ys arbitrary: p)
  case (Cons a ys)
  show ?case
  proof (cases "place_found bp p m")
    case True
    then show ?thesis using Cons.prems(1) by (subst free_place.simps) simp
  next
    case False
    then have "free_place bp p m = free_place bp (hptr m p) m" by (subst free_place.simps) simp
    moreover have "y \<in> set ys" using Cons.prems False by auto
    ultimately show ?thesis using Cons.IH [of "hptr m p"] Cons.prems by auto
  qed
qed simp

text \<open>The search of \<^verbatim>\<open>free\<close> ends at the place where the block belongs.\<close>

lemma free_place_ok:
  assumes h: "heap_ok base m xs A U" and a: "a \<in> A"
  obtains as p bs where "free_place a (freep m) m = Some p" "xs = as @ p # bs" "p < a" "bs \<noteq> [] \<longrightarrow> a < hd bs"
proof -
  note d = heap_okD [OF h]
  have ab: "base < a" "a \<notin> set xs" using layout_unit(3) [OF d(3), of a] a d(3) by (auto simp: layout_def)
  define ls where "ls = takeWhile (\<lambda>x. x < a) xs"
  define rs where "rs = dropWhile (\<lambda>x. x < a) xs"
  have xs: "xs = ls @ rs" by (simp add: ls_def rs_def)
  have ne: "ls \<noteq> []"
    using h ab(1) by (cases xs) (auto simp: heap_ok_def ls_def)
  define p where "p = last ls"
  have sp: "xs = butlast ls @ p # rs" using xs ne by (simp add: p_def)
  have lt: "p < a" using ne unfolding p_def ls_def by (metis last_in_set set_takeWhileD)
  have gt: "a < hd rs" if "rs \<noteq> []"
  proof -
    have "\<not> hd rs < a" using that unfolding rs_def by (rule hd_dropWhile)
    moreover have "hd rs \<noteq> a" using that ab(2) xs by (metis Un_iff hd_in_set set_append)
    ultimately show ?thesis by simp
  qed
  have nx: "hptr m p = (case rs of [] \<Rightarrow> base | q # _ \<Rightarrow> q)" using path_next d(1) sp by metis
  have bp: "base \<le> p" using d(8) [of p] sp by simp
  have stop: "place_found a p m" using nx lt gt bp by (cases rs) (auto simp: place_found_def)
  obtain us vs where f: "xs = us @ freep m # vs" using d(2) by (meson split_list)
  then have "path (hptr m) (freep m) (freep m # vs @ us) (freep m)" using path_rotate(1) d(1) by metis
  moreover have "p \<in> set (freep m # vs @ us)" using f sp by (metis Un_iff in_set_conv_decomp set_append set_ConsD list.set_intros)
  ultimately obtain z where z: "z \<in> set xs" "free_place a (freep m) m = Some z" "place_found a z m"
    using free_place_walk [of m "freep m" "freep m # vs @ us"] stop f by fastforce
  obtain as bs where zs: "xs = as @ z # bs" using z(1) by (meson split_list)
  have nz: "hptr m z = (case bs of [] \<Rightarrow> base | q # _ \<Rightarrow> q)" using path_next d(1) zs by metis
  have "z < a \<and> (bs \<noteq> [] \<longrightarrow> a < hd bs)"
  proof (cases bs)
    case Nil
    then show ?thesis using z(3) nz ab(1) d(8) [OF z(1)] by (auto simp: place_found_def)
  next
    case (Cons q cs)
    then have "z < q" using d(4) zs by (auto simp: sorted_wrt_append)
    then show ?thesis using z(3) nz Cons by (auto simp: place_found_def)
  qed
  then show thesis using that z(2) zs by blast
qed

lemma path_insert:
  assumes "path h base (as @ p # bs) base" and "a \<notin> set (as @ p # bs)" and "distinct (as @ p # bs)"
  shows "path (h(a := h p, p := a)) base (as @ p # a # bs) base"
  using assms by auto

lemma path_skip:
  assumes "path h base (as @ x # y # bs) base" and "distinct (as @ x # y # bs)"
  shows "path (h(x := h y)) base (as @ x # bs) base"
  using assms by auto

lemma heap_merge:
  assumes h: "heap_ok base m (as @ x # y # bs) A U" and adj: "x + unat (hsize m x) = y" and x: "x \<noteq> base" and f: "freep m \<noteq> y"
  shows "heap_ok base (m\<lparr>hsize := (hsize m)(x := hsize m x + hsize m y), hptr := (hptr m)(x := hptr m y)\<rparr>) (as @ x # bs) A U"
    "hsize m x \<le> hsize m x + hsize m y" "hsize m y \<le> hsize m x + hsize m y"
proof -
  note d = heap_okD [OF h]
  show "heap_ok base (m\<lparr>hsize := (hsize m)(x := hsize m x + hsize m y), hptr := (hptr m)(x := hptr m y)\<rparr>) (as @ x # bs) A U"
    unfolding heap_ok_def
    using layout_merge [OF d(3) adj x] path_skip [OF d(1) d(5)] d(2,7) f by simp
  have "x < y" using d(4) by (simp add: sorted_wrt_append)
  then have "y \<noteq> base" using d(8) [of x] by simp
  then have "unat (hsize m x + hsize m y) = unat (hsize m x) + unat (hsize m y)"
    by (intro unat_plus) (use layout_unit(4) [OF d(3), of x] layout_unit(4) [OF d(3), of y] x in simp)
  then show "hsize m x \<le> hsize m x + hsize m y" "hsize m y \<le> hsize m x + hsize m y"
    by (simp_all add: word_le_nat_alt)
qed

lemma heap_insert:
  assumes h: "heap_ok base m (as @ p # bs) A U" and a: "a \<in> A" "p < a" "bs \<noteq> [] \<longrightarrow> a < hd bs"
  shows "heap_ok base (m\<lparr>hptr := (hptr m)(a := hptr m p, p := a), freep := p\<rparr>) (as @ p # a # bs) (A - {a}) U"
proof -
  note d = heap_okD [OF h]
  have "a \<notin> set (as @ p # bs)" using a(1) d(3) by (auto simp: layout_def)
  then show ?thesis
    unfolding heap_ok_def using layout_insert [OF d(3) a] path_insert [OF d(1) _ d(5)] d(7) by simp
qed

text \<open>\<^verbatim>\<open>free\<close> joins the block with the next one, then with the one before.\<close>

lemma free_join_up:
  assumes h: "heap_ok base m (as @ p # bs) A U" and a: "a \<in> A" "p < a" "bs \<noteq> [] \<longrightarrow> a < hd bs"
  obtains m1 bs1 where "heap_ok base m1 (as @ p # a # bs1) (A - {a}) U" "freep m1 = p" "ubrk m1 = ubrk m"
    "hsize m a \<le> hsize m1 a" "\<forall>b. b \<noteq> a \<longrightarrow> hsize m1 b = hsize m b"
    "free_join a p m = (if p + unat (hsize m1 p) = a
       then m1\<lparr>hsize := (hsize m1)(p := hsize m1 p + hsize m1 a), hptr := (hptr m1)(p := hptr m1 a)\<rparr> else m1)"
proof -
  note d = heap_okD [OF h] and i = heap_insert [OF h a]
  let ?m = "m\<lparr>hptr := (hptr m)(a := hptr m p, p := a), freep := p\<rparr>"
  have nx: "hptr m p = (case bs of [] \<Rightarrow> base | q # _ \<Rightarrow> q)" by (rule path_next [OF d(1)])
  have ba: "base < a" using layout_unit(3) [OF d(3), of a] a(1) d(3) by (auto simp: layout_def)
  show thesis
  proof (cases "a + unat (hsize m a) = hptr m p")
    case False
    have e: "free_join a p m = (if p + unat (hsize ?m p) = a
        then ?m\<lparr>hsize := (hsize ?m)(p := hsize ?m p + hsize ?m a), hptr := (hptr ?m)(p := hptr ?m a)\<rparr> else ?m)"
      using False a(2) by (simp add: free_join_def Let_def)
    show thesis by (rule that [OF i _ _ _ _ e]) simp_all
  next
    case True
    with nx ba obtain q cs where bs: "bs = q # cs" "hptr m p = q" by (cases bs) auto
    let ?n = "?m\<lparr>hsize := (hsize ?m)(a := hsize ?m a + hsize ?m q), hptr := (hptr ?m)(a := hptr ?m q)\<rparr>"
    have q: "a < q" "p < q" using a(2,3) bs by auto
    have i': "heap_ok base ?m ((as @ [p]) @ a # q # cs) (A - {a}) U" using i bs(1) by simp
    have adj: "a + unat (hsize ?m a) = q" "a \<noteq> base" "freep ?m \<noteq> q" using True bs ba q by simp_all
    note g = heap_merge [OF i' adj]
    have e: "free_join a p m = (if p + unat (hsize ?n p) = a
        then ?n\<lparr>hsize := (hsize ?n)(p := hsize ?n p + hsize ?n a), hptr := (hptr ?n)(p := hptr ?n a)\<rparr> else ?n)"
      using True a(2) bs(2) q by (auto simp: free_join_def Let_def fun_upd_twist)
    show thesis by (rule that [OF _ _ _ _ _ e]) (use g in simp_all)
  qed
qed

lemma free_ok:
  assumes h: "heap_ok base m xs A U" and a: "a \<in> A"
  obtains m' xs' where "ufree (a + 1) m = Some m'" "heap_ok base m' xs' (A - {a}) U" "ubrk m' = ubrk m"
    "\<forall>b\<in>A - {a}. hsize m' b = hsize m b" "\<exists>x\<in>set xs'. hsize m a \<le> hsize m' x"
proof -
  obtain as p bs where p: "free_place a (freep m) m = Some p" "xs = as @ p # bs" "p < a" "bs \<noteq> [] \<longrightarrow> a < hd bs"
    by (rule free_place_ok [OF h a])
  obtain m1 bs1 where m1: "heap_ok base m1 (as @ p # a # bs1) (A - {a}) U" "freep m1 = p" "ubrk m1 = ubrk m"
    "hsize m a \<le> hsize m1 a" "\<forall>b. b \<noteq> a \<longrightarrow> hsize m1 b = hsize m b"
    "free_join a p m = (if p + unat (hsize m1 p) = a
       then m1\<lparr>hsize := (hsize m1)(p := hsize m1 p + hsize m1 a), hptr := (hptr m1)(p := hptr m1 a)\<rparr> else m1)"
    by (rule free_join_up [OF h [unfolded p(2)] a p(3,4)])
  note d = heap_okD [OF m1(1)]
  have u: "ufree (a + 1) m = Some (free_join a p m)" using p(1) by (simp add: ufree_def)
  have pA: "p \<notin> A" using heap_okD(3) [OF h] p(2) by (auto simp: layout_def)
  show thesis
  proof (cases "p + unat (hsize m1 p) = a")
    case False
    then show thesis using that [OF u, of "as @ p # a # bs1"] m1 by auto
  next
    case True
    have "p \<noteq> base" using True d(3) p(3) by (auto simp: layout_def)
    note g = heap_merge [OF m1(1) True this]
    show thesis
      by (rule that [OF u, of "as @ p # bs1"])
        (use g True m1 p(3) pA in \<open>auto intro: order_trans\<close>)
  qed
qed

subsection \<open>Allocation\<close>

definition fits :: "uint \<Rightarrow> uheap \<Rightarrow> nat \<Rightarrow> bool" where
  "fits n m x \<longleftrightarrow> n \<le> hsize m x"

lemma malloc_loop_walk:
  assumes "path (hptr m) p ys q" and "ys \<noteq> []" and "last ys = freep m" and "distinct ys" and "hptr m prev = p"
  shows "if \<exists>x\<in>set ys. fits n m x
    then \<exists>x y. x \<in> set ys \<and> fits n m x \<and> y \<in> insert prev (set ys) \<and> hptr m y = x \<and>
      malloc_loop mem n prev p m = Some (take_block n y x m)
    else malloc_loop mem n prev p m = Option.bind (morecore mem n m) (\<lambda>r.
             if fst r = 0 then Some (0, snd r)
             else malloc_loop mem n (fst r) (hptr (snd r) (fst r)) (snd r))"
  using assms
proof (induction ys arbitrary: p prev)
  case (Cons a ys)
  have a: "a = p" using Cons.prems(1) by simp
  show ?case
  proof (cases "fits n m p")
    case True
    then have "malloc_loop mem n prev p m = Some (take_block n prev p m)"
      by (subst malloc_loop.simps) (simp add: fits_def)
    then show ?thesis using True a Cons.prems(5) by auto
  next
    case False
    show ?thesis
    proof (cases "ys = []")
      case True
      then show ?thesis using False a Cons.prems(3) by (subst (2) malloc_loop.simps) (simp add: fits_def)
    next
      case ne: False
      then have "p \<noteq> freep m" using Cons.prems(3,4) a last_in_set [OF ne] by auto
      then have "malloc_loop mem n prev p m = malloc_loop mem n p (hptr m p) m"
        using False by (subst malloc_loop.simps) (simp add: fits_def)
      then show ?thesis
        using Cons.IH [of "hptr m p" p] Cons.prems ne False a by (auto split: if_splits)
    qed
  qed
qed simp

lemma take_block_ok:
  assumes h: "heap_ok base m xs A U" and x: "x \<in> set xs" "fits n m x" and n: "0 < n"
    and y: "y \<in> set xs" "hptr m y = x"
  obtains a m' xs' where "take_block n y x m = (a + 1, m')" "a \<notin> A" "hsize m' a = n" "heap_ok base m' xs' (insert a A) U"
    "ubrk m' = ubrk m" "\<forall>b\<in>A. hsize m' b = hsize m b"
proof -
  note d = heap_okD [OF h]
  have xb: "x \<noteq> base" using x(2) n d(3) by (auto simp: fits_def layout_def)
  have xA: "x \<notin> A" using x(1) d(3) by (auto simp: layout_def)
  obtain as cs where ys: "xs = as @ y # cs" using y(1) by (meson split_list)
  have "hptr m y = (case cs of [] \<Rightarrow> base | q # _ \<Rightarrow> q)" using path_next d(1) ys by metis
  then obtain bs where xs: "xs = as @ y # x # bs" using y(2) xb ys by (cases cs) auto
  show thesis
  proof (cases "hsize m x = n")
    case True
    have "layout base (hsize m) (as @ y # bs) (insert x A) U"
      using layout_take [of base "hsize m" "as @ [y]" x bs] d(3) xb xs by simp
    moreover have "path ((hptr m)(y := hptr m x)) base (as @ y # bs) base" using path_skip d(1,5) xs by metis
    ultimately have "heap_ok base (m\<lparr>hptr := (hptr m)(y := hptr m x), freep := y\<rparr>) (as @ y # bs) (insert x A) U"
      using d(7) by (simp add: heap_ok_def)
    then show thesis using that [of x] True xA by (simp add: take_block_def)
  next
    case False
    let ?k = "hsize m x - n" and ?q = "x + unat (hsize m x - n)"
    have lt: "n < hsize m x" using x(2) False by (simp add: fits_def order.strict_iff_order)
    note sp = layout_split [of base "hsize m" "as @ [y]" x bs A U n ?q]
    have l: "layout base ((hsize m)(x := ?k, ?q := n)) xs (insert ?q A) U" "?q \<notin> set xs \<union> A"
      using sp d(3) n lt xs by simp_all
    then have ho: "heap_ok base (m\<lparr>hsize := (hsize m)(x := ?k, ?q := n), freep := y\<rparr>) xs (insert ?q A) U"
      using d(1,7) y(1) xs by (simp add: heap_ok_def)
    show thesis by (rule that [OF _ _ _ ho]) (use False l(2) xA in \<open>auto simp: take_block_def Let_def\<close>)
  qed
qed

text \<open>A walk around the ring from \<^verbatim>\<open>freep\<close> finds a block that fits if there is one.\<close>

lemma malloc_search:
  assumes h: "heap_ok base m xs A U" and n: "0 < n"
  shows "if \<exists>x\<in>set xs. fits n m x
    then \<exists>a m' xs'. malloc_loop mem n (freep m) (hptr m (freep m)) m = Some (a + 1, m') \<and> a \<notin> A \<and> hsize m' a = n \<and>
      heap_ok base m' xs' (insert a A) U \<and> ubrk m' = ubrk m \<and> (\<forall>b\<in>A. hsize m' b = hsize m b)
    else malloc_loop mem n (freep m) (hptr m (freep m)) m = Option.bind (morecore mem n m) (\<lambda>r.
             if fst r = 0 then Some (0, snd r)
             else malloc_loop mem n (fst r) (hptr (snd r) (fst r)) (snd r))"
proof -
  note d = heap_okD [OF h]
  obtain us vs where f: "xs = us @ freep m # vs" using d(2) by (meson split_list)
  let ?ys = "vs @ us @ [freep m]"
  have p: "path (hptr m) (hptr m (freep m)) ?ys (hptr m (freep m))" using path_rotate(2) d(1) f by metis
  have "distinct (us @ freep m # vs)" using d(5) f by simp
  then have dist: "distinct ?ys" by auto
  have s: "set ?ys = set xs" using f by auto
  have l: "?ys \<noteq> []" "last ?ys = freep m" by simp_all
  note w = malloc_loop_walk [OF p l dist refl, of n mem, unfolded s]
  show ?thesis
  proof (cases "\<exists>x\<in>set xs. fits n m x")
    case True
    then obtain x y where x: "x \<in> set xs" "fits n m x" "y \<in> set xs" "hptr m y = x"
      "malloc_loop mem n (freep m) (hptr m (freep m)) m = Some (take_block n y x m)"
      using w d(2) by (auto simp: insert_absorb)
    obtain a m' xs' where "take_block n y x m = (a + 1, m')" "a \<notin> A" "hsize m' a = n" "heap_ok base m' xs' (insert a A) U"
      "ubrk m' = ubrk m" "\<forall>b\<in>A. hsize m' b = hsize m b"
      by (rule take_block_ok [OF h x(1,2) n x(3,4)])
    then show ?thesis using True x(5) by auto
  next
    case False
    then show ?thesis using w by simp
  qed
qed

text \<open>The end of memory lies behind the heap, at a multiple of the size of a header.\<close>

definition brk_ok :: "nat \<Rightarrow> uint \<Rightarrow> nat set \<Rightarrow> bool" where
  "brk_ok base b U \<longleftrightarrow> 8 dvd unat b \<and> (\<forall>u\<in>U. u < unat b div 8) \<and> base < unat b div 8 \<and> b < KERNBASE"

lemma sbrk_grows:
  assumes "sbrk mem (int k) b = Some b'" and "b < KERNBASE" and "0 < k" and "k < 2 ^ 31"
  shows "unat b' = unat b + k" "b' < KERNBASE"
proof -
  have "unat b < 2 ^ 31" using assms(2) by (simp add: word_less_nat_alt)
  then have u: "unat (b + of_nat k) = unat b + k" using assms(4) by (simp add: unat_word_ariths unat_of_nat take_bit_nat_eq_self)
  then have "\<not> b + of_nat k < b" by (simp add: word_less_nat_alt)
  then have "b' = b + of_nat k \<and> \<not> KERNBASE \<le> b + of_nat k"
    using assms(1,3) by (simp add: sbrk_def Let_def split: if_splits)
  then show "unat b' = unat b + k" "b' < KERNBASE" using u by auto
qed

lemma morecore_ok:
  assumes h: "heap_ok base m xs A U" and b: "brk_ok base (ubrk m) U" and n: "unat n < 2 ^ 28"
  shows "morecore mem n m = Some (0, m) \<or> (\<exists>m' xs' U'. morecore mem n m = Some (freep m', m') \<and>
    heap_ok base m' xs' A U' \<and> U \<subseteq> U' \<and> brk_ok base (ubrk m') U' \<and> (\<exists>x\<in>set xs'. fits n m' x) \<and>
    (\<forall>b\<in>A. hsize m' b = hsize m b))"
proof -
  define nu where "nu = (if n < 4096 then 4096 else n)"
  have nu: "n \<le> nu" "unat nu < 2 ^ 28" "0 < nu" using n by (auto simp: nu_def word_less_nat_alt word_le_nat_alt)
  have "nu * HEADER = of_int (int (8 * unat nu))" by simp
  also have "sint (of_int (int (8 * unat nu)) :: uint) = int (8 * unat nu)"
  proof (rule sint_of_int_uint)
    have "8 * unat nu < 2 ^ 31" using nu(2) by simp
    then show "int (8 * unat nu) < 2 ^ 31" by (simp only: of_nat_less_numeral_power_cancel_iff)
    show "- (2 ^ 31) \<le> int (8 * unat nu)" by (rule order_trans [of _ 0]) simp_all
  qed
  finally have k: "sint (nu * HEADER) = int (8 * unat nu)" .
  show ?thesis
  proof (cases "sbrk mem (sint (nu * HEADER)) (ubrk m)")
    case None
    then show ?thesis by (simp add: morecore_def Let_def nu_def [symmetric])
  next
    case (Some e)
    let ?h = "unat (ubrk m) div 8" and ?m = "m\<lparr>ubrk := e, hsize := (hsize m)(unat (ubrk m) div 8 := nu)\<rparr>"
    have bb: "8 dvd unat (ubrk m)" "\<forall>u\<in>U. u < ?h" "base < ?h" "ubrk m < KERNBASE" using b by (simp_all add: brk_ok_def)
    have "0 < 8 * unat nu" "8 * unat nu < 2 ^ 31" using nu by (simp_all add: word_less_nat_alt)
    from sbrk_grows [OF Some [unfolded k] bb(4) this]
    have e: "unat e = unat (ubrk m) + 8 * unat nu" "e < KERNBASE" by simp_all
    obtain c where c: "unat (ubrk m) = 8 * c" using bb(1) by (rule dvdE)
    have he: "?h + unat nu = unat e div 8" "8 dvd unat e" using e(1) c by simp_all
    have "?h + unat nu \<le> 2 ^ 28" unfolding he(1) using e(2) by (simp add: word_less_nat_alt)
    note g = layout_grow [OF heap_okD(3) [OF h] bb(2,3) nu(3) this]
    have h1: "heap_ok base ?m xs (insert ?h A) (U \<union> {?h..<?h + unat nu})"
      using g(1) h by (simp add: heap_ok_def)
    obtain m' xs' where f: "ufree (?h + 1) ?m = Some m'" "heap_ok base m' xs' (insert ?h A - {?h}) (U \<union> {?h..<?h + unat nu})"
      "ubrk m' = ubrk ?m" "\<forall>b\<in>insert ?h A - {?h}. hsize m' b = hsize ?m b" "\<exists>x\<in>set xs'. hsize ?m ?h \<le> hsize m' x"
      by (rule free_ok [OF h1 insertI1])
    have A: "insert ?h A - {?h} = A" using g(2) by auto
    have "morecore mem n m = Some (freep m', m')"
      using Some f(1) by (simp add: morecore_def Let_def nu_def [symmetric])
    moreover have "brk_ok base (ubrk m') (U \<union> {?h..<?h + unat nu})"
      using f(3) he bb e(2) by (auto simp: brk_ok_def)
    moreover have "\<exists>x\<in>set xs'. fits n m' x" using f(5) nu(1) by (auto simp: fits_def intro: order_trans)
    moreover have "\<forall>b\<in>A. hsize m' b = hsize m b" using f(4) g(2) unfolding A by auto
    ultimately show ?thesis using f(2) unfolding A by blast
  qed
qed

lemma malloc_loop_ok:
  assumes h: "heap_ok base m xs A U" and b: "brk_ok base (ubrk m) U" and n: "0 < n" "unat n < 2 ^ 28"
  obtains r m' xs' U' where "malloc_loop mem n (freep m) (hptr m (freep m)) m = Some (r, m')" "U \<subseteq> U'" "brk_ok base (ubrk m') U'"
    "\<forall>b\<in>A. hsize m' b = hsize m b"
    "(if r = 0 then heap_ok base m' xs' A U'
      else heap_ok base m' xs' (insert (r - 1) A) U' \<and> r - 1 \<notin> A \<and> hsize m' (r - 1) = n)"
proof (cases "\<exists>x\<in>set xs. fits n m x")
  case True
  then show thesis using malloc_search [OF h n(1), of mem] b that [of _ _ U] by auto
next
  case False
  then have l: "malloc_loop mem n (freep m) (hptr m (freep m)) m = Option.bind (morecore mem n m) (\<lambda>r.
      if fst r = 0 then Some (0, snd r) else malloc_loop mem n (fst r) (hptr (snd r) (fst r)) (snd r))"
    using malloc_search [OF h n(1), of mem] by simp
  from morecore_ok [OF h b n(2), of mem] show thesis
  proof (elim disjE exE conjE)
    assume "morecore mem n m = Some (0, m)"
    then show thesis using l b h that [of 0 m U xs] by simp
  next
    fix m1 xs1 U1
    assume m1: "morecore mem n m = Some (freep m1, m1)" "heap_ok base m1 xs1 A U1" "U \<subseteq> U1" "brk_ok base (ubrk m1) U1"
      "\<exists>x\<in>set xs1. fits n m1 x" "\<forall>b\<in>A. hsize m1 b = hsize m b"
    have "freep m1 \<noteq> 0" using heap_okD(2,7,8) [OF m1(2)] by fastforce
    then have "malloc_loop mem n (freep m) (hptr m (freep m)) m = malloc_loop mem n (freep m1) (hptr m1 (freep m1)) m1"
      using l m1(1) by simp
    then show thesis using malloc_search [OF m1(2) n(1), of mem] m1 that [of _ _ U1] by auto
  qed
qed

lemma nunits_of_ok:
  assumes "unat nbytes \<le> 2 ^ 31 - 24"
  shows "0 < nunits_of nbytes" "unat (nunits_of nbytes) < 2 ^ 28" "unat nbytes \<le> 8 * (unat (nunits_of nbytes) - 1)"
proof -
  have "unat (nbytes + HEADER - 1) = unat nbytes + 7"
  proof -
    have "nbytes + HEADER - 1 = nbytes + 7" by simp
    then show ?thesis using assms by (simp add: unat_word_ariths)
  qed
  then have "unat (nunits_of nbytes) = (unat nbytes + 7) div 8 + 1"
    using assms by (simp add: nunits_of_def unat_word_ariths unat_div_distrib)
  moreover have "(unat nbytes + 7) div 8 < 2 ^ 28 - 1" using assms by simp
  moreover have "unat nbytes \<le> 8 * ((unat nbytes + 7) div 8)" by simp
  ultimately show "0 < nunits_of nbytes" "unat (nunits_of nbytes) < 2 ^ 28" "unat nbytes \<le> 8 * (unat (nunits_of nbytes) - 1)"
    by (simp_all add: word_less_nat_alt)
qed

subsection \<open>The heap of a program\<close>

text \<open>
  A program that allocates, frees what it has allocated, writes into its blocks behind their
  headers, and asks the kernel for memory of its own. The second component is the set of the headers of
  the blocks it holds.
\<close>

definition payload :: "uheap \<Rightarrow> nat set \<Rightarrow> nat set" where
  "payload m A = (\<Union>a\<in>A. units (hsize m) a - {a})"

definition um_init :: "nat \<Rightarrow> uheap \<times> nat set \<Rightarrow> bool" where
  "um_init base st \<longleftrightarrow> freep (fst st) = 0 \<and> snd st = {} \<and> 0 < base \<and> brk_ok base (ubrk (fst st)) {}"

inductive um_step :: "(uint \<Rightarrow> uint \<Rightarrow> bool) \<Rightarrow> nat \<Rightarrow> uheap \<times> nat set \<Rightarrow> uheap \<times> nat set \<Rightarrow> bool" for mem base where
  um_malloc: "umalloc mem base nbytes m = Some (r, m') \<Longrightarrow> unat nbytes \<le> 2 ^ 31 - 24 \<Longrightarrow>
    um_step mem base (m, A) (m', if r = 0 then A else insert (r - 1) A)"
| um_free: "a \<in> A \<Longrightarrow> ufree (a + 1) m = Some m' \<Longrightarrow> um_step mem base (m, A) (m', A - {a})"
| um_write: "(\<And>u. u \<notin> payload m A \<Longrightarrow> hptr m' u = hptr m u \<and> hsize m' u = hsize m u) \<Longrightarrow> freep m' = freep m \<Longrightarrow>
    ubrk m' = ubrk m \<Longrightarrow> um_step mem base (m, A) (m', A)"
| um_sbrk: "sbrk mem (int (8 * k)) (ubrk m) = Some b \<Longrightarrow> 0 < k \<Longrightarrow> 8 * k < 2 ^ 31 \<Longrightarrow>
    um_step mem base (m, A) (m\<lparr>ubrk := b\<rparr>, A)"

definition um_ok :: "nat \<Rightarrow> uheap \<times> nat set \<Rightarrow> bool" where
  "um_ok base st \<longleftrightarrow> um_init base st \<or> (\<exists>xs U. heap_ok base (fst st) xs (snd st) U \<and> brk_ok base (ubrk (fst st)) U)"

lemma um_malloc_ok:
  assumes "um_ok base (m, A)" and "unat nbytes \<le> 2 ^ 31 - 24"
  obtains r m' where "umalloc mem base nbytes m = Some (r, m')" "\<forall>b\<in>A. hsize m' b = hsize m b"
    "um_ok base (m', if r = 0 then A else insert (r - 1) A)"
    "r \<noteq> 0 \<longrightarrow> r - 1 \<notin> A \<and> hsize m' (r - 1) = nunits_of nbytes \<and>
      (\<forall>b\<in>A. units (hsize m') (r - 1) \<inter> units (hsize m') b = {})"
proof -
  define m1 where "m1 = (if freep m = 0 then m\<lparr>hptr := (hptr m)(base := base), hsize := (hsize m)(base := 0), freep := base\<rparr>
    else m)"
  have "\<exists>xs U. heap_ok base m1 xs A U \<and> brk_ok base (ubrk m1) U \<and> (\<forall>b\<in>A. hsize m1 b = hsize m b)"
  proof (cases "um_init base (m, A)")
    case True
    then have "heap_ok base m1 [base] A {}" "brk_ok base (ubrk m1) {}" "A = {}"
      by (auto simp: um_init_def m1_def heap_ok_def layout_def units_def)
    then show ?thesis by blast
  next
    case False
    then obtain xs U where h: "heap_ok base m xs A U" "brk_ok base (ubrk m) U" using assms(1) by (auto simp: um_ok_def)
    then have "freep m \<noteq> 0" using heap_okD(2,7,8) [OF h(1)] by fastforce
    then show ?thesis using h by (auto simp: m1_def)
  qed
  then obtain xs U where h: "heap_ok base m1 xs A U" "brk_ok base (ubrk m1) U" "\<forall>b\<in>A. hsize m1 b = hsize m b" by blast
  note n = nunits_of_ok [OF assms(2)]
  obtain r m' xs' U' where r: "malloc_loop mem (nunits_of nbytes) (freep m1) (hptr m1 (freep m1)) m1 = Some (r, m')"
    "U \<subseteq> U'" "brk_ok base (ubrk m') U'" "\<forall>b\<in>A. hsize m' b = hsize m1 b"
    "(if r = 0 then heap_ok base m' xs' A U'
      else heap_ok base m' xs' (insert (r - 1) A) U' \<and> r - 1 \<notin> A \<and> hsize m' (r - 1) = nunits_of nbytes)"
    by (rule malloc_loop_ok [OF h(1,2) n(1,2)])
  have u: "umalloc mem base nbytes m = Some (r, m')" using r(1) by (simp add: umalloc_def Let_def m1_def)
  have "units (hsize m') (r - 1) \<inter> units (hsize m') b = {}" if "r \<noteq> 0" "b \<in> A" for b
  proof -
    have "layout base (hsize m') xs' (insert (r - 1) A) U'" "r - 1 \<noteq> b" using r(5) that by (auto simp: heap_ok_def)
    then show ?thesis using that(2) by (auto simp: layout_def)
  qed
  then show thesis using that [OF u] r(3-5) h(3) by (auto simp: um_ok_def split: if_splits)
qed

lemma um_free_ok:
  assumes "um_ok base (m, A)" and "a \<in> A"
  obtains m' where "ufree (a + 1) m = Some m'" "um_ok base (m', A - {a})"
proof -
  obtain xs U where h: "heap_ok base m xs A U" "brk_ok base (ubrk m) U" using assms by (auto simp: um_ok_def um_init_def)
  obtain m' xs' where "ufree (a + 1) m = Some m'" "heap_ok base m' xs' (A - {a}) U" "ubrk m' = ubrk m"
    "\<forall>b\<in>A - {a}. hsize m' b = hsize m b" "\<exists>x\<in>set xs'. hsize m a \<le> hsize m' x"
    by (rule free_ok [OF h(1) assms(2)])
  then show thesis using that h(2) by (auto simp: um_ok_def)
qed

lemma path_cong: "\<forall>x\<in>set xs. h x = h' x \<Longrightarrow> path h a xs b = path h' a xs b"
  by (induction xs arbitrary: a) auto

lemma headers_safe:
  assumes "layout base sz xs A U" and "x \<in> set xs \<union> A" and "a \<in> A"
  shows "x \<notin> units sz a - {a}"
proof (cases "x = base")
  case True
  have "a \<noteq> base" using assms by (auto simp: layout_def)
  then show ?thesis using layout_unit(3) [OF assms(1), of a] assms(3) True by (auto simp: units_def)
next
  case False
  have "units sz x \<inter> units sz a = {}" if "x \<noteq> a" using assms that unfolding layout_def by blast
  then show ?thesis using layout_unit(1) [OF assms(1,2) False] by auto
qed

lemma heap_ok_write:
  assumes h: "heap_ok base m xs A U"
    and w: "\<And>u. u \<notin> payload m A \<Longrightarrow> hptr m' u = hptr m u \<and> hsize m' u = hsize m u" and f: "freep m' = freep m"
  shows "heap_ok base m' xs A U"
proof -
  note d = heap_okD [OF h]
  have e: "hptr m' x = hptr m x" "hsize m' x = hsize m x" if "x \<in> set xs \<union> A" for x
    using w [of x] headers_safe [OF d(3) that] by (auto simp: payload_def)
  have u: "units (hsize m') x = units (hsize m) x" if "x \<in> set xs \<union> A" for x using e(2) [OF that] by (simp add: units_def)
  have "layout base (hsize m') xs A U"
    using d(3,6) e(2) u unfolding layout_def by (simp cong: SUP_cong)
  moreover have "path (hptr m') base xs base" using d(1) path_cong [of xs "hptr m'" "hptr m"] e(1) by simp
  ultimately show ?thesis using h f by (simp add: heap_ok_def)
qed

lemma heap_ok_brk [simp]: "heap_ok base (m\<lparr>ubrk := b\<rparr>) xs A U = heap_ok base m xs A U"
  by (simp add: heap_ok_def)

lemma brk_ok_grows:
  assumes "brk_ok base b U" and "unat b' = unat b + 8 * k" and "b' < KERNBASE"
  shows "brk_ok base b' U"
proof -
  obtain c where "unat b = 8 * c" using assms(1) by (auto simp: brk_ok_def)
  then have "unat b' div 8 = unat b div 8 + k" "8 dvd unat b'" using assms(2) by simp_all
  then show ?thesis using assms(1,3) by (auto simp: brk_ok_def)
qed

lemma um_ok_step:
  assumes "um_ok base st" and "um_step mem base st st'"
  shows "um_ok base st'"
  using assms(2,1)
proof cases
  case (um_malloc nbytes m r m' A)
  then show ?thesis using um_malloc_ok [of base m A nbytes mem thesis] assms(1) by (metis um_malloc_ok option.inject prod.inject)
next
  case (um_free a A m m')
  then show ?thesis using assms(1) by (metis um_free_ok option.inject)
next
  case (um_write m A m')
  show ?thesis
  proof (cases "um_init base (m, A)")
    case True
    then show ?thesis using um_write by (simp add: um_ok_def um_init_def)
  next
    case False
    then show ?thesis
      using assms(1) um_write heap_ok_write [of base m _ A _ m'] by (auto simp: um_ok_def) metis
  qed
next
  case (um_sbrk k m b A)
  have "brk_ok base b U" if u: "brk_ok base (ubrk m) U" for U
    using sbrk_grows [OF um_sbrk(3)] um_sbrk(4,5) u by (intro brk_ok_grows [OF u]) (auto simp: brk_ok_def)
  then show ?thesis using assms(1) um_sbrk(1,2) by (auto simp: um_ok_def um_init_def)
qed

interpretation umalloc_sys: invariant_system "um_init base" "um_step mem base" "um_ok base" for base mem
proof unfold_locales
  show "um_ok base st" if "um_init base st" for st using that by (simp add: um_ok_def)
qed (rule um_ok_step)

text \<open>
  C14: whatever a program has allocated, freed and written into its blocks, \<^verbatim>\<open>malloc\<close> of a request below two
  gigabytes returns, and so does \<^verbatim>\<open>free\<close> of every block the program holds. A block that \<^verbatim>\<open>malloc\<close> returns has room for the
  bytes asked for behind its header, and it shares no unit with a block the program holds, whose sizes stay as they are.
\<close>

theorem malloc_exclusive:
  assumes "reachable (um_init base) (um_step mem base) (m, A)" and "unat nbytes \<le> 2 ^ 31 - 24"
  shows "(\<exists>r m'. umalloc mem base nbytes m = Some (r, m') \<and> (\<forall>b\<in>A. hsize m' b = hsize m b) \<and>
     (r \<noteq> 0 \<longrightarrow> r - 1 \<notin> A \<and> unat nbytes \<le> 8 * (unat (hsize m' (r - 1)) - 1) \<and>
        (\<forall>b\<in>A. units (hsize m') (r - 1) \<inter> units (hsize m') b = {}))) \<and>
    (\<forall>a\<in>A. \<exists>m'. ufree (a + 1) m = Some m')"
proof -
  have ok: "um_ok base (m, A)" by (rule umalloc_sys.reachable_invar [OF assms(1)])
  obtain r m' where "umalloc mem base nbytes m = Some (r, m')" "\<forall>b\<in>A. hsize m' b = hsize m b"
    "um_ok base (m', if r = 0 then A else insert (r - 1) A)"
    "r \<noteq> 0 \<longrightarrow> r - 1 \<notin> A \<and> hsize m' (r - 1) = nunits_of nbytes \<and>
      (\<forall>b\<in>A. units (hsize m') (r - 1) \<inter> units (hsize m') b = {})"
    by (rule um_malloc_ok [OF ok assms(2)])
  moreover have "\<forall>a\<in>A. \<exists>m'. ufree (a + 1) m = Some m'" using um_free_ok [OF ok] by metis
  ultimately show ?thesis using nunits_of_ok(3) [OF assms(2)] by auto
qed

definition fresh_heap :: uheap where
  "fresh_heap = \<lparr>hptr = (\<lambda>_. 0), hsize = (\<lambda>_. 0), freep = 0, ubrk = 0x4000\<rparr>"

lemma malloc_exclusive_witness:
  "reachable (um_init 256) (um_step (\<lambda>_ _. True) 256) (fresh_heap, {}) \<and>
   (\<exists>r m'. umalloc (\<lambda>_ _. True) 256 100 fresh_heap = Some (r, m') \<and> (r \<noteq> 0 \<longrightarrow> 100 \<le> 8 * (unat (hsize m' (r - 1)) - 1)))"
proof -
  have r: "reachable (um_init 256) (um_step (\<lambda>_ _. True) 256) (fresh_heap, {})"
    by (rule reachable_init) (simp add: um_init_def fresh_heap_def brk_ok_def)
  then show ?thesis using malloc_exclusive [OF r, of 100] by auto
qed

text \<open>The size of a request wraps around: \<^verbatim>\<open>malloc\<close> of the largest number asks for one unit, the header alone.\<close>

lemma nunits_wrap: "nunits_of 0xFFFFFFFF = 1"
  by (simp add: nunits_of_def)

end
