(* ===== verification/Dir.thy ===== *)
theory Dir
  imports Writei
begin

text \<open>
  Directories of \<^verbatim>\<open>xv6-public/fs.c\<close>: what it means for two names to be equal, and that \<^verbatim>\<open>dirlookup\<close> finds
  the first entry in use that has the name.
\<close>

subsection \<open>Names\<close>

text \<open>The characters of a name: its bytes before the first 0.\<close>

definition chars :: "uchar list \<Rightarrow> uchar list" where
  "chars p = takeWhile (\<lambda>c. c \<noteq> 0) p"

lemma chars_step: "chars p = (if byte0 p = 0 then [] else byte0 p # chars (tl p))"
  by (cases p) (auto simp: chars_def)

lemma strncmp_zero: "name_strncmp p q n = 0 \<longleftrightarrow> take n (chars p) = take n (chars q)"
proof (induction n arbitrary: p q)
  case (Suc n)
  show ?case
    using Suc.IH [of "tl p" "tl q"] chars_step [of p] chars_step [of q] by (auto simp: word_uint_eq_iff)
qed simp

lemma namecmp_zero: "namecmp p q = 0 \<longleftrightarrow> take DIRSIZ (chars p) = take DIRSIZ (chars q)"
  by (simp add: namecmp_def strncmp_zero)

subsection \<open>Entries\<close>

definition entry :: "'a fstate_scheme \<Rightarrow> nat \<Rightarrow> nat \<Rightarrow> uchar list" where
  "entry s dp j = take 16 (drop (16 * j) (fcontent s dp))"

definition has_name :: "uchar list \<Rightarrow> uchar list \<Rightarrow> bool" where
  "has_name name d \<longleftrightarrow> de_inum d \<noteq> 0 \<and> take DIRSIZ (chars name) = take DIRSIZ (chars (de_name d))"

definition dir_ok :: "nat \<Rightarrow> 'a fstate_scheme \<Rightarrow> nat \<Rightarrow> nat \<Rightarrow> bool" where
  "dir_ok k s dp m \<longleftrightarrow> txn k {} s \<and> fs_geom s \<and> fwf s dp \<and> i_type (inodes s dp) = T_DIR \<and>
     unat (i_size (inodes s dp)) = 16 * m \<and> has_blocks s dp (16 * m) \<and> 16 * m \<le> MAXFILE * BSIZE"

lemma dir_ok_step:
  assumes "dir_ok k s dp m" and "tstep {} s t" and "view t = view s" and "txn k {} t"
  shows "dir_ok k t dp m" "entry t dp = entry s dp"
proof -
  note f = tstep_fs [OF assms(2)]
  have fb: "fblock t dp = fblock s dp" "ind t dp = ind s dp"
    using fblock_cong [of t dp s] f assms(3) by simp_all
  have mk: "marked t = marked s" using assms(3) f by (simp add: marked_def fun_eq_iff)
  have db: "data_block t = data_block s" using f by (simp add: data_block_def fun_eq_iff)
  have g: "fs_geom t" using assms(1) by (intro fs_geom_step [OF _ assms(2) f(1)]) (simp_all add: dir_ok_def mk)
  show "dir_ok k t dp m" using assms(1,4) g fb mk db f by (simp add: dir_ok_def fwf_def has_blocks_def)
  have "fbyte t dp = fbyte s dp" using fb assms(3) by (simp add: fbyte_def fun_eq_iff)
  then show "entry t dp = entry s dp" using f by (intro ext) (simp add: entry_def fcontent_def)
qed

lemma unat_entry: "16 * j \<le> MAXFILE * BSIZE \<Longrightarrow> unat (of_nat (16 * j) :: uint) = 16 * j"
  by (simp add: unsigned_of_nat take_bit_nat_eq_self del: of_nat_mult)

lemma read_entry:
  assumes d: "dir_ok k s dp m" and j: "j < m"
  obtains t where "readi dv dp (of_nat (16 * j)) 16 s = Ret (16, entry s dp j, t)" "dir_ok k t dp m"
    "entry t dp = entry s dp" "tstep {} s t" "view t = view s"
proof -
  have off: "unat (of_nat (16 * j) :: uint) = 16 * j"
    using d j by (intro unat_entry) (simp add: dir_ok_def)
  have z: "unat (i_size (inodes s dp)) = 16 * m" "16 * m \<le> MAXFILE * BSIZE" using d by (simp_all add: dir_ok_def)
  have o16: "unat (of_nat (16 * j) + 16 :: uint) = 16 * j + 16"
    using unat_add_fits [of "of_nat (16 * j)" 16] off j z(2) by simp
  have c: "\<not> (of_nat (16 * j) > i_size (inodes s dp) \<or> of_nat (16 * j) + 16 < (of_nat (16 * j) :: uint))"
    "\<not> of_nat (16 * j) + 16 > i_size (inodes s dp)"
    using off o16 z(1) j by (simp_all only: word_less_nat_alt) auto
  have "has_blocks s dp (16 * j + 16)" "16 * j + 16 \<le> MAXFILE * BSIZE"
    using d j by (auto simp: dir_ok_def has_blocks_def)
  then obtain t where t: "readi_loop dp (16 * j) 16 s = Ret (map (fbyte s dp) [16 * j..<16 * j + 16], t)"
    "txn k {} t" "view t = view s" "tstep {} s t"
    using readi_loop_ok [of k s dp "16 * j" 16] d by (auto simp: dir_ok_def)
  have e: "map (fbyte s dp) [16 * j..<16 * j + 16] = entry s dp j"
    using z(1) j by (simp add: entry_def fcontent_def take_map drop_map take_upt)
  have "readi dv dp (of_nat (16 * j)) 16 s = Ret (16, entry s dp j, t)"
    using d c t(1) off e by (simp add: readi_def dir_ok_def Let_def)
  then show thesis using that dir_ok_step [OF d t(4,3,2)] t(3,4) by blast
qed

subsection \<open>Looking up a name\<close>

definition found :: "'a fstate_scheme \<Rightarrow> nat \<Rightarrow> nat option \<Rightarrow> 'a fstate_scheme
    \<Rightarrow> ((nat \<times> uint) option \<times> 'a fstate_scheme) outcome" where
  "found s dp r t = (case r of
     None \<Rightarrow> Ret (None, t)
   | Some j \<Rightarrow> obind (iget ROOTDEV (unat (de_inum (entry s dp j))) t) (\<lambda>(ip, u). Ret (Some (ip, of_nat (16 * j)), u)))"

lemma found_cong: "entry s1 dp = entry s dp \<Longrightarrow> found s1 dp r t = found s dp r t"
  by (simp add: found_def split: option.split)

lemma dirlookup_loop_found:
  assumes "dir_ok k s dp m" and "j \<le> m" and "m < j + n"
  shows "\<exists>t. view t = view s \<and> tstep {} s t \<and>
    dirlookup_loop n dv dp name (of_nat (16 * j)) s = found s dp (List.find (\<lambda>i. has_name name (entry s dp i)) [j..<m]) t"
  using assms
proof (induction n arbitrary: j s)
  case (Suc n)
  have z: "unat (i_size (inodes s dp)) = 16 * m" "16 * m \<le> MAXFILE * BSIZE" "i_dev (inodes s dp) = ROOTDEV"
    using Suc.prems(1) fwfD(1) [of s dp] by (simp_all add: dir_ok_def)
  have lt: "of_nat (16 * j) < i_size (inodes s dp) \<longleftrightarrow> j < m"
  proof -
    have "unat (of_nat (16 * j) :: uint) = 16 * j" using z(2) Suc.prems(2) by (intro unat_entry) simp
    then show ?thesis using z(1) by (simp add: word_less_nat_alt)
  qed
  show ?case
  proof (cases "j < m")
    case False
    then show ?thesis using lt Suc.prems(2) by (intro exI [of _ s]) (simp add: found_def)
  next
    case True
    obtain s1 where s1: "readi dv dp (of_nat (16 * j)) 16 s = Ret (16, entry s dp j, s1)" "dir_ok k s1 dp m"
      "entry s1 dp = entry s dp" "tstep {} s s1" "view s1 = view s"
      by (rule read_entry [OF Suc.prems(1) True])
    have up: "[j..<m] = j # [Suc j..<m]" using True by (rule upt_conv_Cons)
    have nx: "of_nat (16 * j) + 16 = (of_nat (16 * Suc j) :: uint)" by simp
    obtain t where t: "view t = view s" "tstep {} s t"
      "dirlookup_loop n dv dp name (of_nat (16 * Suc j)) s1 =
        found s dp (List.find (\<lambda>i. has_name name (entry s dp i)) [Suc j..<m]) t"
      using Suc.IH [OF s1(2), of "Suc j"] True Suc.prems(3) s1(3,5) tstep_trans [OF s1(4)]
      by (auto simp: found_cong [OF s1(3)] simp del: of_nat_mult)
    have dev: "i_dev (inodes s1 dp) = ROOTDEV" using z(3) tstep_fs [OF s1(4)] by simp
    show ?thesis
    proof (cases "has_name name (entry s dp j)")
      case True
      then have "dirlookup_loop (Suc n) dv dp name (of_nat (16 * j)) s = found s dp (Some j) s1"
        using s1(1) lt \<open>j < m\<close> dev by (simp add: has_name_def namecmp_zero found_def del: of_nat_mult)
      then show ?thesis using True s1(4,5) up by (intro exI [of _ s1]) simp
    next
      case False
      then have "dirlookup_loop (Suc n) dv dp name (of_nat (16 * j)) s =
          dirlookup_loop n dv dp name (of_nat (16 * Suc j)) s1"
        unfolding nx [symmetric] using s1(1) lt \<open>j < m\<close> by (auto simp: has_name_def namecmp_zero simp del: of_nat_mult)
      then show ?thesis using False t up by (intro exI [of _ t]) simp
    qed
  qed
qed simp

text \<open>
  C12: \<^verbatim>\<open>dirlookup\<close> searches the entries of the directory in order and stops at the first that is in use
  and has the name, where names count up to their first 0 byte and up to \<^verbatim>\<open>DIRSIZ\<close> characters: it returns the cache
  entry of its inode and its offset, and nothing when there is none. Until then it changes neither
  a block nor an inode.
\<close>

theorem dirlookup_first:
  assumes "lwf {} s" and "fs_geom s" and "fwf s dp" and "i_type (inodes s dp) = T_DIR"
    and "unat (i_size (inodes s dp)) = 16 * m" and "has_blocks s dp (16 * m)" and "16 * m \<le> MAXFILE * BSIZE"
  shows "\<exists>t. view t = view s \<and> inodes t = inodes s \<and> dirlookup dv dp name s =
    (case List.find (\<lambda>i. has_name name (entry s dp i)) [0..<m] of
       None \<Rightarrow> Ret (None, t)
     | Some j \<Rightarrow> obind (iget ROOTDEV (unat (de_inum (entry s dp j))) t) (\<lambda>(ip, u). Ret (Some (ip, of_nat (16 * j)), u)))"
proof -
  obtain k where "dir_ok k s dp m" using lwf_txn [OF assms(1)] assms(2-7) by (auto simp: dir_ok_def)
  from dirlookup_loop_found [OF this, of 0 "m + 2" dv name] obtain t where t: "view t = view s" "tstep {} s t"
    "dirlookup_loop (m + 2) dv dp name 0 s = found s dp (List.find (\<lambda>i. has_name name (entry s dp i)) [0..<m]) t"
    by auto
  have "dirlookup dv dp name s = dirlookup_loop (m + 2) dv dp name 0 s"
    using assms(4,5) by (simp add: dirlookup_def del: dirlookup_loop.simps add_2_eq_Suc')
  then show ?thesis using t tstep_fs [OF t(2)] by (intro exI [of _ t]) (simp add: found_def)
qed

definition small_dir :: fstate where
  "small_dir = small_file\<lparr>inodes := (\<lambda>_. small_inode\<lparr>i_type := T_DIR, i_size := 32\<rparr>)\<rparr>"

lemma small_dir:
  "lwf {} small_dir" "fs_geom small_dir" "fwf small_dir ip" "has_blocks small_dir ip 32"
proof -
  have v: "view small_dir = view small_file" "lwf {} small_dir"
    using lwf_fields [of small_dir small_file] small_file(1) by (simp_all add: small_dir_def)
  show "lwf {} small_dir" by (rule v(2))
  have fb: "fblock small_dir ip = fblock small_file ip" "ind small_dir ip = ind small_file ip"
    using v(1) small_file(6) by (simp_all add: fblock_def ind_def fun_eq_iff) (simp_all add: small_dir_def)
  have mk: "marked small_dir = marked small_file" using v(1) by (simp add: marked_def small_dir_def fun_eq_iff)
  show "fs_geom small_dir" using small_file(9) mk by (simp add: fs_geom_def small_dir_def)
  have db: "data_block small_dir = data_block small_file" by (simp add: data_block_def small_dir_def fun_eq_iff)
  show "fwf small_dir ip"
    using small_fwf [of ip] small_file(6) fb mk db by (simp add: fwf_def small_dir_def small_inode_def)
  show "has_blocks small_dir ip 32"
    unfolding has_blocks_def fb
  proof (intro allI impI)
    fix i :: nat assume "i < 32"
    then have "i < 600" by simp
    then show "fblock small_file ip (i div BSIZE) \<noteq> 0" using small_has_blocks [of ip] unfolding has_blocks_def by blast
  qed
qed

lemma dirlookup_first_witness:
  "\<exists>t. view t = view small_dir \<and> dirlookup no_devs 0 [97] small_dir =
    (case List.find (\<lambda>i. has_name [97] (entry small_dir 0 i)) [0..<2] of
       None \<Rightarrow> Ret (None, t)
     | Some j \<Rightarrow> obind (iget ROOTDEV (unat (de_inum (entry small_dir 0 j))) t) (\<lambda>(ip, u). Ret (Some (ip, of_nat (16 * j)), u)))"
  using dirlookup_first [OF small_dir(1-3), of 0 2 no_devs "[97]"] small_dir(4) [of 0]
  by (auto simp: small_dir_def)

end
