(* ===== verification/Mkfs.thy ===== *)
theory Mkfs
  imports Dir
begin

text \<open>
  The builder of file system images (\<^verbatim>\<open>xv6-public/mkfs.c\<close>). The image is an array of blocks, all zero at first.
  The theorems show that the image holds the files it was given, in the form in which the kernel reads
  them, and that the map of blocks is right.
\<close>

subsection \<open>The code\<close>

abbreviation NINODES :: nat where "NINODES \<equiv> 200"
abbreviation nlog :: nat where "nlog \<equiv> 30"

definition nbitmap :: nat where "nbitmap = FSSIZE div (BSIZE * 8) + 1"
definition ninodeblocks :: nat where "ninodeblocks = NINODES div IPB + 1"
definition nmeta :: nat where "nmeta = 2 + nlog + ninodeblocks + nbitmap"
definition nblocks :: nat where "nblocks = FSSIZE - nmeta"

definition mk_sb :: superblock where
  "mk_sb = \<lparr>sb_size = of_nat FSSIZE, sb_nblocks = of_nat nblocks, sb_ninodes = of_nat NINODES,
     sb_nlog = of_nat nlog, sb_logstart = 2, sb_inodestart = of_nat (2 + nlog),
     sb_bmapstart = of_nat (2 + nlog + ninodeblocks)\<rparr>"

text \<open>The bytes of the super block; \<^verbatim>\<open>xint\<close> stores integers in the order of \<open>le32\<close>.\<close>

definition sb_bytes :: "superblock \<Rightarrow> uchar list" where
  "sb_bytes sb = le32 (sb_size sb) @ le32 (sb_nblocks sb) @ le32 (sb_ninodes sb) @ le32 (sb_nlog sb) @
     le32 (sb_logstart sb) @ le32 (sb_inodestart sb) @ le32 (sb_bmapstart sb)"

record mkfs =
  img :: "nat \<Rightarrow> uchar list"
  freeinode :: nat
  freeblock :: nat

text \<open>The image has \<^verbatim>\<open>FSSIZE\<close> blocks; reading behind its end fails.\<close>

definition wsect :: "nat \<Rightarrow> uchar list \<Rightarrow> mkfs \<Rightarrow> mkfs" where
  "wsect sec buf s = s\<lparr>img := (img s)(sec := buf)\<rparr>"

definition rsect :: "nat \<Rightarrow> mkfs \<Rightarrow> uchar list outcome" where
  "rsect sec s = (if sec < FSSIZE then Ret (img s sec) else Panic ''read'')"

definition winode :: "nat \<Rightarrow> dinode \<Rightarrow> mkfs \<Rightarrow> mkfs outcome" where
  "winode inum d s =
     obind (rsect (IBLOCK inum mk_sb) s) (\<lambda>buf.
     Ret (wsect (IBLOCK inum mk_sb) (put_dinode (inum mod IPB) d buf) s))"

definition rinode :: "nat \<Rightarrow> mkfs \<Rightarrow> dinode outcome" where
  "rinode inum s = obind (rsect (IBLOCK inum mk_sb) s) (\<lambda>buf. Ret (get_dinode (inum mod IPB) buf))"

definition mk_ialloc :: "ushort \<Rightarrow> mkfs \<Rightarrow> (nat \<times> mkfs) outcome" where
  "mk_ialloc ty s =
     (let inum = freeinode s
      in obind (winode inum \<lparr>d_type = ty, d_major = 0, d_minor = 0, d_nlink = 1, d_size = 0,
             d_addrs = replicate (NDIRECT + 1) 0\<rparr> (s\<lparr>freeinode := inum + 1\<rparr>)) (\<lambda>s1. Ret (inum, s1)))"

definition mk_map :: "nat \<Rightarrow> uchar list" where
  "mk_map used = fold bit_set [0..<used] (replicate BSIZE 0)"

definition mk_balloc :: "nat \<Rightarrow> mkfs \<Rightarrow> mkfs outcome" where
  "mk_balloc used s =
     (if used < BSIZE * 8 then Ret (wsect (unat (sb_bmapstart mk_sb)) (mk_map used) s) else Panic ''assert'')"

text \<open>The entry \<open>k\<close> of \<^verbatim>\<open>din.addrs\<close>, with a new block where it is zero.\<close>

definition mk_addr :: "nat \<Rightarrow> dinode \<Rightarrow> mkfs \<Rightarrow> nat \<times> dinode \<times> mkfs" where
  "mk_addr k din s =
     (if d_addrs din ! k = 0
      then (freeblock s, din\<lparr>d_addrs := (d_addrs din)[k := of_nat (freeblock s)]\<rparr>, s\<lparr>freeblock := freeblock s + 1\<rparr>)
      else (unat (d_addrs din ! k), din, s))"

definition mk_block :: "nat \<Rightarrow> dinode \<Rightarrow> mkfs \<Rightarrow> (nat \<times> dinode \<times> mkfs) outcome" where
  "mk_block fbn din s =
     (if fbn < NDIRECT then Ret (mk_addr fbn din s)
      else case mk_addr NDIRECT din s of (a, din1, s1) \<Rightarrow>
        obind (rsect a s1) (\<lambda>indirect.
        if get32 (4 * (fbn - NDIRECT)) indirect = 0
        then Ret (freeblock s1, din1,
               wsect a (put32 (4 * (fbn - NDIRECT)) (of_nat (freeblock s1)) indirect) (s1\<lparr>freeblock := freeblock s1 + 1\<rparr>))
        else Ret (unat (get32 (4 * (fbn - NDIRECT)) indirect), din1, s1)))"

function iappend_loop :: "dinode \<Rightarrow> nat \<Rightarrow> uchar list \<Rightarrow> mkfs \<Rightarrow> (dinode \<times> nat \<times> mkfs) outcome" where
  "iappend_loop din off p s =
     (if p = [] then Ret (din, off, s)
      else let fbn = off div BSIZE
           in if \<not> fbn < MAXFILE then Panic ''assert''
              else obind (mk_block fbn din s) (\<lambda>(x, din1, s1).
                   let n1 = min (length p) ((fbn + 1) * BSIZE - off)
                   in obind (rsect x s1) (\<lambda>buf.
                      iappend_loop din1 (off + n1) (drop n1 p)
                        (wsect x (splice (off - fbn * BSIZE) (take n1 p) buf) s1))))"
  by pat_completeness auto
termination
proof (relation "measure (\<lambda>(din, off, p, s). length p)")
  fix p :: "uchar list" and off fbn n1 :: nat
  assume "p \<noteq> []" "fbn = off div BSIZE" "n1 = min (length p) ((fbn + 1) * BSIZE - off)"
  moreover have "off < (off div BSIZE + 1) * BSIZE" by (simp add: dividend_less_div_times)
  ultimately have "0 < n1" "p \<noteq> []" by auto
  then show "((a, off + n1, drop n1 p, b), (din, off, p, s)) \<in> measure (\<lambda>(din, off, p, s). length p)"
    for a din :: dinode and b s :: mkfs by auto
qed simp

declare iappend_loop.simps [simp del]

definition iappend :: "nat \<Rightarrow> uchar list \<Rightarrow> mkfs \<Rightarrow> mkfs outcome" where
  "iappend inum p s =
     obind (rinode inum s) (\<lambda>din.
     obind (iappend_loop din (unat (d_size din)) p s) (\<lambda>(din1, off, s1).
     winode inum (din1\<lparr>d_size := of_nat off\<rparr>) s1))"

fun append_reads :: "nat \<Rightarrow> uchar list list \<Rightarrow> mkfs \<Rightarrow> mkfs outcome" where
  "append_reads inum [] s = Ret s"
| "append_reads inum (r # rs) s = obind (iappend inum r s) (append_reads inum rs)"

text \<open>
  A file is its name and what the calls of \<^verbatim>\<open>read\<close> return for it, up to the end. The underscore in front of
  the names of programs is left out.
\<close>

type_synonym host_file = "uchar list \<times> uchar list list"

abbreviation UNDERSCORE :: uchar where "UNDERSCORE \<equiv> 0x5f"

definition mk_name :: "uchar list \<Rightarrow> uchar list" where
  "mk_name name = (case name of [] \<Rightarrow> [] | c # cs \<Rightarrow> if c = UNDERSCORE then cs else name)"

definition add_file :: "nat \<Rightarrow> host_file \<Rightarrow> mkfs \<Rightarrow> mkfs outcome" where
  "add_file rootino f s =
     (if SLASH \<in> set (fst f) then Panic ''assert''
      else obind (mk_ialloc T_FILE s) (\<lambda>(inum, s1).
           obind (iappend rootino (mk_dirent inum (mk_name (fst f))) s1) (\<lambda>s2.
           append_reads inum (snd f) s2)))"

fun add_files :: "nat \<Rightarrow> host_file list \<Rightarrow> mkfs \<Rightarrow> mkfs outcome" where
  "add_files rootino [] s = Ret s"
| "add_files rootino (f # fs) s = obind (add_file rootino f s) (add_files rootino fs)"

definition mk_start :: mkfs where
  "mk_start = \<lparr>img = (\<lambda>_. replicate BSIZE 0)(1 := splice 0 (sb_bytes mk_sb) (replicate BSIZE 0)),
     freeinode = 1, freeblock = nmeta\<rparr>"

definition fix_root :: "nat \<Rightarrow> mkfs \<Rightarrow> mkfs outcome" where
  "fix_root rootino s =
     obind (rinode rootino s) (\<lambda>din.
     winode rootino (din\<lparr>d_size := of_nat ((unat (d_size din) div BSIZE + 1) * BSIZE)\<rparr>) s)"

definition mkfs_main :: "host_file list \<Rightarrow> mkfs outcome" where
  "mkfs_main fs =
     obind (mk_ialloc T_DIR mk_start) (\<lambda>(rootino, s1).
     if rootino \<noteq> ROOTINO then Panic ''assert''
     else obind (iappend rootino (mk_dirent rootino [0x2e]) s1) (\<lambda>s2.
          obind (iappend rootino (mk_dirent rootino [0x2e, 0x2e]) s2) (\<lambda>s3.
          obind (add_files rootino fs s3) (\<lambda>s4.
          obind (fix_root rootino s4) (\<lambda>s5.
          mk_balloc (freeblock s5) s5)))))"

subsection \<open>The places of a file\<close>

text \<open>The block numbers of an inode: those of the content, then that of the indirect block.\<close>

definition slot :: "(nat \<Rightarrow> uchar list) \<Rightarrow> dinode \<Rightarrow> nat \<Rightarrow> nat" where
  "slot g d k =
     (if k < NDIRECT then unat (d_addrs d ! k)
      else if k < MAXFILE
      then if d_addrs d ! NDIRECT = 0 then 0 else unat (get32 (4 * (k - NDIRECT)) (g (unat (d_addrs d ! NDIRECT))))
      else if k = MAXFILE then unat (d_addrs d ! NDIRECT) else 0)"

definition slots_ok :: "(nat \<Rightarrow> uchar list) \<Rightarrow> nat \<Rightarrow> nat set \<Rightarrow> (nat \<Rightarrow> nat \<Rightarrow> nat) \<Rightarrow> (nat \<Rightarrow> uchar list) \<Rightarrow> bool" where
  "slots_ok g fb I S C \<longleftrightarrow>
     (\<forall>b. length (g b) = BSIZE) \<and> (\<forall>b\<ge>fb. g b = replicate BSIZE 0) \<and> nmeta \<le> fb \<and>
     (\<forall>i\<in>I. \<forall>k\<le>MAXFILE. S i k \<noteq> 0 \<longrightarrow> nmeta \<le> S i k \<and> S i k < fb) \<and>
     (\<forall>i\<in>I. \<forall>k\<le>MAXFILE. \<forall>j\<in>I. \<forall>l\<le>MAXFILE. S i k \<noteq> 0 \<longrightarrow> S i k = S j l \<longrightarrow> i = j \<and> k = l) \<and>
     (\<forall>i\<in>I. \<forall>j<MAXFILE * BSIZE. S i (j div BSIZE) \<noteq> 0 \<longrightarrow>
        g (S i (j div BSIZE)) ! (j mod BSIZE) = (if j < length (C i) then C i ! j else 0))"

lemma slots_okD:
  assumes "slots_ok g fb I S C"
  shows "length (g b) = BSIZE" "fb \<le> b \<Longrightarrow> g b = replicate BSIZE 0" "nmeta \<le> fb"
    "i \<in> I \<Longrightarrow> k \<le> MAXFILE \<Longrightarrow> S i k \<noteq> 0 \<Longrightarrow> nmeta \<le> S i k"
    "i \<in> I \<Longrightarrow> k \<le> MAXFILE \<Longrightarrow> S i k \<noteq> 0 \<Longrightarrow> S i k < fb"
    "i \<in> I \<Longrightarrow> k \<le> MAXFILE \<Longrightarrow> j \<in> I \<Longrightarrow> l \<le> MAXFILE \<Longrightarrow> S i k \<noteq> 0 \<Longrightarrow> S i k = S j l \<Longrightarrow> i = j \<and> k = l"
    "i \<in> I \<Longrightarrow> n < MAXFILE * BSIZE \<Longrightarrow> S i (n div BSIZE) \<noteq> 0 \<Longrightarrow>
      g (S i (n div BSIZE)) ! (n mod BSIZE) = (if n < length (C i) then C i ! n else 0)"
  using assms unfolding slots_ok_def by blast+

lemma slots_okI:
  assumes "\<And>b. length (g b) = BSIZE" and "\<And>b. fb \<le> b \<Longrightarrow> g b = replicate BSIZE 0" and "nmeta \<le> fb"
    and "\<And>i k. i \<in> I \<Longrightarrow> k \<le> MAXFILE \<Longrightarrow> S i k \<noteq> 0 \<Longrightarrow> nmeta \<le> S i k \<and> S i k < fb"
    and "\<And>i k j l. i \<in> I \<Longrightarrow> k \<le> MAXFILE \<Longrightarrow> j \<in> I \<Longrightarrow> l \<le> MAXFILE \<Longrightarrow> S i k \<noteq> 0 \<Longrightarrow> S i k = S j l \<Longrightarrow> i = j \<and> k = l"
    and "\<And>i n. i \<in> I \<Longrightarrow> n < MAXFILE * BSIZE \<Longrightarrow> S i (n div BSIZE) \<noteq> 0 \<Longrightarrow>
      g (S i (n div BSIZE)) ! (n mod BSIZE) = (if n < length (C i) then C i ! n else 0)"
  shows "slots_ok g fb I S C"
  unfolding slots_ok_def using assms by blast

lemma slots_ok_cong:
  assumes "slots_ok g fb I S C" and "\<And>i k. i \<in> I \<Longrightarrow> k \<le> MAXFILE \<Longrightarrow> S' i k = S i k"
  shows "slots_ok g fb I S' C"
proof -
  have "n div BSIZE \<le> MAXFILE" if "n < MAXFILE * BSIZE" for n using less_mult_imp_div_less [OF that] by simp
  then show ?thesis using assms(1) by (auto simp: slots_ok_def assms(2))
qed

lemma slots_alloc:
  assumes o: "slots_ok g fb I S C" and i: "i \<in> I" and k: "k \<le> MAXFILE" "S i k = 0" "k < MAXFILE \<Longrightarrow> length (C i) \<le> k * BSIZE"
  shows "slots_ok g (fb + 1) I (S(i := (S i)(k := fb))) C"
proof -
  note d = slots_okD [OF o]
  let ?S = "S(i := (S i)(k := fb))"
  have pos: "0 < fb" using d(3) by (simp add: nmeta_def)
  have old: "?S j l = S j l" if "(j, l) \<noteq> (i, k)" for j l using that by auto
  have byte: "g (?S j (n div BSIZE)) ! (n mod BSIZE) = (if n < length (C j) then C j ! n else 0)"
    if "j \<in> I" "n < MAXFILE * BSIZE" "?S j (n div BSIZE) \<noteq> 0" for j n
  proof (cases "(j, n div BSIZE) = (i, k)")
    case True
    have "n div BSIZE < MAXFILE" using less_mult_imp_div_less [OF that(2)] .
    then have "length (C i) \<le> k * BSIZE" using True k(3) by simp
    moreover have "k * BSIZE \<le> n" using True by auto
    ultimately show ?thesis using True d(2) [of fb] by simp
  next
    case False
    then show ?thesis using d(7) [OF that(1,2)] that(3) old [OF False] by simp
  qed
  have range: "nmeta \<le> ?S j l \<and> ?S j l < fb + 1" if "j \<in> I" "l \<le> MAXFILE" "?S j l \<noteq> 0" for j l
    using that d(3) d(4) [of j l] d(5) [of j l] old [of j l] by (cases "(j, l) = (i, k)") auto
  have new: "?S i k = fb" by simp
  have other: "?S j l \<noteq> fb" if "j \<in> I" "l \<le> MAXFILE" "(j, l) \<noteq> (i, k)" for j l
    using d(5) [OF that(1,2)] old [OF that(3)] pos by (cases "S j l = 0") simp_all
  have inj: "j = j' \<and> l = l'" if a: "j \<in> I" "l \<le> MAXFILE" "j' \<in> I" "l' \<le> MAXFILE" "?S j l \<noteq> 0" "?S j l = ?S j' l'" for j l j' l'
  proof (cases "(j, l) = (i, k) \<or> (j', l') = (i, k)")
    case True
    then show ?thesis
      using other [OF a(1,2)] other [OF a(3,4)] a(6) new
      by (cases "(j, l) = (i, k)"; cases "(j', l') = (i, k)") (auto simp del: fun_upd_apply)
  next
    case False
    then have "S j l = S j' l'" "S j l \<noteq> 0" using a(5,6) old by metis+
    then show ?thesis using d(6) a(1-4) by blast
  qed
  show ?thesis
  proof (rule slots_okI)
    show "length (g b) = BSIZE" for b by (rule d(1))
    show "g b = replicate BSIZE 0" if "fb + 1 \<le> b" for b using that by (intro d(2)) simp
    show "nmeta \<le> fb + 1" using d(3) by simp
  qed (rule range, assumption+ | rule inj, assumption+ | rule byte, assumption+)+
qed

lemma slots_indirect:
  assumes o: "slots_ok g fb I S C" and i: "i \<in> I" and a: "S i MAXFILE \<noteq> 0" and buf: "length buf = BSIZE"
  shows "slots_ok (g(S i MAXFILE := buf)) fb I S C"
proof -
  note d = slots_okD [OF o]
  have lt: "S i MAXFILE < fb" by (rule d(5) [OF i _ a]) simp
  have ne: "S j (n div BSIZE) \<noteq> S i MAXFILE" if "j \<in> I" "n < MAXFILE * BSIZE" for j n
  proof
    have n: "n div BSIZE < MAXFILE" using less_mult_imp_div_less [OF that(2)] .
    assume "S j (n div BSIZE) = S i MAXFILE"
    then show False using d(6) [OF i order_refl that(1) _ a, of "n div BSIZE"] n by simp
  qed
  show ?thesis
    by (rule slots_okI) (use d(1-5) lt ne buf d(6) d(7) in \<open>simp_all add: fun_upd_apply\<close>)
qed

lemma slots_write:
  assumes o: "slots_ok g fb I S C" and i: "i \<in> I" and k: "length (C i) div BSIZE = k" "k < MAXFILE" "S i k \<noteq> 0"
    and c: "length (C i) mod BSIZE + length c \<le> BSIZE"
  shows "slots_ok (g(S i k := splice (length (C i) mod BSIZE) c (g (S i k)))) fb I S (C(i := C i @ c))"
proof -
  note d = slots_okD [OF o]
  let ?r = "length (C i) mod BSIZE" and ?g = "g(S i k := splice (length (C i) mod BSIZE) c (g (S i k)))"
  have L: "length (C i) = k * BSIZE + ?r" using k(1) by auto
  have lt: "S i k < fb" using d(5) [OF i _ k(3)] k(2) by simp
  have len: "length (splice ?r c (g (S i k))) = BSIZE" using c d(1) by simp
  have byte: "?g (S j (n div BSIZE)) ! (n mod BSIZE) = (if n < length ((C(i := C i @ c)) j) then (C(i := C i @ c)) j ! n else 0)"
    if j: "j \<in> I" "n < MAXFILE * BSIZE" "S j (n div BSIZE) \<noteq> 0" for j n
  proof -
    have n: "n div BSIZE < MAXFILE" using less_mult_imp_div_less [OF j(2)] .
    have old: "g (S j (n div BSIZE)) ! (n mod BSIZE) = (if n < length (C j) then C j ! n else 0)" by (rule d(7) [OF j])
    have "S j (n div BSIZE) = S i k \<longleftrightarrow> j = i \<and> n div BSIZE = k"
      using d(6) [OF i _ j(1) _ k(3), of "n div BSIZE"] k(2) n by auto
    moreover have "splice ?r c (g (S i k)) ! (n mod BSIZE) = (if n < length (C i @ c) then (C i @ c) ! n else 0)"
      if e: "j = i" "n div BSIZE = k"
    proof -
      have m: "n = k * BSIZE + n mod BSIZE" using e(2) by auto
      have "splice ?r c (g (S i k)) ! (n mod BSIZE) =
          (if ?r \<le> n mod BSIZE \<and> n mod BSIZE < ?r + length c then c ! (n mod BSIZE - ?r) else g (S i k) ! (n mod BSIZE))"
        using c d(1) by (intro nth_splice) simp_all
      moreover have "n - length (C i) = n mod BSIZE - ?r" using m L by simp
      ultimately show ?thesis using old e m L by (auto simp: nth_append)
    qed
    moreover have "n div BSIZE \<noteq> k" if "j = i" "S j (n div BSIZE) \<noteq> S i k" using that by auto
    moreover have "(if n < length (C i) then C i ! n else 0) = (if n < length (C i @ c) then (C i @ c) ! n else 0)"
      if e: "j = i" "n div BSIZE \<noteq> k"
    proof -
      have "n < k * BSIZE \<or> (k + 1) * BSIZE \<le> n"
      proof (rule ccontr)
        assume "\<not> ?thesis"
        then have "n div BSIZE = k" by (intro div_nat_eqI) simp_all
        then show False using e by simp
      qed
      then show ?thesis using L c by (auto simp: nth_append)
    qed
    ultimately show ?thesis using old by (cases "j = i"; cases "n div BSIZE = k") (auto split: if_splits)
  qed
  have "length (?g b) = BSIZE" for b using d(1) len by (simp add: fun_upd_apply)
  moreover have "?g b = replicate BSIZE 0" if "fb \<le> b" for b using d(2) [OF that] lt that by simp
  moreover have "nmeta \<le> S j l \<and> S j l < fb" if "j \<in> I" "l \<le> MAXFILE" "S j l \<noteq> 0" for j l
    using d(4,5) that by blast
  moreover have "j = j' \<and> l = l'" if "j \<in> I" "l \<le> MAXFILE" "j' \<in> I" "l' \<le> MAXFILE" "S j l \<noteq> 0" "S j l = S j' l'" for j l j' l'
    by (rule d(6) [OF that])
  moreover note d(3) byte
  ultimately show ?thesis unfolding slots_ok_def by blast
qed

subsection \<open>The blocks an inode gets\<close>

text \<open>\<open>N i\<close> is the number of blocks of content of inode \<open>i\<close>; more than twelve need an indirect block.\<close>

definition covers :: "nat set \<Rightarrow> (nat \<Rightarrow> nat \<Rightarrow> nat) \<Rightarrow> (nat \<Rightarrow> nat) \<Rightarrow> bool" where
  "covers I S N \<longleftrightarrow> (\<forall>i\<in>I. (\<forall>k<MAXFILE. S i k \<noteq> 0 \<longleftrightarrow> k < N i) \<and> (S i MAXFILE \<noteq> 0 \<longleftrightarrow> NDIRECT < N i))"

lemma coversD:
  assumes "covers I S N" and "i \<in> I"
  shows "k < MAXFILE \<Longrightarrow> S i k \<noteq> 0 \<longleftrightarrow> k < N i" "S i MAXFILE \<noteq> 0 \<longleftrightarrow> NDIRECT < N i"
  using assms unfolding covers_def by blast+

definition cnt :: "nat \<Rightarrow> nat" where
  "cnt n = n + (if NDIRECT < n then 1 else 0)"

abbreviation slots :: "(nat \<Rightarrow> uchar list) \<Rightarrow> (nat \<Rightarrow> dinode) \<Rightarrow> nat \<Rightarrow> nat \<Rightarrow> nat" where
  "slots g D \<equiv> (\<lambda>i. slot g (D i))"


lemma unat_small: "n < 2 ^ 32 \<Longrightarrow> unat (of_nat n :: uint) = n"
  by (simp add: unsigned_of_nat take_bit_nat_eq_self)

lemma of_nat_nonzero: "0 < n \<Longrightarrow> n < 2 ^ 32 \<Longrightarrow> (of_nat n :: uint) \<noteq> 0"
  using unat_small [of n] by auto

lemma slot_direct:
  assumes "k < NDIRECT" and "length (d_addrs d) = NDIRECT + 1" and "fb < 2 ^ 32"
  shows "slot g (d\<lparr>d_addrs := (d_addrs d)[k := of_nat fb]\<rparr>) = (slot g d)(k := fb)"
  using assms by (auto simp: slot_def fun_eq_iff unat_small nth_list_update)

lemma slot_indirect:
  assumes "d_addrs d ! NDIRECT = 0" and "length (d_addrs d) = NDIRECT + 1" and "fb < 2 ^ 32" and "0 < fb" and "g fb = replicate BSIZE 0"
  shows "slot g (d\<lparr>d_addrs := (d_addrs d)[NDIRECT := of_nat fb]\<rparr>) = (slot g d)(MAXFILE := fb)"
proof
  fix k
  have "(of_nat fb :: uint) \<noteq> 0" by (rule of_nat_nonzero [OF assms(4,3)])
  moreover have "get32 (4 * (k - NDIRECT)) (replicate BSIZE 0) = 0" if "k < MAXFILE" by (rule get32_zeros) (use that in simp)
  ultimately show "slot g (d\<lparr>d_addrs := (d_addrs d)[NDIRECT := of_nat fb]\<rparr>) k = ((slot g d)(MAXFILE := fb)) k"
    using assms by (auto simp: slot_def unat_small nth_list_update)
qed

lemma slot_entry:
  assumes "NDIRECT \<le> k" and "k < MAXFILE" and "d_addrs d ! NDIRECT \<noteq> 0" and "fb < 2 ^ 32" and a: "a = unat (d_addrs d ! NDIRECT)"
    and "length (g a) = BSIZE"
  shows "slot (g(a := put32 (4 * (k - NDIRECT)) (of_nat fb) (g a))) d = (slot g d)(k := fb)"
proof
  fix j
  have "get32 (4 * (j - NDIRECT)) (put32 (4 * (k - NDIRECT)) (of_nat fb) (g a)) = get32 (4 * (j - NDIRECT)) (g a)"
    if "j \<noteq> k" "NDIRECT \<le> j" "j < MAXFILE"
  proof (rule get_put_other)
    have "j - NDIRECT \<noteq> k - NDIRECT" using that assms(1) by simp
    then show "4 * (j - NDIRECT) + 4 \<le> 4 * (k - NDIRECT) \<or> 4 * (k - NDIRECT) + 4 \<le> 4 * (j - NDIRECT)" by linarith
  qed (use that assms in simp_all)
  then show "slot (g(a := put32 (4 * (k - NDIRECT)) (of_nat fb) (g a))) d j = ((slot g d)(k := fb)) j"
    using assms by (auto simp: slot_def unat_small)
qed

lemma slot_elsewhere:
  assumes "slot g d MAXFILE \<noteq> a"
  shows "slot (g(a := buf)) d = slot g d"
  using assms by (auto simp: slot_def fun_eq_iff)

text \<open>One call of the block finder: block \<open>k\<close> of inode \<open>i\<close> is there or is the next one.\<close>

definition file_ok :: "mkfs \<Rightarrow> nat set \<Rightarrow> (nat \<Rightarrow> dinode) \<Rightarrow> (nat \<Rightarrow> uchar list) \<Rightarrow> (nat \<Rightarrow> nat) \<Rightarrow> bool" where
  "file_ok s I D C N \<longleftrightarrow> slots_ok (img s) (freeblock s) I (slots (img s) D) C \<and> covers I (slots (img s) D) N \<and>
     (\<forall>i\<in>I. length (d_addrs (D i)) = NDIRECT + 1)"

lemma upd_slots: "slots g (D(i := d)) = (slots g D)(i := slot g d)"
  by auto

lemma covers_upd:
  assumes "covers I S N" and "\<And>k. k < MAXFILE \<Longrightarrow> T k \<noteq> 0 \<longleftrightarrow> k < n" and "T MAXFILE \<noteq> 0 \<longleftrightarrow> NDIRECT < n"
  shows "covers I (S(i := T)) (N(i := n))"
  using assms by (simp add: covers_def)

lemma covers_cong: "covers I S N \<Longrightarrow> (\<And>i k. i \<in> I \<Longrightarrow> S' i k = S i k) \<Longrightarrow> covers I S' N"
  by (simp add: covers_def)

lemma file_okD:
  assumes "file_ok s I D C N"
  shows "slots_ok (img s) (freeblock s) I (slots (img s) D) C" "covers I (slots (img s) D) N"
    "i \<in> I \<Longrightarrow> length (d_addrs (D i)) = NDIRECT + 1" "0 < freeblock s"
proof -
  show o: "slots_ok (img s) (freeblock s) I (slots (img s) D) C" using assms by (simp add: file_ok_def)
  show "covers I (slots (img s) D) N" "i \<in> I \<Longrightarrow> length (d_addrs (D i)) = NDIRECT + 1" using assms by (simp_all add: file_ok_def)
  show "0 < freeblock s" using slots_okD(3) [OF o] by (simp add: nmeta_def)
qed

lemma file_direct:
  assumes o: "file_ok s I D C N" and i: "i \<in> I" and k: "k < NDIRECT" "N i = k" "length (C i) \<le> k * BSIZE"
    and fb: "freeblock s < FSSIZE"
  shows "file_ok (s\<lparr>freeblock := freeblock s + 1\<rparr>) I
      (D(i := (D i)\<lparr>d_addrs := (d_addrs (D i))[k := of_nat (freeblock s)]\<rparr>)) C (N(i := k + 1))"
proof -
  let ?g = "img s" and ?fb = "freeblock s"
  note f = file_okD [OF o]
  note co = coversD [OF f(2) i]
  have z: "slot ?g (D i) k = 0" using co(1) [of k] k(1,2) by simp
  have e: "slots ?g (D(i := (D i)\<lparr>d_addrs := (d_addrs (D i))[k := of_nat ?fb]\<rparr>)) = (slots ?g D)(i := (slot ?g (D i))(k := ?fb))"
    unfolding upd_slots using slot_direct [OF k(1) f(3) [OF i], of ?fb ?g] fb by simp
  have "slots_ok ?g (?fb + 1) I ((slots ?g D)(i := (slot ?g (D i))(k := ?fb))) C"
    using slots_alloc [OF f(1) i, of k] z k by simp
  moreover have "covers I ((slots ?g D)(i := (slot ?g (D i))(k := ?fb))) (N(i := k + 1))"
    by (rule covers_upd [OF f(2)]) (use co k(1,2) f(4) in \<open>auto simp: less_Suc_eq\<close>)
  ultimately show ?thesis using o e by (simp add: file_ok_def)
qed

lemma slots_entry:
  assumes o: "slots_ok g fb I (slots g D) C" and i: "i \<in> I" and k: "NDIRECT \<le> k" "k < MAXFILE" "slot g (D i) k = 0" "length (C i) \<le> k * BSIZE"
    and a: "a = slot g (D i) MAXFILE" "a \<noteq> 0" and fb: "fb < FSSIZE" and g': "g' = g(a := put32 (4 * (k - NDIRECT)) (of_nat fb) (g a))"
  shows "slots_ok g' (fb + 1) I (slots g' D) C" "\<And>j. j \<in> I \<Longrightarrow> slot g' (D j) = ((slots g D)(i := (slot g (D i))(k := fb))) j"
proof -
  note d = slots_okD [OF o]
  have ad: "a = unat (d_addrs (D i) ! NDIRECT)" "d_addrs (D i) ! NDIRECT \<noteq> 0" using a by (auto simp: slot_def)
  show sl: "slot g' (D j) = ((slots g D)(i := (slot g (D i))(k := fb))) j" if "j \<in> I" for j
  proof (cases "j = i")
    case True
    then show ?thesis unfolding g' using slot_entry [where g = g and fb = fb, OF k(1,2) ad(2) _ ad(1) d(1)] fb by simp
  next
    case False
    then have "slot g (D j) MAXFILE \<noteq> a" using d(6) [OF i order_refl that order_refl] a by metis
    then show ?thesis unfolding g' using False slot_elsewhere by simp
  qed
  have "slots_ok g' fb I (slots g D) C"
    unfolding g' a(1) by (rule slots_indirect [OF o i]) (use a k d(1) in simp_all)
  then have "slots_ok g' (fb + 1) I ((slots g D)(i := (slot g (D i))(k := fb))) C"
    using slots_alloc [of g' fb I "slots g D" C i k] i k by simp
  then show "slots_ok g' (fb + 1) I (slots g' D) C" by (rule slots_ok_cong) (use sl in simp)
qed

lemma file_entry:
  assumes o: "file_ok s I D C N" and i: "i \<in> I" and k: "NDIRECT < k" "k < MAXFILE" "N i = k" "length (C i) \<le> k * BSIZE"
    and fb: "freeblock s < FSSIZE" and a: "a = slot (img s) (D i) MAXFILE"
  shows "file_ok (s\<lparr>freeblock := freeblock s + 1, img := (img s)(a := put32 (4 * (k - NDIRECT)) (of_nat (freeblock s)) (img s a))\<rparr>)
      I D C (N(i := k + 1))" "a \<noteq> 0" "slot (img s) (D i) k = 0"
proof -
  let ?g = "img s" and ?fb = "freeblock s"
  let ?g' = "?g(a := put32 (4 * (k - NDIRECT)) (of_nat ?fb) (?g a))"
  note f = file_okD [OF o]
  note co = coversD [OF f(2) i]
  show z: "a \<noteq> 0" "slot ?g (D i) k = 0" using co(1) [of k] co(2) k a by simp_all
  have "NDIRECT \<le> k" using k by simp
  note e = slots_entry [OF f(1) i this k(2) z(2) k(4) a z(1) fb refl]
  have "covers I ((slots ?g D)(i := (slot ?g (D i))(k := ?fb))) (N(i := k + 1))"
    by (rule covers_upd [OF f(2)]) (use co k f(4) in \<open>auto simp: less_Suc_eq\<close>)
  then have "covers I (slots ?g' D) (N(i := k + 1))" by (rule covers_cong) (use e(2) in simp)
  then show "file_ok (s\<lparr>freeblock := ?fb + 1, img := ?g'\<rparr>) I D C (N(i := k + 1))"
    using e(1) f(3) by (simp add: file_ok_def)
qed

lemma file_indirect:
  assumes o: "file_ok s I D C N" and i: "i \<in> I" and k: "N i = NDIRECT" "length (C i) \<le> NDIRECT * BSIZE"
    and fb: "freeblock s + 1 < FSSIZE"
  shows "file_ok (s\<lparr>freeblock := freeblock s + 2, img := (img s)(freeblock s := put32 0 (of_nat (freeblock s + 1)) (img s (freeblock s)))\<rparr>)
      I (D(i := (D i)\<lparr>d_addrs := (d_addrs (D i))[NDIRECT := of_nat (freeblock s)]\<rparr>)) C (N(i := NDIRECT + 1))"
    "d_addrs (D i) ! NDIRECT = 0"
proof -
  let ?g = "img s" and ?fb = "freeblock s"
  let ?d = "(D i)\<lparr>d_addrs := (d_addrs (D i))[NDIRECT := of_nat ?fb]\<rparr>"
  let ?g' = "?g(?fb := put32 0 (of_nat (?fb + 1)) (?g ?fb))"
  note f = file_okD [OF o] and d = slots_okD [OF file_okD(1) [OF o]]
  note co = coversD [OF f(2) i]
  have z: "slot ?g (D i) MAXFILE = 0" "slot ?g (D i) NDIRECT = 0" using co(1) [of NDIRECT] co(2) k by simp_all
  then show z': "d_addrs (D i) ! NDIRECT = 0" by (simp add: slot_def unat_eq_zero)
  have sd: "slot ?g ?d = (slot ?g (D i))(MAXFILE := ?fb)"
    by (rule slot_indirect [OF z' f(3) [OF i]]) (use fb f(4) d(2) in simp_all)
  have "slots_ok ?g (?fb + 1) I ((slots ?g D)(i := (slot ?g (D i))(MAXFILE := ?fb))) C"
    using slots_alloc [OF f(1) i, of MAXFILE] z by simp
  then have o1: "slots_ok ?g (?fb + 1) I (slots ?g (D(i := ?d))) C" unfolding upd_slots sd .
  have di: "slot ?g ((D(i := ?d)) i) = (slot ?g (D i))(MAXFILE := ?fb)" using sd by simp
  have h: "slot ?g ((D(i := ?d)) i) NDIRECT = 0" "?fb = slot ?g ((D(i := ?d)) i) MAXFILE" "?fb \<noteq> 0"
    unfolding di using z(2) f(4) by simp_all
  note e = slots_entry [OF o1 i order_refl _ h(1) k(2) h(2,3) fb, of ?g', simplified]
  have "covers I ((slots ?g (D(i := ?d)))(i := (slot ?g ((D(i := ?d)) i))(NDIRECT := ?fb + 1))) (N(i := NDIRECT + 1))"
    unfolding upd_slots fun_upd_upd sd
    by (rule covers_upd [OF f(2)]) (use co k f(4) sd in \<open>auto simp: less_Suc_eq\<close>)
  then have "covers I (slots ?g' (D(i := ?d))) (N(i := NDIRECT + 1))" by (rule covers_cong) (use e(2) in simp)
  moreover have "\<forall>j\<in>I. length (d_addrs ((D(i := ?d)) j)) = NDIRECT + 1" using f(3) by simp
  ultimately show "file_ok (s\<lparr>freeblock := ?fb + 2, img := ?g'\<rparr>) I (D(i := ?d)) C (N(i := NDIRECT + 1))"
    using e(1) by (simp add: file_ok_def)
qed

text \<open>The number of blocks for \<open>n\<close> bytes.\<close>

definition nb :: "nat \<Rightarrow> nat" where
  "nb n = (n + 511) div BSIZE"

lemma nb_cases: "nb n = n div BSIZE \<and> n = n div BSIZE * BSIZE \<or> nb n = n div BSIZE + 1"
proof -
  have "n = n div BSIZE * BSIZE + n mod BSIZE" by simp
  then show ?thesis
  proof (cases "n mod BSIZE = 0")
    case False
    have "(n + 511) div BSIZE = n div BSIZE + (n mod BSIZE + 511) div BSIZE"
      by (metis div_mult_mod_eq add.assoc div_mult_self3 zero_neq_numeral)
    moreover have "(n mod BSIZE + 511) div BSIZE = 1"
    proof -
      have "n mod BSIZE < BSIZE" by simp
      then show ?thesis using False by (intro div_nat_eqI) simp_all
    qed
    ultimately show ?thesis by (simp add: nb_def)
  next
    case True
    then obtain k where "n = k * BSIZE" using \<open>n = n div BSIZE * BSIZE + n mod BSIZE\<close> by (metis add_0_right)
    then show ?thesis by (simp add: nb_def div_add1_eq)
  qed
qed

text \<open>The state \<open>t\<close> has the same inodes as \<open>s\<close>, and so have \<open>d\<close> and \<open>e\<close>, but for the addresses.\<close>

definition meta_same :: "mkfs \<Rightarrow> mkfs \<Rightarrow> bool" where
  "meta_same s t \<longleftrightarrow> freeinode t = freeinode s \<and> (\<forall>b<nmeta. img t b = img s b)"

lemma mk_block_there:
  assumes o: "file_ok s I D C N" and i: "i \<in> I" and k: "k < MAXFILE" "k < N i" and fb: "freeblock s \<le> FSSIZE"
  shows "mk_block k (D i) s = Ret (slot (img s) (D i) k, D i, s)"
proof -
  note f = file_okD [OF o]
  note co = coversD [OF f(2) i]
  have nz: "slot (img s) (D i) k \<noteq> 0" using co(1) k by simp
  show ?thesis
  proof (cases "k < NDIRECT")
    case True
    then show ?thesis using nz by (auto simp: mk_block_def mk_addr_def slot_def)
  next
    case False
    then have a: "slot (img s) (D i) MAXFILE \<noteq> 0" using co(2) k(2) by simp
    have "slot (img s) (D i) MAXFILE < FSSIZE" using slots_okD(5) [OF f(1) i order_refl a] fb by simp
    then show ?thesis using nz a False k(1)
      by (auto simp: mk_block_def mk_addr_def slot_def rsect_def split: if_splits)
  qed
qed

lemma mk_block_new:
  assumes o: "file_ok s I D C N" and i: "i \<in> I" and k: "k < MAXFILE" "N i = k" "length (C i) \<le> k * BSIZE"
    and fb: "freeblock s + (cnt (k + 1) - cnt k) \<le> FSSIZE"
  obtains x d' s' where "mk_block k (D i) s = Ret (x, d', s')" "file_ok s' I (D(i := d')) C (N(i := k + 1))"
    "x = slot (img s') d' k" "freeblock s' = freeblock s + (cnt (k + 1) - cnt k)" "meta_same s s'"
    "d' = (D i)\<lparr>d_addrs := d_addrs d'\<rparr>"
proof -
  let ?g = "img s" and ?fb = "freeblock s"
  note f = file_okD [OF o] and d = slots_okD [OF file_okD(1) [OF o]]
  note co = coversD [OF f(2) i]
  have z: "slot ?g (D i) k = 0" using co(1) [of k] k(1,2) by simp
  consider "k < NDIRECT" | "k = NDIRECT" | "NDIRECT < k" by linarith
  then show thesis
  proof cases
    case 1
    let ?d = "(D i)\<lparr>d_addrs := (d_addrs (D i))[k := of_nat ?fb]\<rparr>" and ?s = "s\<lparr>freeblock := ?fb + 1\<rparr>"
    have c: "cnt (k + 1) - cnt k = 1" using 1 by (simp add: cnt_def)
    have lt: "?fb < FSSIZE" using fb c by simp
    have e: "mk_block k (D i) s = Ret (?fb, ?d, ?s)"
      using 1 z by (simp add: mk_block_def mk_addr_def slot_def unat_eq_zero)
    show thesis
      by (rule that [OF e file_direct [OF o i 1 k(2,3) lt]])
        (use 1 lt f(3) [OF i] c in \<open>simp_all add: slot_def meta_same_def unat_small\<close>)
  next
    case 2
    let ?d = "(D i)\<lparr>d_addrs := (d_addrs (D i))[NDIRECT := of_nat ?fb]\<rparr>"
    let ?s = "s\<lparr>freeblock := ?fb + 2, img := ?g(?fb := put32 0 (of_nat (?fb + 1)) (?g ?fb))\<rparr>"
    have c: "cnt (k + 1) - cnt k = 2" using 2 by (simp add: cnt_def)
    have lt: "?fb + 1 < FSSIZE" using fb c by simp
    have h: "N i = NDIRECT" "length (C i) \<le> NDIRECT * BSIZE" using k 2 by simp_all
    note fi = file_indirect [OF o i h lt]
    have nz: "(of_nat ?fb :: uint) \<noteq> 0" by (rule of_nat_nonzero [OF f(4)]) (use lt in simp)
    have g0: "?g ?fb = replicate BSIZE 0" by (rule d(2)) simp
    have e: "mk_block k (D i) s = Ret (?fb + 1, ?d, ?s)"
      using 2 fi(2) lt get32_zeros [of 0] g0 by (simp add: mk_block_def mk_addr_def rsect_def wsect_def)
    have x: "?fb + 1 = slot (img ?s) ?d k"
      using 2 nz lt f(3) [OF i] g0 unat_small [of ?fb] unat_small [of "?fb + 1"] by (simp add: slot_def del: of_nat_Suc of_nat_add)
    have ok: "file_ok ?s I (D(i := ?d)) C (N(i := k + 1))" unfolding 2 by (rule fi(1))
    show thesis
      by (rule that [OF e ok x]) (use c d(3) in \<open>simp_all add: meta_same_def\<close>)
  next
    case 3
    let ?a = "slot ?g (D i) MAXFILE"
    let ?s = "s\<lparr>freeblock := ?fb + 1, img := ?g(?a := put32 (4 * (k - NDIRECT)) (of_nat ?fb) (?g ?a))\<rparr>"
    have c: "cnt (k + 1) - cnt k = 1" using 3 by (simp add: cnt_def)
    have lt: "?fb < FSSIZE" using fb c by simp
    note fe = file_entry [OF o i 3 k(1,2,3) lt refl]
    have nz: "d_addrs (D i) ! NDIRECT \<noteq> 0" "?a = unat (d_addrs (D i) ! NDIRECT)" using fe(2) by (auto simp: slot_def)
    have a: "nmeta \<le> ?a" "?a < ?fb" using d(4,5) [OF i order_refl fe(2)] by simp_all
    have g32: "get32 (4 * (k - NDIRECT)) (?g ?a) = 0"
      using fe(3) 3 k(1) nz by (simp add: slot_def unat_eq_zero)
    have e: "mk_block k (D i) s = Ret (?fb, D i, ?s)"
      using 3 nz a lt g32 by (simp add: mk_block_def mk_addr_def rsect_def wsect_def)
    have x: "?fb = slot (img ?s) (D i) k"
      using slot_entry [where g = ?g and fb = ?fb, OF _ k(1) nz(1) _ nz(2) d(1)] 3 lt by simp
    have D: "D = D(i := D i)" by simp
    show thesis
      by (rule that [OF e _ x]) (use fe(1) D c a(1) in \<open>simp_all add: meta_same_def\<close>)
  qed
qed

subsection \<open>Appending\<close>

lemma nb_eq: "k * BSIZE < n \<Longrightarrow> n \<le> (k + 1) * BSIZE \<Longrightarrow> nb n = k + 1"
  unfolding nb_def by (rule div_nat_eqI) simp_all

lemma nb_mono: "m \<le> n \<Longrightarrow> nb m \<le> nb n"
  unfolding nb_def by (rule div_le_mono) simp

lemma cnt_mono: "m \<le> n \<Longrightarrow> cnt m \<le> cnt n"
  by (simp add: cnt_def)

abbreviation blocks_of :: "(nat \<Rightarrow> uchar list) \<Rightarrow> nat \<Rightarrow> nat" where
  "blocks_of C \<equiv> (\<lambda>j. nb (length (C j)))"

lemma mk_block_ok:
  assumes o: "file_ok s I D C (blocks_of C)" and i: "i \<in> I" and k: "k = length (C i) div BSIZE" "k < MAXFILE"
    and fb: "freeblock s + (cnt (k + 1) - cnt (nb (length (C i)))) \<le> FSSIZE"
  obtains x d' s' where "mk_block k (D i) s = Ret (x, d', s')" "file_ok s' I (D(i := d')) C ((blocks_of C)(i := k + 1))"
    "x = slot (img s') d' k" "freeblock s' = freeblock s + (cnt (k + 1) - cnt (nb (length (C i))))" "meta_same s s'"
    "d' = (D i)\<lparr>d_addrs := d_addrs d'\<rparr>"
proof (cases "nb (length (C i)) = k + 1")
  case True
  have e: "mk_block k (D i) s = Ret (slot (img s) (D i) k, D i, s)"
    by (rule mk_block_there [OF o i]) (use True k fb in simp_all)
  have "(blocks_of C)(i := k + 1) = blocks_of C" using True by (intro ext) simp
  then show thesis using that [OF e _ refl] o True by (simp add: meta_same_def)
next
  case False
  then have n: "nb (length (C i)) = k" "length (C i) \<le> k * BSIZE" using nb_cases [of "length (C i)"] k by auto
  obtain x d' s' where "mk_block k (D i) s = Ret (x, d', s')" "file_ok s' I (D(i := d')) C ((blocks_of C)(i := k + 1))"
    "x = slot (img s') d' k" "freeblock s' = freeblock s + (cnt (k + 1) - cnt k)" "meta_same s s'"
    "d' = (D i)\<lparr>d_addrs := d_addrs d'\<rparr>"
    by (rule mk_block_new [OF o i k(2) n]) (use fb n in simp)
  then show thesis using that n(1) by simp
qed

text \<open>Writing into the block.\<close>

lemma block_bounds:
  assumes "0 < m" and "n mod BSIZE + m \<le> BSIZE"
  shows "n div BSIZE * BSIZE < n + m" "n + m \<le> (n div BSIZE + 1) * BSIZE"
proof -
  define r where "r = n mod BSIZE"
  have "n = n div BSIZE * BSIZE + r" unfolding r_def by simp
  then show "n div BSIZE * BSIZE < n + m" "n + m \<le> (n div BSIZE + 1) * BSIZE"
    using assms unfolding r_def [symmetric] add_mult_distrib by linarith+
qed

lemma room_in_block:
  assumes "n1 = min m ((n div BSIZE + 1) * BSIZE - n)" and "0 < m"
  shows "0 < n1" "n1 \<le> m" "n mod BSIZE + n1 \<le> BSIZE" "n - n div BSIZE * BSIZE = n mod BSIZE"
proof -
  define r where "r = n mod BSIZE"
  have n: "n = n div BSIZE * BSIZE + r" "r < BSIZE" unfolding r_def by simp_all
  then have "(n div BSIZE + 1) * BSIZE - n = BSIZE - r" unfolding add_mult_distrib by linarith
  then have e: "n1 = min m (BSIZE - r)" using assms(1) by simp
  show "0 < n1" "n1 \<le> m" "n mod BSIZE + n1 \<le> BSIZE" unfolding r_def [symmetric] e using assms(2) n(2) by auto
  show "n - n div BSIZE * BSIZE = n mod BSIZE" unfolding r_def [symmetric] using n(1) by linarith
qed

lemma file_write:
  assumes o: "file_ok s I D C ((blocks_of C)(i := k + 1))" and i: "i \<in> I" and k: "k = length (C i) div BSIZE" "k < MAXFILE"
    and c: "c \<noteq> []" "length (C i) mod BSIZE + length c \<le> BSIZE" and x: "x = slot (img s) (D i) k"
  shows "file_ok (wsect x (splice (length (C i) mod BSIZE) c (img s x)) s) I D (C(i := C i @ c)) (blocks_of (C(i := C i @ c)))"
    "x < freeblock s" "nmeta \<le> x"
proof -
  let ?g = "(img s)(x := splice (length (C i) mod BSIZE) c (img s x))"
  note f = file_okD [OF o] and d = slots_okD [OF file_okD(1) [OF o]]
  have nz: "slot (img s) (D i) k \<noteq> 0" using coversD(1) [OF f(2) i k(2)] by simp
  show b: "x < freeblock s" "nmeta \<le> x" unfolding x using d(4,5) [OF i _ nz] k(2) by simp_all
  have same: "slot ?g (D j) = slot (img s) (D j)" if j: "j \<in> I" for j
  proof (rule slot_elsewhere)
    show "slot (img s) (D j) MAXFILE \<noteq> x"
      unfolding x using d(6) [OF i _ j order_refl nz] k(2) by auto
  qed
  have "slots_ok ?g (freeblock s) I (slots (img s) D) (C(i := C i @ c))"
    unfolding x by (rule slots_write [OF f(1) i k(1) [symmetric] k(2) nz c(2)])
  then have 1: "slots_ok ?g (freeblock s) I (slots ?g D) (C(i := C i @ c))" by (rule slots_ok_cong) (use same in simp)
  have "0 < length c" using c(1) by simp
  then have "k * BSIZE < length (C i @ c)" "length (C i @ c) \<le> (k + 1) * BSIZE"
    unfolding length_append k(1) using c(2) by (rule block_bounds)+
  then have "nb (length (C i @ c)) = k + 1" by (rule nb_eq)
  then have N: "blocks_of (C(i := C i @ c)) = (blocks_of C)(i := k + 1)" by (intro ext) simp
  have 2: "covers I (slots ?g D) (blocks_of (C(i := C i @ c)))"
    unfolding N by (rule covers_cong [OF f(2)]) (use same in simp)
  show "file_ok (wsect x (splice (length (C i) mod BSIZE) c (img s x)) s) I D (C(i := C i @ c)) (blocks_of (C(i := C i @ c)))"
    using 1 2 f(3) by (simp add: file_ok_def wsect_def)
qed

lemma iappend_loop_ok:
  assumes "file_ok s I D C (blocks_of C)" and "i \<in> I" and "length (C i) + length p \<le> MAXFILE * BSIZE"
    and "freeblock s + (cnt (nb (length (C i) + length p)) - cnt (nb (length (C i)))) \<le> FSSIZE"
  shows "\<exists>d' s'. iappend_loop (D i) (length (C i)) p s = Ret (d', length (C i) + length p, s') \<and>
    file_ok s' I (D(i := d')) (C(i := C i @ p)) (blocks_of (C(i := C i @ p))) \<and>
    freeblock s' = freeblock s + (cnt (nb (length (C i) + length p)) - cnt (nb (length (C i)))) \<and> meta_same s s' \<and>
    d' = (D i)\<lparr>d_addrs := d_addrs d'\<rparr>"
  using assms
proof (induction "length p" arbitrary: p s D C rule: less_induct)
  case less
  show ?case
  proof (cases "p = []")
    case True
    then show ?thesis using less.prems(1) by (simp add: iappend_loop.simps meta_same_def)
  next
    case False
    let ?off = "length (C i)"
    define k where "k = ?off div BSIZE"
    define n1 where "n1 = min (length p) ((k + 1) * BSIZE - ?off)"
    have p: "0 < length p" using False by simp
    note n1 = room_in_block [OF n1_def [unfolded k_def] p]
    have km: "k < MAXFILE" unfolding k_def by (rule less_mult_imp_div_less) (use less.prems(3) p in linarith)
    have n2: "nb (?off + n1) = k + 1" unfolding k_def by (rule nb_eq) (rule block_bounds [OF n1(1,3)])+
    have c1: "cnt (nb ?off) \<le> cnt (k + 1)" using nb_mono [of ?off "?off + n1"] n2 by (intro cnt_mono) simp
    have c2: "cnt (k + 1) \<le> cnt (nb (?off + length p))"
      using nb_mono [of "?off + n1" "?off + length p"] n1(2) n2 by (intro cnt_mono) simp
    obtain x d1 s1 where m: "mk_block k (D i) s = Ret (x, d1, s1)" "file_ok s1 I (D(i := d1)) C ((blocks_of C)(i := k + 1))"
      "x = slot (img s1) d1 k" "freeblock s1 = freeblock s + (cnt (k + 1) - cnt (nb ?off))" "meta_same s s1"
      "d1 = (D i)\<lparr>d_addrs := d_addrs d1\<rparr>"
      by (rule mk_block_ok [OF less.prems(1,2) k_def km]) (use less.prems(4) c1 c2 in linarith)
    define c where "c = take n1 p"
    have c: "c \<noteq> []" "?off mod BSIZE + length c \<le> BSIZE" "length c = n1" using n1 p by (auto simp: c_def)
    define s2 where "s2 = wsect x (splice (?off mod BSIZE) c (img s1 x)) s1"
    have x: "x = slot (img s1) ((D(i := d1)) i) k" using m(3) by simp
    note w = file_write [OF m(2) less.prems(2) k_def km c(1,2) x, folded s2_def]
    have xF: "x < FSSIZE" using w(2) m(4) less.prems(4) c1 c2 by linarith
    have off_eq: "?off - k * BSIZE = ?off mod BSIZE" using n1(4) by (simp add: k_def)
    have step: "iappend_loop (D i) ?off p s = iappend_loop d1 (?off + n1) (drop n1 p) s2"
      by (subst iappend_loop.simps)
        (simp only: Let_def k_def [symmetric] n1_def [symmetric] m(1) obind_simps prod.case rsect_def off_eq s2_def c_def
          False km xF if_False if_True not_True_eq_False)
    let ?C = "C(i := C i @ c)" and ?D = "D(i := d1)"
    have ih: "\<exists>d' s'. iappend_loop (?D i) (length (?C i)) (drop n1 p) s2 = Ret (d', length (?C i) + length (drop n1 p), s') \<and>
      file_ok s' I (?D(i := d')) (?C(i := ?C i @ drop n1 p)) (blocks_of (?C(i := ?C i @ drop n1 p))) \<and>
      freeblock s' = freeblock s2 + (cnt (nb (length (?C i) + length (drop n1 p))) - cnt (nb (length (?C i)))) \<and>
      meta_same s2 s' \<and> d' = (?D i)\<lparr>d_addrs := d_addrs d'\<rparr>"
    proof (rule less.hyps [OF _ w(1) less.prems(2)])
      show "length (drop n1 p) < length p" using n1 p by simp
      show "length (?C i) + length (drop n1 p) \<le> MAXFILE * BSIZE" using less.prems(3) n1 c(3) by simp
      show "freeblock s2 + (cnt (nb (length (?C i) + length (drop n1 p))) - cnt (nb (length (?C i)))) \<le> FSSIZE"
        using less.prems(4) n1 c(3) n2 m(4) c1 c2 by (simp add: s2_def wsect_def)
    qed
    have tot: "?off + n1 + (length p - n1) = ?off + length p" using n1 by simp
    have cp: "C i @ c @ drop n1 p = C i @ p" by (simp add: c_def)
    from ih obtain d' s' where r: "iappend_loop d1 (?off + n1) (drop n1 p) s2 = Ret (d', ?off + length p, s')"
      "file_ok s' I (D(i := d')) (C(i := C i @ p)) (blocks_of (C(i := C i @ p)))"
      "freeblock s' = freeblock s1 + (cnt (nb (?off + length p)) - cnt (k + 1))" "meta_same s2 s'" "d' = d1\<lparr>d_addrs := d_addrs d'\<rparr>"
      using c(3) n1 n2 cp tot by (auto simp: s2_def wsect_def)
    have "meta_same s s'" using m(5) r(4) w(3) by (auto simp: meta_same_def s2_def wsect_def)
    moreover have "d' = (D i)\<lparr>d_addrs := d_addrs d'\<rparr>" by (subst r(5), subst m(6)) simp
    ultimately show ?thesis using step r m(4) c1 c2 by auto
  qed
qed

subsection \<open>Inodes\<close>

lemma mk_consts: "nmeta = 59" "IBLOCK i mk_sb = i div IPB + 32" "unat (sb_bmapstart mk_sb) = 58"
  by (simp_all add: nmeta_def ninodeblocks_def nbitmap_def IBLOCK_def mk_sb_def)

definition din :: "(nat \<Rightarrow> uchar list) \<Rightarrow> nat \<Rightarrow> dinode" where
  "din g i = get_dinode (i mod IPB) (g (IBLOCK i mk_sb))"

lemma length_din [simp]: "length (d_addrs (din g i)) = NDIRECT + 1"
  by (simp add: din_def get_dinode_def)

lemma din_cong: "i < 208 \<Longrightarrow> \<forall>b<nmeta. g' b = g b \<Longrightarrow> din g' i = din g i"
  by (simp add: din_def mk_consts less_mult_imp_div_less)

lemma file_ok_meta:
  assumes o: "file_ok s I D C N" and b: "0 < b" "b < nmeta" "length buf = BSIZE"
  shows "file_ok (wsect b buf s) I D C N"
proof -
  note f = file_okD [OF o] and d = slots_okD [OF file_okD(1) [OF o]]
  let ?g = "(img s)(b := buf)"
  have same: "slot ?g (D j) = slot (img s) (D j)" if j: "j \<in> I" for j
  proof (rule slot_elsewhere)
    show "slot (img s) (D j) MAXFILE \<noteq> b" using d(4) [OF j order_refl] b by (cases "slot (img s) (D j) MAXFILE = 0") auto
  qed
  have "slots_ok ?g (freeblock s) I (slots (img s) D) C"
  proof (rule slots_okI)
    show "length (?g x) = BSIZE" for x using d(1) b(3) by simp
    show "?g x = replicate BSIZE 0" if "freeblock s \<le> x" for x using d(2) [OF that] d(3) that b(2) by simp
    show "nmeta \<le> slot (img s) (D i) k \<and> slot (img s) (D i) k < freeblock s"
      if "i \<in> I" "k \<le> MAXFILE" "slot (img s) (D i) k \<noteq> 0" for i k using d(4,5) [OF that] by blast
    show "?g (slot (img s) (D i) (n div BSIZE)) ! (n mod BSIZE) = (if n < length (C i) then C i ! n else 0)"
      if "i \<in> I" "n < MAXFILE * BSIZE" "slot (img s) (D i) (n div BSIZE) \<noteq> 0" for i n
    proof -
      have "n div BSIZE \<le> MAXFILE" using less_mult_imp_div_less [OF that(2)] by simp
      then have "slot (img s) (D i) (n div BSIZE) \<noteq> b" using d(4) [OF that(1) _ that(3)] b(2) by auto
      then show ?thesis using d(7) [OF that] by simp
    qed
  qed (rule d(3), rule d(6))
  then have "slots_ok ?g (freeblock s) I (slots ?g D) C" by (rule slots_ok_cong) (use same in simp)
  moreover have "covers I (slots ?g D) N" by (rule covers_cong [OF f(2)]) (use same in simp)
  ultimately show ?thesis using f(3) by (simp add: file_ok_def wsect_def)
qed

lemma winode_ok:
  assumes o: "file_ok s I D C N" and i: "i < 208" and d: "length (d_addrs d) = NDIRECT + 1"
  obtains s' where "winode i d s = Ret s'" "file_ok s' I D C N" "din (img s') = (din (img s))(i := d)"
    "freeinode s' = freeinode s" "freeblock s' = freeblock s" "\<forall>b<32. img s' b = img s b"
proof -
  let ?b = "IBLOCK i mk_sb"
  have b: "0 < ?b" "?b < nmeta" "?b < FSSIZE" "32 \<le> ?b" using i by (simp_all add: mk_consts less_mult_imp_div_less)
  have len: "length (img s ?b) = BSIZE" by (rule slots_okD(1) [OF file_okD(1) [OF o]])
  have m: "i mod IPB < IPB" by simp
  have lp: "length (put_dinode (i mod IPB) d (img s ?b)) = BSIZE"
    using len d m by (simp add: put_dinode_def)
  let ?s = "wsect ?b (put_dinode (i mod IPB) d (img s ?b)) s"
  have w: "winode i d s = Ret ?s" using b(3) by (simp add: winode_def rsect_def)
  have "din (img ?s) j = ((din (img s))(i := d)) j" for j
  proof (cases "j = i")
    case True
    then show ?thesis using get_put_dinode [OF len m d] by (simp add: din_def wsect_def)
  next
    case False
    show ?thesis
    proof (cases "IBLOCK j mk_sb = ?b")
      case True
      then have "j mod IPB \<noteq> i mod IPB" using False by (simp add: mk_consts) (metis div_mult_mod_eq)
      then have "get_dinode (j mod IPB) (put_dinode (i mod IPB) d (img s ?b)) = get_dinode (j mod IPB) (img s ?b)"
        using get_put_dinode_other [OF len m _ _ d, of "j mod IPB"] by simp
      then show ?thesis using False True by (simp add: din_def wsect_def)
    qed (use False in \<open>simp add: din_def wsect_def\<close>)
  qed
  then have "din (img ?s) = (din (img s))(i := d)" by blast
  then show thesis using that [OF w file_ok_meta [OF o b(1,2) lp]] b(4) by (simp add: wsect_def)
qed

subsection \<open>The image\<close>

definition all_blocks :: "nat \<Rightarrow> (nat \<Rightarrow> uchar list) \<Rightarrow> nat" where
  "all_blocks n C = nmeta + (\<Sum>i\<in>{1..<n}. cnt (nb (length (C i))))"

text \<open>The super block, and the head of the log with no block in it.\<close>

definition heads_ok :: "(nat \<Rightarrow> uchar list) \<Rightarrow> bool" where
  "heads_ok g \<longleftrightarrow> read_sb (g 1) = mk_sb \<and> head_n (g 2) = 0"

lemma heads_ok_cong: "heads_ok g \<Longrightarrow> \<forall>b<32. g' b = g b \<Longrightarrow> heads_ok g'"
  by (simp add: heads_ok_def)

definition mk_ok :: "mkfs \<Rightarrow> (nat \<Rightarrow> uchar list) \<Rightarrow> (nat \<Rightarrow> ushort) \<Rightarrow> bool" where
  "mk_ok s C T \<longleftrightarrow> 1 \<le> freeinode s \<and> freeinode s \<le> 208 \<and> freeblock s = all_blocks (freeinode s) C \<and> freeblock s \<le> FSSIZE \<and>
     file_ok s {1..<freeinode s} (din (img s)) C (blocks_of C) \<and> heads_ok (img s) \<and>
     (\<forall>i\<in>{1..<freeinode s}. d_size (din (img s) i) = of_nat (length (C i)) \<and> length (C i) \<le> MAXFILE * BSIZE \<and>
        d_type (din (img s) i) = T i)"

lemma all_blocks_upd:
  assumes "i \<in> {1..<n}"
  shows "all_blocks n (C(i := xs)) + cnt (nb (length (C i))) = all_blocks n C + cnt (nb (length xs))"
proof -
  have "(\<Sum>j\<in>{1..<n}. cnt (nb (length (D j)))) = cnt (nb (length (D i))) + (\<Sum>j\<in>{1..<n} - {i}. cnt (nb (length (D j))))" for D
    by (rule sum.remove) (use assms in simp_all)
  from this [of C] this [of "C(i := xs)"] show ?thesis by (simp add: all_blocks_def)
qed

lemma all_blocks_mono: "\<forall>i\<in>{1..<n}. length (C i) \<le> length (C' i) \<Longrightarrow> n \<le> n' \<Longrightarrow> all_blocks n C \<le> all_blocks n' C'"
proof -
  assume a: "\<forall>i\<in>{1..<n}. length (C i) \<le> length (C' i)" "n \<le> n'"
  have "(\<Sum>i\<in>{1..<n}. cnt (nb (length (C i)))) \<le> (\<Sum>i\<in>{1..<n}. cnt (nb (length (C' i))))"
    by (rule sum_mono) (use a(1) in \<open>simp add: cnt_mono nb_mono\<close>)
  also have "\<dots> \<le> (\<Sum>i\<in>{1..<n'}. cnt (nb (length (C' i))))" by (rule sum_mono2) (use a(2) in auto)
  finally show ?thesis by (simp add: all_blocks_def)
qed

lemma iappend_ok:
  assumes o: "mk_ok s C T" and i: "i \<in> {1..<freeinode s}" and len: "length (C i) + length p \<le> MAXFILE * BSIZE"
    and fits: "all_blocks (freeinode s) (C(i := C i @ p)) \<le> FSSIZE"
  obtains s' where "iappend i p s = Ret s'" "mk_ok s' (C(i := C i @ p)) T" "freeinode s' = freeinode s"
proof -
  let ?I = "{1..<freeinode s}" and ?D = "din (img s)"
  have f: "file_ok s ?I ?D C (blocks_of C)" "freeblock s = all_blocks (freeinode s) C" "heads_ok (img s)"
    "freeinode s \<le> 208" "d_size (?D i) = of_nat (length (C i))" using o i by (simp_all add: mk_ok_def)
  have i8: "i < 208" using i f(4) by simp
  have c: "cnt (nb (length (C i))) \<le> cnt (nb (length (C i) + length p))" by (intro cnt_mono nb_mono) simp
  then have tot: "all_blocks (freeinode s) (C(i := C i @ p)) =
      freeblock s + (cnt (nb (length (C i) + length p)) - cnt (nb (length (C i))))"
    using all_blocks_upd [OF i, of C "C i @ p"] f(2) by simp
  obtain d' s1 where l: "iappend_loop (?D i) (length (C i)) p s = Ret (d', length (C i) + length p, s1)"
    "file_ok s1 ?I (?D(i := d')) (C(i := C i @ p)) (blocks_of (C(i := C i @ p)))"
    "freeblock s1 = all_blocks (freeinode s) (C(i := C i @ p))" "meta_same s s1" "d' = (?D i)\<lparr>d_addrs := d_addrs d'\<rparr>"
    using iappend_loop_ok [OF f(1) i len] fits tot by auto
  let ?d = "d'\<lparr>d_size := of_nat (length (C i) + length p)\<rparr>"
  have ld: "length (d_addrs ?d) = NDIRECT + 1" using file_okD(3) [OF l(2) i] by simp
  obtain s2 where w: "winode i ?d s1 = Ret s2" "file_ok s2 ?I (?D(i := d')) (C(i := C i @ p)) (blocks_of (C(i := C i @ p)))"
    "din (img s2) = (din (img s1))(i := ?d)" "freeinode s2 = freeinode s1" "freeblock s2 = freeblock s1" "\<forall>b<32. img s2 b = img s1 b"
    by (rule winode_ok [OF l(2) i8 ld])
  have m: "freeinode s1 = freeinode s" "\<forall>b<nmeta. img s1 b = img s b" using l(4) by (simp_all add: meta_same_def)
  have ib: "IBLOCK i mk_sb < FSSIZE" using i8 by (simp add: mk_consts less_mult_imp_div_less)
  have u: "unat (of_nat (length (C i)) :: uint) = length (C i)" by (rule unat_small) (use len in simp)
  have "iappend i p s = Ret s2"
    using ib f(5) u l(1) w(1) by (simp add: iappend_def rinode_def rsect_def din_def)
  have D: "din (img s2) j = (?D(i := ?d)) j" if "j \<in> ?I" for j
    using w(3) din_cong [of j "img s1" "img s"] m(2) that f(4) by simp
  have slot_size: "slot g ?d = slot g d'" for g by (simp add: slot_def fun_eq_iff)
  have "slots (img s2) (din (img s2)) j = slots (img s2) (?D(i := d')) j" if "j \<in> ?I" for j
    using D [OF that] slot_size by simp
  then have "file_ok s2 ?I (din (img s2)) (C(i := C i @ p)) (blocks_of (C(i := C i @ p)))"
    using w(2) unfolding file_ok_def
    by (auto intro: slots_ok_cong [where S = "slots (img s2) (?D(i := d'))"] covers_cong [where S = "slots (img s2) (?D(i := d'))"])
  moreover have "heads_ok (img s2)" by (rule heads_ok_cong [OF f(3)]) (use w(6) m(2) in \<open>simp add: mk_consts\<close>)
  moreover have "d_type ?d = d_type (?D i)" by (subst l(5)) simp
  ultimately have "mk_ok s2 (C(i := C i @ p)) T"
    using o l(3) w(4,5) m(1) fits D len by (auto simp: mk_ok_def)
  then show thesis using that \<open>iappend i p s = Ret s2\<close> w(4) m(1) by simp
qed

lemma file_ok_new:
  assumes o: "file_ok s I D C N" and n: "n \<notin> I" and d: "d_addrs d = replicate (NDIRECT + 1) 0"
  shows "file_ok s (insert n I) (D(n := d)) (C(n := [])) (N(n := 0))"
proof -
  have z: "slot g d k = 0" for g k using d by (simp add: slot_def del: replicate_Suc)
  have ne: "(j = n) = False" if "j \<in> I" for j using n that by auto
  show ?thesis using o unfolding file_ok_def slots_ok_def covers_def by (simp add: d z ne cong: conj_cong)
qed

lemma mk_ialloc_ok:
  assumes o: "mk_ok s C T" and n: "freeinode s < 208"
  obtains s' where "mk_ialloc ty s = Ret (freeinode s, s')" "mk_ok s' (C(freeinode s := [])) (T(freeinode s := ty))"
    "freeinode s' = freeinode s + 1"
proof -
  let ?n = "freeinode s" and ?D = "din (img s)" and ?s = "s\<lparr>freeinode := freeinode s + 1\<rparr>"
  let ?d = "\<lparr>d_type = ty, d_major = 0, d_minor = 0, d_nlink = 1, d_size = 0, d_addrs = replicate (NDIRECT + 1) 0\<rparr>"
  have "file_ok s {1..<?n} ?D C (blocks_of C)" and f': "freeblock s = all_blocks ?n C" "1 \<le> ?n"
    using o by (simp_all add: mk_ok_def)
  then have f: "file_ok ?s {1..<?n} ?D C (blocks_of C)" unfolding file_ok_def by simp
  obtain s1 where w: "winode ?n ?d ?s = Ret s1" "file_ok s1 {1..<?n} ?D C (blocks_of C)" "din (img s1) = ?D(?n := ?d)"
    "freeinode s1 = ?n + 1" "freeblock s1 = freeblock s" "\<forall>b<32. img s1 b = img s b"
    using winode_ok [OF f n, of ?d] by auto
  have I: "{1..<?n + 1} = insert ?n {1..<?n}" using f'(2) by auto
  have "blocks_of (C(?n := [])) = (blocks_of C)(?n := 0)" by (auto simp: nb_def)
  then have "file_ok s1 {1..<?n + 1} (din (img s1)) (C(?n := [])) (blocks_of (C(?n := [])))"
    using file_ok_new [OF w(2), of ?n ?d] w(3) I by simp
  moreover have "all_blocks (?n + 1) (C(?n := [])) = all_blocks ?n C"
    unfolding all_blocks_def I by (simp add: cnt_def nb_def)
  moreover have "heads_ok (img s1)" by (rule heads_ok_cong [OF _ w(6)]) (use o in \<open>simp add: mk_ok_def\<close>)
  ultimately have "mk_ok s1 (C(?n := [])) (T(?n := ty))"
    using o n w(3-5) f'(1) I by (auto simp: mk_ok_def)
  then show thesis using that w(1,4) by (simp add: mk_ialloc_def Let_def)
qed

lemma append_reads_ok:
  assumes "mk_ok s C T" and "i \<in> {1..<freeinode s}" and "length (C i) + length (concat rs) \<le> MAXFILE * BSIZE"
    and "all_blocks (freeinode s) (C(i := C i @ concat rs)) \<le> FSSIZE"
  shows "\<exists>s'. append_reads i rs s = Ret s' \<and> mk_ok s' (C(i := C i @ concat rs)) T \<and> freeinode s' = freeinode s"
  using assms
proof (induction rs arbitrary: s C)
  case (Cons r rs)
  have "all_blocks (freeinode s) (C(i := C i @ r)) \<le> all_blocks (freeinode s) (C(i := C i @ concat (r # rs)))"
    by (rule all_blocks_mono) simp_all
  then have "all_blocks (freeinode s) (C(i := C i @ r)) \<le> FSSIZE" using Cons.prems(4) by (rule le_trans)
  then obtain s1 where s1: "iappend i r s = Ret s1" "mk_ok s1 (C(i := C i @ r)) T" "freeinode s1 = freeinode s"
    using iappend_ok [OF Cons.prems(1,2), of r] Cons.prems(3) by auto
  have "\<exists>s'. append_reads i rs s1 = Ret s' \<and> mk_ok s' (C(i := C i @ r, i := (C(i := C i @ r)) i @ concat rs)) T \<and>
      freeinode s' = freeinode s1"
  proof (rule Cons.IH [OF s1(2)])
    show "all_blocks (freeinode s1) (C(i := C i @ r, i := (C(i := C i @ r)) i @ concat rs)) \<le> FSSIZE"
      using Cons.prems(4) unfolding s1(3)
      by (simp only: fun_upd_upd fun_upd_same concat.simps append_assoc)
  qed (use Cons.prems s1(3) in simp_all)
  then show ?case using s1(1,3) by (simp only: append_reads.simps obind_simps fun_upd_upd fun_upd_same concat.simps append_assoc)
qed simp

text \<open>What the files added to the image leave in the inodes: each takes the next one and an entry of the root.\<close>

abbreviation dirent_of :: "nat \<Rightarrow> host_file \<Rightarrow> uchar list" where
  "dirent_of n f \<equiv> mk_dirent n (mk_name (fst f))"

fun placed :: "nat \<Rightarrow> host_file list \<Rightarrow> (nat \<Rightarrow> uchar list) \<Rightarrow> nat \<Rightarrow> uchar list" where
  "placed n [] C = C"
| "placed n (f # fs) C = placed (n + 1) fs (C(ROOTINO := C ROOTINO @ dirent_of n f, n := concat (snd f)))"

lemma length_mk_dirent [simp]: "length (mk_dirent n name) = 16"
  by (simp add: mk_dirent_def de_fill_def)

lemma all_blocks_placed: "1 < n \<Longrightarrow> all_blocks n C \<le> all_blocks (n + length fs) (placed n fs C)"
proof (induction fs arbitrary: n C)
  case (Cons f fs)
  have "all_blocks n C \<le> all_blocks (n + 1) (C(ROOTINO := C ROOTINO @ dirent_of n f, n := concat (snd f)))"
    by (rule all_blocks_mono) auto
  also have "\<dots> \<le> all_blocks (n + 1 + length fs) (placed n (f # fs) C)"
    unfolding placed.simps by (rule Cons.IH) (use Cons.prems in simp)
  finally show ?case by simp
qed simp

lemma add_file_ok:
  assumes o: "mk_ok s C T" and n: "1 < freeinode s" "freeinode s < 208" and f: "SLASH \<notin> set (fst f)"
    and len: "length (concat (snd f)) \<le> MAXFILE * BSIZE" "length (C ROOTINO) + 16 \<le> MAXFILE * BSIZE"
    and fits: "all_blocks (freeinode s + 1) (C(ROOTINO := C ROOTINO @ dirent_of (freeinode s) f, freeinode s := concat (snd f))) \<le> FSSIZE"
  obtains s' where "add_file ROOTINO f s = Ret s'" "freeinode s' = freeinode s + 1"
    "mk_ok s' (C(ROOTINO := C ROOTINO @ dirent_of (freeinode s) f, freeinode s := concat (snd f))) (T(freeinode s := T_FILE))"
proof -
  let ?n = "freeinode s" and ?e = "dirent_of (freeinode s) f" and ?T = "T(freeinode s := T_FILE)"
  obtain s1 where s1: "mk_ialloc T_FILE s = Ret (?n, s1)" "mk_ok s1 (C(?n := [])) ?T" "freeinode s1 = ?n + 1"
    by (rule mk_ialloc_ok [OF o n(2)])
  let ?C1 = "C(?n := [], ROOTINO := C ROOTINO @ ?e)" and ?C2 = "C(ROOTINO := C ROOTINO @ ?e, ?n := concat (snd f))"
  have "all_blocks (?n + 1) ?C1 \<le> all_blocks (?n + 1) ?C2" by (rule all_blocks_mono) (use n(1) in auto)
  then have "all_blocks (freeinode s1) ?C1 \<le> FSSIZE" using fits s1(3) by simp
  then obtain s2 where s2: "iappend ROOTINO ?e s1 = Ret s2" "mk_ok s2 ?C1 ?T" "freeinode s2 = ?n + 1"
    using iappend_ok [OF s1(2), of ROOTINO ?e] n(1) s1(3) len(2) by auto
  have c: "?C1(?n := ?C1 ?n @ concat (snd f)) = ?C2" using n(1) by (auto simp: fun_eq_iff)
  have "\<exists>s'. append_reads ?n (snd f) s2 = Ret s' \<and> mk_ok s' ?C2 ?T \<and> freeinode s' = freeinode s2"
    using append_reads_ok [OF s2(2), of ?n "snd f"] n(1) s2(3) len(1) fits unfolding c by simp
  then obtain s3 where s3: "append_reads ?n (snd f) s2 = Ret s3" "mk_ok s3 ?C2 ?T" "freeinode s3 = freeinode s2" by blast
  show thesis using that [OF _ _ s3(2)] f s1(1) s2(1,3) s3(1,3) by (simp add: add_file_def)
qed

definition good_file :: "host_file \<Rightarrow> bool" where
  "good_file f \<longleftrightarrow> SLASH \<notin> set (fst f) \<and> length (concat (snd f)) \<le> MAXFILE * BSIZE"

lemma add_files_ok:
  assumes "mk_ok s C T" and "1 < freeinode s" and "freeinode s + length fs \<le> 208" and "\<forall>f\<in>set fs. good_file f"
    and "length (C ROOTINO) + 16 * length fs \<le> MAXFILE * BSIZE"
    and "all_blocks (freeinode s + length fs) (placed (freeinode s) fs C) \<le> FSSIZE"
    and "\<forall>i\<ge>freeinode s. T i = T_FILE"
  shows "\<exists>s'. add_files ROOTINO fs s = Ret s' \<and> mk_ok s' (placed (freeinode s) fs C) T \<and> freeinode s' = freeinode s + length fs"
  using assms
proof (induction fs arbitrary: s C)
  case (Cons f fs)
  let ?n = "freeinode s" and ?C = "C(ROOTINO := C ROOTINO @ dirent_of (freeinode s) f, freeinode s := concat (snd f))"
  have T: "T(?n := T_FILE) = T" using Cons.prems(7) by auto
  have "all_blocks (?n + 1) ?C \<le> all_blocks (?n + 1 + length fs) (placed (?n + 1) fs ?C)" using Cons.prems(2) by (intro all_blocks_placed) simp
  then have "all_blocks (?n + 1) ?C \<le> FSSIZE" using Cons.prems(6) by simp
  then obtain s1 where s1: "add_file ROOTINO f s = Ret s1" "freeinode s1 = ?n + 1" "mk_ok s1 ?C T"
    using add_file_ok [OF Cons.prems(1,2), of f] Cons.prems(3-5) T by (auto simp: good_file_def)
  have fits: "all_blocks (freeinode s1 + length fs) (placed (freeinode s1) fs ?C) \<le> FSSIZE"
    using Cons.prems(6) unfolding s1(2) by simp
  have "\<exists>s'. add_files ROOTINO fs s1 = Ret s' \<and> mk_ok s' (placed (freeinode s1) fs ?C) T \<and> freeinode s' = freeinode s1 + length fs"
    by (rule Cons.IH [OF s1(3) _ _ _ _ fits]) (use Cons.prems(2-5,7) s1(2) in simp_all)
  then show ?case using s1 by simp
qed simp

lemma placed_old: "j < n \<Longrightarrow> j \<noteq> ROOTINO \<Longrightarrow> placed n fs C j = C j"
  by (induction fs arbitrary: n C) simp_all

lemma placed_file: "1 < n \<Longrightarrow> k < length fs \<Longrightarrow> placed n fs C (n + k) = concat (snd (fs ! k))"
proof (induction fs arbitrary: n C k)
  case (Cons f fs)
  then show ?case
  proof (cases k)
    case 0
    then show ?thesis using Cons.prems by (simp add: placed_old)
  next
    case (Suc m)
    then show ?thesis using Cons.IH [of "n + 1" m] Cons.prems by simp
  qed
qed simp

lemma placed_root: "1 < n \<Longrightarrow> placed n fs C ROOTINO = C ROOTINO @ concat (map (\<lambda>k. dirent_of (n + k) (fs ! k)) [0..<length fs])"
proof (induction fs arbitrary: n C)
  case (Cons f fs)
  have "map (\<lambda>k. dirent_of (n + k) ((f # fs) ! k)) [0..<length (f # fs)] =
      dirent_of n f # map (\<lambda>k. dirent_of (n + 1 + k) (fs ! k)) [0..<length fs]"
    by (simp add: map_upt_Suc del: upt_Suc)
  then show ?case using Cons by simp
qed simp

lemma mk_map_ok:
  assumes "used \<le> BSIZE * 8"
  shows "length (mk_map used) = BSIZE \<and> (\<forall>b<BSIZE * 8. bit_free (mk_map used) b \<longleftrightarrow> used \<le> b)"
  using assms
proof (induction used)
  case 0
  have "(replicate BSIZE (0 :: uchar)) ! (b div 8) = 0" if "b < BSIZE * 8" for b
    using that less_mult_imp_div_less by (subst nth_replicate) simp_all
  then show ?case by (simp add: mk_map_def bit_free_iff)
next
  case (Suc u)
  have "mk_map (Suc u) = bit_set u (mk_map u)" by (simp add: mk_map_def)
  moreover have "length (bit_set u (mk_map u)) = BSIZE" using Suc by (simp add: bit_set_def)
  ultimately show ?case using Suc by auto
qed

definition dots :: "nat \<Rightarrow> uchar list" where
  "dots = (\<lambda>_. [])(ROOTINO := mk_dirent ROOTINO [0x2e] @ mk_dirent ROOTINO [0x2e, 0x2e])"

text \<open>The image at the end: the files, the size of the root rounded up, and the map.\<close>

definition image_ok :: "mkfs \<Rightarrow> nat \<Rightarrow> (nat \<Rightarrow> uchar list) \<Rightarrow> bool" where
  "image_ok s n C \<longleftrightarrow> n \<le> 208 \<and> freeblock s \<le> FSSIZE \<and> file_ok s {1..<n} (din (img s)) C (blocks_of C) \<and>
     heads_ok (img s) \<and> img s 58 = mk_map (freeblock s) \<and>
     d_type (din (img s) ROOTINO) = T_DIR \<and>
     d_size (din (img s) ROOTINO) = of_nat ((length (C ROOTINO) div BSIZE + 1) * BSIZE) \<and>
     (\<forall>i\<in>{2..<n}. d_size (din (img s) i) = of_nat (length (C i)) \<and> length (C i) \<le> MAXFILE * BSIZE \<and>
        d_type (din (img s) i) = T_FILE)"

lemma start_ok: "mk_ok mk_start (\<lambda>_. []) T"
proof -
  have len: "length (splice 0 (sb_bytes mk_sb) (replicate BSIZE 0)) = BSIZE" by (simp add: sb_bytes_def)
  have "read_sb (splice 0 (sb_bytes mk_sb) (replicate BSIZE 0)) = mk_sb"
    by (simp add: read_sb_def sb_bytes_def get32_def slice_def splice_def)
  moreover have "head_n (replicate BSIZE 0) = 0" using get32_zeros [of 0] by (simp add: head_n_def)
  ultimately show ?thesis
    using len by (simp add: mk_ok_def heads_ok_def mk_start_def all_blocks_def file_ok_def slots_ok_def covers_def mk_consts)
qed

lemma root_ok:
  obtains s where "mk_ok s dots (\<lambda>i. if i = ROOTINO then T_DIR else T_FILE)" "freeinode s = 2"
    "mkfs_main fs = obind (add_files ROOTINO fs s) (\<lambda>s4. obind (fix_root ROOTINO s4) (\<lambda>s5. mk_balloc (freeblock s5) s5))"
proof -
  let ?T = "\<lambda>i. if i = ROOTINO then T_DIR else T_FILE" and ?C = "\<lambda>_. [] :: uchar list"
  have T: "(\<lambda>i. T_FILE)(ROOTINO := T_DIR) = ?T" and C: "?C(ROOTINO := []) = ?C" by auto
  have fi: "freeinode mk_start = ROOTINO" by (simp add: mk_start_def)
  obtain s1 where s1: "mk_ialloc T_DIR mk_start = Ret (ROOTINO, s1)" "mk_ok s1 ?C ?T" "freeinode s1 = 2"
  proof (rule mk_ialloc_ok [OF start_ok [of "\<lambda>i. T_FILE"], of T_DIR])
    show "freeinode mk_start < 208" using fi by simp
    fix s'
    assume "mk_ialloc T_DIR mk_start = Ret (freeinode mk_start, s')" "freeinode s' = freeinode mk_start + 1"
      "mk_ok s' (?C(freeinode mk_start := [])) ((\<lambda>i. T_FILE)(freeinode mk_start := T_DIR))"
    then show thesis using that [of s'] unfolding fi T C by simp
  qed
  have small: "all_blocks 2 (?C(ROOTINO := xs)) \<le> FSSIZE" if "length xs \<le> BSIZE" for xs
  proof -
    have "nb (length xs) \<le> 1" using that div_le_mono [of "length xs + 511" 1023 BSIZE] by (simp add: nb_def)
    moreover have "{1..<2 :: nat} = {1}" by auto
    ultimately show ?thesis by (simp add: all_blocks_def mk_consts cnt_def)
  qed
  let ?e = "mk_dirent ROOTINO [0x2e]" and ?f = "mk_dirent ROOTINO [0x2e, 0x2e]"
  obtain s2 where s2: "iappend ROOTINO ?e s1 = Ret s2" "mk_ok s2 (?C(ROOTINO := ?e)) ?T" "freeinode s2 = 2"
    by (rule iappend_ok [OF s1(2), of ROOTINO ?e]) (use s1(3) small [of ?e] in simp_all)
  have "mk_ok s2 (?C(ROOTINO := ?e)) ?T \<Longrightarrow> \<exists>s3. iappend ROOTINO ?f s2 = Ret s3 \<and> mk_ok s3 dots ?T \<and> freeinode s3 = 2"
    using iappend_ok [of s2 "?C(ROOTINO := ?e)" ?T ROOTINO ?f] s2(3) small [of "?e @ ?f"] by (auto simp: dots_def)
  then obtain s3 where s3: "iappend ROOTINO ?f s2 = Ret s3" "mk_ok s3 dots ?T" "freeinode s3 = 2" using s2(2) by blast
  show thesis by (rule that [OF s3(2,3)]) (use s1(1) s2(1) s3(1) in \<open>simp add: mkfs_main_def\<close>)
qed

lemma finish_ok:
  assumes o: "mk_ok s C (\<lambda>i. if i = ROOTINO then T_DIR else T_FILE)" and n: "1 < freeinode s"
  obtains s1 s2 where "fix_root ROOTINO s = Ret s1" "mk_balloc (freeblock s1) s1 = Ret s2" "image_ok s2 (freeinode s) C"
    "freeblock s2 = freeblock s"
proof -
  let ?I = "{1..<freeinode s}" and ?D = "din (img s)" and ?r = "of_nat ((length (C ROOTINO) div BSIZE + 1) * BSIZE) :: uint"
  have f: "file_ok s ?I ?D C (blocks_of C)" "freeblock s \<le> FSSIZE" "heads_ok (img s)" "freeinode s \<le> 208"
    "d_size (?D ROOTINO) = of_nat (length (C ROOTINO))" "length (C ROOTINO) \<le> MAXFILE * BSIZE"
    using o n by (simp_all add: mk_ok_def)
  have u: "unat (of_nat (length (C ROOTINO)) :: uint) = length (C ROOTINO)" by (rule unat_small) (use f(6) in simp)
  let ?d = "(?D ROOTINO)\<lparr>d_size := ?r\<rparr>"
  obtain s1 where w: "winode ROOTINO ?d s = Ret s1" "file_ok s1 ?I ?D C (blocks_of C)" "din (img s1) = ?D(ROOTINO := ?d)"
    "freeinode s1 = freeinode s" "freeblock s1 = freeblock s" "\<forall>b<32. img s1 b = img s b"
    using winode_ok [OF f(1), of ROOTINO ?d] by auto
  have "IBLOCK ROOTINO mk_sb < FSSIZE" by (simp add: mk_consts)
  then have fr: "fix_root ROOTINO s = Ret s1"
    using w(1) f(5) u by (simp add: fix_root_def rinode_def rsect_def din_def)
  have "slots (img s1) (din (img s1)) j = slots (img s1) ?D j" for j using w(3) by (auto simp: slot_def)
  then have f1: "file_ok s1 ?I (din (img s1)) C (blocks_of C)" using w(2,3) by (simp add: file_ok_def)
  let ?s2 = "wsect 58 (mk_map (freeblock s)) s1"
  have m: "length (mk_map (freeblock s)) = BSIZE" using mk_map_ok [of "freeblock s"] f(2) by simp
  have b: "mk_balloc (freeblock s1) s1 = Ret ?s2" using f(2) w(5) by (simp add: mk_balloc_def mk_consts)
  have D: "din (img ?s2) j = din (img s1) j" if "j < 208" for j
    using that by (simp add: din_def wsect_def mk_consts less_mult_imp_div_less)
  have f2: "file_ok ?s2 ?I (din (img s1)) C (blocks_of C)" by (rule file_ok_meta [OF f1]) (simp_all add: mk_consts m)
  have "slots (img ?s2) (din (img ?s2)) j = slots (img ?s2) (din (img s1)) j" if "j \<in> ?I" for j
    using D that f(4) by simp
  then have "file_ok ?s2 ?I (din (img ?s2)) C (blocks_of C)"
    using f2 unfolding file_ok_def by (auto intro: slots_ok_cong covers_cong)
  moreover have "img ?s2 58 = mk_map (freeblock ?s2)" "freeblock ?s2 = freeblock s" using w(5) by (simp_all add: wsect_def)
  moreover have "heads_ok (img ?s2)" by (rule heads_ok_cong [OF f(3)]) (use w(6) in \<open>simp add: wsect_def\<close>)
  ultimately have "image_ok ?s2 (freeinode s) C"
    using o f(2,4) w(3) D n unfolding image_ok_def mk_ok_def by auto
  then show thesis using that [OF fr b] w(5) by (simp add: wsect_def)
qed

lemma placed_small: "1 < n \<Longrightarrow> length (placed n fs C ROOTINO) = length (C ROOTINO) + 16 * length fs"
  by (induction fs arbitrary: n C) simp_all

lemma root_length: "length (placed 2 fs dots ROOTINO) = 16 * (length fs + 2)"
proof -
  have "length (dots ROOTINO) = 32" by (simp add: dots_def)
  then show ?thesis using placed_small [of 2 fs dots] by simp
qed

lemma room:
  "all_blocks (2 + length fs) (placed 2 fs dots) =
     nmeta + cnt (nb (16 * (length fs + 2))) + (\<Sum>f\<leftarrow>fs. cnt (nb (length (concat (snd f)))))"
proof -
  let ?c = "\<lambda>i. cnt (nb (length (placed 2 fs dots i)))"
  have "(\<Sum>i = 1..<2 + length fs. ?c i) = ?c 1 + (\<Sum>i = 2..<2 + length fs. ?c i)"
    by (subst sum.atLeast_Suc_lessThan) (simp_all add: numeral_2_eq_2)
  also have "{2..<2 + length fs} = {0 + 2..<length fs + 2}" by (simp only: add_0 add.commute)
  also have "(\<Sum>i \<in> {0 + 2..<length fs + 2}. ?c i) = (\<Sum>k = 0..<length fs. ?c (k + 2))"
    by (rule sum.shift_bounds_nat_ivl)
  also have "\<dots> = (\<Sum>k = 0..<length fs. cnt (nb (length (concat (snd (fs ! k))))))"
  proof (rule sum.cong)
    show "?c (k + 2) = cnt (nb (length (concat (snd (fs ! k)))))" if "k \<in> {0..<length fs}" for k
      using placed_file [of 2 k fs dots] that by (simp only: add.commute [of k 2]) simp
  qed simp
  also have "\<dots> = (\<Sum>f\<leftarrow>fs. cnt (nb (length (concat (snd f)))))" by (simp add: sum_list_sum_nth)
  finally show ?thesis unfolding all_blocks_def root_length by simp
qed

lemma main_ok:
  assumes n: "length fs \<le> 206" and good: "\<forall>f\<in>set fs. good_file f" and r: "all_blocks (2 + length fs) (placed 2 fs dots) \<le> FSSIZE"
  obtains s where "mkfs_main fs = Ret s" "image_ok s (2 + length fs) (placed 2 fs dots)"
proof -
  let ?T = "\<lambda>i. if i = ROOTINO then T_DIR else T_FILE"
  obtain s3 where s3: "mk_ok s3 dots ?T" "freeinode s3 = 2"
    "mkfs_main fs = obind (add_files ROOTINO fs s3) (\<lambda>s4. obind (fix_root ROOTINO s4) (\<lambda>s5. mk_balloc (freeblock s5) s5))"
    by (rule root_ok)
  have "\<exists>s'. add_files ROOTINO fs s3 = Ret s' \<and> mk_ok s' (placed (freeinode s3) fs dots) ?T \<and> freeinode s' = freeinode s3 + length fs"
    by (rule add_files_ok [OF s3(1)]) (use s3(2) n good r in \<open>simp_all add: dots_def\<close>)
  then obtain s4 where s4: "add_files ROOTINO fs s3 = Ret s4" "mk_ok s4 (placed 2 fs dots) ?T" "freeinode s4 = 2 + length fs"
    unfolding s3(2) by blast
  have "1 < freeinode s4" using s4(3) by simp
  then obtain s5 s6 where "fix_root ROOTINO s4 = Ret s5" "mk_balloc (freeblock s5) s5 = Ret s6" "image_ok s6 (freeinode s4) (placed 2 fs dots)"
    by (rule finish_ok [OF s4(2)])
  then show thesis using that [of s6] s3(3) s4(1,3) by simp
qed

subsection \<open>The kernel on the image\<close>

text \<open>Inode \<open>i\<close> of the disk, as \<^verbatim>\<open>ilock\<close> loads it into the entry \<open>ip\<close> of the cache.\<close>

definition read_in :: "fstate \<Rightarrow> nat \<Rightarrow> nat \<Rightarrow> bool" where
  "read_in k ip i \<longleftrightarrow> i_dev (inodes k ip) = ROOTDEV \<and>
     inodes k ip = load_inode (get_dinode (i mod IPB) (view k (IBLOCK i (fs_sb k)))) (inodes k ip)"

lemma kernel_marked:
  assumes "image_ok s n C" and k: "view k = img s" "fs_sb k = mk_sb" and b: "b < FSSIZE"
  shows "marked k b \<longleftrightarrow> b < freeblock s"
proof -
  have "b div BPB = 0" "b mod BPB = b" using b by simp_all
  then show ?thesis
    using assms(1) b mk_map_ok [of "freeblock s"] by (auto simp: marked_def k BBLOCK_def mk_consts image_ok_def)
qed

lemma kernel_slots:
  assumes "view k = img s" "fs_sb k = mk_sb" "read_in k ip i"
  shows "bn < MAXFILE \<Longrightarrow> fblock k ip bn = slot (img s) (din (img s) i) bn" "ind k ip = slot (img s) (din (img s) i) MAXFILE"
    "i_addrs (inodes k ip) = d_addrs (din (img s) i)" "i_size (inodes k ip) = d_size (din (img s) i)"
    "i_type (inodes k ip) = d_type (din (img s) i)" "i_dev (inodes k ip) = ROOTDEV"
proof -
  have l: "inodes k ip = load_inode (din (img s) i) (inodes k ip)" using assms by (simp add: read_in_def din_def)
  show a: "i_addrs (inodes k ip) = d_addrs (din (img s) i)" by (subst l) (simp add: load_inode_def)
  show "i_size (inodes k ip) = d_size (din (img s) i)" by (subst l) (simp add: load_inode_def)
  show "i_type (inodes k ip) = d_type (din (img s) i)" by (subst l) (simp add: load_inode_def)
  show "i_dev (inodes k ip) = ROOTDEV" using assms(3) by (simp add: read_in_def)
  show "ind k ip = slot (img s) (din (img s) i) MAXFILE" using a by (simp add: ind_def slot_def)
  show "fblock k ip bn = slot (img s) (din (img s) i) bn" if "bn < MAXFILE"
    using that a assms(1) by (simp add: fblock_def ind_def slot_def unat_eq_zero)
qed

lemma kernel_file:
  assumes o: "image_ok s n C" and i: "i \<in> {1..<n}" and k: "view k = img s" "fs_sb k = mk_sb" "read_in k ip i"
  shows "fwf k ip" and "j < length (C i) \<Longrightarrow> length (C i) \<le> MAXFILE * BSIZE \<Longrightarrow> fbyte k ip j = C i ! j"
proof -
  have f: "file_ok s {1..<n} (din (img s)) C (blocks_of C)" "freeblock s \<le> FSSIZE" using o by (simp_all add: image_ok_def)
  note d = slots_okD [OF file_okD(1) [OF f(1)]] and co = coversD [OF file_okD(2) [OF f(1)] i]
  note sl = kernel_slots [OF k]
  have ds: "datastart (fs_sb k) = nmeta" "unat (sb_size (fs_sb k)) = FSSIZE"
    by (simp_all add: k datastart_def mk_consts) (simp_all add: mk_sb_def)
  have data: "data_block k b \<and> marked k b" if "nmeta \<le> b" "b < freeblock s" for b
    using that f(2) kernel_marked [OF o k(1,2), of b] by (simp add: data_block_def ds)
  show "fwf k ip"
    unfolding fwf_def
  proof (intro conjI allI impI)
    show "length (i_addrs (inodes k ip)) = NDIRECT + 1" by (simp add: sl)
    show "data_block k (ind k ip)" "marked k (ind k ip)" if "ind k ip \<noteq> 0"
      using data [of "ind k ip"] d(4,5) [OF i, of MAXFILE] that by (simp_all add: sl)
    show "data_block k (fblock k ip bn)" "marked k (fblock k ip bn)" "fblock k ip bn \<noteq> ind k ip"
      if "bn < MAXFILE" "fblock k ip bn \<noteq> 0" for bn
      using data [of "fblock k ip bn"] d(4,5) [OF i, of bn] d(6) [OF i, of bn i MAXFILE] that i by (auto simp: sl)
    show "bn = bm" if "bn < MAXFILE" "bm < MAXFILE" "fblock k ip bn \<noteq> 0" "fblock k ip bn = fblock k ip bm" for bn bm
      using d(6) [OF i, of bn i bm] that i by (simp add: sl)
  qed (simp add: sl)
  show "fbyte k ip j = C i ! j" if "j < length (C i)" "length (C i) \<le> MAXFILE * BSIZE"
  proof -
    have j: "j < MAXFILE * BSIZE" using that by simp
    then have m: "j div BSIZE < MAXFILE" by (rule less_mult_imp_div_less)
    have "j div BSIZE < nb (length (C i))"
    proof -
      have "(j + 512) div BSIZE \<le> (length (C i) + 511) div BSIZE" using that(1) by (intro div_le_mono) simp
      then show ?thesis by (simp add: nb_def)
    qed
    then show ?thesis using d(7) [OF i j] co(1) [OF m] that(1) m by (simp add: fbyte_def sl k(1))
  qed
qed

lemma take_concat: "\<forall>x\<in>set xs. length x = w \<Longrightarrow> j < length xs \<Longrightarrow> take w (drop (w * j) (concat xs)) = xs ! j"
proof (induction xs arbitrary: j)
  case (Cons x xs)
  then show ?case by (cases j) (auto simp: add.commute)
qed simp

lemma root_entry:
  assumes "j < length fs"
  shows "take 16 (drop (16 * (j + 2)) (placed 2 fs dots ROOTINO)) = dirent_of (j + 2) (fs ! j)"
proof -
  let ?xs = "[mk_dirent ROOTINO [0x2e], mk_dirent ROOTINO [0x2e, 0x2e]] @ map (\<lambda>k. dirent_of (2 + k) (fs ! k)) [0..<length fs]"
  have "placed 2 fs dots ROOTINO = concat ?xs" using placed_root [of 2 fs dots] by (simp add: dots_def)
  moreover have "take 16 (drop (16 * (j + 2)) (concat ?xs)) = ?xs ! (j + 2)" by (rule take_concat) (use assms in auto)
  ultimately show ?thesis using assms by (simp add: nth_append del: One_nat_def)
qed

lemma kernel_entry:
  assumes o: "image_ok s n C" and n: "1 < n" and k: "view k = img s" "fs_sb k = mk_sb" "read_in k ip ROOTINO"
    and c: "length (C ROOTINO) < MAXFILE * BSIZE" "16 * j + 16 \<le> length (C ROOTINO)"
  shows "entry k ip j = take 16 (drop (16 * j) (C ROOTINO))"
proof -
  let ?c = "length (C ROOTINO)"
  have le: "?c < (?c div BSIZE + 1) * BSIZE" using dividend_less_div_times [of BSIZE ?c] by simp
  have "?c div BSIZE < MAXFILE" using c(1) by (rule less_mult_imp_div_less)
  then have u: "unat (of_nat ((?c div BSIZE + 1) * BSIZE) :: uint) = (?c div BSIZE + 1) * BSIZE" by (intro unat_small) simp
  have "unat (i_size (inodes k ip)) = (?c div BSIZE + 1) * BSIZE"
    using kernel_slots(4) [OF k] o u by (simp only: image_ok_def)
  then have ic: "?c \<le> unat (i_size (inodes k ip))" using le by simp
  have i: "ROOTINO \<in> {1..<n}" using n by simp
  have "fbyte k ip (16 * j + m) = C ROOTINO ! (16 * j + m)" if "m < 16" for m
    by (rule kernel_file(2) [OF o i k]) (use that c in simp_all)
  then show ?thesis
    unfolding entry_def fcontent_def using ic c(2) by (intro nth_equalityI) simp_all
qed

lemma kernel_regular:
  assumes o: "image_ok s (2 + length fs) (placed 2 fs dots)" and k: "view k = img s" "fs_sb k = mk_sb"
    and j: "j < length fs" and l: "read_in k ip (j + 2)"
  shows "fcontent k ip = concat (snd (fs ! j))" and "i_type (inodes k ip) = T_FILE"
proof -
  let ?C = "placed 2 fs dots" and ?n = "2 + length fs"
  have i: "j + 2 \<in> {1..<?n}" "j + 2 \<in> {2..<?n}" using j by simp_all
  have c: "?C (j + 2) = concat (snd (fs ! j))" using placed_file [of 2 j fs dots] j by (simp add: add.commute)
  have z: "d_size (din (img s) (j + 2)) = of_nat (length (?C (j + 2)))" "length (?C (j + 2)) \<le> MAXFILE * BSIZE"
    "d_type (din (img s) (j + 2)) = T_FILE" using o i(2) unfolding image_ok_def by blast+
  have "unat (of_nat (length (?C (j + 2))) :: uint) = length (?C (j + 2))" by (rule unat_small) (use z(2) in simp)
  then have "unat (i_size (inodes k ip)) = length (?C (j + 2))" using kernel_slots(4) [OF k l] z(1) by simp
  then have "fcontent k ip = ?C (j + 2)"
    using kernel_file(2) [OF o i(1) k l _ z(2)] unfolding fcontent_def by (intro nth_equalityI) simp_all
  then show "fcontent k ip = concat (snd (fs ! j))" using c by simp
  show "i_type (inodes k ip) = T_FILE" using z(3) kernel_slots(5) [OF k l] by simp
qed

lemma kernel_geom:
  assumes "image_ok s n C" and k: "view k = img s" "fs_sb k = mk_sb"
    and "FSSIZE \<le> disksize k" and "l_start k + nat (l_size k) \<le> 2 + nlog"
  shows "fs_geom k"
proof -
  have c: "unat (sb_size mk_sb) = FSSIZE" "unat (sb_inodestart mk_sb) = 2 + nlog" "unat (sb_ninodes mk_sb) = NINODES"
    by (simp_all add: mk_sb_def)
  have "nmeta \<le> freeblock s" using assms(1) slots_okD(3) unfolding image_ok_def file_ok_def by blast
  then have "\<forall>b<nmeta. marked k b" using kernel_marked [OF assms(1-3)] by (simp add: mk_consts)
  moreover have "datastart mk_sb = nmeta" by (simp add: datastart_def c mk_consts)
  ultimately show ?thesis using assms(4,5) by (simp add: fs_geom_def k c mk_consts)
qed

text \<open>
  C7: For files whose blocks fit into the image, \<^verbatim>\<open>mkfs\<close> ends without a failed assertion, and a kernel that sees
  the image as its disk finds there what was put in. The super block describes the layout, the log is empty, the map marks exactly
  the blocks handed out, the parts of the disk do not overlap, file \<open>j\<close> is the regular file of inode \<open>j + 2\<close>, its blocks are well formed and its content
  is the concatenation of what was read from the host; and entry \<open>j + 2\<close> of the root directory names this inode.
\<close>

theorem mkfs_readable:
  assumes "length fs \<le> 206" and "\<forall>f\<in>set fs. good_file f"
    and "nmeta + cnt (nb (16 * (length fs + 2))) + (\<Sum>f\<leftarrow>fs. cnt (nb (length (concat (snd f))))) \<le> FSSIZE"
  shows "\<exists>s. mkfs_main fs = Ret s \<and> read_sb (img s 1) = mk_sb \<and> head_n (img s 2) = 0 \<and>
    (\<forall>b. length (img s b) = BSIZE) \<and> (\<forall>k ip j. view k = img s \<and> fs_sb k = mk_sb \<longrightarrow>
      (FSSIZE \<le> disksize k \<and> l_start k + nat (l_size k) \<le> 2 + nlog \<longrightarrow> fs_geom k) \<and>
      (j < FSSIZE \<longrightarrow> (marked k j \<longleftrightarrow> j < freeblock s)) \<and>
      (j < length fs \<and> read_in k ip (j + 2) \<longrightarrow>
         fwf k ip \<and> i_type (inodes k ip) = T_FILE \<and> fcontent k ip = concat (snd (fs ! j))) \<and>
      (j < length fs \<and> read_in k ip ROOTINO \<longrightarrow>
         fwf k ip \<and> i_type (inodes k ip) = T_DIR \<and> entry k ip (j + 2) = mk_dirent (j + 2) (mk_name (fst (fs ! j)))))"
proof -
  let ?C = "placed 2 fs dots" and ?n = "2 + length fs"
  obtain s where s: "mkfs_main fs = Ret s" and o: "image_ok s ?n ?C"
    by (rule main_ok [OF assms(1,2)]) (use assms(3) in \<open>simp only: room\<close>)
  have "d_type (din (img s) ROOTINO) = T_DIR" using o unfolding image_ok_def by blast
  then have dir: "i_type (inodes k ip) = T_DIR" "entry k ip (j + 2) = dirent_of (j + 2) (fs ! j)" "fwf k ip"
    if k: "view k = img s" "fs_sb k = mk_sb" and j: "j < length fs" and l: "read_in k ip ROOTINO" for k ip j
    using kernel_slots(5) [OF k l] kernel_entry [OF o _ k l, of "j + 2"] root_length [of fs] root_entry [OF j] j assms(1)
      kernel_file(1) [OF o _ k l] by simp_all
  have wf: "fwf k ip" if "view k = img s" "fs_sb k = mk_sb" "j < length fs" "read_in k ip (j + 2)" for k ip j
    by (rule kernel_file(1) [OF o _ that(1,2,4)]) (use that(3) in simp)
  have sb: "read_sb (img s 1) = mk_sb" "head_n (img s 2) = 0" using o unfolding image_ok_def heads_ok_def by blast+
  have len: "length (img s b) = BSIZE" for b using o slots_okD(1) unfolding image_ok_def file_ok_def by blast
  show ?thesis
    by (intro exI [of _ s] conjI s sb len allI impI; elim conjE)
      (rule kernel_regular [OF o] dir kernel_marked [OF o] kernel_geom [OF o] wf; assumption)+
qed

text \<open>An image with two files, one of them empty, and the kernel that starts on it.\<close>

theorem mkfs_readable_witness:
  "\<exists>s k. mkfs_main [([0x5f, 0x6c, 0x73], [[1, 2], [3]]), ([0x52], [])] = Ret s \<and>
     k = boot_fs mk_sb (img s) (\<lambda>_. load_inode (din (img s) 2) small_inode) \<and> view k = img s \<and> fs_geom k \<and>
     read_in k 0 2 \<and> fcontent k 0 = [1, 2, 3]"
proof -
  let ?fs = "[([0x5f, 0x6c, 0x73], [[1, 2], [3]]), ([0x52], [])] :: host_file list"
  have r: "nmeta + cnt (nb (16 * (length ?fs + 2))) + (\<Sum>f\<leftarrow>?fs. cnt (nb (length (concat (snd f))))) \<le> FSSIZE"
    by (simp add: cnt_def mk_consts nb_def)
  have g: "length ?fs \<le> 206" "\<forall>f\<in>set ?fs. good_file f" by (simp_all add: good_file_def)
  obtain s where s: "mkfs_main ?fs = Ret s" "head_n (img s 2) = 0" "\<forall>b. length (img s b) = BSIZE"
    and geom: "\<forall>k :: fstate. view k = img s \<and> fs_sb k = mk_sb \<longrightarrow> FSSIZE \<le> disksize k \<and> l_start k + nat (l_size k) \<le> 2 + nlog \<longrightarrow> fs_geom k"
    and cont: "\<forall>k ip j. view k = img s \<and> fs_sb k = mk_sb \<longrightarrow> j < length ?fs \<and> read_in k ip (j + 2) \<longrightarrow> fcontent k ip = concat (snd (?fs ! j))"
    using mkfs_readable [OF g r] by blast
  let ?ino = "\<lambda>_ :: nat. load_inode (din (img s) 2) small_inode"
  have z: "unat (sb_size mk_sb) = FSSIZE" by (simp add: mk_sb_def)
  have b: "view (boot_fs mk_sb (img s) ?ino) = img s" "disksize (boot_fs mk_sb (img s) ?ino) = FSSIZE"
    "l_start (boot_fs mk_sb (img s) ?ino) = 2" "l_size (boot_fs mk_sb (img s) ?ino) = 30"
    using boot_fs [of mk_sb "img s" ?ino] s(2,3) z by simp_all
  have i: "read_in (boot_fs mk_sb (img s) ?ino) 0 (0 + 2)"
    using b(1) by (simp add: read_in_def din_def load_inode_def small_inode_def numeral_2_eq_2)
  have "fcontent (boot_fs mk_sb (img s) ?ino) 0 = [1, 2, 3]"
    using cont [rule_format, of "boot_fs mk_sb (img s) ?ino" 0 0] b(1) i by simp
  moreover have "fs_geom (boot_fs mk_sb (img s) ?ino)" using geom b by simp
  ultimately show ?thesis using s(1) b(1) i [unfolded add_0] by auto
qed

end
