(* ===== verification/ShRun.thy ===== *)
theory ShRun
  imports Sh
begin

text \<open>
  The running of commands by the shell, \<^verbatim>\<open>xv6-public/sh.c\<close>: \<^verbatim>\<open>runcmd\<close>, \<^verbatim>\<open>main\<close> and what they do to the descriptors of
  the processes they start. The theorem shows that every program of a command line is started with the descriptors
  that the pipes and redirections around it ask for, and with no others.
\<close>

subsection \<open>System calls on descriptors\<close>

text \<open>
  A descriptor refers to the console, to an open file or to an end of a pipe; a pipe is known by the place of its
  command in the tree of commands. A new descriptor is the lowest that is free, as \<^verbatim>\<open>fdalloc\<close> of the kernel chooses it.
\<close>

datatype target = Console | Opened string int | PipeRead "nat list" | PipeWrite "nat list"

abbreviation NOFILE :: nat where "NOFILE \<equiv> 16"

type_synonym fds = "nat \<Rightarrow> target option"

definition lowest :: "fds \<Rightarrow> nat option" where
  "lowest t = List.find (\<lambda>i. t i = None) [0..<NOFILE]"

definition fd_close :: "nat \<Rightarrow> fds \<Rightarrow> fds" where
  "fd_close fd t = t(fd := None)"

definition new_fd :: "target \<Rightarrow> fds \<Rightarrow> (nat \<times> fds) option" where
  "new_fd x t = (case lowest t of None \<Rightarrow> None | Some fd \<Rightarrow> Some (fd, t(fd := Some x)))"

definition fd_dup :: "nat \<Rightarrow> fds \<Rightarrow> fds" where
  "fd_dup fd t = (case t fd of None \<Rightarrow> t | Some x \<Rightarrow> (case new_fd x t of None \<Rightarrow> t | Some (_, t1) \<Rightarrow> t1))"

text \<open>
  Whether the kernel can open a file, run a program, make a pipe or fork at a place of the tree is not up to the shell.
\<close>

record kernel =
  opens :: "string \<Rightarrow> int \<Rightarrow> bool"
  execs :: "string list \<Rightarrow> bool"
  pipes :: "nat list \<Rightarrow> bool"
  forks :: "nat list \<Rightarrow> bool"

definition fd_open :: "kernel \<Rightarrow> string \<Rightarrow> int \<Rightarrow> target \<Rightarrow> fds \<Rightarrow> (nat \<times> fds) option" where
  "fd_open K f mode x t = (if opens K f mode then new_fd x t else None)"

definition fd_pipe :: "kernel \<Rightarrow> nat list \<Rightarrow> fds \<Rightarrow> (nat \<times> nat \<times> fds) option" where
  "fd_pipe K p t =
     (if \<not> pipes K p then None
      else case new_fd (PipeRead p) t of
        None \<Rightarrow> None
      | Some (fd0, t1) \<Rightarrow> (case new_fd (PipeWrite p) t1 of None \<Rightarrow> None | Some (fd1, t2) \<Rightarrow> Some (fd0, fd1, t2)))"

subsection \<open>The code\<close>

text \<open>
  What a process does, in its order: a fork holds what the child does, and a program and a wait hold the descriptors of
  the process at that moment.
\<close>

datatype act = Exec "string list" fds | Fork "act list" | WaitChild fds | Chdir string | Print string | Exit int

definition panic :: "string \<Rightarrow> act list" where
  "panic m = [Print m, Exit 0]"

definition fork1 :: "kernel \<Rightarrow> nat list \<Rightarrow> act list \<Rightarrow> act list \<Rightarrow> act list" where
  "fork1 K p child parent = (if forks K p then Fork child # parent else panic ''fork'')"

fun runcmd :: "kernel \<Rightarrow> nat list \<Rightarrow> cmd \<Rightarrow> fds \<Rightarrow> act list" where
  "runcmd K p (EXEC argv) t =
     (if argv = [] then [Exit (- 1)]
      else if execs K argv then [Exec argv t] else [Print (''exec '' @ hd argv @ '' failed''), Exit 0])"
| "runcmd K p (REDIR c f mode fd) t =
     (case fd_open K f mode (Opened f mode) (fd_close (nat fd) t) of
        None \<Rightarrow> [Print (''open '' @ f @ '' failed''), Exit (- 1)]
      | Some (_, t1) \<Rightarrow> runcmd K p c t1)"
| "runcmd K p (LIST l r) t =
     fork1 K (p @ [0]) (runcmd K (p @ [0]) l t) (WaitChild t # runcmd K (p @ [1]) r t)"
| "runcmd K p (PIPE l r) t =
     (case fd_pipe K p t of
        None \<Rightarrow> panic ''pipe''
      | Some (p0, p1, t1) \<Rightarrow>
          let t2 = fd_close p1 (fd_close p0 t1)
          in fork1 K (p @ [0])
               (runcmd K (p @ [0]) l (fd_close p1 (fd_close p0 (fd_dup p1 (fd_close 1 t1)))))
               (fork1 K (p @ [1])
                  (runcmd K (p @ [1]) r (fd_close p1 (fd_close p0 (fd_dup p0 (fd_close 0 t1)))))
                  [WaitChild t2, WaitChild t2, Exit 0]))"
| "runcmd K p (BACK c) t = fork1 K (p @ [0]) (runcmd K (p @ [0]) c t) [Exit 0]"

text \<open>The loop at the start of \<^verbatim>\<open>main\<close>, which opens the console until three descriptors are in use.\<close>

lemma lowest_Some: "lowest t = Some fd \<longleftrightarrow> fd < NOFILE \<and> t fd = None \<and> (\<forall>i<fd. t i \<noteq> None)"
  by (auto simp: lowest_def find_Some_iff)

lemma lowest_None: "lowest t = None \<longleftrightarrow> (\<forall>i<NOFILE. t i \<noteq> None)"
  by (auto simp: lowest_def find_None_iff)

function open_three :: "kernel \<Rightarrow> fds \<Rightarrow> fds" where
  "open_three K t =
     (case fd_open K ''console'' 2 Console t of
        None \<Rightarrow> t
      | Some (fd, t1) \<Rightarrow> if fd \<ge> 3 then fd_close fd t1 else open_three K t1)"
  by pat_completeness auto
termination
proof (relation "measure (\<lambda>(K, t). card {i. i < NOFILE \<and> t i = None})")
  fix K t x fd and t1 :: fds
  assume "fd_open K ''console'' 2 Console t = Some x" "(fd, t1) = x"
  then have "t1 = t(fd := Some Console)" "t fd = None" "fd < NOFILE"
    by (auto simp: fd_open_def new_fd_def lowest_Some split: if_splits option.splits)
  then have "{i. i < NOFILE \<and> t1 i = None} \<subset> {i. i < NOFILE \<and> t i = None}" by auto
  then show "((K, t1), (K, t)) \<in> measure (\<lambda>(K, t). card {i. i < NOFILE \<and> t i = None})"
    by (simp add: psubset_card_mono)
qed simp

declare open_three.simps [simp del]

text \<open>
  The loop of \<^verbatim>\<open>main\<close> over the lines \<^verbatim>\<open>getcmd\<close> reads up to the end of the input, each with its newline; \<open>n\<close> counts them.
  \<open>cd\<close> says whether the directory can be changed.
\<close>

definition sh_child :: "kernel \<Rightarrow> nat list \<Rightarrow> string \<Rightarrow> fds \<Rightarrow> act list" where
  "sh_child K p buf t = (case parsecmd buf of Ret c \<Rightarrow> runcmd K p c t | Panic m \<Rightarrow> panic m | Wait m \<Rightarrow> [])"

fun sh_loop :: "kernel \<Rightarrow> (string \<Rightarrow> bool) \<Rightarrow> nat \<Rightarrow> string list \<Rightarrow> fds \<Rightarrow> act list" where
  "sh_loop K cd n [] t = [Exit 0]"
| "sh_loop K cd n (buf # bufs) t =
     (if take 3 buf = ''cd ''
      then let d = drop 3 (butlast buf)
           in Chdir d # (if cd d then [] else [Print (''cannot cd '' @ d)]) @ sh_loop K cd (n + 1) bufs t
      else fork1 K [n] (sh_child K [n] buf t) (WaitChild t # sh_loop K cd (n + 1) bufs t))"

definition sh_main :: "kernel \<Rightarrow> (string \<Rightarrow> bool) \<Rightarrow> string list \<Rightarrow> fds \<Rightarrow> act list" where
  "sh_main K cd bufs t = sh_loop K cd 0 bufs (open_three K t)"

subsection \<open>The descriptors of the programs\<close>

text \<open>What a command asks for: each of its programs with its descriptors.\<close>

fun wires :: "nat list \<Rightarrow> cmd \<Rightarrow> fds \<Rightarrow> (string list \<times> fds) list" where
  "wires p (EXEC argv) t = (if argv = [] then [] else [(argv, t)])"
| "wires p (REDIR c f mode fd) t = wires p c (t(nat fd := Some (Opened f mode)))"
| "wires p (LIST l r) t = wires (p @ [0]) l t @ wires (p @ [1]) r t"
| "wires p (PIPE l r) t = wires (p @ [0]) l (t(1 := Some (PipeWrite p))) @ wires (p @ [1]) r (t(0 := Some (PipeRead p)))"
| "wires p (BACK c) t = wires (p @ [0]) c t"

fun started :: "act \<Rightarrow> (string list \<times> fds) list" where
  "started (Exec argv t) = [(argv, t)]"
| "started (Fork as) = concat (map started as)"
| "started a = []"

fun waiting :: "act \<Rightarrow> fds list" where
  "waiting (WaitChild t) = [t]"
| "waiting (Fork as) = concat (map waiting as)"
| "waiting a = []"

definition all_started :: "act list \<Rightarrow> (string list \<times> fds) list" where "all_started as = concat (map started as)"
definition all_waiting :: "act list \<Rightarrow> fds list" where "all_waiting as = concat (map waiting as)"

definition std :: "fds \<Rightarrow> bool" where
  "std t \<longleftrightarrow> (\<forall>i. t i = None \<longleftrightarrow> 3 \<le> i)"

definition willing :: "kernel \<Rightarrow> bool" where
  "willing K \<longleftrightarrow> (\<forall>f m. opens K f m) \<and> (\<forall>a. execs K a) \<and> (\<forall>p. pipes K p) \<and> (\<forall>p. forks K p)"

fun redirs_ok :: "cmd \<Rightarrow> bool" where
  "redirs_ok (EXEC argv) = True"
| "redirs_ok (REDIR c f mode fd) = (fd \<in> {0, 1} \<and> redirs_ok c)"
| "redirs_ok (PIPE l r) = (redirs_ok l \<and> redirs_ok r)"
| "redirs_ok (LIST l r) = (redirs_ok l \<and> redirs_ok r)"
| "redirs_ok (BACK c) = redirs_ok c"

lemma all_simps [simp]:
  "all_started [] = []" "all_started (a # as) = started a @ all_started as" "started (Fork as) = all_started as"
  "all_waiting [] = []" "all_waiting (a # as) = waiting a @ all_waiting as" "waiting (Fork as) = all_waiting as"
  by (simp_all add: all_started_def all_waiting_def)

declare started.simps(2) [simp del] waiting.simps(2) [simp del]

lemma std_upd [simp]: "std t \<Longrightarrow> i < 3 \<Longrightarrow> std (t(i := Some x))"
  by (auto simp: std_def)

text \<open>Closing a standard descriptor and opening something puts it into its place.\<close>

lemma new_fd_at:
  assumes "fd < NOFILE" and "t fd = None" and "\<And>i. i < fd \<Longrightarrow> t i \<noteq> None"
  shows "new_fd x t = Some (fd, t(fd := Some x))"
proof -
  have "lowest t = Some fd" using assms by (simp add: lowest_Some)
  then show ?thesis by (simp add: new_fd_def)
qed

lemma redirect: "std t \<Longrightarrow> fd < 3 \<Longrightarrow> new_fd x (fd_close fd t) = Some (fd, t(fd := Some x))"
  by (subst new_fd_at [of fd]) (auto simp: fd_close_def std_def)

lemma std_three: "std t \<Longrightarrow> t 3 = None \<and> t 4 = None"
  by (simp add: std_def)

lemma pipe_ends:
  assumes "std t" and "pipes K p"
  shows "fd_pipe K p t = Some (3, 4, t(3 := Some (PipeRead p), 4 := Some (PipeWrite p)))"
proof -
  have "new_fd (PipeRead p) t = Some (3, t(3 := Some (PipeRead p)))" using assms(1) by (intro new_fd_at) (auto simp: std_def)
  moreover have "new_fd (PipeWrite p) (t(3 := Some (PipeRead p))) = Some (4, t(3 := Some (PipeRead p), 4 := Some (PipeWrite p)))"
    using assms(1) by (intro new_fd_at) (auto simp: std_def simp del: not_None_eq)
  ultimately show ?thesis using assms(2) by (simp add: fd_pipe_def)
qed

lemma pipe_end_moved:
  assumes "std t" and "fd < 2" and e: "e = 3 \<or> e = 4" and x: "x = (if e = 3 then PipeRead p else PipeWrite p)"
  shows "fd_close 4 (fd_close 3 (fd_dup e (fd_close fd (t(3 := Some (PipeRead p), 4 := Some (PipeWrite p)))))) = t(fd := Some x)"
proof -
  let ?t = "fd_close fd (t(3 := Some (PipeRead p), 4 := Some (PipeWrite p)))"
  have "new_fd x ?t = Some (fd, ?t(fd := Some x))" using assms(1,2) by (intro new_fd_at) (auto simp: fd_close_def std_def)
  moreover have "?t e = Some x" using assms(2) e x by (auto simp: fd_close_def)
  ultimately have "fd_dup e ?t = ?t(fd := Some x)" by (simp add: fd_dup_def)
  then show ?thesis using assms(2) std_three [OF assms(1)] by (auto simp: fd_close_def fun_eq_iff)
qed

lemma pipe_ends_closed: "std t \<Longrightarrow> fd_close 4 (fd_close 3 (t(3 := x, 4 := y))) = t"
  using std_three [of t] by (auto simp: fd_close_def fun_eq_iff)

lemma runcmd_wires:
  assumes "willing K" and "redirs_ok c" and "std t"
  shows "all_started (runcmd K p c t) = wires p c t \<and> (\<forall>u\<in>set (all_waiting (runcmd K p c t)). std u) \<and>
    (\<forall>(a, u)\<in>set (wires p c t). std u)"
  using assms(2,3)
proof (induction c arbitrary: p t)
  case (REDIR c f mode fd)
  have "fd_open K f mode (Opened f mode) (fd_close (nat fd) t) = Some (nat fd, t(nat fd := Some (Opened f mode)))"
    using redirect [OF REDIR.prems(2)] assms(1) REDIR.prems(1) by (auto simp: fd_open_def willing_def)
  moreover have "std (t(nat fd := Some (Opened f mode)))" using REDIR.prems by auto
  ultimately show ?case using REDIR.IH REDIR.prems(1) by simp
next
  case (PIPE l r)
  have k: "pipes K p" "\<And>p. forks K p" using assms(1) by (simp_all add: willing_def)
  have w: "fd_close 4 (fd_close 3 (fd_dup 4 (fd_close 1 (t(3 := Some (PipeRead p), 4 := Some (PipeWrite p)))))) = t(1 := Some (PipeWrite p))"
    by (rule pipe_end_moved [OF PIPE.prems(2)]) simp_all
  have r: "fd_close 4 (fd_close 3 (fd_dup 3 (fd_close 0 (t(3 := Some (PipeRead p), 4 := Some (PipeWrite p)))))) = t(0 := Some (PipeRead p))"
    by (rule pipe_end_moved [OF PIPE.prems(2)]) simp_all
  have s: "std (t(1 := Some (PipeWrite p)))" "std (t(0 := Some (PipeRead p)))" using PIPE.prems(2) by simp_all
  show ?case
    using PIPE.IH(1) [OF _ s(1), of "p @ [0]"] PIPE.IH(2) [OF _ s(2), of "p @ [1]"] PIPE.prems k
    by (simp add: pipe_ends w r pipe_ends_closed fork1_def Let_def ball_Un del: fun_upd_apply One_nat_def)
next
  case (EXEC argv)
  then show ?case using assms(1) by (simp add: willing_def)
next
  case (LIST l r)
  have "forks K q" for q using assms(1) by (simp add: willing_def)
  then show ?case using LIST.IH(1) [of t "p @ [0]"] LIST.IH(2) [of t "p @ [1]"] LIST.prems by (simp add: fork1_def ball_Un)
next
  case (BACK c)
  have "forks K q" for q using assms(1) by (simp add: willing_def)
  then show ?case using BACK.IH [of t "p @ [0]"] BACK.prems by (simp add: fork1_def)
qed

text \<open>The grammar only redirects the standard input and output.\<close>

lemma redirs_ok_add_arg: "redirs_ok c \<Longrightarrow> redirs_ok (add_arg w c)"
  by (induction w c rule: add_arg.induct) simp_all

lemma redirs_ok_items: "redirs_ok c \<Longrightarrow> redirs_ok (items_cmd its c)"
proof (induction its arbitrary: c)
  case (Cons i its)
  have "redirs_ok (item_cmd (fst i) c)" using Cons.prems by (cases "fst i") (simp_all add: redirs_ok_add_arg)
  then show ?case using Cons.IH by (simp add: items_cmd_def)
qed (simp add: items_cmd_def)

lemma redirs_ok_BACK: "redirs_ok ((BACK ^^ k) c) = redirs_ok c"
  by (induction k) simp_all

lemma redirs_ok_grammar:
  "gexec c s \<Longrightarrow> redirs_ok c" "gpipe c s \<Longrightarrow> redirs_ok c" "gline c s \<Longrightarrow> redirs_ok c"
  by (induction rule: gexec_gpipe_gline.inducts) (simp_all add: redirs_ok_items redirs_ok_BACK)

subsection \<open>The start of the shell\<close>

lemma open_three_std:
  assumes "\<And>i. 3 \<le> i \<Longrightarrow> t i = None" and "\<And>m. opens K ''console'' m"
  shows "std (open_three K t)" and "t i = Some x \<Longrightarrow> open_three K t i = Some x"
proof -
  have "std (open_three K t) \<and> (\<forall>i x. t i = Some x \<longrightarrow> open_three K t i = Some x)"
    using assms
  proof (induction K t rule: open_three.induct)
    case (1 K t)
    have "t 3 = None" "3 < NOFILE" using 1(2) [of 3] by simp_all
    then have "lowest t \<noteq> None" unfolding lowest_None by blast
    then obtain fd where fd: "lowest t = Some fd" by blast
    then have o: "fd_open K ''console'' 2 Console t = Some (fd, t(fd := Some Console))" using 1(3) by (simp add: fd_open_def new_fd_def)
    have tf: "t fd = None" using fd by (simp add: lowest_Some)
    show ?case
    proof (cases "3 \<le> fd")
      case True
      then have "\<forall>i<3. t i \<noteq> None" using fd by (auto simp: lowest_Some)
      then have "std t" unfolding std_def using 1(2) by (metis not_le)
      moreover have "open_three K t = t" using o tf True by (auto simp: open_three.simps [of K t] fd_close_def fun_eq_iff)
      ultimately show ?thesis by simp
    next
      case False
      then have e: "open_three K t = open_three K (t(fd := Some Console))" using o by (simp add: open_three.simps [of K t])
      have "std (open_three K (t(fd := Some Console))) \<and>
          (\<forall>i x. (t(fd := Some Console)) i = Some x \<longrightarrow> open_three K (t(fd := Some Console)) i = Some x)"
        by (rule 1(1) [OF o refl False]) (use 1(2,3) False in auto)
      then show ?thesis unfolding e using tf by (metis fun_upd_apply option.distinct(1))
    qed
  qed
  then show "std (open_three K t)" "t i = Some x \<Longrightarrow> open_three K t i = Some x" by blast+
qed

lemma sh_loop_wires:
  assumes "willing K" and "std t" and "\<forall>(c, s)\<in>set ls. gline c s \<and> take 3 s \<noteq> ''cd ''"
  shows "all_started (sh_loop K cd n (map snd ls) t) = concat (map (\<lambda>i. wires [n + i] (fst (ls ! i)) t) [0..<length ls]) \<and>
    (\<forall>u\<in>set (map snd (all_started (sh_loop K cd n (map snd ls) t)) @ all_waiting (sh_loop K cd n (map snd ls) t)). std u)"
  using assms(3)
proof (induction ls arbitrary: n)
  case (Cons l ls)
  obtain c s where l: "l = (c, s)" by force
  then have g: "gline c s" "take 3 s \<noteq> ''cd ''" using Cons.prems by auto
  let ?r = "sh_loop K cd (n + 1) (map snd ls) t"
  have k: "forks K [n]" using assms(1) by (simp add: willing_def)
  have e: "sh_loop K cd n (map snd (l # ls)) t = Fork (runcmd K [n] c t) # WaitChild t # ?r"
    using g(2) k parsecmd_line [OF g(1)] l by (simp add: sh_child_def fork1_def)
  have m: "map (\<lambda>i. wires [n + i] (fst ((l # ls) ! i)) t) [0..<length (l # ls)] =
      wires [n] c t # map (\<lambda>i. wires [n + 1 + i] (fst (ls ! i)) t) [0..<length ls]"
    using l by (simp add: map_upt_Suc del: upt_Suc)
  note w = runcmd_wires [OF assms(1) redirs_ok_grammar(3) [OF g(1)] assms(2), where p = "[n]"]
  have "\<forall>(c, s)\<in>set ls. gline c s \<and> take 3 s \<noteq> ''cd ''" using Cons.prems by simp
  note h = Cons.IH [where n = "n + 1", OF this]
  have a: "all_started (sh_loop K cd n (map snd (l # ls)) t) = wires [n] c t @ all_started ?r" unfolding e using w by simp
  have "\<forall>u\<in>set (map snd (wires [n] c t)). std u" using w by auto
  then have "\<forall>u\<in>set (map snd (all_started (sh_loop K cd n (map snd (l # ls)) t))). std u"
    unfolding a map_append set_append ball_Un using conjunct2 [OF h, unfolded set_append ball_Un] by blast
  moreover have "\<forall>u\<in>set (all_waiting (sh_loop K cd n (map snd (l # ls)) t)). std u"
    unfolding e using w h assms(2) by (auto simp del: sh_loop.simps)
  moreover have "wires [n] c t @ all_started ?r = concat (map (\<lambda>i. wires [n + i] (fst ((l # ls) ! i)) t) [0..<length (l # ls)])"
    unfolding m using conjunct1 [OF h] by simp
  ultimately show ?case using a by (simp only: set_append ball_Un)
qed simp

text \<open>
  C25: A shell that is started with at most the three standard descriptors keeps them and opens the console for those that are missing.
  When the kernel refuses nothing, it starts for the lines of the language exactly their programs, each with the
  descriptors that the pipes and redirections around it ask for and no others open; and every process that waits has
  closed its ends of the pipes, so that a reader sees the end of its input.
\<close>

theorem sh_main_wires:
  assumes "willing K" and "\<And>i. 3 \<le> i \<Longrightarrow> t i = None" and "\<forall>(c, s)\<in>set ls. gline c s \<and> take 3 s \<noteq> ''cd ''"
  shows "\<exists>t'. std t' \<and> (\<forall>i x. t i = Some x \<longrightarrow> t' i = Some x) \<and>
    all_started (sh_main K cd (map snd ls) t) = concat (map (\<lambda>i. wires [i] (fst (ls ! i)) t') [0..<length ls]) \<and>
    (\<forall>u\<in>set (map snd (all_started (sh_main K cd (map snd ls) t)) @ all_waiting (sh_main K cd (map snd ls) t)). std u)"
proof -
  have k: "opens K ''console'' m" for m using assms(1) by (simp add: willing_def)
  note o = open_three_std [OF assms(2) k]
  show ?thesis using sh_loop_wires [OF assms(1) o(1) assms(3), where cd = cd and n = 0] o
    unfolding sh_main_def by (intro exI [of _ "open_three K t"]) simp
qed

lemma sh_main_wires_witness:
  "\<exists>K t'. willing K \<and> std t' \<and>
     all_started (sh_main K (\<lambda>_. True) [''ls |wc >f ''] (\<lambda>_. None)) =
       [([''ls''], t'(1 := Some (PipeWrite [0]))),
        ([''wc''], t'(0 := Some (PipeRead [0]), 1 := Some (Opened ''f'' O_WRONLY_CREATE)))]"
proof -
  let ?K = "\<lparr>opens = \<lambda>_ _. True, execs = \<lambda>_. True, pipes = \<lambda>_. True, forks = \<lambda>_. True\<rparr>"
  let ?c = "PIPE (EXEC [''ls'']) (REDIR (EXEC [''wc'']) ''f'' O_WRONLY_CREATE 1)"
  have i: "items_ok [(Arg ''ls'', '' '')]" "items_ok [(Arg ''wc'', '' ''), (Outp ''f'', '' '')]"
    by (simp_all add: items_ok_def word_ok_def blank_def wordchar_def whitespace_def symbols_def)
  have "gpipe ?c (''ls '' @ ''|'' @ ''wc >f '')"
    using g_pipe [OF g_simple [OF i(1)] g_exec [OF g_simple [OF i(2)]]] by (simp add: nargs_def items_cmd_def items_text_def)
  from g_back [OF this, of 0] have g: "gline ?c ''ls |wc >f ''" by simp
  have k: "willing ?K" by (simp add: willing_def)
  obtain t' where "std t'" "all_started (sh_main ?K (\<lambda>_. True) (map snd [(?c, ''ls |wc >f '')]) (\<lambda>_. None)) =
      concat (map (\<lambda>i. wires [i] (fst ([(?c, ''ls |wc >f '')] ! i)) t') [0..<length [(?c, ''ls |wc >f '')]])"
    using sh_main_wires [OF k, of "\<lambda>_. None" "[(?c, ''ls |wc >f '')]" "\<lambda>_. True"] g by auto
  then show ?thesis using k by (intro exI [of _ ?K] exI [of _ t']) simp
qed

end
