(* ===== verification/Ide.thy ===== *)
theory Ide
  imports Bio
begin

text \<open>
  The driver of the disk (\<^verbatim>\<open>xv6-public/ide.c\<close>): the queue of requests and the interrupt handler that serves it.
  The theorem shows that requests are served in the order in which they came, and that the effect of each is that of
  the memory disk of \<^verbatim>\<open>memide.c\<close>, on which the layers above are built.
\<close>

subsection \<open>The controller\<close>

text \<open>
  The registers of the controller behind the ports, as the standard for such disks describes them; a write to the
  register of commands starts a request for the sector that the others hold.
\<close>

record ata =
  a_count :: uchar
  a_low :: uchar
  a_mid :: uchar
  a_high :: uchar
  a_drive :: uchar
  a_cmd :: uchar
  a_data :: "uchar list"

definition outb :: "nat \<Rightarrow> uchar \<Rightarrow> ata \<Rightarrow> ata" where
  "outb p v c =
     (if p = 0x1f2 then c\<lparr>a_count := v\<rparr> else if p = 0x1f3 then c\<lparr>a_low := v\<rparr> else if p = 0x1f4 then c\<lparr>a_mid := v\<rparr>
      else if p = 0x1f5 then c\<lparr>a_high := v\<rparr> else if p = 0x1f6 then c\<lparr>a_drive := v\<rparr> else if p = 0x1f7 then c\<lparr>a_cmd := v\<rparr> else c)"

definition outsl :: "uchar list \<Rightarrow> ata \<Rightarrow> ata" where
  "outsl d c = c\<lparr>a_data := d\<rparr>"

definition a_sector :: "ata \<Rightarrow> nat" where
  "a_sector c = unat (a_low c) + 2 ^ 8 * unat (a_mid c) + 2 ^ 16 * unat (a_high c) + 2 ^ 24 * unat (a_drive c AND 0x0f)"

definition a_slave :: "ata \<Rightarrow> nat" where
  "a_slave c = (if bit (a_drive c) 4 then 1 else 0)"

subsection \<open>The driver\<close>

text \<open>
  \<open>ibuf\<close> and \<open>qnext\<close> are the buffers by their address and the field that links them into the queue; zero is the null
  pointer. A section under \<^verbatim>\<open>idelock\<close> runs as a whole. What a function reads from the ports is an argument: the list
  of the values of the status register, and the data of a sector.
\<close>

abbreviation SECTOR_SIZE :: nat where "SECTOR_SIZE \<equiv> 512"
abbreviation IDE_BSY :: uchar where "IDE_BSY \<equiv> 0x80"
abbreviation IDE_DRDY :: uchar where "IDE_DRDY \<equiv> 0x40"
abbreviation IDE_DF :: uchar where "IDE_DF \<equiv> 0x20"
abbreviation IDE_ERR :: uchar where "IDE_ERR \<equiv> 0x01"
abbreviation IDE_CMD_READ :: uchar where "IDE_CMD_READ \<equiv> 0x20"
abbreviation IDE_CMD_WRITE :: uchar where "IDE_CMD_WRITE \<equiv> 0x30"
abbreviation IDE_CMD_RDMUL :: uchar where "IDE_CMD_RDMUL \<equiv> 0xc4"
abbreviation IDE_CMD_WRMUL :: uchar where "IDE_CMD_WRMUL \<equiv> 0xc5"

record ide =
  ibuf :: "nat \<Rightarrow> buf"
  qnext :: "nat \<Rightarrow> nat"
  idequeue :: nat
  havedisk1 :: bool
  ctl :: ata

fun idewait :: "bool \<Rightarrow> uchar list \<Rightarrow> int outcome" where
  "idewait checkerr [] = Wait ''ide''"
| "idewait checkerr (r # rs) =
     (if r AND (IDE_BSY OR IDE_DRDY) \<noteq> IDE_DRDY then idewait checkerr rs
      else if checkerr \<and> r AND (IDE_DF OR IDE_ERR) \<noteq> 0 then Ret (- 1) else Ret 0)"

text \<open>The lock, which has no state here, and the routing of the interrupt, which belongs to another device, are left out.\<close>

definition ideinit :: "uchar list \<Rightarrow> uchar list \<Rightarrow> ide \<Rightarrow> ide outcome" where
  "ideinit rs probe s =
     obind (idewait False rs) (\<lambda>_.
     let s1 = s\<lparr>ctl := outb 0x1f6 (0xe0 OR push_bit 4 1) (ctl s)\<rparr>;
         s2 = (if \<exists>r\<in>set (take 1000 probe). r \<noteq> 0 then s1\<lparr>havedisk1 := True\<rparr> else s1)
     in Ret (s2\<lparr>ctl := outb 0x1f6 (0xe0 OR push_bit 4 0) (ctl s2)\<rparr>))"

definition idestart :: "uchar list \<Rightarrow> nat \<Rightarrow> ide \<Rightarrow> ide outcome" where
  "idestart rs b s =
     (if b = 0 then Panic ''idestart''
      else if b_blockno (ibuf s b) \<ge> FSSIZE then Panic ''incorrect blockno''
      else let sector_per_block = BSIZE div SECTOR_SIZE;
               sector = of_nat (b_blockno (ibuf s b) * sector_per_block) :: uint;
               read_cmd = (if sector_per_block = 1 then IDE_CMD_READ else IDE_CMD_RDMUL);
               write_cmd = (if sector_per_block = 1 then IDE_CMD_WRITE else IDE_CMD_WRMUL)
           in if sector_per_block > 7 then Panic ''idestart''
              else obind (idewait False rs) (\<lambda>_.
                let c = outb 0x3f6 0 (ctl s);
                    c = outb 0x1f2 (of_nat sector_per_block) c;
                    c = outb 0x1f3 (ucast (sector AND 0xff)) c;
                    c = outb 0x1f4 (ucast (drop_bit 8 sector AND 0xff)) c;
                    c = outb 0x1f5 (ucast (drop_bit 16 sector AND 0xff)) c;
                    c = outb 0x1f6 (0xe0 OR push_bit 4 (of_nat (b_dev (ibuf s b)) AND 1) OR ucast (drop_bit 24 sector AND 0x0f)) c
                in Ret (s\<lparr>ctl := (if b_dirty (ibuf s b) then outsl (b_data (ibuf s b)) (outb 0x1f7 write_cmd c)
                                  else outb 0x1f7 read_cmd c)\<rparr>)))"

definition upd_ibuf :: "nat \<Rightarrow> (buf \<Rightarrow> buf) \<Rightarrow> ide \<Rightarrow> ide" where
  "upd_ibuf b f s = s\<lparr>ibuf := (ibuf s)(b := f (ibuf s b))\<rparr>"

text \<open>The handler takes the first buffer from the queue; after \<^verbatim>\<open>wakeup\<close> its process goes on with the test of \<open>iderw\<close>.\<close>

definition ideintr :: "uchar list \<Rightarrow> uchar list \<Rightarrow> uchar list \<Rightarrow> ide \<Rightarrow> ide outcome" where
  "ideintr rs din rs' s =
     (let b = idequeue s
      in if b = 0 then Ret s
         else let s1 = s\<lparr>idequeue := qnext s b\<rparr>
              in obind (if \<not> b_dirty (ibuf s1 b)
                        then obind (idewait True rs) (\<lambda>r. Ret (if r \<ge> 0 then upd_ibuf b (\<lambda>x. x\<lparr>b_data := din\<rparr>) s1 else s1))
                        else Ret s1) (\<lambda>s2.
                 let s3 = upd_ibuf b (\<lambda>x. x\<lparr>b_valid := True, b_dirty := False\<rparr>) s2
                 in if idequeue s3 \<noteq> 0 then idestart rs' (idequeue s3) s3 else Ret s3))"

partial_function (option) queue_end :: "nat \<Rightarrow> (nat \<Rightarrow> nat) \<Rightarrow> nat option" where
  "queue_end p n = (if n p = 0 then Some p else queue_end (n p) n)"

definition enqueue :: "nat \<Rightarrow> ide \<Rightarrow> ide option" where
  "enqueue b s =
     (let s1 = s\<lparr>qnext := (qnext s)(b := 0)\<rparr>
      in if idequeue s1 = 0 then Some (s1\<lparr>idequeue := b\<rparr>)
         else Option.bind (queue_end (idequeue s1) (qnext s1)) (\<lambda>p. Some (s1\<lparr>qnext := (qnext s1)(p := b)\<rparr>)))"

text \<open>
  \<^verbatim>\<open>iderw\<close> up to its loop, then the test of the loop: as long as it fails the process sleeps. \<open>held\<close> is the result of
  \<^verbatim>\<open>holdingsleep\<close>.
\<close>

definition iderw_enter :: "bool \<Rightarrow> uchar list \<Rightarrow> nat \<Rightarrow> ide \<Rightarrow> ide outcome option" where
  "iderw_enter held rs b s =
     (if \<not> held then Some (Panic ''iderw: buf not locked'')
      else if b_valid (ibuf s b) \<and> \<not> b_dirty (ibuf s b) then Some (Panic ''iderw: nothing to do'')
      else if b_dev (ibuf s b) \<noteq> 0 \<and> \<not> havedisk1 s then Some (Panic ''iderw: ide disk 1 not present'')
      else Option.bind (enqueue b s) (\<lambda>s1. Some (if idequeue s1 = b then idestart rs b s1 else Ret s1)))"

definition iderw_test :: "nat \<Rightarrow> ide \<Rightarrow> bool" where
  "iderw_test b s \<longleftrightarrow> b_valid (ibuf s b) \<and> \<not> b_dirty (ibuf s b)"

lemma upd_ibuf_simps [simp]:
  "qnext (upd_ibuf b f s) = qnext s" "idequeue (upd_ibuf b f s) = idequeue s" "ctl (upd_ibuf b f s) = ctl s"
  by (simp_all add: upd_ibuf_def)

subsection \<open>Requests\<close>

text \<open>What the controller works on is the request of the buffer \<open>x\<close>.\<close>

definition active :: "ata \<Rightarrow> buf \<Rightarrow> bool" where
  "active c x \<longleftrightarrow> a_count c = 1 \<and> a_sector c = b_blockno x \<and> a_slave c = b_dev x mod 2 \<and>
     (if b_dirty x then a_cmd c = IDE_CMD_WRITE \<and> a_data c = b_data x else a_cmd c = IDE_CMD_READ)"

lemma unat_drop_bit: "unat (drop_bit k (w :: uint)) = unat w div 2 ^ k"
proof -
  have "unat (drop_bit k w) = drop_bit k (take_bit 32 (unat w))" by (simp only: unsigned_drop_bit_eq) simp
  moreover have "unat w < 2 ^ 32" using unsigned_less [of w] by simp
  then have "take_bit 32 (unat w) = unat w" by (rule take_bit_nat_eq_self)
  ultimately show ?thesis by (simp add: drop_bit_eq_div)
qed

lemma byte_of: "unat (ucast (drop_bit k (w :: uint) AND 0xff) :: uchar) = unat w div 2 ^ k mod 2 ^ 8"
proof -
  have "(0xff :: uint) = mask 8" by (simp add: mask_eq_exp_minus_1)
  then have "drop_bit k w AND 0xff = take_bit 8 (drop_bit k w)" by (simp only: take_bit_eq_mask)
  moreover have "unat (ucast (take_bit 8 (drop_bit k w)) :: uchar) = take_bit 8 (take_bit 8 (unat (drop_bit k w)))"
    by (simp only: unsigned_ucast_eq unsigned_take_bit_eq) simp
  ultimately show ?thesis by (simp only: unat_drop_bit) (simp add: take_bit_eq_mod)
qed

lemma drive_bit: "of_nat d AND (1 :: uchar) = (if d mod 2 = 1 then 1 else 0)"
proof -
  have "even (of_nat d :: uchar) \<longleftrightarrow> even d" using bit_of_nat_iff [where 'a = uchar, of d 0] by (simp add: bit_0)
  then show ?thesis by (simp only: and_one_eq mod_2_eq_odd of_bool_def odd_iff_mod_2_eq_one [symmetric]) simp
qed

lemma drive_reg: "bit ((0xe0 :: uchar) OR push_bit 4 (if p then 1 else 0)) 4 \<longleftrightarrow> p"
  by (cases p) simp_all

lemma idestart_ok:
  assumes b: "b \<noteq> 0" "b_blockno (ibuf s b) < FSSIZE" and w: "idewait False rs = Ret r"
  obtains c where "idestart rs b s = Ret (s\<lparr>ctl := c\<rparr>)" "active c (ibuf s b)"
proof -
  let ?x = "ibuf s b" and ?w = "of_nat (b_blockno (ibuf s b)) :: uint"
  have u: "unat ?w = b_blockno ?x" using b(2) by (simp add: unsigned_of_nat take_bit_nat_eq_self)
  have h: "drop_bit 24 ?w = 0"
    using unat_drop_bit [of 24 ?w] u b(2) by (simp only: unat_eq_zero [symmetric]) simp
  have s0: "unat (ucast (?w AND 0xff) :: uchar) = b_blockno ?x mod 2 ^ 8" using byte_of [of 0 ?w] u by simp
  have s1: "unat (ucast (drop_bit 8 ?w AND 0xff) :: uchar) = b_blockno ?x div 2 ^ 8" using byte_of [of 8 ?w] u b(2) by simp
  have s2: "unat (ucast (drop_bit 16 ?w AND 0xff) :: uchar) = 0" using byte_of [of 16 ?w] u b(2) by simp
  show thesis
    by (rule that) (use b w in \<open>auto simp: idestart_def Let_def outb_def outsl_def active_def a_sector_def a_slave_def h s0 s1 s2 drive_bit drive_reg\<close>)
qed

subsection \<open>The queue\<close>

fun qpath :: "(nat \<Rightarrow> nat) \<Rightarrow> nat \<Rightarrow> nat list \<Rightarrow> bool" where
  "qpath n p [] \<longleftrightarrow> p = 0"
| "qpath n p (b # q) \<longleftrightarrow> p = b \<and> b \<noteq> 0 \<and> qpath n (n b) q"

lemma qpath_upd: "b \<notin> set q \<Longrightarrow> qpath (n(b := x)) p q \<longleftrightarrow> qpath n p q"
  by (induction q arbitrary: p) auto

lemma qpath_snoc: "qpath n p (q @ [l]) \<Longrightarrow> distinct (q @ [l]) \<Longrightarrow> b \<noteq> 0 \<Longrightarrow> b \<notin> set (q @ [l]) \<Longrightarrow> n b = 0 \<Longrightarrow>
    qpath (n(l := b)) p (q @ [l, b])"
  by (induction q arbitrary: p) auto

lemma queue_end_ok: "qpath n p (q @ [l]) \<Longrightarrow> queue_end p n = Some l"
proof (induction q arbitrary: p)
  case Nil
  then show ?case by (simp add: queue_end.simps)
next
  case (Cons b q)
  then have "n b \<noteq> 0" by (cases q) auto
  then show ?case using Cons by (simp add: queue_end.simps [of b])
qed

lemma qpath_null: "qpath n p q \<Longrightarrow> p = 0 \<longleftrightarrow> q = []"
  by (cases q) auto

lemma enqueue_ok:
  assumes q: "qpath (qnext s) (idequeue s) q" "distinct q" and b: "b \<noteq> 0" "b \<notin> set q"
  obtains s' where "enqueue b s = Some s'" "qpath (qnext s') (idequeue s') (q @ [b])" "ibuf s' = ibuf s" "ctl s' = ctl s"
    "havedisk1 s' = havedisk1 s"
proof (cases q rule: rev_cases)
  case Nil
  then show ?thesis using that [of "s\<lparr>qnext := (qnext s)(b := 0), idequeue := b\<rparr>"] q b by (simp add: enqueue_def Let_def)
next
  case (snoc r l)
  let ?n = "(qnext s)(b := 0)"
  have p: "qpath ?n (idequeue s) (r @ [l])" using q(1) b(2) snoc qpath_upd [of b q "qnext s" 0] by simp
  have "idequeue s \<noteq> 0" using qpath_null [OF q(1)] snoc by simp
  then have e: "enqueue b s = Some (s\<lparr>qnext := ?n(l := b)\<rparr>)" using queue_end_ok [OF p] by (simp add: enqueue_def Let_def)
  have "qpath (?n(l := b)) (idequeue s) (r @ [l, b])" by (rule qpath_snoc [OF p]) (use q(2) b snoc in auto)
  then show ?thesis using that [OF e] snoc by simp
qed

definition queue_ok :: "ide \<Rightarrow> nat list \<Rightarrow> bool" where
  "queue_ok s q \<longleftrightarrow> qpath (qnext s) (idequeue s) q \<and> distinct q \<and>
     (\<forall>b\<in>set q. \<not> iderw_test b s \<and> b_blockno (ibuf s b) < FSSIZE) \<and> (q \<noteq> [] \<longrightarrow> active (ctl s) (ibuf s (hd q)))"

lemma iderw_enter_ok:
  assumes q: "queue_ok s q" and b: "b \<noteq> 0" "b \<notin> set q" "\<not> iderw_test b s" "b_blockno (ibuf s b) < FSSIZE"
    and d: "b_dev (ibuf s b) = 0 \<or> havedisk1 s" and w: "idewait False rs = Ret r"
  obtains s' where "iderw_enter True rs b s = Some (Ret s')" "queue_ok s' (q @ [b])" "ibuf s' = ibuf s"
    "havedisk1 s' = havedisk1 s"
proof -
  have k: "qpath (qnext s) (idequeue s) q" "distinct q" using q by (simp_all add: queue_ok_def)
  obtain s1 where s1: "enqueue b s = Some s1" "qpath (qnext s1) (idequeue s1) (q @ [b])" "ibuf s1 = ibuf s" "ctl s1 = ctl s"
    "havedisk1 s1 = havedisk1 s" by (rule enqueue_ok [OF k b(1,2)])
  have e: "iderw_enter True rs b s = Some (if idequeue s1 = b then idestart rs b s1 else Ret s1)"
    using b(3) d s1(1) by (auto simp: iderw_enter_def iderw_test_def)
  show thesis
  proof (cases q)
    case Nil
    obtain c where c: "idestart rs b s1 = Ret (s1\<lparr>ctl := c\<rparr>)" "active c (ibuf s1 b)"
      by (rule idestart_ok [OF b(1) _ w, of s1]) (use b(4) s1(3) in simp_all)
    have "idequeue s1 = b" using s1(2) Nil by simp
    then show thesis using that [of "s1\<lparr>ctl := c\<rparr>"] e c s1 b Nil by (simp add: queue_ok_def iderw_test_def)
  next
    case (Cons h t)
    then have "idequeue s1 \<noteq> b" using s1(2) b(2) by auto
    then show thesis using that [of s1] e s1 b q Cons by (auto simp: queue_ok_def iderw_test_def)
  qed
qed

subsection \<open>Interrupts\<close>

text \<open>The disk by drive and sector. At the end of a command a write has reached it; a read delivers its sector.\<close>

type_synonym drives = "nat \<Rightarrow> nat \<Rightarrow> uchar list"

definition ata_read :: "ata \<Rightarrow> drives \<Rightarrow> uchar list" where
  "ata_read c D = D (a_slave c) (a_sector c)"

definition ata_done :: "ata \<Rightarrow> drives \<Rightarrow> drives" where
  "ata_done c D = (if a_cmd c = IDE_CMD_WRITE then D(a_slave c := (D (a_slave c))(a_sector c := a_data c)) else D)"

text \<open>The effect of a request on the buffers and the disk, in one step.\<close>

fun serve :: "nat \<Rightarrow> (nat \<Rightarrow> buf) \<times> drives \<Rightarrow> (nat \<Rightarrow> buf) \<times> drives" where
  "serve b (B, D) =
     (let x = B b; d = b_dev x mod 2
      in if b_dirty x then (B(b := x\<lparr>b_valid := True, b_dirty := False\<rparr>), D(d := (D d)(b_blockno x := b_data x)))
         else (B(b := x\<lparr>b_data := D d (b_blockno x), b_valid := True, b_dirty := False\<rparr>), D))"

lemma ideintr_ok:
  assumes q: "queue_ok s (b # q)" and w: "idewait True rs = Ret 0" "idewait False rs' = Ret r"
  obtains s' where "ideintr rs (ata_read (ctl s) D) rs' s = Ret s'" "queue_ok s' q"
    "(ibuf s', ata_done (ctl s) D) = serve b (ibuf s, D)" "havedisk1 s' = havedisk1 s"
proof -
  have b: "idequeue s = b" "b \<noteq> 0" "qpath (qnext s) (qnext s b) q" "distinct q" "b \<notin> set q" "active (ctl s) (ibuf s b)"
    "\<forall>x\<in>set q. \<not> iderw_test x s \<and> b_blockno (ibuf s x) < FSSIZE" "\<not> iderw_test b s"
    using q by (auto simp: queue_ok_def)
  define s3 where "s3 = s\<lparr>idequeue := qnext s b, ibuf := fst (serve b (ibuf s, D))\<rparr>"
  have e: "ideintr rs (ata_read (ctl s) D) rs' s = (if idequeue s3 \<noteq> 0 then idestart rs' (idequeue s3) s3 else Ret s3)"
    using b(1,2,6) w(1) by (cases "b_dirty (ibuf s b)")
      (simp_all add: ideintr_def Let_def upd_ibuf_def s3_def active_def ata_read_def)
  have d: "(ibuf s3, ata_done (ctl s) D) = serve b (ibuf s, D)"
    using b(6) by (simp add: s3_def ata_done_def active_def Let_def)
  have o: "ibuf s3 x = ibuf s x" if "x \<noteq> b" for x using that by (simp add: s3_def Let_def)
  have t: "\<forall>x\<in>set q. \<not> iderw_test x s3 \<and> b_blockno (ibuf s3 x) < FSSIZE"
  proof
    fix x assume x: "x \<in> set q"
    then have "x \<noteq> b" using b(5) by auto
    then show "\<not> iderw_test x s3 \<and> b_blockno (ibuf s3 x) < FSSIZE" using b(7) x o by (simp add: iderw_test_def)
  qed
  have p: "qpath (qnext s3) (idequeue s3) q" using b(3) by (simp add: s3_def)
  show thesis
  proof (cases q)
    case Nil
    then show thesis using that [of s3] e d p t by (simp add: queue_ok_def s3_def)
  next
    case (Cons h u)
    then have h: "idequeue s3 = h" "h \<noteq> 0" "b_blockno (ibuf s3 h) < FSSIZE" using p t by auto
    obtain c where c: "idestart rs' h s3 = Ret (s3\<lparr>ctl := c\<rparr>)" "active c (ibuf s3 h)"
      by (rule idestart_ok [OF h(2,3) w(2)])
    then have "queue_ok (s3\<lparr>ctl := c\<rparr>) q" using p t b(4) Cons by (simp add: queue_ok_def iderw_test_def)
    then show thesis using that [of "s3\<lparr>ctl := c\<rparr>"] e d h(1,2) c(1) by (simp add: s3_def)
  qed
qed

text \<open>
  Processes put requests into the queue, the disk raises an interrupt at the end of a command, and a process goes
  on when its request is done. \<open>W\<close> is the set of buffers on which a process waits; any other buffer may change at any
  time.
\<close>

type_synonym ide_state = "ide \<times> drives \<times> nat set"

definition ide_init :: "ide_state \<Rightarrow> bool" where
  "ide_init = (\<lambda>(s, D, W). idequeue s = 0 \<and> W = {})"

inductive ide_step :: "ide_state \<Rightarrow> ide_state \<Rightarrow> bool" where
  ide_request: "b \<noteq> 0 \<Longrightarrow> b \<notin> W \<Longrightarrow> b_blockno (ibuf s b) < FSSIZE \<Longrightarrow> idewait False rs = Ret r \<Longrightarrow>
    iderw_enter True rs b s = Some (Ret s') \<Longrightarrow> ide_step (s, D, W) (s', D, insert b W)"
| ide_interrupt: "idewait True rs = Ret 0 \<Longrightarrow> idewait False rs' = Ret r \<Longrightarrow> idequeue s \<noteq> 0 \<Longrightarrow>
    ideintr rs (ata_read (ctl s) D) rs' s = Ret s' \<Longrightarrow> ide_step (s, D, W) (s', ata_done (ctl s) D, W)"
| ide_spurious: "idequeue s = 0 \<Longrightarrow> ideintr rs din rs' s = Ret s' \<Longrightarrow> ide_step (s, D, W) (s', D, W)"
| ide_leave: "b \<in> W \<Longrightarrow> iderw_test b s \<Longrightarrow> ide_step (s, D, W) (s, D, W - {b})"
| ide_use: "b \<notin> W \<Longrightarrow> ide_step (s, D, W) (upd_ibuf b f s, D, W)"

definition ide_inv :: "ide_state \<Rightarrow> bool" where
  "ide_inv = (\<lambda>(s, D, W). \<exists>q. queue_ok s q \<and> set q \<subseteq> W \<and> (\<forall>b\<in>W - set q. iderw_test b s))"

lemma served:
  assumes "(ibuf s', D') = serve b (ibuf s, D)"
  shows "iderw_test b s'" and "x \<noteq> b \<Longrightarrow> iderw_test x s' = iderw_test x s"
  using assms by (auto simp: iderw_test_def Let_def split: if_splits)

lemma ide_inv_step: "ide_inv st \<Longrightarrow> ide_step st st' \<Longrightarrow> ide_inv st'"
proof (erule ide_step.cases)
  fix b W s rs r s' D
  assume st: "st = (s, D, W)" "st' = (s', D, insert b W)" and b: "b \<noteq> 0" "b \<notin> W" "b_blockno (ibuf s b) < FSSIZE"
    and w: "idewait False rs = Ret r" and e: "iderw_enter True rs b s = Some (Ret s')" and i: "ide_inv st"
  obtain q where q: "queue_ok s q" "set q \<subseteq> W" "\<forall>b\<in>W - set q. iderw_test b s" using i st(1) by (auto simp: ide_inv_def)
  have "\<not> iderw_test b s" "b_dev (ibuf s b) = 0 \<or> havedisk1 s"
    using e by (auto simp: iderw_enter_def iderw_test_def split: if_splits)
  moreover have "b \<notin> set q" using b(2) q(2) by auto
  ultimately obtain s1 where "iderw_enter True rs b s = Some (Ret s1)" "queue_ok s1 (q @ [b])" "ibuf s1 = ibuf s"
    using iderw_enter_ok [OF q(1) b(1) _ _ b(3) _ w] by metis
  then show "ide_inv st'" using e q(2,3) st(2) by (auto simp: ide_inv_def iderw_test_def intro!: exI [of _ "q @ [b]"])
next
  fix rs rs' r s s' D W
  assume st: "st = (s, D, W)" "st' = (s', ata_done (ctl s) D, W)" and w: "idewait True rs = Ret 0" "idewait False rs' = Ret r"
    and ne: "idequeue s \<noteq> 0" and e: "ideintr rs (ata_read (ctl s) D) rs' s = Ret s'" and i: "ide_inv st"
  obtain q where q: "queue_ok s q" "set q \<subseteq> W" "\<forall>b\<in>W - set q. iderw_test b s" using i st(1) by (auto simp: ide_inv_def)
  then obtain b t where bt: "q = b # t" using ne by (cases q) (auto simp: queue_ok_def)
  obtain s1 where s1: "ideintr rs (ata_read (ctl s) D) rs' s = Ret s1" "queue_ok s1 t"
    "(ibuf s1, ata_done (ctl s) D) = serve b (ibuf s, D)"
    by (rule ideintr_ok [OF q(1) [unfolded bt] w, of D])
  have "\<forall>x\<in>W - set t. iderw_test x s1" using served [OF s1(3)] q(3) bt by (metis Diff_iff set_ConsD)
  then show "ide_inv st'" using e s1(1,2) q(2) st(2) bt by (auto simp: ide_inv_def)
next
  fix b W s D
  assume st: "st = (s, D, W)" "st' = (s, D, W - {b})" and b: "b \<in> W" "iderw_test b s" and i: "ide_inv st"
  obtain q where q: "queue_ok s q" "set q \<subseteq> W" "\<forall>b\<in>W - set q. iderw_test b s" using i st(1) by (auto simp: ide_inv_def)
  have "b \<notin> set q" using q(1) b(2) by (auto simp: queue_ok_def)
  then show "ide_inv st'" using q st(2) by (auto simp: ide_inv_def)
next
  fix b W s D f
  assume st: "st = (s, D, W)" "st' = (upd_ibuf b f s, D, W)" and b: "b \<notin> W" and i: "ide_inv st"
  obtain q where q: "queue_ok s q" "set q \<subseteq> W" "\<forall>b\<in>W - set q. iderw_test b s" using i st(1) by (auto simp: ide_inv_def)
  have o: "ibuf (upd_ibuf b f s) x = ibuf s x" if "x \<in> W" for x using b that by (auto simp: upd_ibuf_def)
  then have "queue_ok (upd_ibuf b f s) q" using q(1,2) by (cases q) (simp_all add: queue_ok_def iderw_test_def subset_iff)
  then show "ide_inv st'" using q(2,3) st(2) o by (auto simp: ide_inv_def iderw_test_def)
qed (auto simp: ide_inv_def ideintr_def Let_def)

interpretation ide_sys: invariant_system ide_init ide_step ide_inv
proof unfold_locales
  show "ide_inv st" if "ide_init st" for st
    using that by (auto simp: ide_init_def ide_inv_def queue_ok_def intro!: exI [of _ "[]"])
qed (rule ide_inv_step)

fun interrupts :: "nat \<Rightarrow> uchar list \<Rightarrow> uchar list \<Rightarrow> ide \<times> drives \<Rightarrow> (ide \<times> drives) outcome" where
  "interrupts 0 rs rs' (s, D) = Ret (s, D)"
| "interrupts (Suc n) rs rs' (s, D) =
     obind (ideintr rs (ata_read (ctl s) D) rs' s) (\<lambda>s'. interrupts n rs rs' (s', ata_done (ctl s) D))"

lemma interrupts_ok:
  assumes "queue_ok s q" and "idewait True rs = Ret 0" and "idewait False rs' = Ret r" and "\<forall>b\<in>W - set q. iderw_test b s"
  shows "\<exists>s' D'. interrupts (length q) rs rs' (s, D) = Ret (s', D') \<and> (ibuf s', D') = fold serve q (ibuf s, D) \<and>
    queue_ok s' [] \<and> (\<forall>b\<in>W. iderw_test b s')"
  using assms
proof (induction q arbitrary: s D)
  case (Cons b q)
  obtain s1 where s1: "ideintr rs (ata_read (ctl s) D) rs' s = Ret s1" "queue_ok s1 q"
    "(ibuf s1, ata_done (ctl s) D) = serve b (ibuf s, D)"
    by (rule ideintr_ok [OF Cons.prems(1-3), of D])
  have "\<forall>x\<in>W - set q. iderw_test x s1" using served [OF s1(3)] Cons.prems(4) by (metis Diff_iff set_ConsD)
  then show ?case using Cons.IH [OF s1(2) Cons.prems(2,3), of "ata_done (ctl s) D"] s1(1) by (simp only: fold_simps comp_apply s1(3) [symmetric]) simp
qed simp

text \<open>A request has the effect of \<^verbatim>\<open>iderw\<close> of the memory disk, which holds the second drive.\<close>

lemma serve_memide:
  assumes "holdingsleep (SBuf b) (b_lock (bufs s b)) s = Ret (True, s)" and "iderw b s = Ret t"
  shows "serve b (bufs s, E(1 := disk s)) = (bufs t, E(1 := disk t))"
proof -
  have x: "x\<lparr>b_data := d, b_valid := True, b_dirty := False\<rparr> = x\<lparr>b_data := d, b_valid := True\<rparr>" if "\<not> b_dirty x" for x :: buf and d
    using that by (cases x) simp
  have y: "x\<lparr>b_valid := True, b_dirty := False\<rparr> = x\<lparr>b_dirty := False, b_valid := True\<rparr>" for x :: buf by (cases x) simp
  show ?thesis
    using assms by (auto simp: iderw_def upd_buf_def Let_def x y split: if_splits)
qed

text \<open>
  C8: In every reachable state the requests that are not done form a queue. A new request can always be made and goes to
  its end. When the disk answers without an error, as many interrupts as there are requests serve them in the order of the
  queue, each with the effect of the memory disk on its buffer and sector, and then every waiting process can go on.
\<close>

theorem ide_fifo:
  assumes "reachable ide_init ide_step (s, D, W)" and "idewait True rs = Ret 0" and "idewait False rs' = Ret r"
  shows "\<exists>q s' D'. qpath (qnext s) (idequeue s) q \<and> distinct q \<and> set q \<subseteq> W \<and>
    (\<forall>b. b \<noteq> 0 \<and> b \<notin> W \<and> \<not> iderw_test b s \<and> b_blockno (ibuf s b) < FSSIZE \<and> (b_dev (ibuf s b) = 0 \<or> havedisk1 s) \<longrightarrow>
      (\<exists>t. iderw_enter True rs' b s = Some (Ret t) \<and> qpath (qnext t) (idequeue t) (q @ [b]))) \<and>
    interrupts (length q) rs rs' (s, D) = Ret (s', D') \<and> (ibuf s', D') = fold serve q (ibuf s, D) \<and>
    idequeue s' = 0 \<and> (\<forall>b\<in>W. iderw_test b s')"
proof -
  have "ide_inv (s, D, W)" by (rule ide_sys.reachable_invar [OF assms(1)])
  then obtain q where q: "queue_ok s q" "set q \<subseteq> W" "\<forall>b\<in>W - set q. iderw_test b s" by (auto simp: ide_inv_def)
  have "\<exists>t. iderw_enter True rs' b s = Some (Ret t) \<and> qpath (qnext t) (idequeue t) (q @ [b])"
    if b: "b \<noteq> 0" "b \<notin> W" "\<not> iderw_test b s" "b_blockno (ibuf s b) < FSSIZE" "b_dev (ibuf s b) = 0 \<or> havedisk1 s" for b
  proof -
    have "b \<notin> set q" using b(2) q(2) by auto
    then obtain t where "iderw_enter True rs' b s = Some (Ret t)" "queue_ok t (q @ [b])"
      by (rule iderw_enter_ok [OF q(1) b(1) _ b(3-5) assms(3)])
    then show ?thesis by (auto simp: queue_ok_def)
  qed
  moreover obtain s' D' where "interrupts (length q) rs rs' (s, D) = Ret (s', D')" "(ibuf s', D') = fold serve q (ibuf s, D)"
    "queue_ok s' []" "\<forall>b\<in>W. iderw_test b s'"
    using interrupts_ok [OF q(1) assms(2,3) q(3), of D] by blast
  ultimately show ?thesis using q by (intro exI [of _ q] exI [of _ s'] exI [of _ D']) (simp add: queue_ok_def)
qed

definition idle_disk :: ide where
  "idle_disk = \<lparr>ibuf = (\<lambda>_. \<lparr>b_valid = False, b_dirty = True, b_dev = 1, b_blockno = 7, b_lock = sl_free, b_refcnt = 1,
     b_data = replicate BSIZE 1\<rparr>), qnext = (\<lambda>_. 0), idequeue = 0, havedisk1 = True,
     ctl = \<lparr>a_count = 0, a_low = 0, a_mid = 0, a_high = 0, a_drive = 0, a_cmd = 0, a_data = []\<rparr>\<rparr>"

lemma ide_fifo_witness:
  "\<exists>s q s' D'. reachable ide_init ide_step (s, \<lambda>_ _. [], {5}) \<and>
     interrupts (length q) [0x40] [0x40] (s, \<lambda>_ _. []) = Ret (s', D') \<and> (ibuf s', D') = fold serve q (ibuf s, \<lambda>_ _. []) \<and>
     iderw_test 5 s'"
proof -
  have w: "idewait True [0x40] = Ret 0" "idewait False [0x40] = Ret 0" by simp_all
  have i: "ide_init (idle_disk, \<lambda>_ _. [], {})" by (simp add: ide_init_def idle_disk_def)
  have q: "queue_ok idle_disk []" by (simp add: queue_ok_def idle_disk_def)
  have b: "5 \<noteq> (0 :: nat)" "5 \<notin> set []" "\<not> iderw_test 5 idle_disk" "b_blockno (ibuf idle_disk 5) < FSSIZE"
    "b_dev (ibuf idle_disk 5) = 0 \<or> havedisk1 idle_disk"
    by (simp_all add: iderw_test_def idle_disk_def)
  obtain s where e: "iderw_enter True [0x40] 5 idle_disk = Some (Ret s)" by (rule iderw_enter_ok [OF q b w(2)])
  have "ide_step (idle_disk, \<lambda>_ _. [], {}) (s, \<lambda>_ _. [], insert 5 {})"
    by (rule ide_request [OF b(1) _ b(4) w(2) e]) simp
  then have r: "reachable ide_init ide_step (s, \<lambda>_ _. [], {5})" by (rule reachable_step [where init = ide_init, OF reachable_init [where init = ide_init, OF i]])
  then show ?thesis using ide_fifo [OF r w] by blast
qed

text \<open>After an error of the disk the handler marks the buffer as read all the same, with its old bytes.\<close>

lemma ide_error_valid:
  assumes "idequeue s = b" "b \<noteq> 0" "qnext s b = 0" "\<not> b_dirty (ibuf s b)" and "idewait True rs = Ret (- 1)"
  shows "\<exists>s'. ideintr rs din rs' s = Ret s' \<and> iderw_test b s' \<and> b_data (ibuf s' b) = b_data (ibuf s b)"
  using assms by (simp add: ideintr_def Let_def upd_ibuf_def iderw_test_def)

end
