(* ===== verification/Boot.thy ===== *)
theory Boot
  imports Ide Memory
begin

text \<open>
  The loader of the kernel, \<^verbatim>\<open>xv6-public/bootmain.c\<close>, on the registers of the disk controller. The theorem shows that
  \<^verbatim>\<open>readseg\<close> puts the bytes of the kernel's file into memory, although it reads whole sectors.
\<close>

subsection \<open>The code\<close>

abbreviation SECTSIZE :: uint where "SECTSIZE \<equiv> 512"
abbreviation ELF_MAGIC :: uint where "ELF_MAGIC \<equiv> 0x464C457F"

fun waitdisk :: "uchar list \<Rightarrow> unit outcome" where
  "waitdisk [] = Wait ''disk''"
| "waitdisk (r # rs) = (if r AND 0xC0 \<noteq> 0x40 then waitdisk rs else Ret ())"

text \<open>
  The state is the registers of the controller and the memory. \<open>st\<close> gives for a sector the values of the status register that
  the two waits see, \<open>D\<close> is the disk.
\<close>

type_synonym boot = "ata \<times> (uint \<Rightarrow> uchar)"
type_synonym statuses = "uint \<Rightarrow> uchar list \<times> uchar list"

definition readsect :: "statuses \<Rightarrow> drives \<Rightarrow> uint \<Rightarrow> uint \<Rightarrow> boot \<Rightarrow> boot outcome" where
  "readsect st D dst offset s =
     obind (waitdisk (fst (st offset))) (\<lambda>_.
     let c = outb 0x1f2 1 (fst s);
         c = outb 0x1f3 (ucast offset) c;
         c = outb 0x1f4 (ucast (drop_bit 8 offset)) c;
         c = outb 0x1f5 (ucast (drop_bit 16 offset)) c;
         c = outb 0x1f6 (ucast (drop_bit 24 offset OR 0xE0)) c;
         c = outb 0x1f7 0x20 c
     in obind (waitdisk (snd (st offset))) (\<lambda>_. Ret (c, copy_bytes dst (ata_read c D) (snd s))))"

text \<open>The loops compare addresses that may wrap around, so they need not end.\<close>

partial_function (option) readseg_loop :: "statuses \<Rightarrow> drives \<Rightarrow> uint \<Rightarrow> uint \<Rightarrow> uint \<Rightarrow> boot \<Rightarrow> boot outcome option" where
  "readseg_loop st D epa pa offset s =
     (if \<not> pa < epa then Some (Ret s)
      else case readsect st D pa offset s of
        Ret s1 \<Rightarrow> readseg_loop st D epa (pa + SECTSIZE) (offset + 1) s1
      | Panic e \<Rightarrow> Some (Panic e)
      | Wait e \<Rightarrow> Some (Wait e))"

definition readseg :: "statuses \<Rightarrow> drives \<Rightarrow> uint \<Rightarrow> uint \<Rightarrow> uint \<Rightarrow> boot \<Rightarrow> boot outcome option" where
  "readseg st D pa count offset s =
     readseg_loop st D (pa + count) (pa - offset mod SECTSIZE) (offset div SECTSIZE + 1) s"

partial_function (option) boot_loop :: "statuses \<Rightarrow> drives \<Rightarrow> uint \<Rightarrow> uint \<Rightarrow> boot \<Rightarrow> boot outcome option" where
  "boot_loop st D eph ph s =
     (if \<not> ph < eph then Some (Ret s)
      else let off = ld32 (snd s) (ph + 4); pa = ld32 (snd s) (ph + 12); filesz = ld32 (snd s) (ph + 16)
           in case readseg st D pa filesz off s of
             None \<Rightarrow> None
           | Some (Panic e) \<Rightarrow> Some (Panic e)
           | Some (Wait e) \<Rightarrow> Some (Wait e)
           | Some (Ret (c, m)) \<Rightarrow>
               let memsz = ld32 m (ph + 20); filesz' = ld32 m (ph + 16)
               in boot_loop st D eph (ph + 32)
                    (c, if memsz > filesz' then fill (pa + filesz') 0 (memsz - filesz') m else m))"

text \<open>The result is the entry point, or none where the file is not an executable.\<close>

definition bootmain :: "statuses \<Rightarrow> drives \<Rightarrow> boot \<Rightarrow> (uint option \<times> boot) outcome option" where
  "bootmain st D s =
     (let elf = 0x10000
      in case readseg st D elf 4096 0 s of
        None \<Rightarrow> None
      | Some (Panic e) \<Rightarrow> Some (Panic e)
      | Some (Wait e) \<Rightarrow> Some (Wait e)
      | Some (Ret (c, m)) \<Rightarrow>
          if ld32 m elf \<noteq> ELF_MAGIC then Some (Ret (None, (c, m)))
          else let ph = elf + ld32 m (elf + 28); eph = ph + 32 * (ld32 m (elf + 44) AND 0xFFFF)
               in map_option (\<lambda>r. obind r (\<lambda>s1. Ret (Some (ld32 (snd s1) (elf + 24)), s1))) (boot_loop st D eph ph (c, m)))"

subsection \<open>Reading sectors\<close>

definition ready :: "statuses \<Rightarrow> bool" where
  "ready st \<longleftrightarrow> (\<forall>n. waitdisk (fst (st n)) = Ret () \<and> waitdisk (snd (st n)) = Ret ())"

lemma bytes_sum: "n mod 2 ^ 8 + 2 ^ 8 * (n div 2 ^ 8 mod 2 ^ 8) + 2 ^ 16 * (n div 2 ^ 16 mod 2 ^ 8) + 2 ^ 24 * (n div 2 ^ 24) = (n :: nat)"
proof -
  define p q r where "p = n div 2 ^ 8" and "q = p div 2 ^ 8" and "r = q div 2 ^ 8"
  have e: "n div 2 ^ 16 = q" "n div 2 ^ 24 = r"
    by (simp_all add: p_def q_def r_def flip: div_mult2_eq)
  have "n = 2 ^ 8 * p + n mod 2 ^ 8" "p = 2 ^ 8 * q + p mod 2 ^ 8" "q = 2 ^ 8 * r + q mod 2 ^ 8"
    unfolding p_def q_def r_def by (rule mult_div_mod_eq [symmetric])+
  moreover define a b c where "a = n mod 2 ^ 8" and "b = p mod 2 ^ 8" and "c = q mod 2 ^ 8"
  ultimately have "n = 2 ^ 8 * (2 ^ 8 * (2 ^ 8 * r + c) + b) + a" by simp
  then show ?thesis unfolding e p_def [symmetric] a_def [symmetric] b_def [symmetric] c_def [symmetric] by (simp add: algebra_simps)
qed

lemma readsect_ok:
  assumes "ready st" and "unat offset < 2 ^ 28"
  obtains c where "readsect st D dst offset s = Ret (c, copy_bytes dst (D 0 (unat offset)) (snd s))"
proof -
  have b: "unat (ucast (drop_bit k offset) :: uchar) = unat offset div 2 ^ k mod 2 ^ 8" for k
  proof -
    have "unat (ucast (drop_bit k offset) :: uchar) = take_bit 8 (unat (drop_bit k offset))"
      by (simp only: unsigned_ucast_eq) simp
    then show ?thesis by (simp only: unat_drop_bit) (simp add: take_bit_eq_mod)
  qed
  define v where "v = (ucast (drop_bit 24 offset) :: uchar)"
  have u: "unat v = unat offset div 2 ^ 24" unfolding v_def b using assms(2) by simp
  have t: "take_bit 4 v = v"
  proof (rule unsigned_word_eqI)
    have "unat v < 2 ^ 4" using u assms(2) by simp
    then show "unat (take_bit 4 v) = unat v" by (simp only: unsigned_take_bit_eq take_bit_nat_eq_self)
  qed
  have x: "ucast (drop_bit 24 offset OR 0xE0) = v OR 0xE0" by (simp only: v_def unsigned_or_eq) simp
  have d: "(v OR 0xE0) AND 0x0f = v"
  proof -
    have "(0x0f :: uchar) = mask 4" by (simp add: mask_eq_exp_minus_1)
    then have "v AND 0x0f = v" using t by (simp only: take_bit_eq_mask)
    then show ?thesis by (simp add: bit.conj_disj_distrib2)
  qed
  have n: "\<not> bit (v OR 0xE0) 4"
  proof -
    have "\<not> bit v 4" using t by (metis bit_take_bit_iff less_irrefl)
    then show ?thesis by (simp add: bit_or_iff)
  qed
  define c where "c = outb 0x1f7 0x20 (outb 0x1f6 (v OR 0xE0) (outb 0x1f5 (ucast (drop_bit 16 offset)) (outb 0x1f4 (ucast (drop_bit 8 offset))
      (outb 0x1f3 (ucast offset) (outb 0x1f2 1 (fst s))))))"
  have f: "a_low c = ucast offset" "a_mid c = ucast (drop_bit 8 offset)" "a_high c = ucast (drop_bit 16 offset)"
    "a_drive c = v OR 0xE0" by (simp_all only: c_def outb_def) simp_all
  have a: "a_sector c = unat offset"
    unfolding a_sector_def f d u using b [of 0] b [of 8] b [of 16] bytes_sum [of "unat offset"] by (simp only: drop_bit_0) simp
  have "a_slave c = 0" using n by (simp only: a_slave_def f) simp
  then have "readsect st D dst offset s = Ret (c, copy_bytes dst (D 0 (unat offset)) (snd s))"
    using assms(1) a by (simp add: readsect_def ready_def Let_def x ata_read_def flip: c_def)
  then show thesis by (rule that)
qed

text \<open>The memory after \<open>k\<close> sectors from \<open>n\<close> on have been read to the address \<open>pa\<close>.\<close>

definition sectors_at :: "(nat \<Rightarrow> uchar list) \<Rightarrow> uint \<Rightarrow> nat \<Rightarrow> nat \<Rightarrow> (uint \<Rightarrow> uchar) \<Rightarrow> uint \<Rightarrow> uchar" where
  "sectors_at d pa n k m x =
     (if unat (x - pa) < 512 * k then d (n + unat (x - pa) div 512) ! (unat (x - pa) mod 512) else m x)"

lemma unat_minus_512: "unat (y - 512 :: uint) = (if 512 \<le> unat y then unat y - 512 else unat y + 2 ^ 32 - 512)"
  by (simp add: unat_sub_if')

lemma sectors_at_Suc:
  assumes "512 * Suc k \<le> 2 ^ 32" and "length (d n) = 512"
  shows "sectors_at d (pa + 512) (Suc n) k (copy_bytes pa (d n) m) = sectors_at d pa n (Suc k) m"
proof
  fix x
  define u where "u = unat (x - pa)"
  have "x - (pa + 512) = (x - pa) - 512" by simp
  then have w: "unat (x - (pa + 512)) = (if 512 \<le> u then u - 512 else u + 2 ^ 32 - 512)"
    unfolding u_def by (simp only: unat_minus_512)
  show "sectors_at d (pa + 512) (Suc n) k (copy_bytes pa (d n) m) x = sectors_at d pa n (Suc k) m x"
  proof (cases "512 \<le> u")
    case True
    then obtain j where j: "u = 512 + j" using le_Suc_ex by blast
    moreover have "(512 + j) div 512 = Suc (j div 512)" "(512 + j) mod 512 = j mod 512" by simp_all
    ultimately show ?thesis
      unfolding sectors_at_def copy_bytes_def w u_def [symmetric] using assms(2) by simp
  next
    case False
    then have "\<not> u + 2 ^ 32 - 512 < 512 * k" using assms(1) by simp
    then show ?thesis unfolding sectors_at_def copy_bytes_def w u_def [symmetric] using assms(2) False by simp
  qed
qed

lemma readseg_loop_ok:
  assumes "ready st" and "\<And>n. length (D 0 n) = 512"
  shows "(case k of 0 \<Rightarrow> unat epa \<le> unat pa | Suc j \<Rightarrow> unat pa + 512 * j < unat epa \<and> unat epa \<le> unat pa + 512 * k) \<Longrightarrow>
    unat pa + 512 * k < 2 ^ 32 \<Longrightarrow> unat offset + k \<le> 2 ^ 28 \<Longrightarrow>
    \<exists>c. readseg_loop st D epa pa offset s = Some (Ret (c, sectors_at (D 0) pa (unat offset) k (snd s)))"
proof (induction k arbitrary: pa offset s)
  case 0
  then have "\<not> pa < epa" by (simp add: word_less_nat_alt)
  then show ?case by (cases s) (simp add: readseg_loop.simps sectors_at_def fun_eq_iff)
next
  case (Suc k)
  then have lt: "pa < epa" by (simp add: word_less_nat_alt)
  have "unat offset < 2 ^ 28" using Suc.prems(3) by linarith
  then obtain c where c: "readsect st D pa offset s = Ret (c, copy_bytes pa (D 0 (unat offset)) (snd s))"
    by (rule readsect_ok [OF assms(1)])
  have p: "unat (pa + 512) = unat pa + 512" using Suc.prems(2) by (simp add: unat_word_ariths)
  have o: "unat (offset + 1) = Suc (unat offset)" using Suc.prems(3) by (simp add: unat_word_ariths)
  let ?s = "(c, copy_bytes pa (D 0 (unat offset)) (snd s))"
  have "\<exists>c. readseg_loop st D epa (pa + 512) (offset + 1) ?s = Some (Ret (c, sectors_at (D 0) (pa + 512) (unat (offset + 1)) k (snd ?s)))"
    by (rule Suc.IH) (use Suc.prems in \<open>cases k; simp add: p o\<close>)+
  moreover have "readseg_loop st D epa pa offset s = readseg_loop st D epa (pa + 512) (offset + 1) ?s"
    using lt c by (simp add: readseg_loop.simps [of st D epa pa])
  moreover have "sectors_at (D 0) (pa + 512) (Suc (unat offset)) k (copy_bytes pa (D 0 (unat offset)) (snd s)) =
      sectors_at (D 0) pa (unat offset) (Suc k) (snd s)"
    by (rule sectors_at_Suc) (use Suc.prems(2) assms(2) in simp_all)
  ultimately show ?case by (simp only: o snd_conv) 
qed

lemma sectors_needed:
  assumes "k = (n + 511) div (512 :: nat)"
  shows "n \<le> 512 * k" "512 * k \<le> n + 511" "case k of 0 \<Rightarrow> n = 0 | Suc j \<Rightarrow> 512 * j < n"
proof -
  have "n + 511 = 512 * k + (n + 511) mod 512" unfolding assms by (rule mult_div_mod_eq [symmetric])
  moreover have "(n + 511) mod 512 < 512" by simp
  ultimately show "n \<le> 512 * k" "512 * k \<le> n + 511" "case k of 0 \<Rightarrow> n = 0 | Suc j \<Rightarrow> 512 * j < n"
    by (auto split: nat.split)
qed

text \<open>
  C23: \<^verbatim>\<open>readseg\<close> ends and puts the bytes of the kernel's file, which starts at the second sector, at the address asked for. It
  reads whole sectors, but changes nothing before the sector boundary at or before the address nor a sector or more behind
  the end.
\<close>

theorem readseg_ok:
  assumes "ready st" and "\<And>n. length (D 0 n) = 512"
    and "unat offset mod 512 \<le> unat pa" and "unat pa + unat count + 511 < 2 ^ 32"
  shows "\<exists>c m'. readseg st D pa count offset s = Some (Ret (c, m')) \<and>
    (\<forall>i<unat count. m' (pa + of_nat i) = D 0 ((unat offset + i) div 512 + 1) ! ((unat offset + i) mod 512)) \<and>
    (\<forall>x. unat x + unat offset mod 512 < unat pa \<or> unat pa + unat count + 511 \<le> unat x \<longrightarrow> m' x = snd s x)"
proof -
  define r where "r = unat offset mod 512"
  define k where "k = (r + unat count + 511) div 512"
  note k = sectors_needed [OF k_def]
  have r: "unat (offset mod SECTSIZE) = r" by (simp add: r_def unat_mod)
  have rp: "r \<le> unat pa" "r < 512" using assms(3) by (simp_all add: r_def)
  have a: "unat (pa - offset mod SECTSIZE) = unat pa - r" using rp(1) by (simp add: unat_sub_if' r)
  have e: "unat (pa + count) = unat pa + unat count" using assms(4) by (simp add: unat_word_ariths)
  have q: "unat offset div 512 < 2 ^ 23" using unsigned_less [of offset] by (intro less_mult_imp_div_less) simp
  have n: "unat (offset div SECTSIZE + 1) = unat offset div 512 + 1"
    using q by (simp add: unat_word_ariths unat_div)
  have "\<exists>c. readseg_loop st D (pa + count) (pa - offset mod SECTSIZE) (offset div SECTSIZE + 1) s =
      Some (Ret (c, sectors_at (D 0) (pa - offset mod SECTSIZE) (unat (offset div SECTSIZE + 1)) k (snd s)))"
  proof (rule readseg_loop_ok [where D = D, OF assms(1,2)])
    show "case k of 0 \<Rightarrow> unat (pa + count) \<le> unat (pa - offset mod SECTSIZE)
      | Suc j \<Rightarrow> unat (pa - offset mod SECTSIZE) + 512 * j < unat (pa + count) \<and>
          unat (pa + count) \<le> unat (pa - offset mod SECTSIZE) + 512 * k"
      unfolding a e using k(1,3) rp(1) by (cases k) (simp_all, linarith)
    show "unat (pa - offset mod SECTSIZE) + 512 * k < 2 ^ 32" unfolding a using k(2) rp(1) assms(4) by linarith
    have "512 * k < 2 ^ 32" using k(2) rp assms(4) by linarith
    then show "unat (offset div SECTSIZE + 1) + k \<le> 2 ^ 28" unfolding n using q by simp
  qed
  then obtain c where c: "readseg st D pa count offset s =
      Some (Ret (c, sectors_at (D 0) (pa - offset mod SECTSIZE) (unat offset div 512 + 1) k (snd s)))"
    unfolding readseg_def n by blast
  let ?m = "sectors_at (D 0) (pa - offset mod SECTSIZE) (unat offset div 512 + 1) k (snd s)"
  have "?m (pa + of_nat i) = D 0 ((unat offset + i) div 512 + 1) ! ((unat offset + i) mod 512)" if i: "i < unat count" for i
  proof -
    have "pa + of_nat i - (pa - offset mod SECTSIZE) = of_nat i + offset mod SECTSIZE" by simp
    moreover have "unat (of_nat i + offset mod SECTSIZE) = r + i"
      using i assms(4) rp by (simp add: unat_word_ariths(1) r unsigned_of_nat take_bit_nat_eq_self)
    ultimately have u: "unat (pa + of_nat i - (pa - offset mod SECTSIZE)) = r + i" by simp
    have "unat offset = 512 * (unat offset div 512) + r" unfolding r_def by (rule mult_div_mod_eq [symmetric])
    then have "unat offset + i = 512 * (unat offset div 512) + (r + i)" by simp
    then have o: "(unat offset + i) div 512 = unat offset div 512 + (r + i) div 512" "(unat offset + i) mod 512 = (r + i) mod 512"
      by (metis div_mult_self4 zero_neq_numeral, metis mod_mult_self4)
    have "r + i < 512 * k" using i k(1) by simp
    then show ?thesis unfolding sectors_at_def u o by (simp add: add.commute add.left_commute)
  qed
  moreover have "?m x = snd s x" if "unat x + unat offset mod 512 < unat pa \<or> unat pa + unat count + 511 \<le> unat x" for x
  proof -
    have "unat (x - (pa - offset mod SECTSIZE)) =
        (if unat pa - r \<le> unat x then unat x - (unat pa - r) else unat x + 2 ^ 32 - (unat pa - r))"
      using unat_sub_if' [of x "pa - offset mod SECTSIZE"] by (simp only: a) simp
    then have "\<not> unat (x - (pa - offset mod SECTSIZE)) < 512 * k"
      using that k(2) rp assms(4) unfolding r_def [symmetric] by (auto split: if_splits)
    then show ?thesis by (simp add: sectors_at_def)
  qed
  ultimately show ?thesis using c by blast
qed

lemma readseg_ok_witness:
  "\<exists>c m'. readseg (\<lambda>_. ([0x40], [0x40])) (\<lambda>_ n. replicate 512 (of_nat n)) 0x100000 700 0x1000
       (\<lparr>a_count = 0, a_low = 0, a_mid = 0, a_high = 0, a_drive = 0, a_cmd = 0, a_data = []\<rparr>, \<lambda>_. 0) = Some (Ret (c, m')) \<and>
     m' 0x100000 = 9"
proof -
  let ?D = "\<lambda>(_ :: nat) n. replicate 512 (of_nat n :: uchar)" and ?st = "\<lambda>_ :: uint. ([0x40 :: uchar], [0x40 :: uchar])"
  let ?s = "(\<lparr>a_count = 0, a_low = 0, a_mid = 0, a_high = 0, a_drive = 0, a_cmd = 0, a_data = []\<rparr>, \<lambda>_ :: uint. 0 :: uchar)"
  have "ready ?st" by (simp add: ready_def)
  then obtain c m' where m: "readseg ?st ?D 0x100000 700 0x1000 ?s = Some (Ret (c, m'))"
    "\<forall>i<unat (700 :: uint). m' (0x100000 + of_nat i) = ?D 0 ((unat (0x1000 :: uint) + i) div 512 + 1) ! ((unat (0x1000 :: uint) + i) mod 512)"
    using readseg_ok [of ?st ?D "0x1000" "0x100000" "700" ?s] by auto
  have "m' 0x100000 = 9" using m(2) [rule_format, of 0] by simp
  then show ?thesis using m(1) by blast
qed

end
