(* ===== verification/Spec2Isabelle.thy ===== *)
theory Spec2Isabelle
  imports Reserve Pipe KvsServer Sysproc CString Grep Cga Kbd Sh Mp Fork Sysfile Writei Icache Live Trap Umalloc Mkfs ShRun Boot
begin

text \<open>
  A verification of the programs of this repository: the teaching kernel of
  \<^verbatim>\<open>src/xv6-public\<close> with some of its user programs, in C, and the key-value server of \<^verbatim>\<open>src/KVS\<close>,
  in C++.

  \<^bold>\<open>Conventions.\<close> Code is translated into HOL functions with the names of the source. A
  32-bit unsigned integer is a word of 32 bits, so that it wraps; a signed one is an integer, and
  where it can overflow the two's complement value of 32 bits is written out (\<open>int32\<close> of \<^verbatim>\<open>Prelude\<close>),
  as is the conversion where it is compared with an unsigned one. Counters that a table, a
  capacity or the log bounds are plain integers. An
  operation of the kernel takes the machine state and gives an \<open>outcome\<close>: \<open>Ret\<close> with a result and
  the new state, \<open>Panic\<close> with the message, or \<open>Wait\<close> for a lock or a sleep that another process has
  to end. Pointers to elements of static arrays are indices; memory the code addresses by number
  is a function from addresses to bytes. A function that sleeps in the middle is cut at the
  sleep into one definition up to it and one from it. The record \<open>mach\<close> (\<^verbatim>\<open>Machine\<close>) holds the state all of the kernel
  shares; the buffer cache, the log, the inode cache and the file table extend it one after the other. Hardware and compiler symbols (the clock, the
  end of the kernel, addresses of code) are arguments.

  \<^bold>\<open>The kernel, from the bottom.\<close>
  \<^item> \<^verbatim>\<open>Prelude\<close>, \<^verbatim>\<open>Dll\<close>, \<^verbatim>\<open>Bytes\<close>, \<^verbatim>\<open>Ring\<close>, \<^verbatim>\<open>Digits\<close>, \<^verbatim>\<open>Memory\<close>: outcomes, reachable states and the
    locale \<open>invariant_system\<close>; pointer rings with a sentinel; little-endian words in blocks; ring
    buffers with wrapping counters; decimal numbers; addresses, pages and words in memory.
  \<^item> \<^verbatim>\<open>Spinlock\<close> (\<^verbatim>\<open>spinlock.c\<close>): every function for one processor, and \<open>lock_step\<close>, the instructions
    of \<^verbatim>\<open>acquire\<close> and \<^verbatim>\<open>release\<close> on any number of processors, with mutual exclusion.
  \<^item> \<^verbatim>\<open>Sched\<close>, \<^verbatim>\<open>Sleeplock\<close> (\<^verbatim>\<open>proc.c\<close>, \<^verbatim>\<open>sleeplock.c\<close>): sleep and wakeup, locks held while sleeping.
  \<^item> \<^verbatim>\<open>Bio\<close> (\<^verbatim>\<open>bio.c\<close>, \<^verbatim>\<open>memide.c\<close>): the ring of buffers and the contract of its operations.
  \<^item> \<^verbatim>\<open>Ide\<close> (\<^verbatim>\<open>ide.c\<close>): the driver of a real disk with its queue and interrupt handler, on the registers of the
    controller. Requests are served in order, each with the effect of the memory disk.
  \<^item> \<^verbatim>\<open>Log\<close>, \<^verbatim>\<open>Recovery\<close>, \<^verbatim>\<open>Reserve\<close> (\<^verbatim>\<open>log.c\<close>): the log; atomicity of a commit under a crash after any
    prefix of its disk writes; the space reserved by \<^verbatim>\<open>begin_op\<close> in every interleaving, and the
    panic of \<^verbatim>\<open>log_write\<close> one block before the reserved space is used up.
  \<^item> \<^verbatim>\<open>Fs\<close> (\<^verbatim>\<open>fs.c\<close>): the whole inode layer, from the bitmap of blocks and the inode cache to reading and
    writing files, directories and path names. \<^verbatim>\<open>Txn\<close> is the contract of the layer below it: what
    reading, changing and releasing a buffer inside an operation keeps and changes. On it \<^verbatim>\<open>Balloc\<close>
    shows that an allocated block is the first free one, zeroed, and that freeing undoes it;
    \<^verbatim>\<open>Inode\<close> that \<^verbatim>\<open>readi\<close> returns the bytes of the file; \<^verbatim>\<open>Writei\<close> that \<^verbatim>\<open>writei\<close> replaces exactly the
    bytes at its offset, extends the file and allocates the blocks it needs, direct and indirect,
    without touching another file; \<^verbatim>\<open>Icache\<close> that the reference counts of the inode cache are right
    in every reachable state and an inode has one entry; \<^verbatim>\<open>Dir\<close> that \<^verbatim>\<open>dirlookup\<close> finds the first
    entry in use with the name.
  \<^item> \<^verbatim>\<open>Mkfs\<close> (\<^verbatim>\<open>mkfs.c\<close>): the builder of the first image of the disk. What it writes is what the layer above
    reads: the layout, the map of blocks, the root directory and the content of every file.
  \<^item> \<^verbatim>\<open>File\<close>, \<^verbatim>\<open>Sysfile\<close> (\<^verbatim>\<open>file.c\<close>, \<^verbatim>\<open>sysfile.c\<close>): the file table and all system calls on files; what a
    call stores in the memory of the process is part of its result.
  \<^item> \<^verbatim>\<open>Exec\<close>, \<^verbatim>\<open>Fork\<close> (\<^verbatim>\<open>exec.c\<close>, \<^verbatim>\<open>proc.c\<close>): loading a program with its stack of arguments, \<^verbatim>\<open>userinit\<close>,
    \<^verbatim>\<open>fork\<close>, and \<^verbatim>\<open>exit\<close> up to its switch to the scheduler.
  \<^item> \<^verbatim>\<open>Trap\<close> (\<^verbatim>\<open>syscall.c\<close>, \<^verbatim>\<open>trap.c\<close>): the table of system calls, its dispatch, and traps and interrupts. A killed
    process does not get back to user space, also after it has slept in a call.
  \<^item> \<^verbatim>\<open>Pipe\<close> (\<^verbatim>\<open>pipe.c\<close>): readers, writers and closers, which together implement a queue of bytes; a
    call that sleeps goes on with the bytes it has left, and none is lost or sent twice.
  \<^item> \<^verbatim>\<open>Kalloc\<close>, \<^verbatim>\<open>Vm\<close> (\<^verbatim>\<open>kalloc.c\<close>, \<^verbatim>\<open>vm.c\<close>): pages and page tables in byte memory. A page is never
    given out twice; a mapping changes one translation; \<^verbatim>\<open>copyout\<close> respects the user bit.
  \<^item> \<^verbatim>\<open>Proc\<close>, \<^verbatim>\<open>Syscall\<close>, \<^verbatim>\<open>Sysproc\<close> (\<^verbatim>\<open>proc.c\<close>, \<^verbatim>\<open>syscall.c\<close>, \<^verbatim>\<open>sysproc.c\<close>): the process table, the arguments
    of system calls, and the calls on processes. Identifiers are unique until their counter overflows, accepted pointers stay
    inside the process, and a sleep takes the ticks it was asked for. \<^verbatim>\<open>Live\<close> shows that a pass of the scheduler
    reaches every process that stays runnable, and that \<^verbatim>\<open>deallocuvm\<close> ends.
  \<^item> \<^verbatim>\<open>Print\<close>, \<^verbatim>\<open>Console\<close> (\<^verbatim>\<open>printf.c\<close>, \<^verbatim>\<open>console.c\<close>): formatted output, and the input buffer as a
    line editor. The characters sent to the display and the serial line are a list, which
    \<^verbatim>\<open>Cga\<close> puts on the text screen; the cursor never leaves it.
  \<^item> \<^verbatim>\<open>Kbd\<close> (\<^verbatim>\<open>kbd.c\<close>, \<^verbatim>\<open>lapic.c\<close>): the decoder of the keyboard with its tables, and reading the clock.
  \<^item> \<^verbatim>\<open>Boot\<close> (\<^verbatim>\<open>bootmain.c\<close>): the loader of the kernel; a segment is read to its place although the disk is read by
    sectors.
  \<^item> \<^verbatim>\<open>Mp\<close> (\<^verbatim>\<open>mp.c\<close>): the search for the multiprocessor tables; what is found has signature and checksum.
  \<^item> \<^verbatim>\<open>CString\<close> (\<^verbatim>\<open>string.c\<close>, \<^verbatim>\<open>ulib.c\<close>) and \<^verbatim>\<open>Grep\<close> (\<^verbatim>\<open>grep.c\<close>, \<^verbatim>\<open>wc.c\<close>): memory and string routines, the
    matcher against the language of a pattern, and the loops over the input.
  \<^item> \<^verbatim>\<open>Umalloc\<close> (\<^verbatim>\<open>umalloc.c\<close>): \<^verbatim>\<open>malloc\<close> and \<^verbatim>\<open>free\<close> on the ring of free blocks. The loops end and the blocks
    given out never overlap.
  \<^item> \<^verbatim>\<open>Sh\<close> (\<^verbatim>\<open>sh.c\<close>): the command parser of the shell, against a grammar of commands. \<^verbatim>\<open>ShRun\<close> is the
    running of commands as what the processes do, with their descriptors. Every program gets the descriptors the line asks for.

  \<^bold>\<open>The server\<close> (\<^verbatim>\<open>greeter_async_server.cc\<close>).
  \<^item> \<^verbatim>\<open>KvsLru\<close>, \<^verbatim>\<open>KvsLfu\<close>: the two caches with their pointer lists, each refining a list of entries,
    the second as long as no use count overflows. Both interpret the locale \<open>kv_cache\<close>, the interface the server relies on.
  \<^item> \<^verbatim>\<open>KvsStore\<close>: the records in the files, their offsets, and saving and restoring them as text. A
    file can be read back up to $2^{22}$ records.
  \<^item> \<^verbatim>\<open>KvsServer\<close>: get, put and del through a cache, the handlers of the calls, the event loop, and
    restart. The gRPC library is behind the events of the loop.

  \<^bold>\<open>Bounds and fuel.\<close> Loops over memory in \<^verbatim>\<open>Kalloc\<close> and \<^verbatim>\<open>Vm\<close> carry fuel, one unit for each page of the
  range and one more for the final test; running out is a \<open>Panic\<close> of its own, so that a theorem
  that concludes \<open>Ret\<close> also says that the fuel was enough. The loops of \<^verbatim>\<open>Fs\<close>, \<^verbatim>\<open>Sysfile\<close> and \<^verbatim>\<open>Exec\<close> that step
  through the bitmap, a directory or a segment have one unit for each step the size allows and two
  more; those that read or write a file recurse on the number of bytes left and need none. The parser of the shell carries four units for
  each character of the line, enough for every line of the grammar. Loops over strings in memory that need not end, those
  of \<^verbatim>\<open>malloc\<close> and \<^verbatim>\<open>free\<close> over the ring, of \<^verbatim>\<open>iderw\<close> over its queue and of the loader are partial functions with the
  result \<open>None\<close>; the theorems on the allocator, the driver and \<^verbatim>\<open>readseg\<close> show that theirs end.

  \<^bold>\<open>Not modelled.\<close> The serial line and the interrupt controllers, assembly, the
  remaining user programs, which only issue system calls, and the client of the server. The shells \<^verbatim>\<open>shell.c\<close> and
  \<^verbatim>\<open>shellold.c\<close> are left out because the tokens of a line point into an array of a function that has
  returned, so that what they run is not determined by the source. For
  links, path names and the calls of \<^verbatim>\<open>Sysfile\<close>, \<^verbatim>\<open>Exec\<close> and \<^verbatim>\<open>Fork\<close> the definitions are given but
  no theorems beyond those on the layers they call.
\<close>

subsection \<open>Descriptors of the shell and of the kernel\<close>

text \<open>The descriptor the shell relies on, the lowest that is free, is the one \<^verbatim>\<open>fdalloc\<close> takes from the table of the process.\<close>

lemma free_fd_find: "free_fd k xs = List.find (\<lambda>i. xs ! (i - k) = None) [k..<k + length xs]"
proof (induction k xs rule: free_fd.induct)
  case (2 k x xs)
  have "List.find (\<lambda>i. xs ! (i - Suc k) = None) [Suc k..<Suc k + length xs] =
      List.find (\<lambda>i. (x # xs) ! (i - k) = None) [Suc k..<Suc k + length xs]"
    by (rule find_cong) (auto simp: nth_Cons')
  moreover have "[k..<k + length (x # xs)] = k # [Suc k..<Suc k + length xs]" by (simp add: upt_conv_Cons del: upt_Suc)
  ultimately show ?case using 2 by simp
qed simp

lemma lowest_free_fd: "length xs = NOFILE \<Longrightarrow> lowest (\<lambda>i. map_option g (xs ! i)) = free_fd 0 xs"
  by (simp only: free_fd_find lowest_def diff_zero option.map_disc_iff map_option_is_None) simp

end
